(* ===== verification/Prelude.thy ===== *)
theory Prelude
  imports Main "HOL-Library.Word" "HOL-Library.Finite_Map"
    "HOL-Library.List_Lexorder" "HOL-Library.Char_ord" "HOL-Library.Product_Lexorder"
begin

text \<open>
  Shared vocabulary of the development: Rust's integer types as words of their width with the
  checked, saturating and wrapping operations the sources call, \<open>Result\<close> as a sum type,
  \<open>BTreeMap\<close>/\<open>HashMap\<close> as finite maps and \<open>BTreeSet\<close> as finite sets, strings as byte strings,
  and the big- and little-endian encodings of integers. Generic lemmas on them are declared
  for the simplifier or into the collections \<open>wrap_simps\<close> and \<open>bytes_simps\<close>.
\<close>

named_theorems wrap_simps \<open>unfolding of the checked and saturating word operations\<close>
named_theorems bytes_simps \<open>shape of the fixed-width integer encodings\<close>

section \<open>Integers\<close>

type_synonym u8 = "8 word"
type_synonym u16 = "16 word"
type_synonym u32 = "32 word"
type_synonym u64 = "64 word"
type_synonym u128 = "128 word"

text \<open>A UUID is its 128-bit value; the byte array the sources see is its big-endian encoding.\<close>
type_synonym uuid = "128 word"
type_synonym bytes = "u8 list"

abbreviation max_u64 :: u64 where "max_u64 \<equiv> - 1"

text \<open>\<open>usize::saturating_add\<close> on lengths.\<close>

definition usize_saturating_add :: "nat \<Rightarrow> nat \<Rightarrow> nat" where
  "usize_saturating_add a b = min (a + b) (2 ^ 64 - 1)"

definition checked_add :: "'a::len word \<Rightarrow> 'a word \<Rightarrow> 'a word option" where
  "checked_add a b = (if unat a + unat b < 2 ^ LENGTH('a) then Some (a + b) else None)"

definition saturating_add :: "'a::len word \<Rightarrow> 'a word \<Rightarrow> 'a word" where
  "saturating_add a b = (if unat a + unat b < 2 ^ LENGTH('a) then a + b else - 1)"

definition saturating_sub :: "'a::len word \<Rightarrow> 'a word \<Rightarrow> 'a word" where
  "saturating_sub a b = (if a < b then 0 else a - b)"

definition saturating_mul :: "'a::len word \<Rightarrow> 'a word \<Rightarrow> 'a word" where
  "saturating_mul a b = (if unat a * unat b < 2 ^ LENGTH('a) then a * b else - 1)"

lemma unat_le_max: "unat (a :: 'a::len word) \<le> 2 ^ LENGTH('a) - 1"
proof -
  have "unat a < 2 ^ LENGTH('a)" by (rule unsigned_less)
  then show ?thesis by linarith
qed

lemma unat_max_word: "unat (- 1 :: 'a::len word) = 2 ^ LENGTH('a) - 1"
  by (simp add: unsigned_minus_1_eq_mask mask_eq_exp_minus_1)

lemma checked_add_Some_iff [wrap_simps]:
  "checked_add a b = Some c \<longleftrightarrow> unat c = unat a + unat (b :: 'a::len word)"
proof
  assume "checked_add a b = Some c"
  then show "unat c = unat a + unat b"
    by (auto simp: checked_add_def unat_word_ariths split: if_splits)
next
  assume c: "unat c = unat a + unat b"
  then have "unat a + unat b < 2 ^ LENGTH('a)"
    by (metis unsigned_less)
  moreover from this c have "c = a + b"
    by (simp add: word_unat_eq_iff unat_word_ariths)
  ultimately show "checked_add a b = Some c"
    by (simp add: checked_add_def)
qed

lemma checked_add_None_iff [wrap_simps]:
  "checked_add a b = None \<longleftrightarrow> 2 ^ LENGTH('a) \<le> unat a + unat (b :: 'a::len word)"
  by (simp add: checked_add_def)

lemma unat_saturating_add [wrap_simps]:
  "unat (saturating_add a b) = min (unat a + unat b) (2 ^ LENGTH('a) - 1)"
  for a b :: "'a::len word"
  by (auto simp: saturating_add_def unat_word_ariths unat_max_word min_def)

lemma unat_saturating_sub [wrap_simps]:
  "unat (saturating_sub a b) = unat a - unat b" for a b :: "'a::len word"
  by (auto simp: saturating_sub_def unat_sub word_less_nat_alt not_less word_le_nat_alt)

lemma unat_saturating_mul [wrap_simps]:
  "unat (saturating_mul a b) = min (unat a * unat b) (2 ^ LENGTH('a) - 1)"
  for a b :: "'a::len word"
proof (cases "unat a * unat b < 2 ^ LENGTH('a)")
  case True
  then show ?thesis by (simp add: saturating_mul_def unat_word_ariths)
next
  case False
  then have "2 ^ LENGTH('a) - 1 \<le> unat a * unat b" by linarith
  with False show ?thesis by (simp add: saturating_mul_def unat_max_word min_def)
qed

lemma saturating_add_ge [simp]: "a \<le> saturating_add a b"
  using unat_le_max [of a] by (auto simp: word_le_nat_alt unat_saturating_add)

lemma unat_max_word_cases: "(a :: 'a::len word) = - 1 \<or> unat (a + 1) = Suc (unat a)"
proof (cases "unat a + 1 < 2 ^ LENGTH('a)")
  case True
  then show ?thesis by (simp add: unat_word_ariths)
next
  case False
  with unat_le_max [of a] have "unat a = 2 ^ LENGTH('a) - 1" by linarith
  then show ?thesis by (simp add: word_unat_eq_iff unat_max_word)
qed

lemma less_not_max: "(a :: 'a::len word) < b \<Longrightarrow> a \<noteq> - 1"
  using unat_le_max [of b] by (auto simp: word_less_nat_alt unat_max_word)

lemma saturating_add_1 [wrap_simps]:
  "saturating_add a 1 = (if a = - 1 then - 1 else a + 1)" for a :: "'a::len word"
proof (cases "a = - 1")
  case True
  then show ?thesis by (simp add: saturating_add_def unat_max_word)
next
  case False
  with unat_max_word_cases have "unat (a + 1) = Suc (unat a)" by blast
  moreover have "unat (a + 1) < 2 ^ LENGTH('a)" by (rule unsigned_less)
  ultimately show ?thesis using False by (simp add: saturating_add_def)
qed

text \<open>Evaluation compares in the integers, whose numerals are binary.\<close>

lemma uint_bound_iff:
  "unat a + unat b < 2 ^ LENGTH('a) \<longleftrightarrow> uint a + uint b < 2 ^ LENGTH('a)"
  "unat a * unat b < 2 ^ LENGTH('a) \<longleftrightarrow> uint a * uint b < 2 ^ LENGTH('a)" for a b :: "'a::len word"
proof -
  have eq: "uint a = int (unat a)" "uint b = int (unat b)"
    "(2 :: int) ^ LENGTH('a) = int (2 ^ LENGTH('a))" by simp_all
  show "unat a + unat b < 2 ^ LENGTH('a) \<longleftrightarrow> uint a + uint b < 2 ^ LENGTH('a)"
    unfolding eq of_nat_add [symmetric] of_nat_less_iff ..
  show "unat a * unat b < 2 ^ LENGTH('a) \<longleftrightarrow> uint a * uint b < 2 ^ LENGTH('a)"
    unfolding eq of_nat_mult [symmetric] of_nat_less_iff ..
qed

lemma checked_add_code [code]:
  "checked_add a b = (if uint a + uint b < 2 ^ LENGTH('a) then Some (a + b) else None)"
  for a b :: "'a::len word"
  by (simp add: checked_add_def uint_bound_iff)

lemma saturating_add_code [code]:
  "saturating_add a b = (if uint a + uint b < 2 ^ LENGTH('a) then a + b else - 1)"
  for a b :: "'a::len word"
  by (simp add: saturating_add_def uint_bound_iff)

lemma saturating_mul_code [code]:
  "saturating_mul a b = (if uint a * uint b < 2 ^ LENGTH('a) then a * b else - 1)"
  for a b :: "'a::len word"
  by (simp add: saturating_mul_def uint_bound_iff)

section \<open>Results\<close>

text \<open>\<open>Result<T, E>\<close> is \<open>'e + 'a\<close> with \<open>Inl\<close> the error; \<open>?\<close> is \<open>rbind\<close>.\<close>

type_synonym ('a, 'e) result = "'e + 'a"

definition rbind :: "('a, 'e) result \<Rightarrow> ('a \<Rightarrow> ('b, 'e) result) \<Rightarrow> ('b, 'e) result" where
  "rbind m f = (case m of Inl e \<Rightarrow> Inl e | Inr x \<Rightarrow> f x)"

definition map_err :: "('e \<Rightarrow> 'f) \<Rightarrow> ('a, 'e) result \<Rightarrow> ('a, 'f) result" where
  "map_err f m = (case m of Inl e \<Rightarrow> Inl (f e) | Inr x \<Rightarrow> Inr x)"

definition ok_or :: "'e \<Rightarrow> 'a option \<Rightarrow> ('a, 'e) result" where
  "ok_or e x = (case x of None \<Rightarrow> Inl e | Some v \<Rightarrow> Inr v)"

definition is_err :: "('a, 'e) result \<Rightarrow> bool" where
  "is_err m = (case m of Inl _ \<Rightarrow> True | Inr _ \<Rightarrow> False)"

lemma rbind_simps [simp]: "rbind (Inl e) f = Inl e" "rbind (Inr x) f = f x"
  by (simp_all add: rbind_def)

lemma rbind_Inr_iff: "rbind m f = Inr y \<longleftrightarrow> (\<exists>x. m = Inr x \<and> f x = Inr y)"
  by (cases m) auto

lemma rbind_Inl_iff: "rbind m f = Inl e \<longleftrightarrow> m = Inl e \<or> (\<exists>x. m = Inr x \<and> f x = Inl e)"
  by (cases m) auto

lemma map_err_simps [simp]: "map_err f (Inl e) = Inl (f e)" "map_err f (Inr x) = Inr x"
  by (simp_all add: map_err_def)

lemma map_err_Inr_iff [simp]: "map_err f m = Inr x \<longleftrightarrow> m = Inr x"
  by (cases m) auto

lemma ok_or_simps [simp]: "ok_or e None = Inl e" "ok_or e (Some x) = Inr x"
  by (simp_all add: ok_or_def)

lemma ok_or_Inr_iff [simp]: "ok_or e m = Inr x \<longleftrightarrow> m = Some x"
  by (cases m) auto

lemma is_err_simps [simp]: "is_err (Inl e)" "\<not> is_err (Inr x)"
  by (simp_all add: is_err_def)

lemma is_err_iff: "is_err m \<longleftrightarrow> (\<exists>e. m = Inl e)"
  by (cases m) auto

section \<open>Finite maps\<close>

text \<open>
  \<open>map.values().any(p)\<close>, \<open>map.values().filter(p).count()\<close>, \<open>map.len()\<close> and
  \<open>map.entry(k).or_default().push(v)\<close>.
\<close>

definition fm_any :: "('v \<Rightarrow> bool) \<Rightarrow> ('k, 'v) fmap \<Rightarrow> bool" where
  "fm_any P m = fBex (fmdom m) (\<lambda>k. P (the (fmlookup m k)))"

definition fm_count :: "('v \<Rightarrow> bool) \<Rightarrow> ('k, 'v) fmap \<Rightarrow> nat" where
  "fm_count P m = fcard (ffilter (\<lambda>k. P (the (fmlookup m k))) (fmdom m))"

definition fm_len :: "('k, 'v) fmap \<Rightarrow> nat" where
  "fm_len m = fcard (fmdom m)"

definition fm_push :: "'k \<Rightarrow> 'v \<Rightarrow> ('k, 'v list) fmap \<Rightarrow> ('k, 'v list) fmap" where
  "fm_push k v m = fmupd k ((case fmlookup m k of None \<Rightarrow> [] | Some vs \<Rightarrow> vs) @ [v]) m"

lemma fm_any_iff: "fm_any P m \<longleftrightarrow> (\<exists>k v. fmlookup m k = Some v \<and> P v)"
  by (force simp: fm_any_def fmlookup_dom_iff)

lemma fm_any_empty [simp]: "\<not> fm_any P fmempty"
  by (simp add: fm_any_iff)

lemma fm_len_empty [simp]: "fm_len fmempty = 0"
  by (simp add: fm_len_def)

lemma fm_len_upd: "fm_len (fmupd k v m) = (if k |\<in>| fmdom m then fm_len m else Suc (fm_len m))"
  by (simp add: fm_len_def finsert_absorb fcard_finsert_disjoint)

lemma fm_count_le_len: "fm_count P m \<le> fm_len m"
  unfolding fm_count_def fm_len_def by (rule fcard_mono) auto

lemma fm_count_upd:
  assumes "k |\<notin>| fmdom m"
  shows "fm_count P (fmupd k v m) = (if P v then Suc (fm_count P m) else fm_count P m)"
proof -
  have "ffilter (\<lambda>j. P (the (fmlookup (fmupd k v m) j))) (finsert k (fmdom m))
      = (if P v then finsert k (ffilter (\<lambda>j. P (the (fmlookup m j))) (fmdom m))
         else ffilter (\<lambda>j. P (the (fmlookup m j))) (fmdom m))"
    using assms by (auto simp: fset_eq_iff split: if_splits)
  moreover have "k |\<notin>| ffilter (\<lambda>j. P (the (fmlookup m j))) (fmdom m)"
    using assms by simp
  ultimately show ?thesis
    by (simp add: fm_count_def fcard_finsert_disjoint)
qed

lemma fm_len_subset: "fmdom m |\<subseteq>| fmdom n \<Longrightarrow> fm_len m \<le> fm_len n"
  unfolding fm_len_def by (rule fcard_mono)

lemma fm_count_subset:
  assumes "\<And>k v. fmlookup m k = Some v \<Longrightarrow> P v \<Longrightarrow> \<exists>w. fmlookup n k = Some w \<and> Q w"
  shows "fm_count P m \<le> fm_count Q n"
  unfolding fm_count_def
proof (rule fcard_mono, rule fsubsetI)
  fix k assume "k |\<in>| ffilter (\<lambda>j. P (the (fmlookup m j))) (fmdom m)"
  then obtain v where "fmlookup m k = Some v" "P v"
    by (auto simp: fmlookup_dom_iff)
  from assms [OF this] show "k |\<in>| ffilter (\<lambda>j. Q (the (fmlookup n j))) (fmdom n)"
    by (auto simp: fmlookup_dom_iff)
qed

lemma fmlookup_fm_push: "fmlookup (fm_push k v m) j =
    (if j = k then Some ((case fmlookup m k of None \<Rightarrow> [] | Some vs \<Rightarrow> vs) @ [v]) else fmlookup m j)"
  by (simp add: fm_push_def)

text \<open>\<open>BTreeMap::iter\<close> visits the entries in key order: \<open>sorted_list_of_fmap\<close>.\<close>

lemma sorted_list_of_fmap_inject [simp]:
  "sorted_list_of_fmap m = sorted_list_of_fmap n \<longleftrightarrow> m = n"
  by (metis fmap_ext map_of_sorted_list)

lemma map_fst_sorted_list_of_fmap [simp]:
  "map fst (sorted_list_of_fmap m) = sorted_list_of_fset (fmdom m)"
  by (simp add: sorted_list_of_fmap_def comp_def)

lemma in_set_sorted_list_of_fmap [simp]:
  "(k, v) \<in> set (sorted_list_of_fmap m) \<longleftrightarrow> fmlookup m k = Some v"
  by (auto simp: sorted_list_of_fmap_def fmlookup_dom_iff image_iff)

lemma distinct_sorted_list_of_fset [simp]: "distinct (sorted_list_of_fset A)"
  by (simp add: sorted_list_of_fset.rep_eq)

lemma sorted_sorted_list_of_fset [simp]: "sorted (sorted_list_of_fset A)"
  by (simp add: sorted_list_of_fset.rep_eq)

section \<open>Strings as bytes\<close>

text \<open>
  A Rust \<open>String\<close> is its UTF-8 bytes; \<open>string\<close> holds one \<open>char\<close> per byte, so that
  \<open>length\<close>, comparison and \<open>as_bytes\<close> agree with the source.
\<close>

definition as_bytes :: "string \<Rightarrow> bytes" where
  "as_bytes s = map of_char s"

definition string_of_bytes :: "bytes \<Rightarrow> string" where
  "string_of_bytes bs = map (\<lambda>b. char_of (unat b)) bs"

lemma unat_of_char [simp]: "unat (of_char c :: u8) = (of_char c :: nat)"
proof -
  have "(of_char c :: u8) = word_of_nat (of_char c)"
    by (cases c) (simp add: of_char_def)
  moreover have "(of_char c :: nat) < 256"
    using nat_of_char_less_256 by simp
  ultimately show ?thesis by (simp add: unat_of_nat)
qed

lemma string_of_as_bytes [simp]: "string_of_bytes (as_bytes s) = s"
  by (induction s) (simp_all add: as_bytes_def string_of_bytes_def)

lemma as_bytes_inject [simp]: "as_bytes s = as_bytes t \<longleftrightarrow> s = t"
  by (metis string_of_as_bytes)

lemma length_as_bytes [simp]: "length (as_bytes s) = length s"
  by (simp add: as_bytes_def)

lemma of_char_u8_less_iff [simp]: "(of_char c :: u8) < of_char d \<longleftrightarrow> c < d"
  by (simp add: word_less_nat_alt less_char_def)

lemma as_bytes_less_iff: "as_bytes s < as_bytes t \<longleftrightarrow> s < t"
proof (induction s arbitrary: t)
  case Nil
  then show ?case by (cases t) (simp_all add: as_bytes_def)
next
  case (Cons c s)
  show ?case
  proof (cases t)
    case Nil
    then show ?thesis by (simp add: as_bytes_def)
  next
    case (Cons d t')
    have "(of_char c :: u8) = of_char d \<longleftrightarrow> c = d"
      by (metis of_char_eq_iff unat_of_char)
    with Cons Cons.IH [of t'] show ?thesis
      by (simp add: as_bytes_def)
  qed
qed

text \<open>\<open>str::split(c)\<close>: the pieces between the separators, at least one, possibly empty.\<close>

fun split_on :: "'a \<Rightarrow> 'a list \<Rightarrow> 'a list list" where
  "split_on c [] = [[]]"
| "split_on c (x # xs) =
     (if x = c then [] # split_on c xs
      else (case split_on c xs of [] \<Rightarrow> [[x]] | w # ws \<Rightarrow> (x # w) # ws))"

fun join_with :: "'a \<Rightarrow> 'a list list \<Rightarrow> 'a list" where
  "join_with c [] = []"
| "join_with c [w] = w"
| "join_with c (w # ws) = w @ c # join_with c ws"

lemma split_on_nonempty [simp]: "split_on c xs \<noteq> []"
  by (induction xs) (auto split: list.splits)

lemma split_on_notin: "c \<notin> set xs \<Longrightarrow> split_on c xs = [xs]"
  by (induction xs) auto

lemma split_on_append: "c \<notin> set xs \<Longrightarrow> split_on c (xs @ c # ys) = xs # split_on c ys"
  by (induction xs) auto

lemma split_on_pieces: "w \<in> set (split_on c xs) \<Longrightarrow> c \<notin> set w"
  by (induction xs arbitrary: w) (fastforce split: list.splits if_splits)+

lemma join_split_on [simp]: "join_with c (split_on c xs) = xs"
proof (induction xs)
  case Nil
  then show ?case by simp
next
  case (Cons x xs)
  obtain w ws where ws: "split_on c xs = w # ws"
    by (cases "split_on c xs") auto
  with Cons show ?case by (cases ws) auto
qed

lemma split_on_join: "ws \<noteq> [] \<Longrightarrow> \<forall>w \<in> set ws. c \<notin> set w \<Longrightarrow> split_on c (join_with c ws) = ws"
  by (induction c ws rule: join_with.induct) (auto simp: split_on_notin split_on_append)

section \<open>Fixed-width integer encodings\<close>

text \<open>
  \<open>nat_be n k\<close> is the \<open>n\<close>-byte big-endian encoding of \<open>k\<close>; \<open>to_be_bytes\<close> and \<open>to_le_bytes\<close> of
  a word use its width, and \<open>be_value\<close> reads a byte string back.
\<close>

primrec nat_be :: "nat \<Rightarrow> nat \<Rightarrow> bytes" where
  "nat_be 0 k = []"
| "nat_be (Suc n) k = word_of_nat (k div 256 ^ n mod 256) # nat_be n k"

fun be_value :: "bytes \<Rightarrow> nat" where
  "be_value [] = 0"
| "be_value (b # bs) = unat b * 256 ^ length bs + be_value bs"

definition to_be_bytes :: "'a::len word \<Rightarrow> bytes" where
  "to_be_bytes w = nat_be (LENGTH('a) div 8) (unat w)"

definition to_le_bytes :: "'a::len word \<Rightarrow> bytes" where
  "to_le_bytes w = rev (to_be_bytes w)"

definition from_be_bytes :: "bytes \<Rightarrow> 'a::len word" where
  "from_be_bytes bs = word_of_nat (be_value bs)"

definition from_le_bytes :: "bytes \<Rightarrow> 'a::len word" where
  "from_le_bytes bs = from_be_bytes (rev bs)"

lemma length_nat_be [simp]: "length (nat_be n k) = n"
  by (induction n) simp_all

lemma mod_256_power_Suc:
  "(k :: nat) mod 256 ^ Suc n = (k div 256 ^ n mod 256) * 256 ^ n + k mod 256 ^ n"
  using mod_mult2_eq [of k "256 ^ n" 256] by (simp add: mult.commute)

lemma be_value_nat_be: "be_value (nat_be n k) = k mod 256 ^ n"
proof (induction n)
  case 0
  then show ?case by simp
next
  case (Suc n)
  have "unat (word_of_nat (k div 256 ^ n mod 256) :: u8) = k div 256 ^ n mod 256"
    by (simp add: unat_of_nat)
  with Suc show ?case
    unfolding mod_256_power_Suc by simp
qed

lemma lexord_append_same_length:
  "length xs = length ys \<Longrightarrow> xs @ us < ys @ vs \<longleftrightarrow> xs < ys \<or> (xs = ys \<and> us < vs)"
  for xs ys us vs :: "'a::order list"
  by (induction xs ys rule: list_induct2) auto

lemma lexord_append_left_cancel [simp]: "zs @ us < zs @ vs \<longleftrightarrow> us < vs"
  for us vs zs :: "'a::order list"
  by (simp add: lexord_append_same_length)

lemma positional_less_iff:
  assumes "m < B" "l < B"
  shows "a * B + m < b * B + l \<longleftrightarrow> a < b \<or> (a = b \<and> m < (l :: nat))"
proof (cases a b rule: linorder_cases)
  case less
  then have "Suc a * B \<le> b * B" by (intro mult_le_mono1) simp
  with assms less show ?thesis by simp
next
  case equal
  then show ?thesis by simp
next
  case greater
  then have "Suc b * B \<le> a * B" by (intro mult_le_mono1) simp
  with assms greater show ?thesis by simp
qed

lemma nat_be_less_iff: "nat_be n k < nat_be n j \<longleftrightarrow> k mod 256 ^ n < j mod 256 ^ n"
proof (induction n)
  case 0
  then show ?case by simp
next
  case (Suc n)
  let ?a = "k div 256 ^ n mod 256" and ?b = "j div 256 ^ n mod 256"
  have heads: "(word_of_nat ?a :: u8) < word_of_nat ?b \<longleftrightarrow> ?a < ?b"
    "(word_of_nat ?a :: u8) = word_of_nat ?b \<longleftrightarrow> ?a = ?b"
    by (simp_all add: word_less_nat_alt word_unat_eq_iff unat_of_nat)
  have "?a * 256 ^ n + k mod 256 ^ n < ?b * 256 ^ n + j mod 256 ^ n
      \<longleftrightarrow> ?a < ?b \<or> (?a = ?b \<and> k mod 256 ^ n < j mod 256 ^ n)"
    by (rule positional_less_iff) simp_all
  then show ?case
    unfolding mod_256_power_Suc by (simp add: heads Suc)
qed

lemma nat_be_eq_iff: "nat_be n k = nat_be n j \<longleftrightarrow> k mod 256 ^ n = j mod 256 ^ n"
proof
  assume "nat_be n k = nat_be n j"
  then have "be_value (nat_be n k) = be_value (nat_be n j)" by simp
  then show "k mod 256 ^ n = j mod 256 ^ n" by (simp add: be_value_nat_be)
next
  assume "k mod 256 ^ n = j mod 256 ^ n"
  then show "nat_be n k = nat_be n j"
    using nat_be_less_iff [of n k j] nat_be_less_iff [of n j k] by (metis less_irrefl not_less_iff_gr_or_eq)
qed

text \<open>The words of the sources have a whole number of bytes.\<close>

lemma unat_mod_bytes: "LENGTH('a::len) = 8 * n \<Longrightarrow> unat (w :: 'a word) mod 256 ^ n = unat w"
proof -
  assume "LENGTH('a) = 8 * n"
  moreover have "unat w < 2 ^ LENGTH('a)" by (rule unsigned_less)
  ultimately show ?thesis by (simp add: power_mult)
qed

lemma byte_words [bytes_simps]:
  "unat (w8 :: u8) mod 256 ^ 1 = unat w8" "unat (w16 :: u16) mod 256 ^ 2 = unat w16"
  "unat (w32 :: u32) mod 256 ^ 4 = unat w32" "unat (w64 :: u64) mod 256 ^ 8 = unat w64"
  "unat (w128 :: u128) mod 256 ^ 16 = unat w128"
  by (rule unat_mod_bytes, simp)+

lemma length_to_be_bytes [simp]: "length (to_be_bytes (w :: 'a::len word)) = LENGTH('a) div 8"
  by (simp add: to_be_bytes_def)

lemma length_to_le_bytes [simp]: "length (to_le_bytes (w :: 'a::len word)) = LENGTH('a) div 8"
  by (simp add: to_le_bytes_def)

lemma to_be_bytes_inject [simp]:
  "to_be_bytes (a :: u16) = to_be_bytes b \<longleftrightarrow> a = b"
  "to_be_bytes (c :: u64) = to_be_bytes d \<longleftrightarrow> c = d"
  "to_be_bytes (e :: u128) = to_be_bytes f \<longleftrightarrow> e = f"
  using byte_words(2) [of a] byte_words(2) [of b] byte_words(4) [of c] byte_words(4) [of d]
    byte_words(5) [of e] byte_words(5) [of f]
  by (simp_all add: to_be_bytes_def nat_be_eq_iff word_unat_eq_iff)

lemma to_be_bytes_less_iff:
  "to_be_bytes (a :: u16) < to_be_bytes b \<longleftrightarrow> a < b"
  "to_be_bytes (c :: u64) < to_be_bytes d \<longleftrightarrow> c < d"
  "to_be_bytes (e :: u128) < to_be_bytes f \<longleftrightarrow> e < f"
  using byte_words(2) [of a] byte_words(2) [of b] byte_words(4) [of c] byte_words(4) [of d]
    byte_words(5) [of e] byte_words(5) [of f]
  by (simp_all add: to_be_bytes_def nat_be_less_iff word_less_nat_alt)

lemma from_to_be_bytes [simp]:
  "from_be_bytes (to_be_bytes (a :: u16)) = a" "from_be_bytes (to_be_bytes (c :: u64)) = c"
  "from_be_bytes (to_be_bytes (e :: u128)) = e"
  using byte_words(2) [of a] byte_words(4) [of c] byte_words(5) [of e]
  by (simp_all add: from_be_bytes_def to_be_bytes_def be_value_nat_be)

lemma from_to_le_bytes [simp]: "from_le_bytes (to_le_bytes (c :: u64)) = c"
  by (simp add: from_le_bytes_def to_le_bytes_def)

text \<open>A byte string behind its 8-byte big-endian length, as keys and fingerprints contain it.\<close>

definition len_prefixed :: "bytes \<Rightarrow> bytes" where
  "len_prefixed bs = to_be_bytes (word_of_nat (length bs) :: u64) @ bs"

lemma length_len_prefixed [simp]: "length (len_prefixed bs) = 8 + length bs"
  by (simp add: len_prefixed_def)

lemma len_prefixed_append_inject:
  assumes "length a < 2 ^ 64" "length b < 2 ^ 64"
  shows "len_prefixed a @ xs = len_prefixed b @ ys \<longleftrightarrow> a = b \<and> xs = ys"
proof
  assume eq: "len_prefixed a @ xs = len_prefixed b @ ys"
  then have "to_be_bytes (word_of_nat (length a) :: u64) = to_be_bytes (word_of_nat (length b) :: u64)"
    and rest: "a @ xs = b @ ys"
    by (simp_all add: len_prefixed_def)
  then have "unat (word_of_nat (length a) :: u64) = unat (word_of_nat (length b) :: u64)"
    by simp
  with assms have "length a = length b" by (simp add: unat_of_nat)
  with rest show "a = b \<and> xs = ys" by simp
qed simp

lemma len_prefixed_inject:
  "length a < 2 ^ 64 \<Longrightarrow> length b < 2 ^ 64 \<Longrightarrow> len_prefixed a = len_prefixed b \<longleftrightarrow> a = b"
  using len_prefixed_append_inject [of a b "[]" "[]"] by simp

lemma to_be_bytes_append_inject [simp]:
  "to_be_bytes (a :: u16) @ xs = to_be_bytes b @ ys \<longleftrightarrow> a = b \<and> xs = ys"
  "to_be_bytes (c :: u64) @ xs = to_be_bytes d @ ys \<longleftrightarrow> c = d \<and> xs = ys"
  "to_be_bytes (e :: u128) @ xs = to_be_bytes f @ ys \<longleftrightarrow> e = f \<and> xs = ys"
  by simp_all

text \<open>Evaluation of the encodings on words, without unary naturals.\<close>

lemma nat_be_code:
  "nat_be n (unat w) = map (\<lambda>i. ucast (drop_bit (8 * i) w)) (rev [0..<n])" for w :: "'a::len word"
proof (induction n)
  case (Suc n)
  have "word_of_nat (unat w div 256 ^ n mod 256) = (ucast (drop_bit (8 * n) w) :: u8)"
  proof (rule word_unat_eq_iff [THEN iffD2])
    have "unat (ucast (drop_bit (8 * n) w) :: u8) = unat w div 2 ^ (8 * n) mod 256"
      unfolding unsigned_ucast_eq unat_drop_bit_eq by (simp add: drop_bit_eq_div take_bit_eq_mod)
    also have "(2 :: nat) ^ (8 * n) = 256 ^ n" by (simp add: power_mult)
    finally show "unat (word_of_nat (unat w div 256 ^ n mod 256) :: u8) = unat (ucast (drop_bit (8 * n) w) :: u8)"
      by (simp add: unat_of_nat)
  qed
  with Suc show ?case by simp
qed simp

lemma to_be_bytes_code [code]:
  "to_be_bytes w = map (\<lambda>i. ucast (drop_bit (8 * i) w)) (rev [0..<LENGTH('a) div 8])"
  for w :: "'a::len word"
  by (simp add: to_be_bytes_def nat_be_code)

lemma word_of_be_value:
  "word_of_nat (acc * 256 ^ length bs + be_value bs)
     = foldl (\<lambda>a b. a * 256 + word_of_nat (unat b)) (word_of_nat acc :: 'a::len word) bs"
proof (induction bs arbitrary: acc)
  case (Cons b bs)
  from Cons [of "acc * 256 + unat b"] show ?case
    by (simp add: algebra_simps)
qed simp

lemma from_be_bytes_code [code]:
  "(from_be_bytes bs :: 'a::len word) = foldl (\<lambda>a b. a * 256 + word_of_nat (unat b)) 0 bs"
  using word_of_be_value [of 0 bs, where ?'a = 'a] by (simp add: from_be_bytes_def)

end
