(* ===== verification/Identifiers.thy ===== *)
theory Identifiers
  imports Prelude
begin

text \<open>
  Identifiers and aggregate type identities of \<open>es-core/src/aggregate.rs\<close>, and the error type
  of \<open>es-core/src/error.rs\<close>. The texts of the error messages are replaced by the constructors of
  \<open>reason\<close>, one per message, with the values the message prints.
\<close>

section \<open>Errors\<close>

datatype reason =
    Identifier_Length string
  | Identifier_Reserved string string
  | Identifier_Pattern string
  | Type_Id_Shape
  | Partition_Count_Zero
  | Placement_Incomplete
  | Type_Defined_By_Other
  | Activate_Operation_Mismatch
  | Move_Requires_Active
  | Partition_Out_Of_Range
  | Move_Already_Pending
  | Generation_Changed u64 u64
  | Move_To_Current_Shard
  | Generation_Exhausted
  | No_Pending_Move
  | Complete_Operation_Mismatch
  | Credit_Zero
  | Consumer_Credit_Above_Group
  | Ack_Timeout_Zero
  | Retry_Range
  | Partition_Starts_Incomplete u16
  | Event_Type_Empty
  | Version_Exhausted
  | Position_Exhausted
  | Revision_Exhausted
  | Fence_Generation_Zero

datatype Error =
    NotLeader "string option"
  | Raft string
  | Storage string
  | Serde string
  | ShardNotLocal u64
  | NotFound string
  | InvalidRequest string
  | InvalidInput reason
  | Internal string

text \<open>\<open>error.to_string()\<close>, where a domain reply carries the reason of an invalid input.\<close>

fun error_reason :: "Error \<Rightarrow> reason option" where
  "error_reason (InvalidInput r) = Some r"
| "error_reason _ = None"

section \<open>Identifiers\<close>

definition MAX_IDENTIFIER_BYTES :: nat where
  "MAX_IDENTIFIER_BYTES = 128"

definition RESERVED_IDENTIFIERS :: "string list" where
  "RESERVED_IDENTIFIERS = [''events.jsonl'', ''states'', ''groups'']"

definition is_ascii_alphanumeric :: "char \<Rightarrow> bool" where
  "is_ascii_alphanumeric c =
     ((CHR ''0'' \<le> c \<and> c \<le> CHR ''9'') \<or> (CHR ''A'' \<le> c \<and> c \<le> CHR ''Z'')
      \<or> (CHR ''a'' \<le> c \<and> c \<le> CHR ''z''))"

definition identifier_char :: "char \<Rightarrow> bool" where
  "identifier_char c = (is_ascii_alphanumeric c \<or> c \<in> set ''._-'')"

definition validate_aggregate_identifier :: "string \<Rightarrow> string \<Rightarrow> (unit, Error) result" where
  "validate_aggregate_identifier kind val =
     (if val = [] \<or> length val > MAX_IDENTIFIER_BYTES
      then Inl (InvalidInput (Identifier_Length kind))
      else if val \<in> set RESERVED_IDENTIFIERS
      then Inl (InvalidInput (Identifier_Reserved kind val))
      else if \<not> is_ascii_alphanumeric (hd val) \<or> list_ex (\<lambda>c. \<not> identifier_char c) val
      then Inl (InvalidInput (Identifier_Pattern kind))
      else Inr ())"

text \<open>The declarative reading of the rule: \<open>[A-Za-z0-9][A-Za-z0-9._-]{0,127}\<close> minus the reserved names.\<close>

definition valid_identifier :: "string \<Rightarrow> bool" where
  "valid_identifier s \<longleftrightarrow>
     (\<exists>c cs. s = c # cs \<and> is_ascii_alphanumeric c \<and> length cs \<le> 127 \<and> list_all identifier_char cs)
     \<and> s \<notin> set RESERVED_IDENTIFIERS"

lemma validate_ok_iff: "validate_aggregate_identifier kind s = Inr () \<longleftrightarrow> valid_identifier s"
proof (cases s)
  case Nil
  then show ?thesis by (simp add: validate_aggregate_identifier_def valid_identifier_def)
next
  case (Cons c cs)
  then show ?thesis
    by (auto simp: validate_aggregate_identifier_def valid_identifier_def MAX_IDENTIFIER_BYTES_def
        identifier_char_def list_ex_iff list_all_iff)
qed

lemma validate_Inr_iff [simp]:
  "validate_aggregate_identifier kind s = Inr u \<longleftrightarrow> valid_identifier s"
  by (cases u) (simp add: validate_ok_iff)

lemma validate_valid [simp]: "valid_identifier s \<Longrightarrow> validate_aggregate_identifier kind s = Inr ()"
  by (simp add: validate_ok_iff)

lemma validate_cases:
  obtains (ok) "validate_aggregate_identifier kind s = Inr ()" "valid_identifier s"
  | (err) r where "validate_aggregate_identifier kind s = Inl (InvalidInput r)" "\<not> valid_identifier s"
  using validate_ok_iff [of kind s]
  by (auto simp: validate_aggregate_identifier_def split: if_splits)

lemma is_err_validate [simp]: "is_err (validate_aggregate_identifier kind s) \<longleftrightarrow> \<not> valid_identifier s"
  by (metis is_err_simps validate_cases)

lemma valid_identifier_nonempty: "valid_identifier s \<Longrightarrow> s \<noteq> []"
  by (auto simp: valid_identifier_def)

lemma valid_identifier_length: "valid_identifier s \<Longrightarrow> length s \<le> 128"
  by (auto simp: valid_identifier_def)

lemma valid_identifier_chars: "valid_identifier s \<Longrightarrow> c \<in> set s \<Longrightarrow> identifier_char c"
  by (auto simp: valid_identifier_def identifier_char_def list_all_iff)

lemma slash_not_identifier_char [simp]: "\<not> identifier_char (CHR ''/'')"
  by code_simp

lemma valid_identifier_no_slash: "valid_identifier s \<Longrightarrow> CHR ''/'' \<notin> set s"
  using valid_identifier_chars slash_not_identifier_char by blast

lemma dot_dotdot_invalid [simp]: "\<not> valid_identifier ''.''" "\<not> valid_identifier ''..''"
  "\<not> valid_identifier []"
  by (auto simp: valid_identifier_def is_ascii_alphanumeric_def less_eq_char_def)

section \<open>Aggregate type identities\<close>

datatype AggregateTypeId = AggregateTypeId (business_space: string) (aggregate_type: string)

instantiation AggregateTypeId :: linorder
begin

definition less_eq_AggregateTypeId :: "AggregateTypeId \<Rightarrow> AggregateTypeId \<Rightarrow> bool" where
  "less_eq_AggregateTypeId a b \<longleftrightarrow>
     (business_space a, aggregate_type a) \<le> (business_space b, aggregate_type b)"

definition less_AggregateTypeId :: "AggregateTypeId \<Rightarrow> AggregateTypeId \<Rightarrow> bool" where
  "less_AggregateTypeId a b \<longleftrightarrow>
     (business_space a, aggregate_type a) < (business_space b, aggregate_type b)"

instance
  by standard
    (auto simp: less_eq_AggregateTypeId_def less_AggregateTypeId_def intro: AggregateTypeId.expand)

end

definition AggregateTypeId_new :: "string \<Rightarrow> string \<Rightarrow> (AggregateTypeId, Error) result" where
  "AggregateTypeId_new space typ =
     rbind (validate_aggregate_identifier ''business_space'' space) (\<lambda>_.
     rbind (validate_aggregate_identifier ''aggregate_type'' typ) (\<lambda>_.
     Inr (AggregateTypeId space typ)))"

definition AggregateTypeId_validate :: "AggregateTypeId \<Rightarrow> (unit, Error) result" where
  "AggregateTypeId_validate t =
     rbind (validate_aggregate_identifier ''business_space'' (business_space t)) (\<lambda>_.
     validate_aggregate_identifier ''aggregate_type'' (aggregate_type t))"

definition canonical_name :: "AggregateTypeId \<Rightarrow> string" where
  "canonical_name t = business_space t @ ''/'' @ aggregate_type t"

text \<open>\<open>FromStr\<close>: at most two pieces are read; a third one, or an empty one, is an error.\<close>

definition AggregateTypeId_from_str :: "string \<Rightarrow> (AggregateTypeId, Error) result" where
  "AggregateTypeId_from_str val =
     (let parts = split_on (CHR ''/'') val;
          space = (case parts of [] \<Rightarrow> [] | p # _ \<Rightarrow> p);
          typ = (case parts of _ # q # _ \<Rightarrow> q | _ \<Rightarrow> [])
      in if length parts > 2 \<or> space = [] \<or> typ = []
         then Inl (InvalidInput Type_Id_Shape)
         else AggregateTypeId_new space typ)"

definition valid_type_id :: "AggregateTypeId \<Rightarrow> bool" where
  "valid_type_id t \<longleftrightarrow> valid_identifier (business_space t) \<and> valid_identifier (aggregate_type t)"

lemma AggregateTypeId_validate_Inr [simp]:
  "AggregateTypeId_validate t = Inr u \<longleftrightarrow> valid_type_id t"
  by (auto simp: AggregateTypeId_validate_def valid_type_id_def rbind_Inr_iff)

lemma AggregateTypeId_validate_valid [simp]: "valid_type_id t \<Longrightarrow> AggregateTypeId_validate t = Inr ()"
  by simp

lemma AggregateTypeId_validate_cases:
  obtains (ok) "AggregateTypeId_validate t = Inr ()" "valid_type_id t"
  | (err) r where "AggregateTypeId_validate t = Inl (InvalidInput r)" "\<not> valid_type_id t"
proof (cases "valid_type_id t")
  case True
  then show ?thesis using ok by simp
next
  case False
  then obtain e where e: "AggregateTypeId_validate t = Inl e"
    by (metis AggregateTypeId_validate_Inr obj_sumE)
  then obtain r where "e = InvalidInput r"
    unfolding AggregateTypeId_validate_def rbind_Inl_iff
    by (metis Inl_Inr_False sum.inject(1) validate_cases)
  with e False show ?thesis using err by blast
qed

lemma AggregateTypeId_new_Inr:
  "AggregateTypeId_new space typ = Inr t \<longleftrightarrow> t = AggregateTypeId space typ \<and> valid_type_id t"
  by (auto simp: AggregateTypeId_new_def valid_type_id_def rbind_Inr_iff)

lemma split_canonical_name:
  "valid_type_id t \<Longrightarrow> split_on (CHR ''/'') (canonical_name t) = [business_space t, aggregate_type t]"
  using split_on_append [of "CHR ''/''" "business_space t" "aggregate_type t"]
  by (simp add: canonical_name_def valid_type_id_def split_on_notin valid_identifier_no_slash)

lemma canonical_name_inject:
  assumes "valid_type_id t" "valid_type_id u" "canonical_name t = canonical_name u"
  shows "t = u"
  using split_canonical_name [OF assms(1)] split_canonical_name [OF assms(2)] assms(3)
  by (auto intro: AggregateTypeId.expand)

text \<open>The identifier check accepts exactly the strings of the documented pattern that are
  not reserved names: it never accepts an empty name, a path separator, \<open>.\<close> or \<open>..\<close>.\<close>

theorem validate_aggregate_identifier_iff:
  "(\<not> is_err (validate_aggregate_identifier kind s) \<longleftrightarrow> valid_identifier s)
   \<and> (valid_identifier s \<longrightarrow> s \<noteq> [] \<and> length s \<le> 128 \<and> CHR ''/'' \<notin> set s \<and> s \<noteq> ''.'' \<and> s \<noteq> ''..'')"
  using valid_identifier_nonempty valid_identifier_length valid_identifier_no_slash dot_dotdot_invalid
  by auto

theorem validate_aggregate_identifier_iff_witness:
  "\<not> is_err (validate_aggregate_identifier ''id'' ''order-1'')
   \<and> is_err (validate_aggregate_identifier ''id'' ''states'')
   \<and> is_err (validate_aggregate_identifier ''id'' ''_leading'')
   \<and> CHR ''/'' \<notin> set ''order-1''"
proof -
  have "\<not> is_err (validate_aggregate_identifier ''id'' ''order-1'')" by code_simp
  moreover from this have "CHR ''/'' \<notin> set ''order-1''"
    using validate_aggregate_identifier_iff [of "''id''" "''order-1''"] by blast
  moreover have "is_err (validate_aggregate_identifier ''id'' ''states'')" by code_simp
  moreover have "is_err (validate_aggregate_identifier ''id'' ''_leading'')" by code_simp
  ultimately show ?thesis by blast
qed

text \<open>Parsing and printing an aggregate type identity are inverse: the canonical name of a
  valid identity parses back to it, and a string that parses is the canonical name of the valid
  identity it parses to. So the canonical name, which the storage keys contain, is injective.\<close>

theorem AggregateTypeId_roundtrip:
  "AggregateTypeId_from_str s = Inr t \<longleftrightarrow> s = canonical_name t \<and> valid_type_id t"
proof
  assume parsed: "AggregateTypeId_from_str s = Inr t"
  then obtain p q where pq: "split_on (CHR ''/'') s = [p, q]" and new: "AggregateTypeId_new p q = Inr t"
    by (auto simp: AggregateTypeId_from_str_def Let_def split: if_splits list.splits)
  from pq have "s = join_with (CHR ''/'') [p, q]" by (metis join_split_on)
  with new show "s = canonical_name t \<and> valid_type_id t"
    by (auto simp: AggregateTypeId_new_Inr canonical_name_def)
next
  assume "s = canonical_name t \<and> valid_type_id t"
  then have "split_on (CHR ''/'') s = [business_space t, aggregate_type t]"
    and "business_space t \<noteq> []" "aggregate_type t \<noteq> []" and "valid_type_id t"
    using split_canonical_name by (auto simp: valid_type_id_def dest: valid_identifier_nonempty)
  then show "AggregateTypeId_from_str s = Inr t"
    by (auto simp: AggregateTypeId_from_str_def AggregateTypeId_new_Inr Let_def)
qed

end
