(* ===== verification/Hlc_Clock.thy ===== *)
theory Hlc_Clock
  imports Prelude
begin

text \<open>
  The hybrid logical clock of \<open>es-core/src/hlc.rs\<close>: a physical millisecond reading and a
  32-bit counter, ordered lexicographically. \<open>Hlc_next\<close> is \<open>Hlc::next\<close> with the clock reading
  as an argument; \<open>hlc_run\<close> chains it over a sequence of readings.
\<close>

datatype Hlc = Hlc (wall: u64) (logical: u32)

instantiation Hlc :: linorder
begin

definition less_eq_Hlc :: "Hlc \<Rightarrow> Hlc \<Rightarrow> bool" where
  "less_eq_Hlc a b \<longleftrightarrow> wall a < wall b \<or> (wall a = wall b \<and> logical a \<le> logical b)"

definition less_Hlc :: "Hlc \<Rightarrow> Hlc \<Rightarrow> bool" where
  "less_Hlc a b \<longleftrightarrow> wall a < wall b \<or> (wall a = wall b \<and> logical a < logical b)"

instance
  by standard (auto simp: less_eq_Hlc_def less_Hlc_def intro: Hlc.expand)

end

definition Hlc_next :: "Hlc option \<Rightarrow> u64 \<Rightarrow> Hlc" where
  "Hlc_next prev now_ms =
     (case prev of
        None \<Rightarrow> Hlc now_ms 0
      | Some p \<Rightarrow>
          if now_ms > wall p then Hlc now_ms 0
          else Hlc (wall p) (logical p + 1))"

text \<open>\<open>Hlc::now\<close>, with the system clock reading passed in.\<close>

definition Hlc_now :: "u64 \<Rightarrow> Hlc" where
  "Hlc_now ms = Hlc_next None ms"

primrec hlc_run :: "Hlc option \<Rightarrow> u64 list \<Rightarrow> Hlc list" where
  "hlc_run prev [] = []"
| "hlc_run prev (t # ts) = (let h = Hlc_next prev t in h # hlc_run (Some h) ts)"

lemma Hlc_next_wall: "prev = Some p \<Longrightarrow> wall (Hlc_next prev t) = max (wall p) t"
  by (auto simp: Hlc_next_def max_def)

lemma Hlc_next_logical_le:
  "unat (logical p) < 2 ^ 32 - 1 \<Longrightarrow> unat (logical (Hlc_next (Some p) t)) \<le> Suc (unat (logical p))"
  by (simp add: Hlc_next_def unat_word_ariths)

lemma Hlc_next_greater:
  assumes "logical p \<noteq> - 1"
  shows "p < Hlc_next (Some p) t"
proof -
  from assms unat_max_word_cases have "unat (logical p + 1) = Suc (unat (logical p))" by blast
  then have "logical p < logical p + 1" by (simp add: word_less_nat_alt)
  then show ?thesis by (auto simp: Hlc_next_def less_Hlc_def)
qed

lemma hlc_run_above:
  "unat (logical p) + length ts < 2 ^ 32 \<Longrightarrow> sorted_wrt (<) (p # hlc_run (Some p) ts)"
proof (induction ts arbitrary: p)
  case Nil
  then show ?case by simp
next
  case (Cons t ts)
  let ?h = "Hlc_next (Some p) t"
  from Cons.prems have "unat (logical p) \<noteq> 2 ^ 32 - 1" by simp
  then have ne: "logical p \<noteq> - 1" by (auto simp: unat_max_word)
  from Cons.prems Hlc_next_logical_le [of p t] have "unat (logical ?h) + length ts < 2 ^ 32"
    by simp
  from Cons.IH [OF this] have tail: "sorted_wrt (<) (?h # hlc_run (Some ?h) ts)" .
  moreover from ne have "p < ?h" by (rule Hlc_next_greater)
  ultimately show ?case by (auto simp: Let_def)
qed

text \<open>C40: \<open>Hlc::next\<close> returns a clock strictly greater than its predecessor exactly unless the
  physical clock has not advanced and the 32-bit logical counter is at its maximum, where
  \<open>wrapping_add\<close> takes it back to zero.\<close>

theorem Hlc_next_strict_iff:
  "p < Hlc_next (Some p) now_ms \<longleftrightarrow> \<not> (now_ms \<le> wall p \<and> logical p = - 1)"
proof (cases "now_ms \<le> wall p \<and> logical p = - 1")
  case True
  then show ?thesis by (auto simp: Hlc_next_def less_Hlc_def)
next
  case False
  show ?thesis
  proof (cases "logical p = - 1")
    case True
    with False show ?thesis by (auto simp: Hlc_next_def less_Hlc_def)
  next
    case ne: False
    with Hlc_next_greater show ?thesis by simp
  qed
qed

text \<open>Any run of fewer than \<open>2^32\<close> clock readings, whatever the readings are (the physical
  clock may stand still or go back), gives a strictly increasing sequence of clocks.\<close>

theorem hlc_run_strictly_increasing:
  "length ts \<le> 2 ^ 32 \<Longrightarrow> sorted_wrt (<) (hlc_run None ts)"
proof (cases ts)
  case Nil
  then show ?thesis by simp
next
  case (Cons t us)
  assume "length ts \<le> 2 ^ 32"
  with Cons have "unat (logical (Hlc_next None t)) + length us < 2 ^ 32"
    by (simp add: Hlc_next_def)
  from hlc_run_above [OF this] show ?thesis
    using Cons by (simp add: Let_def)
qed

theorem hlc_run_strictly_increasing_witness:
  "hlc_run None [1000, 1000, 1001, 1000, 1002]
     = [Hlc 1000 0, Hlc 1000 1, Hlc 1001 0, Hlc 1001 1, Hlc 1002 0]
   \<and> sorted_wrt (<) (hlc_run None [1000, 1000, 1001, 1000, 1002])"
  using hlc_run_strictly_increasing [of "[1000, 1000, 1001, 1000, 1002]"]
  by (simp add: Hlc_next_def Let_def)

end
