(* ===== verification/Partitioning.thy ===== *)
theory Partitioning
  imports Identifiers Hlc_Clock
begin

text \<open>
  Events, versions, state documents and the partition hash of \<open>es-core/src/aggregate.rs\<close>. The
  hash functions of the \<open>xxhash-rust\<close> crate are parameters \<open>xxh3\<close> (64 bits) and \<open>xxh3_128\<close> of
  the byte string that the \<open>update\<close> calls feed to the hasher, in order.
\<close>

definition EVENT_PARTITION_COUNT :: u16 where
  "EVENT_PARTITION_COUNT = 256"

text \<open>A \<open>[u8; 16]\<close> seed is its big-endian value, as a UUID is.\<close>
type_synonym seed = u128

datatype EventPartitionHash = Xxh3V1

definition EventPartitionHash_partition ::
  "(bytes \<Rightarrow> u64) \<Rightarrow> EventPartitionHash \<Rightarrow> seed \<Rightarrow> string \<Rightarrow> u16 \<Rightarrow> (u16, Error) result" where
  "EventPartitionHash_partition xxh3 algorithm seed aggregate_id partition_count =
     rbind (validate_aggregate_identifier ''aggregate_id'' aggregate_id) (\<lambda>_.
     if partition_count = 0 then Inl (InvalidInput Partition_Count_Zero)
     else let hash = (case algorithm of Xxh3V1 \<Rightarrow> xxh3 (to_be_bytes seed @ as_bytes aggregate_id))
          in Inr (ucast (hash mod (ucast partition_count :: u64))))"

record NewAggregateEvent =
  nev_event_id :: uuid
  nev_event_type :: string
  nev_data :: bytes
  nev_metadata :: bytes

record AggregateEvent =
  ev_aggregate_type :: AggregateTypeId
  ev_partition_id :: u16
  ev_aggregate_id :: string
  ev_aggregate_version :: u64
  ev_event_id :: uuid
  ev_event_type :: string
  ev_data :: bytes
  ev_metadata :: bytes
  ev_hlc :: Hlc
  ev_partition_position :: u64

datatype ExpectedAggregateVersion = Any | NoAggregate | AggregateExists | Exact u64

record AggregateMeta =
  current_version :: u64

datatype ExpectedStateRevision = Absent | ExactRevision u64

record AggregateState =
  st_revision :: u64
  st_data :: bytes

record AggregateStateDocument =
  doc_revision :: u64
  doc_data :: bytes
  doc_modified_hlc :: Hlc

record AggregateAppendResult =
  res_aggregate_version :: u64
  res_partition_position :: u64

fun expected_version_bytes :: "ExpectedAggregateVersion \<Rightarrow> bytes" where
  "expected_version_bytes Any = [0]"
| "expected_version_bytes NoAggregate = [1]"
| "expected_version_bytes AggregateExists = [2]"
| "expected_version_bytes (Exact version) = 3 # to_be_bytes version"

text \<open>The bytes \<open>aggregate_append_fingerprint\<close> feeds to the hasher.\<close>

definition append_fingerprint_input ::
  "AggregateTypeId \<Rightarrow> string \<Rightarrow> ExpectedAggregateVersion \<Rightarrow> NewAggregateEvent \<Rightarrow> bytes" where
  "append_fingerprint_input t aggregate_id expected event =
     len_prefixed (as_bytes (business_space t)) @
     len_prefixed (as_bytes (aggregate_type t)) @
     len_prefixed (as_bytes aggregate_id) @
     expected_version_bytes expected @
     to_be_bytes (nev_event_id event) @
     len_prefixed (as_bytes (nev_event_type event)) @
     len_prefixed (nev_data event) @
     len_prefixed (nev_metadata event)"

definition aggregate_append_fingerprint ::
  "(bytes \<Rightarrow> u128) \<Rightarrow> AggregateTypeId \<Rightarrow> string \<Rightarrow> ExpectedAggregateVersion \<Rightarrow> NewAggregateEvent \<Rightarrow> u128"
where
  "aggregate_append_fingerprint xxh3_128 t aggregate_id expected event =
     xxh3_128 (append_fingerprint_input t aggregate_id expected event)"

text \<open>The bytes \<open>create_plan_fingerprint\<close> feeds to the hasher: \<open>BTreeMap\<close> iteration is in key order.\<close>

definition create_plan_input :: "seed \<Rightarrow> (u16, u64) fmap \<Rightarrow> bytes" where
  "create_plan_input seed placements =
     to_be_bytes seed @ to_be_bytes (word_of_nat (fm_len placements) :: u64) @
     concat (map (\<lambda>(partition_id, shard_id). to_be_bytes partition_id @ to_be_bytes shard_id)
                 (sorted_list_of_fmap placements))"

definition create_plan_fingerprint :: "(bytes \<Rightarrow> u128) \<Rightarrow> seed \<Rightarrow> (u16, u64) fmap \<Rightarrow> u128" where
  "create_plan_fingerprint xxh3_128 seed placements = xxh3_128 (create_plan_input seed placements)"

section \<open>Properties\<close>

lemma expected_version_bytes_inject:
  "expected_version_bytes e @ xs = expected_version_bytes e' @ ys \<longleftrightarrow> e = e' \<and> xs = ys"
  by (cases e; cases e') auto

lemma partition_ucast_less:
  fixes h :: u64 and n :: u16
  assumes "n \<noteq> 0"
  shows "unat (ucast (h mod ucast n) :: u16) = unat h mod unat n"
    and "(ucast (h mod ucast n) :: u16) < n"
proof -
  have small: "unat n < 2 ^ 16"
    by (rule order_less_le_trans [OF unsigned_less]) simp
  then have n: "unat (ucast n :: u64) = unat n"
    by (simp add: unsigned_ucast_eq take_bit_nat_eq_self)
  have pos: "0 < unat n"
    using assms by (simp add: unat_gt_0)
  then have "unat h mod unat n < 2 ^ 16"
    using mod_less_divisor [of "unat n" "unat h"] small by linarith
  moreover have "unat (h mod ucast n) = unat h mod unat n"
    by (simp only: unat_mod n)
  ultimately show eq: "unat (ucast (h mod ucast n) :: u16) = unat h mod unat n"
    by (simp only: unsigned_ucast_eq) (simp add: take_bit_nat_eq_self)
  show "(ucast (h mod ucast n) :: u16) < n"
    using pos by (simp add: word_less_nat_alt eq)
qed

lemma concat_fixed_width_inject:
  assumes inj: "\<And>x y us vs. f x @ us = f y @ vs \<Longrightarrow> x = y \<and> us = vs" and ne: "\<And>x. f x \<noteq> []"
  shows "concat (map f xs) = concat (map f ys) \<Longrightarrow> xs = ys"
proof (induction xs arbitrary: ys)
  case Nil
  then show ?case using ne by (cases ys) auto
next
  case (Cons x xs)
  then obtain y ys' where ys: "ys = y # ys'"
    using ne by (cases ys) auto
  with Cons.prems have "f x @ concat (map f xs) = f y @ concat (map f ys')" by simp
  with inj have "x = y" "concat (map f xs) = concat (map f ys')" by blast+
  with Cons.IH ys show ?case by simp
qed

text \<open>The placement plan is determined by the bytes it feeds to the hasher.\<close>

lemma create_plan_input_inject:
  assumes "create_plan_input s p = create_plan_input s' p'"
  shows "s = s' \<and> p = p'"
proof -
  let ?f = "\<lambda>(partition_id :: u16, shard_id :: u64). to_be_bytes partition_id @ to_be_bytes shard_id"
  from assms have "s = s'"
    and chunks: "concat (map ?f (sorted_list_of_fmap p)) = concat (map ?f (sorted_list_of_fmap p'))"
    by (simp_all add: create_plan_input_def)
  have "sorted_list_of_fmap p = sorted_list_of_fmap p'"
  proof (rule concat_fixed_width_inject [of ?f])
    fix x y :: "u16 \<times> u64" and us vs
    assume "?f x @ us = ?f y @ vs"
    then show "x = y \<and> us = vs" by (cases x; cases y) simp
  next
    fix x :: "u16 \<times> u64"
    have "length (?f x) = 10" by (cases x) simp
    then show "?f x \<noteq> []" by auto
  qed (rule chunks)
  with \<open>s = s'\<close> show ?thesis by simp
qed

text \<open>Every valid aggregate id is routed, whatever the hash function, to one partition below
  the (non-zero) partition count; an invalid id or a zero count is refused. The partition is a
  function of seed and id alone, so an instance stays in its partition.\<close>

theorem partition_total_and_in_range:
  "(\<exists>p. EventPartitionHash_partition xxh3 algorithm seed aggregate_id count = Inr p \<and> p < count)
     = (valid_identifier aggregate_id \<and> count \<noteq> 0)"
proof (cases "valid_identifier aggregate_id")
  case True
  then show ?thesis
    using partition_ucast_less(2) [of count "xxh3 (to_be_bytes seed @ as_bytes aggregate_id)"]
    by (cases algorithm) (auto simp: EventPartitionHash_partition_def Let_def)
next
  case False
  then obtain r where "validate_aggregate_identifier ''aggregate_id'' aggregate_id = Inl (InvalidInput r)"
    by (metis validate_cases)
  then show ?thesis
    using False by (simp add: EventPartitionHash_partition_def)
qed

text \<open>The input of the idempotency fingerprint determines the whole append request: two
  requests (with payloads below \<open>2^64\<close> bytes and valid identities) feed the hasher the same bytes
  only if type, instance, expected version and every field of the event are equal.\<close>

theorem append_fingerprint_input_inject:
  assumes "valid_type_id t" "valid_type_id t'" "valid_identifier a" "valid_identifier a'"
    and "length (nev_event_type ev) < 2 ^ 64" "length (nev_event_type ev') < 2 ^ 64"
    and "length (nev_data ev) < 2 ^ 64" "length (nev_data ev') < 2 ^ 64"
    and "length (nev_metadata ev) < 2 ^ 64" "length (nev_metadata ev') < 2 ^ 64"
    and "append_fingerprint_input t a e ev = append_fingerprint_input t' a' e' ev'"
  shows "t = t' \<and> a = a' \<and> e = e' \<and> ev = (ev' :: NewAggregateEvent)"
proof -
  have small: "length s < 2 ^ 64" if "valid_identifier s" for s
    using valid_identifier_length [OF that] by simp
  from assms(1-4) have ids: "length (business_space t) < 2 ^ 64" "length (business_space t') < 2 ^ 64"
    "length (aggregate_type t) < 2 ^ 64" "length (aggregate_type t') < 2 ^ 64"
    "length a < 2 ^ 64" "length a' < 2 ^ 64"
    using small by (auto simp: valid_type_id_def)
  from assms(11) have "business_space t = business_space t' \<and> aggregate_type t = aggregate_type t'
      \<and> a = a' \<and> e = e' \<and> nev_event_id ev = nev_event_id ev'
      \<and> nev_event_type ev = nev_event_type ev' \<and> nev_data ev = nev_data ev'
      \<and> nev_metadata ev = nev_metadata ev'"
    using ids assms(5-10)
    by (simp add: append_fingerprint_input_def len_prefixed_append_inject len_prefixed_inject
        expected_version_bytes_inject)
  then show ?thesis by (auto intro: AggregateTypeId.expand NewAggregateEvent.equality)
qed

theorem append_fingerprint_input_inject_witness:
  "append_fingerprint_input (AggregateTypeId ''orders'' ''order'') ''o-1'' NoAggregate
      \<lparr>nev_event_id = 7, nev_event_type = ''created'', nev_data = [1], nev_metadata = [2, 3]\<rparr>
   \<noteq> append_fingerprint_input (AggregateTypeId ''orders'' ''order'') ''o-1'' NoAggregate
      \<lparr>nev_event_id = 7, nev_event_type = ''created'', nev_data = [1, 2], nev_metadata = [3]\<rparr>"
proof -
  have "valid_type_id (AggregateTypeId ''orders'' ''order'')" "valid_identifier ''o-1''"
    using is_err_validate [of "''k''" "''orders''"] is_err_validate [of "''k''" "''order''"]
      is_err_validate [of "''k''" "''o-1''"]
    by (simp_all add: valid_type_id_def, (simp_all add: validate_aggregate_identifier_def
        MAX_IDENTIFIER_BYTES_def RESERVED_IDENTIFIERS_def is_ascii_alphanumeric_def
        identifier_char_def less_eq_char_def))
  from append_fingerprint_input_inject [OF this(1,1,2,2), of
      "\<lparr>nev_event_id = 7, nev_event_type = ''created'', nev_data = [1], nev_metadata = [2, 3]\<rparr>"
      "\<lparr>nev_event_id = 7, nev_event_type = ''created'', nev_data = [1, 2], nev_metadata = [3]\<rparr>"
      NoAggregate NoAggregate]
  show ?thesis by auto
qed

end
