(* ===== verification/Machines.thy ===== *)
theory Machines
  imports Prelude
begin

text \<open>
  The interface every replicated component offers to the Raft state machine: a deterministic
  command function from a state to a state and a reply. \<open>run_commands\<close> folds it over a command
  sequence. The locales state what such a component promises (an invariant, a revision that
  counts changes, a preorder every step climbs) and derive what holds after any sequence; each
  component theory interprets them on its own command function.
\<close>

fun run_commands :: "('s \<Rightarrow> 'c \<Rightarrow> 's \<times> 'o) \<Rightarrow> 's \<Rightarrow> 'c list \<Rightarrow> 's" where
  "run_commands f s [] = s"
| "run_commands f s (c # cs) = run_commands f (fst (f s c)) cs"

fun run_replies :: "('s \<Rightarrow> 'c \<Rightarrow> 's \<times> 'o) \<Rightarrow> 's \<Rightarrow> 'c list \<Rightarrow> 'o list" where
  "run_replies f s [] = []"
| "run_replies f s (c # cs) = snd (f s c) # run_replies f (fst (f s c)) cs"

lemma run_commands_append [simp]:
  "run_commands f s (cs @ ds) = run_commands f (run_commands f s cs) ds"
  by (induction cs arbitrary: s) simp_all

lemma run_replies_append [simp]:
  "run_replies f s (cs @ ds) = run_replies f s cs @ run_replies f (run_commands f s cs) ds"
  by (induction cs arbitrary: s) simp_all

lemma length_run_replies [simp]: "length (run_replies f s cs) = length cs"
  by (induction cs arbitrary: s) simp_all

locale command_machine =
  fixes apply_command :: "'s \<Rightarrow> 'c \<Rightarrow> 's \<times> 'o"
    and wf :: "'s \<Rightarrow> bool"
  assumes step_wf: "wf s \<Longrightarrow> wf (fst (apply_command s c))"
begin

lemma run_wf: "wf s \<Longrightarrow> wf (run_commands apply_command s cs)"
  by (induction cs arbitrary: s) (simp_all add: step_wf)

end

text \<open>A machine whose states climb a preorder with every command.\<close>

locale monotone_machine = command_machine +
  fixes below :: "'a \<Rightarrow> 'a \<Rightarrow> bool"
  assumes below_refl: "below s s"
    and below_trans: "below s t \<Longrightarrow> below t u \<Longrightarrow> below s u"
    and step_below: "wf s \<Longrightarrow> below s (fst (apply_command s c))"
begin

lemma run_below: "wf s \<Longrightarrow> below s (run_commands apply_command s cs)"
proof (induction cs arbitrary: s)
  case Nil
  then show ?case by (simp add: below_refl)
next
  case (Cons c cs)
  then have "below (fst (apply_command s c)) (run_commands apply_command s (c # cs))"
    by (simp add: step_wf)
  with Cons.prems show ?case
    using step_below below_trans by blast
qed

end

text \<open>A machine with a revision counter that advances exactly with the changes.\<close>

locale revisioned_machine =
  fixes apply_command :: "'s \<Rightarrow> 'c \<Rightarrow> 's \<times> 'o"
    and revision :: "'s \<Rightarrow> u64"
    and changed :: "'o \<Rightarrow> bool"
    and next_revision :: "u64 \<Rightarrow> u64"
  assumes unchanged: "\<not> changed (snd (apply_command s c)) \<Longrightarrow> fst (apply_command s c) = s"
    and advanced: "changed (snd (apply_command s c)) \<Longrightarrow>
      revision (fst (apply_command s c)) = next_revision (revision s)"
begin

lemma run_revision:
  "revision (run_commands apply_command s cs)
     = (next_revision ^^ length (filter changed (run_replies apply_command s cs))) (revision s)"
proof (induction cs arbitrary: s)
  case Nil
  then show ?case by simp
next
  case (Cons c cs)
  then show ?case
    using unchanged [of s c] advanced [of s c]
    by (simp add: funpow_swap1)
qed

lemma run_unchanged:
  "filter changed (run_replies apply_command s cs) = [] \<Longrightarrow> run_commands apply_command s cs = s"
  by (induction cs arbitrary: s) (auto simp: unchanged split: if_splits)

end

end
