(* ===== verification/Catalog.thy ===== *)
theory Catalog
  imports Partitioning Machines
begin

text \<open>
  The aggregate type catalog of \<open>es-core/src/aggregate.rs\<close>, the state the control shard keeps:
  type definitions with their 256 partition placements, and the four commands Create, Activate,
  PrepareMove and CompleteMove. \<open>AggregateCatalog_apply\<close> returns the new catalog with the
  result the source returns; \<open>revision += 1\<close> wraps, as release builds do.
\<close>

datatype AggregateTypeStatus = Registering | Active

record PartitionMove =
  mv_operation_id :: uuid
  mv_source_shard :: u64
  mv_target_shard :: u64
  mv_next_generation :: u64

record PartitionPlacement =
  pl_shard_id :: u64
  pl_generation :: u64
  pl_pending_move :: "PartitionMove option"
  pl_last_completed_operation :: "uuid option"

record AggregateTypeDefinition =
  def_id :: AggregateTypeId
  def_create_operation_id :: uuid
  def_create_plan_fingerprint :: u128
  def_seed :: seed
  def_partition_count :: u16
  def_hash_algorithm :: EventPartitionHash
  def_status :: AggregateTypeStatus
  def_placements :: "(u16, PartitionPlacement) fmap"

definition partition_for ::
  "(bytes \<Rightarrow> u64) \<Rightarrow> AggregateTypeDefinition \<Rightarrow> string \<Rightarrow> (u16, Error) result" where
  "partition_for xxh3 d aggregate_id =
     EventPartitionHash_partition xxh3 (def_hash_algorithm d) (def_seed d) aggregate_id
       (def_partition_count d)"

text \<open>The numbers \<open>0..n\<close> of a \<open>u16\<close> range.\<close>

definition partitions :: "u16 \<Rightarrow> u16 list" where
  "partitions n = map word_of_nat [0..<unat n]"

definition complete_partition_map :: "u16 \<Rightarrow> (u16, 'v) fmap \<Rightarrow> bool" where
  "complete_partition_map n m =
     (fm_len m = unat n \<and> list_all (\<lambda>p. fmlookup m p \<noteq> None) (partitions n))"

definition AggregateTypeDefinition_create ::
  "(bytes \<Rightarrow> u128) \<Rightarrow> AggregateTypeId \<Rightarrow> uuid \<Rightarrow> seed \<Rightarrow> (u16, u64) fmap
     \<Rightarrow> (AggregateTypeDefinition, reason) result" where
  "AggregateTypeDefinition_create xxh3_128 t operation_id seed placements =
     (if \<not> complete_partition_map EVENT_PARTITION_COUNT placements
      then Inl Placement_Incomplete
      else Inr \<lparr>def_id = t,
                def_create_operation_id = operation_id,
                def_create_plan_fingerprint = create_plan_fingerprint xxh3_128 seed placements,
                def_seed = seed,
                def_partition_count = EVENT_PARTITION_COUNT,
                def_hash_algorithm = Xxh3V1,
                def_status = Registering,
                def_placements =
                  fmmap (\<lambda>shard_id. \<lparr>pl_shard_id = shard_id, pl_generation = 1,
                                     pl_pending_move = None, pl_last_completed_operation = None\<rparr>)
                    placements\<rparr>)"

record AggregateCatalog =
  cat_revision :: u64
  cat_aggregate_types :: "(AggregateTypeId, AggregateTypeDefinition) fmap"

definition AggregateCatalog_default :: AggregateCatalog where
  "AggregateCatalog_default = \<lparr>cat_revision = 0, cat_aggregate_types = fmempty\<rparr>"

datatype AggregateCatalogCommand =
    CatalogCreate AggregateTypeId uuid seed "(u16, u64) fmap"
  | CatalogActivate AggregateTypeId uuid
  | CatalogPrepareMove AggregateTypeId u16 u64 u64 uuid
  | CatalogCompleteMove AggregateTypeId u16 uuid

datatype AggregateCatalogOutcome =
    CatalogAggregateType AggregateTypeDefinition bool
  | CatalogNotFound
  | CatalogConflict reason
  | CatalogInvalid reason

record AggregateCatalogApply =
  ca_revision :: u64
  ca_outcome :: AggregateCatalogOutcome

text \<open>\<open>self.revision += 1\<close> and \<open>insert\<close> or update in place of one definition.\<close>

definition catalog_put :: "AggregateCatalog \<Rightarrow> AggregateTypeId \<Rightarrow> AggregateTypeDefinition \<Rightarrow> AggregateCatalog"
where
  "catalog_put c t d =
     c\<lparr>cat_revision := cat_revision c + 1,
       cat_aggregate_types := fmupd t d (cat_aggregate_types c)\<rparr>"

definition catalog_create ::
  "(bytes \<Rightarrow> u128) \<Rightarrow> AggregateCatalog \<Rightarrow> AggregateTypeId \<Rightarrow> uuid \<Rightarrow> seed \<Rightarrow> (u16, u64) fmap
     \<Rightarrow> AggregateCatalog \<times> AggregateCatalogOutcome" where
  "catalog_create xxh3_128 c t operation_id seed placements =
     (case AggregateTypeId_validate t of
        Inl e \<Rightarrow> (c, CatalogInvalid (case e of InvalidInput r \<Rightarrow> r | _ \<Rightarrow> Type_Id_Shape))
      | Inr _ \<Rightarrow>
          (case fmlookup (cat_aggregate_types c) t of
             Some existing \<Rightarrow>
               if def_create_operation_id existing = operation_id
                  \<and> def_create_plan_fingerprint existing = create_plan_fingerprint xxh3_128 seed placements
               then (c, CatalogAggregateType existing False)
               else (c, CatalogConflict Type_Defined_By_Other)
           | None \<Rightarrow>
               (case AggregateTypeDefinition_create xxh3_128 t operation_id seed placements of
                  Inr created \<Rightarrow> (catalog_put c t created, CatalogAggregateType created True)
                | Inl r \<Rightarrow> (c, CatalogInvalid r))))"

definition catalog_activate ::
  "AggregateCatalog \<Rightarrow> AggregateTypeId \<Rightarrow> uuid \<Rightarrow> AggregateCatalog \<times> AggregateCatalogOutcome" where
  "catalog_activate c t operation_id =
     (case fmlookup (cat_aggregate_types c) t of
        None \<Rightarrow> (c, CatalogNotFound)
      | Some existing \<Rightarrow>
          if def_create_operation_id existing \<noteq> operation_id
          then (c, CatalogConflict Activate_Operation_Mismatch)
          else if def_status existing = Active then (c, CatalogAggregateType existing False)
          else let d = existing\<lparr>def_status := Active\<rparr>
               in (catalog_put c t d, CatalogAggregateType d True))"

definition prepare_move ::
  "AggregateCatalog \<Rightarrow> AggregateTypeId \<Rightarrow> u16 \<Rightarrow> u64 \<Rightarrow> u64 \<Rightarrow> uuid
     \<Rightarrow> AggregateCatalog \<times> AggregateCatalogOutcome" where
  "prepare_move c t partition_id expected_generation target_shard operation_id =
     (case fmlookup (cat_aggregate_types c) t of
        None \<Rightarrow> (c, CatalogNotFound)
      | Some d \<Rightarrow>
          if def_status d \<noteq> Active then (c, CatalogInvalid Move_Requires_Active)
          else (case fmlookup (def_placements d) partition_id of
            None \<Rightarrow> (c, CatalogInvalid Partition_Out_Of_Range)
          | Some placement \<Rightarrow>
              (case pl_pending_move placement of
                 Some pending \<Rightarrow>
                   if mv_operation_id pending = operation_id
                      \<and> mv_target_shard pending = target_shard
                      \<and> mv_source_shard pending = pl_shard_id placement
                   then (c, CatalogAggregateType d False)
                   else (c, CatalogConflict Move_Already_Pending)
               | None \<Rightarrow>
                   if pl_generation placement \<noteq> expected_generation
                   then (c, CatalogConflict (Generation_Changed expected_generation (pl_generation placement)))
                   else if pl_shard_id placement = target_shard
                   then (c, CatalogInvalid Move_To_Current_Shard)
                   else (case checked_add (pl_generation placement) 1 of
                           None \<Rightarrow> (c, CatalogInvalid Generation_Exhausted)
                         | Some next_generation \<Rightarrow>
                             let placement' = placement\<lparr>pl_pending_move :=
                                   Some \<lparr>mv_operation_id = operation_id,
                                         mv_source_shard = pl_shard_id placement,
                                         mv_target_shard = target_shard,
                                         mv_next_generation = next_generation\<rparr>\<rparr>;
                                 d' = d\<lparr>def_placements := fmupd partition_id placement' (def_placements d)\<rparr>
                             in (catalog_put c t d', CatalogAggregateType d' True)))))"

definition complete_move ::
  "AggregateCatalog \<Rightarrow> AggregateTypeId \<Rightarrow> u16 \<Rightarrow> uuid \<Rightarrow> AggregateCatalog \<times> AggregateCatalogOutcome"
where
  "complete_move c t partition_id operation_id =
     (case fmlookup (cat_aggregate_types c) t of
        None \<Rightarrow> (c, CatalogNotFound)
      | Some d \<Rightarrow>
          (case fmlookup (def_placements d) partition_id of
             None \<Rightarrow> (c, CatalogInvalid Partition_Out_Of_Range)
           | Some placement \<Rightarrow>
               (case pl_pending_move placement of
                  None \<Rightarrow>
                    if pl_last_completed_operation placement = Some operation_id
                    then (c, CatalogAggregateType d False)
                    else (c, CatalogConflict No_Pending_Move)
                | Some pending \<Rightarrow>
                    if mv_operation_id pending \<noteq> operation_id
                    then (c, CatalogConflict Complete_Operation_Mismatch)
                    else let placement' = placement\<lparr>pl_shard_id := mv_target_shard pending,
                               pl_generation := mv_next_generation pending,
                               pl_pending_move := None,
                               pl_last_completed_operation := Some operation_id\<rparr>;
                             d' = d\<lparr>def_placements := fmupd partition_id placement' (def_placements d)\<rparr>
                         in (catalog_put c t d', CatalogAggregateType d' True))))"

fun catalog_command ::
  "(bytes \<Rightarrow> u128) \<Rightarrow> AggregateCatalog \<Rightarrow> AggregateCatalogCommand
     \<Rightarrow> AggregateCatalog \<times> AggregateCatalogOutcome" where
  "catalog_command xxh3_128 c (CatalogCreate t op seed placements) =
     catalog_create xxh3_128 c t op seed placements"
| "catalog_command xxh3_128 c (CatalogActivate t op) = catalog_activate c t op"
| "catalog_command xxh3_128 c (CatalogPrepareMove t p g shard op) = prepare_move c t p g shard op"
| "catalog_command xxh3_128 c (CatalogCompleteMove t p op) = complete_move c t p op"

definition AggregateCatalog_apply ::
  "(bytes \<Rightarrow> u128) \<Rightarrow> AggregateCatalog \<Rightarrow> AggregateCatalogCommand
     \<Rightarrow> AggregateCatalog \<times> AggregateCatalogApply" where
  "AggregateCatalog_apply xxh3_128 c command =
     (let (c', outcome) = catalog_command xxh3_128 c command
      in (c', \<lparr>ca_revision = cat_revision c', ca_outcome = outcome\<rparr>))"

section \<open>Well-formed catalogs\<close>

definition wf_placement :: "PartitionPlacement \<Rightarrow> bool" where
  "wf_placement p \<longleftrightarrow> 1 \<le> pl_generation p \<and>
     (case pl_pending_move p of None \<Rightarrow> True
      | Some m \<Rightarrow> mv_source_shard m = pl_shard_id p \<and> mv_target_shard m \<noteq> pl_shard_id p
               \<and> unat (mv_next_generation m) = Suc (unat (pl_generation p)))"

definition wf_definition :: "AggregateTypeId \<Rightarrow> AggregateTypeDefinition \<Rightarrow> bool" where
  "wf_definition t d \<longleftrightarrow>
     def_id d = t \<and> valid_type_id t \<and> def_partition_count d = EVENT_PARTITION_COUNT
     \<and> fmdom (def_placements d) = fset_of_list (partitions EVENT_PARTITION_COUNT)
     \<and> (\<forall>n p. fmlookup (def_placements d) n = Some p \<longrightarrow> wf_placement p
          \<and> (def_status d = Registering \<longrightarrow> pl_generation p = 1 \<and> pl_pending_move p = None))"

definition wf_catalog :: "AggregateCatalog \<Rightarrow> bool" where
  "wf_catalog c \<longleftrightarrow> (\<forall>t d. fmlookup (cat_aggregate_types c) t = Some d \<longrightarrow> wf_definition t d)"

fun outcome_changed :: "AggregateCatalogOutcome \<Rightarrow> bool" where
  "outcome_changed (CatalogAggregateType _ changed) = changed"
| "outcome_changed _ = False"

lemma fcard_partitions: "fcard (fset_of_list (partitions n)) = unat n"
proof -
  have "distinct (partitions n)"
    unfolding partitions_def distinct_map
  proof (intro conjI inj_onI)
    fix x y assume "x \<in> set [0..<unat n]" "y \<in> set [0..<unat n]"
      and eq: "(word_of_nat x :: u16) = word_of_nat y"
    moreover have "unat n < 65536" using unsigned_less [of n] by simp
    ultimately have "x < 65536" "y < 65536" by auto
    with eq show "x = y" by (simp add: word_unat_eq_iff unat_of_nat)
  qed simp
  then show ?thesis
    by (simp add: fcard.rep_eq fset_of_list.rep_eq distinct_card) (simp add: partitions_def)
qed

lemma complete_partition_map_dom:
  assumes "complete_partition_map n m"
  shows "fmdom m = fset_of_list (partitions n)"
proof -
  have sub: "fset_of_list (partitions n) |\<subseteq>| fmdom m"
    using assms by (auto simp: complete_partition_map_def list_all_iff fset_of_list_elem fmlookup_dom_iff)
  have "fcard (fset_of_list (partitions n)) = fcard (fmdom m)"
    using assms by (simp add: fcard_partitions complete_partition_map_def fm_len_def)
  with sub show ?thesis
    by (metis fcard_seteq order_refl)
qed

text \<open>The commands differ in which definition they put; \<open>catalog_step\<close> lists the four ways.\<close>

inductive catalog_step ::
  "AggregateCatalog \<Rightarrow> AggregateTypeId \<Rightarrow> AggregateTypeDefinition option \<Rightarrow> AggregateTypeDefinition \<Rightarrow> bool"
where
  created: "fmlookup (cat_aggregate_types c) t = None \<Longrightarrow> valid_type_id t \<Longrightarrow>
     AggregateTypeDefinition_create f t op s ps = Inr d \<Longrightarrow> catalog_step c t None d"
| activated: "fmlookup (cat_aggregate_types c) t = Some d \<Longrightarrow> def_status d = Registering \<Longrightarrow>
     catalog_step c t (Some d) (d\<lparr>def_status := Active\<rparr>)"
| prepared: "fmlookup (cat_aggregate_types c) t = Some d \<Longrightarrow> def_status d = Active \<Longrightarrow>
     fmlookup (def_placements d) n = Some p \<Longrightarrow> pl_pending_move p = None \<Longrightarrow>
     mv_source_shard m = pl_shard_id p \<Longrightarrow> mv_target_shard m \<noteq> pl_shard_id p \<Longrightarrow>
     unat (mv_next_generation m) = Suc (unat (pl_generation p)) \<Longrightarrow>
     catalog_step c t (Some d)
       (d\<lparr>def_placements := fmupd n (p\<lparr>pl_pending_move := Some m\<rparr>) (def_placements d)\<rparr>)"
| completed: "fmlookup (cat_aggregate_types c) t = Some d \<Longrightarrow>
     fmlookup (def_placements d) n = Some p \<Longrightarrow> pl_pending_move p = Some m \<Longrightarrow>
     catalog_step c t (Some d)
       (d\<lparr>def_placements := fmupd n (p\<lparr>pl_shard_id := mv_target_shard m,
            pl_generation := mv_next_generation m, pl_pending_move := None,
            pl_last_completed_operation := Some op\<rparr>) (def_placements d)\<rparr>)"

definition catalog_result :: "AggregateCatalog \<Rightarrow> AggregateCatalog \<times> AggregateCatalogOutcome \<Rightarrow> bool"
where
  "catalog_result c r \<longleftrightarrow> (fst r = c \<and> \<not> outcome_changed (snd r))
     \<or> (\<exists>t old d. catalog_step c t old d \<and> r = (catalog_put c t d, CatalogAggregateType d True))"

lemma catalog_result_same [simp]: "\<not> outcome_changed out \<Longrightarrow> catalog_result c (c, out)"
  by (simp add: catalog_result_def)

lemma catalog_result_put [simp]:
  "catalog_step c t old d \<Longrightarrow> catalog_result c (catalog_put c t d, CatalogAggregateType d True)"
  by (auto simp: catalog_result_def)

lemma catalog_create_result: "catalog_result c (catalog_create f c t op s ps)"
proof (cases t rule: AggregateTypeId_validate_cases)
  case ok
  then show ?thesis
    by (auto simp: catalog_create_def intro: catalog_result_put created
        split: option.splits sum.splits)
next
  case err
  then show ?thesis by (simp add: catalog_create_def)
qed

lemma catalog_activate_result: "catalog_result c (catalog_activate c t op)"
proof -
  have "catalog_step c t (Some d) (d\<lparr>def_status := Active\<rparr>)"
    if "fmlookup (cat_aggregate_types c) t = Some d" "def_status d \<noteq> Active" for d
    using that activated by (metis AggregateTypeStatus.exhaust)
  then show ?thesis
    by (auto simp: catalog_activate_def Let_def intro: catalog_result_put split: option.splits)
qed

lemma prepare_move_result: "catalog_result c (prepare_move c t n g shard op)"
  by (auto simp: prepare_move_def Let_def checked_add_Some_iff intro!: catalog_result_put prepared
      split: option.splits)

lemma complete_move_result: "catalog_result c (complete_move c t n op)"
  by (auto simp: complete_move_def Let_def intro!: catalog_result_put completed split: option.splits)

lemma catalog_command_result: "catalog_result c (catalog_command f c cmd)"
  by (cases cmd)
    (simp_all add: catalog_create_result catalog_activate_result prepare_move_result complete_move_result)

lemma catalog_command_cases:
  obtains (same) out where "catalog_command f c cmd = (c, out)" "\<not> outcome_changed out"
  | (step) t old d where "catalog_step c t old d"
      "catalog_command f c cmd = (catalog_put c t d, CatalogAggregateType d True)"
  using catalog_command_result [of c f cmd] unfolding catalog_result_def
  by (metis prod.collapse)

lemma lookup_catalog_put [simp]:
  "fmlookup (cat_aggregate_types (catalog_put c t d)) u =
     (if u = t then Some d else fmlookup (cat_aggregate_types c) u)"
  by (simp add: catalog_put_def)

lemma catalog_step_old: "catalog_step c t old d \<Longrightarrow> fmlookup (cat_aggregate_types c) t = old"
  by (auto elim: catalog_step.cases)

lemma wf_definition_create:
  assumes "AggregateTypeDefinition_create f t op s ps = Inr d" "valid_type_id t"
  shows "wf_definition t d"
proof -
  from assms have "complete_partition_map EVENT_PARTITION_COUNT ps"
    by (auto simp: AggregateTypeDefinition_create_def split: if_splits)
  note dom = complete_partition_map_dom [OF this]
  from assms show ?thesis
    by (auto simp: AggregateTypeDefinition_create_def wf_definition_def wf_placement_def dom
        simp flip: fset_of_list_elem split: if_splits)
qed

lemma wf_definition_upd:
  assumes "wf_definition t d" "fmlookup (def_placements d) n = Some p" "wf_placement q"
    and "def_status d = Registering \<Longrightarrow> pl_generation q = 1 \<and> pl_pending_move q = None"
  shows "wf_definition t (d\<lparr>def_placements := fmupd n q (def_placements d)\<rparr>)"
  using assms by (auto simp: wf_definition_def finsert_absorb dest: fmdomI)

lemma wf_definition_placement:
  assumes "wf_definition t d" "fmlookup (def_placements d) n = Some p"
  shows "wf_placement p"
    and "pl_pending_move p = Some m \<Longrightarrow> def_status d = Active"
  using assms by (cases "def_status d"; auto simp: wf_definition_def)+

lemma catalog_step_wf:
  assumes "catalog_step c t old d" "wf_catalog c"
  shows "wf_definition t d"
  using assms(1)
proof cases
  case (created f op s ps)
  then show ?thesis by (simp add: wf_definition_create)
next
  case (activated d0)
  with assms(2) show ?thesis by (simp add: wf_catalog_def wf_definition_def)
next
  case (prepared d0 n p m)
  with assms(2) have wf: "wf_definition t d0" by (simp add: wf_catalog_def)
  with prepared have "wf_placement p" by (blast intro: wf_definition_placement)
  with prepared have "wf_placement (p\<lparr>pl_pending_move := Some m\<rparr>)"
    by (simp add: wf_placement_def)
  with prepared wf show ?thesis by (auto intro: wf_definition_upd)
next
  case (completed d0 n p m op)
  with assms(2) have wf: "wf_definition t d0" by (simp add: wf_catalog_def)
  with completed have p: "wf_placement p" and "def_status d0 = Active"
    by (blast intro: wf_definition_placement)+
  moreover from p completed have "1 \<le> mv_next_generation m"
    by (auto simp: wf_placement_def word_le_nat_alt)
  ultimately show ?thesis
    using completed wf by (auto simp: wf_placement_def intro!: wf_definition_upd)
qed

lemma wf_catalog_default: "wf_catalog AggregateCatalog_default"
  by (simp add: wf_catalog_def AggregateCatalog_default_def)

lemma fst_AggregateCatalog_apply:
  "fst (AggregateCatalog_apply f c cmd) = fst (catalog_command f c cmd)"
  "ca_outcome (snd (AggregateCatalog_apply f c cmd)) = snd (catalog_command f c cmd)"
  "ca_revision (snd (AggregateCatalog_apply f c cmd)) = cat_revision (fst (catalog_command f c cmd))"
  by (simp_all add: AggregateCatalog_apply_def split: prod.splits)

lemma wf_catalog_apply: "wf_catalog c \<Longrightarrow> wf_catalog (fst (AggregateCatalog_apply f c cmd))"
proof (cases rule: catalog_command_cases [of f c cmd])
  case (step t old d)
  assume "wf_catalog c"
  with step have "wf_definition t d" by (blast intro: catalog_step_wf)
  with step \<open>wf_catalog c\<close> show ?thesis
    by (simp add: fst_AggregateCatalog_apply wf_catalog_def)
qed (simp add: fst_AggregateCatalog_apply)

section \<open>What later catalogs keep of earlier ones\<close>

text \<open>
  Ownership of a partition: the generation never decreases, and one generation has one shard.
  A definition, once created, keeps what routing and the creation retry depend on.
\<close>

definition placement_below :: "PartitionPlacement \<Rightarrow> PartitionPlacement \<Rightarrow> bool" where
  "placement_below p q \<longleftrightarrow> pl_generation p \<le> pl_generation q
     \<and> (pl_generation p = pl_generation q \<longrightarrow> pl_shard_id p = pl_shard_id q)"

definition placements_below ::
  "(u16, PartitionPlacement) fmap \<Rightarrow> (u16, PartitionPlacement) fmap \<Rightarrow> bool" where
  "placements_below m m' \<longleftrightarrow> (\<forall>n p. fmlookup m n = Some p \<longrightarrow>
     (\<exists>q. fmlookup m' n = Some q \<and> placement_below p q))"

definition definition_below :: "AggregateTypeDefinition \<Rightarrow> AggregateTypeDefinition \<Rightarrow> bool" where
  "definition_below d e \<longleftrightarrow>
     def_id d = def_id e \<and> def_create_operation_id d = def_create_operation_id e
     \<and> def_create_plan_fingerprint d = def_create_plan_fingerprint e
     \<and> def_seed d = def_seed e \<and> def_partition_count d = def_partition_count e
     \<and> def_hash_algorithm d = def_hash_algorithm e
     \<and> (def_status d = Active \<longrightarrow> def_status e = Active)
     \<and> placements_below (def_placements d) (def_placements e)"

definition catalog_below :: "AggregateCatalog \<Rightarrow> AggregateCatalog \<Rightarrow> bool" where
  "catalog_below c c' \<longleftrightarrow>
     (\<forall>t d. fmlookup (cat_aggregate_types c) t = Some d \<longrightarrow>
        (\<exists>e. fmlookup (cat_aggregate_types c') t = Some e \<and> definition_below d e))"

lemma placement_below_refl [simp]: "placement_below p p"
  by (simp add: placement_below_def)

lemma placement_below_trans: "placement_below p q \<Longrightarrow> placement_below q r \<Longrightarrow> placement_below p r"
  by (auto simp: placement_below_def)

lemma placements_below_trans:
  "placements_below m m' \<Longrightarrow> placements_below m' m'' \<Longrightarrow> placements_below m m''"
  unfolding placements_below_def by (blast intro: placement_below_trans)

lemma definition_below_refl [simp]: "definition_below d d"
  by (simp add: definition_below_def placements_below_def)

lemma definition_below_trans: "definition_below d e \<Longrightarrow> definition_below e f \<Longrightarrow> definition_below d f"
  using placements_below_trans [of "def_placements d" "def_placements e" "def_placements f"]
  by (simp add: definition_below_def)

lemma definition_below_upd:
  assumes "fmlookup (def_placements d) n = Some p" "placement_below p q"
  shows "definition_below d (d\<lparr>def_placements := fmupd n q (def_placements d)\<rparr>)"
  using assms by (auto simp: definition_below_def placements_below_def)

lemma catalog_step_below:
  assumes "catalog_step c t (Some d) e" "wf_catalog c"
  shows "definition_below d e"
  using assms(1)
proof cases
  case activated
  then show ?thesis by (simp add: definition_below_def placements_below_def)
next
  case prepared
  then show ?thesis by (auto simp: placement_below_def intro!: definition_below_upd)
next
  case (completed n p m op)
  then have "wf_placement p"
    using assms(2) by (auto simp: wf_catalog_def intro: wf_definition_placement)
  with completed show ?thesis
    by (auto simp: wf_placement_def placement_below_def word_le_nat_alt word_unat_eq_iff
        intro!: definition_below_upd)
qed

lemma catalog_below_apply:
  assumes "wf_catalog c"
  shows "catalog_below c (fst (AggregateCatalog_apply f c cmd))"
proof (cases rule: catalog_command_cases [of f c cmd])
  case same
  then show ?thesis by (simp add: fst_AggregateCatalog_apply catalog_below_def)
next
  case (step t old d)
  have "definition_below e d" if "fmlookup (cat_aggregate_types c) t = Some e" for e
    using that step(1) assms catalog_step_below catalog_step_old by metis
  with step(2) show ?thesis by (auto simp: fst_AggregateCatalog_apply catalog_below_def)
qed

interpretation catalog: monotone_machine "AggregateCatalog_apply f" wf_catalog catalog_below
proof
  show "catalog_below s u" if "catalog_below s t" "catalog_below t u" for s t u
    using that unfolding catalog_below_def by (metis definition_below_trans)
qed (simp_all add: wf_catalog_apply catalog_below_apply, simp add: catalog_below_def)

interpretation catalog_rev: revisioned_machine "AggregateCatalog_apply f" cat_revision
  "\<lambda>r. outcome_changed (ca_outcome r)" "\<lambda>n. n + 1"
proof
  show "fst (AggregateCatalog_apply f c cmd) = c"
    if "\<not> outcome_changed (ca_outcome (snd (AggregateCatalog_apply f c cmd)))" for c cmd
    using that by (cases rule: catalog_command_cases [of f c cmd]) (simp_all add: fst_AggregateCatalog_apply)
  show "cat_revision (fst (AggregateCatalog_apply f c cmd)) = cat_revision c + 1"
    if "outcome_changed (ca_outcome (snd (AggregateCatalog_apply f c cmd)))" for c cmd
    using that
    by (cases rule: catalog_command_cases [of f c cmd]) (simp_all add: fst_AggregateCatalog_apply catalog_put_def)
qed

section \<open>Retries\<close>

lemma catalog_command_retry:
  assumes "catalog_command f c cmd = (c', CatalogAggregateType d ch)"
  shows "catalog_command f c' cmd = (c', CatalogAggregateType d False)"
proof (cases cmd)
  case (CatalogCreate t op s ps)
  show ?thesis
  proof (cases t rule: AggregateTypeId_validate_cases)
    case ok
    with assms show ?thesis
      by (auto simp: CatalogCreate catalog_create_def AggregateTypeDefinition_create_def
          split: option.splits if_splits)
  next
    case err
    with assms show ?thesis by (simp add: CatalogCreate catalog_create_def)
  qed
next
  case (CatalogActivate t op)
  with assms show ?thesis
    by (auto simp: catalog_activate_def Let_def split: option.splits if_splits)
next
  case (CatalogPrepareMove t n g shard op)
  with assms obtain d0 p where d0: "fmlookup (cat_aggregate_types c) t = Some d0" "def_status d0 = Active"
    and p: "fmlookup (def_placements d0) n = Some p"
    by (simp add: prepare_move_def split: option.splits if_splits)
  show ?thesis
  proof (cases "pl_pending_move p")
    case None
    with CatalogPrepareMove assms d0 p obtain next_generation where
      "checked_add (pl_generation p) 1 = Some next_generation" "pl_generation p = g" "pl_shard_id p \<noteq> shard"
      by (simp add: prepare_move_def split: option.splits if_splits)
    with None CatalogPrepareMove assms d0 p show ?thesis
      by (simp add: prepare_move_def Let_def) (clarsimp simp: d0)
  next
    case (Some m)
    with CatalogPrepareMove assms d0 p show ?thesis
      by (simp add: prepare_move_def split: if_splits)
  qed
next
  case (CatalogCompleteMove t n op)
  with assms show ?thesis
    by (auto simp: complete_move_def Let_def split: option.splits if_splits)
qed

lemma catalog_create_accepted:
  assumes "catalog_command f c (CatalogCreate t op s ps) = (c', CatalogAggregateType d ch)"
  shows "valid_type_id t" "fmlookup (cat_aggregate_types c') t = Some d"
    "def_create_operation_id d = op" "def_create_plan_fingerprint d = create_plan_fingerprint f s ps"
  using assms
  by (cases t rule: AggregateTypeId_validate_cases;
      auto simp: catalog_create_def AggregateTypeDefinition_create_def split: option.splits if_splits)+

section \<open>Properties\<close>

text \<open>Every catalog the control shard can reach from the empty one is well formed: a definition
  is filed under its own valid identity, has exactly the partitions 0 to 255, each with a
  generation of at least 1, and a pending move leaves the current shard for a different one at
  the next generation; a type that is still registering has no move.\<close>

theorem catalog_reachable_wf:
  "wf_catalog (run_commands (AggregateCatalog_apply xxh3_128) AggregateCatalog_default cmds)"
  by (rule catalog.run_wf [OF wf_catalog_default])

text \<open>The catalog revision counts the replies with \<open>changed: true\<close>, and every other reply, in
  particular every error, leaves the catalog as it was.\<close>

theorem catalog_revision_counts_changes:
  "cat_revision (run_commands (AggregateCatalog_apply xxh3_128) AggregateCatalog_default cmds)
     = of_nat (length (filter (\<lambda>r. outcome_changed (ca_outcome r))
         (run_replies (AggregateCatalog_apply xxh3_128) AggregateCatalog_default cmds)))
   \<and> (outcome_changed (ca_outcome (snd (AggregateCatalog_apply xxh3_128 c cmd)))
      \<or> fst (AggregateCatalog_apply xxh3_128 c cmd) = c)"
proof -
  have "((\<lambda>n. n + 1) ^^ k) 0 = (of_nat k :: u64)" for k
    by (induction k) simp_all
  then show ?thesis
    using catalog_rev.unchanged [of xxh3_128 c cmd]
    by (auto simp: catalog_rev.run_revision AggregateCatalog_default_def)
qed

text \<open>C39: ownership of a partition is fenced by its generation and routing never changes. Whatever
  commands follow, a type that exists keeps existing, every aggregate id keeps its partition, and
  a partition's generation never decreases; while the generation stays, so does the owning shard.\<close>

theorem catalog_ownership_fenced:
  assumes "fmlookup (cat_aggregate_types
      (run_commands (AggregateCatalog_apply xxh3_128) AggregateCatalog_default cmds)) t = Some d"
    and "fmlookup (def_placements d) n = Some p"
  shows "\<exists>e q. fmlookup (cat_aggregate_types
      (run_commands (AggregateCatalog_apply xxh3_128) AggregateCatalog_default (cmds @ later))) t = Some e
    \<and> partition_for xxh3 e = partition_for xxh3 d
    \<and> fmlookup (def_placements e) n = Some q
    \<and> pl_generation p \<le> pl_generation q
    \<and> (pl_generation p = pl_generation q \<longrightarrow> pl_shard_id p = pl_shard_id q)"
proof -
  let ?c = "run_commands (AggregateCatalog_apply xxh3_128) AggregateCatalog_default cmds"
  have "wf_catalog ?c" by (rule catalog.run_wf [OF wf_catalog_default])
  then have "catalog_below ?c (run_commands (AggregateCatalog_apply xxh3_128) ?c later)"
    by (rule catalog.run_below)
  with assms(1) obtain e where e: "fmlookup (cat_aggregate_types
      (run_commands (AggregateCatalog_apply xxh3_128) ?c later)) t = Some e"
    and below: "definition_below d e"
    by (auto simp: catalog_below_def)
  from below have "partition_for xxh3 e = partition_for xxh3 d"
    by (simp add: definition_below_def partition_for_def fun_eq_iff)
  moreover from below assms(2) obtain q where "fmlookup (def_placements e) n = Some q" "placement_below p q"
    by (auto simp: definition_below_def placements_below_def)
  ultimately show ?thesis using e by (auto simp: placement_below_def)
qed

definition sample_placements :: "(u16, u64) fmap" where
  "sample_placements = fmap_of_list (map (\<lambda>p. (p, 1)) (partitions EVENT_PARTITION_COUNT))"

definition sample_type :: AggregateTypeId where
  "sample_type = AggregateTypeId ''shop'' ''order''"

definition sample_create :: "AggregateCatalogCommand list" where
  "sample_create = [CatalogCreate sample_type 7 9 sample_placements, CatalogActivate sample_type 7]"

lemma fmlookup_sample_placements:
  "fmlookup sample_placements n = (if unat n < 256 then Some 1 else None)"
proof -
  have "n = word_of_nat (unat n)" by simp
  then have "n \<in> set (partitions EVENT_PARTITION_COUNT) \<longleftrightarrow> unat n < 256"
    by (force simp: partitions_def EVENT_PARTITION_COUNT_def unat_of_nat)
  moreover have "map_of (map (\<lambda>p. (p, 1 :: u64)) ns) n = (if n \<in> set ns then Some 1 else None)" for ns
    by (induction ns) auto
  ultimately show ?thesis by (simp add: sample_placements_def fmlookup_of_list)
qed

lemma sample_complete: "complete_partition_map EVENT_PARTITION_COUNT sample_placements"
proof -
  have "fmdom sample_placements = fset_of_list (partitions EVENT_PARTITION_COUNT)"
    by (simp add: sample_placements_def comp_def)
  then show ?thesis
    by (auto simp: complete_partition_map_def fm_len_def fcard_partitions list_all_iff
        fset_of_list_elem [symmetric] fmlookup_dom_iff)
qed

lemma sample_type_valid [simp]: "valid_type_id sample_type"
proof -
  have "AggregateTypeId_validate sample_type = Inr ()" by code_simp
  then show ?thesis by simp
qed

lemmas sample_simps = sample_complete sample_type_valid catalog_create_def AggregateTypeDefinition_create_def
  AggregateCatalog_apply_def create_plan_fingerprint_def AggregateCatalog_default_def sample_create_def

theorem catalog_ownership_fenced_witness:
  "\<exists>e q. fmlookup (cat_aggregate_types (run_commands (AggregateCatalog_apply (\<lambda>_. 0))
      AggregateCatalog_default
      (sample_create @ [CatalogPrepareMove sample_type 3 1 2 8, CatalogCompleteMove sample_type 3 8])))
      sample_type = Some e
    \<and> fmlookup (def_placements e) 3 = Some q \<and> 1 \<le> pl_generation q"
proof -
  let ?c = "run_commands (AggregateCatalog_apply (\<lambda>_. 0)) AggregateCatalog_default sample_create"
  obtain d p where "fmlookup (cat_aggregate_types ?c) sample_type = Some d"
    "fmlookup (def_placements d) 3 = Some p" "pl_generation p = 1"
    by (simp add: sample_simps catalog_activate_def Let_def fmlookup_sample_placements)
  from catalog_ownership_fenced [where ?xxh3.0 = "\<lambda>_. 0" and
      later = "[CatalogPrepareMove sample_type 3 1 2 8, CatalogCompleteMove sample_type 3 8]",
      OF this(1,2)] this(3)
  show ?thesis by metis
qed

text \<open>Retrying a catalog command that was accepted is idempotent: the second application
  changes nothing and returns the same definition with \<open>changed: false\<close>.\<close>

theorem catalog_retry_idempotent:
  assumes "AggregateCatalog_apply xxh3_128 c cmd = (c', r)"
    and "ca_outcome r = CatalogAggregateType d ch"
  shows "AggregateCatalog_apply xxh3_128 c' cmd
    = (c', \<lparr>ca_revision = cat_revision c', ca_outcome = CatalogAggregateType d False\<rparr>)"
  using assms catalog_command_retry [of xxh3_128 c cmd c' d ch]
  by (auto simp: AggregateCatalog_apply_def Let_def split: prod.splits)

theorem catalog_retry_idempotent_witness:
  "\<exists>c' d. AggregateCatalog_apply (\<lambda>_. 0) c' (CatalogCreate sample_type 7 9 sample_placements)
    = (c', \<lparr>ca_revision = cat_revision c', ca_outcome = CatalogAggregateType d False\<rparr>)"
proof -
  let ?r = "AggregateCatalog_apply (\<lambda>_. 0) AggregateCatalog_default
    (CatalogCreate sample_type 7 9 sample_placements)"
  obtain d ch where "ca_outcome (snd ?r) = CatalogAggregateType d ch"
    by (simp add: sample_simps)
  from catalog_retry_idempotent [OF prod.collapse [symmetric] this] show ?thesis by blast
qed

text \<open>The reply to a creation survives later history: once a Create was accepted, repeating it
  after any other commands still succeeds without changing the catalog, although moves may have
  changed the placements meanwhile.\<close>

theorem catalog_create_retry_later:
  assumes "AggregateCatalog_apply xxh3_128
      (run_commands (AggregateCatalog_apply xxh3_128) AggregateCatalog_default cmds)
      (CatalogCreate t op seed ps) = (c, r)"
    and "ca_outcome r = CatalogAggregateType d ch"
  shows "\<exists>e. AggregateCatalog_apply xxh3_128 (run_commands (AggregateCatalog_apply xxh3_128) c later)
        (CatalogCreate t op seed ps)
      = (run_commands (AggregateCatalog_apply xxh3_128) c later,
         \<lparr>ca_revision = cat_revision (run_commands (AggregateCatalog_apply xxh3_128) c later),
          ca_outcome = CatalogAggregateType e False\<rparr>)"
proof -
  let ?c0 = "run_commands (AggregateCatalog_apply xxh3_128) AggregateCatalog_default cmds"
  from assms have acc: "catalog_command xxh3_128 ?c0 (CatalogCreate t op seed ps)
      = (c, CatalogAggregateType d ch)"
    by (auto simp: AggregateCatalog_apply_def split: prod.splits)
  have "wf_catalog ?c0" by (rule catalog.run_wf [OF wf_catalog_default])
  then have "wf_catalog (fst (AggregateCatalog_apply xxh3_128 ?c0 (CatalogCreate t op seed ps)))"
    by (rule wf_catalog_apply)
  then have "wf_catalog c" using assms(1) by simp
  then have "catalog_below c (run_commands (AggregateCatalog_apply xxh3_128) c later)"
    by (rule catalog.run_below)
  with catalog_create_accepted(2) [OF acc] obtain e where "fmlookup (cat_aggregate_types
      (run_commands (AggregateCatalog_apply xxh3_128) c later)) t = Some e" "definition_below d e"
    by (auto simp: catalog_below_def)
  then show ?thesis
    using catalog_create_accepted [OF acc]
    by (auto simp: AggregateCatalog_apply_def catalog_create_def definition_below_def)
qed

theorem catalog_create_retry_later_witness:
  "\<exists>c e. AggregateCatalog_apply (\<lambda>_. 0) c (CatalogCreate sample_type 7 9 sample_placements)
      = (c, \<lparr>ca_revision = cat_revision c, ca_outcome = CatalogAggregateType e False\<rparr>)"
proof -
  let ?r = "AggregateCatalog_apply (\<lambda>_. 0)
    (run_commands (AggregateCatalog_apply (\<lambda>_. 0)) AggregateCatalog_default [])
    (CatalogCreate sample_type 7 9 sample_placements)"
  obtain d ch where "ca_outcome (snd ?r) = CatalogAggregateType d ch"
    by (simp add: sample_simps)
  from catalog_create_retry_later [OF prod.collapse [symmetric] this, of "[CatalogActivate sample_type 7]"]
  show ?thesis by blast
qed

end
