(* ===== verification/Group_Catalog.thy ===== *)
theory Group_Catalog
  imports Catalog
begin

text \<open>
  The consumer group definitions of \<open>es-core/src/aggregate_group.rs\<close> kept by the control shard:
  quota, lease and backoff settings, the group definition, and the group catalog with its
  Create, Replace and Delete commands. The catalog revision saturates, as in the source.
\<close>

definition DEFAULT_AGGREGATE_GROUP_FETCH_EVENTS :: u32 where
  "DEFAULT_AGGREGATE_GROUP_FETCH_EVENTS = 100"
definition MAX_AGGREGATE_GROUP_FETCH_EVENTS :: u32 where
  "MAX_AGGREGATE_GROUP_FETCH_EVENTS = 1000"
definition DEFAULT_AGGREGATE_GROUP_FETCH_BYTES :: u64 where
  "DEFAULT_AGGREGATE_GROUP_FETCH_BYTES = 4 * 1024 * 1024"
definition MAX_AGGREGATE_GROUP_FETCH_BYTES :: u64 where
  "MAX_AGGREGATE_GROUP_FETCH_BYTES = 7 * 1024 * 1024"
definition MAX_AGGREGATE_GROUP_FETCH_WAIT_MS :: u64 where
  "MAX_AGGREGATE_GROUP_FETCH_WAIT_MS = 30000"

datatype AggregateGroupStart = Beginning | Now

record AggregateGroupSettings =
  max_unacked_per_consumer :: u32
  max_unacked_per_group :: u32
  ack_timeout_ms :: u64
  max_retries :: u32
  retry_min_ms :: u64
  retry_max_ms :: u64

definition AggregateGroupSettings_default :: AggregateGroupSettings where
  "AggregateGroupSettings_default =
     \<lparr>max_unacked_per_consumer = 128, max_unacked_per_group = 4096, ack_timeout_ms = 10000,
      max_retries = 5, retry_min_ms = 100, retry_max_ms = 5000\<rparr>"

definition AggregateGroupSettings_validate :: "AggregateGroupSettings \<Rightarrow> (unit, reason) result" where
  "AggregateGroupSettings_validate s =
     (if max_unacked_per_consumer s = 0 \<or> max_unacked_per_group s = 0 then Inl Credit_Zero
      else if max_unacked_per_consumer s > max_unacked_per_group s then Inl Consumer_Credit_Above_Group
      else if ack_timeout_ms s = 0 then Inl Ack_Timeout_Zero
      else if retry_min_ms s = 0 \<or> retry_min_ms s > retry_max_ms s then Inl Retry_Range
      else Inr ())"

definition retry_delay_ms :: "AggregateGroupSettings \<Rightarrow> u32 \<Rightarrow> u64" where
  "retry_delay_ms s attempt =
     (let shift = min (saturating_sub attempt 1) 62
      in min (saturating_mul (retry_min_ms s) (push_bit (unat shift) 1)) (retry_max_ms s))"

record AggregateGroupDefinition =
  grp_aggregate_type :: AggregateTypeId
  grp_name :: string
  grp_revision :: u64
  grp_epoch :: u64
  grp_start :: AggregateGroupStart
  grp_partition_starts :: "(u16, u64) fmap"
  grp_settings :: AggregateGroupSettings
  grp_create_operation_id :: uuid
  grp_last_operation_id :: uuid

text \<open>\<open>map_err(|error| error.to_string())\<close>: the reason inside an invalid-input error.\<close>

definition reason_of :: "Error \<Rightarrow> reason" where
  "reason_of e = (case e of InvalidInput r \<Rightarrow> r | _ \<Rightarrow> Type_Id_Shape)"

definition AggregateGroupDefinition_validate ::
  "AggregateGroupDefinition \<Rightarrow> u16 \<Rightarrow> (unit, reason) result" where
  "AggregateGroupDefinition_validate d partition_count =
     rbind (map_err reason_of (AggregateTypeId_validate (grp_aggregate_type d))) (\<lambda>_.
     rbind (map_err reason_of (validate_aggregate_identifier ''group_name'' (grp_name d))) (\<lambda>_.
     rbind (AggregateGroupSettings_validate (grp_settings d)) (\<lambda>_.
     if \<not> complete_partition_map partition_count (grp_partition_starts d)
     then Inl (Partition_Starts_Incomplete partition_count)
     else Inr ())))"

type_synonym group_key = "AggregateTypeId \<times> string"

record AggregateGroupCatalog =
  gc_revision :: u64
  gc_groups :: "(group_key, AggregateGroupDefinition) fmap"
  gc_deleted_operations :: "(group_key, uuid) fmap"

definition AggregateGroupCatalog_default :: AggregateGroupCatalog where
  "AggregateGroupCatalog_default =
     \<lparr>gc_revision = 0, gc_groups = fmempty, gc_deleted_operations = fmempty\<rparr>"

datatype AggregateGroupCatalogCommand =
    GroupCreate AggregateGroupDefinition u16
  | GroupReplace AggregateGroupDefinition u64 u16 bool
  | GroupDelete AggregateTypeId string u64 uuid

datatype AggregateGroupCatalogOutcome =
    GroupOutcome AggregateGroupDefinition
  | GroupDeleted
  | GroupNotFound
  | GroupConflict "u64 option"
  | GroupInvalid reason

record AggregateGroupCatalogApply =
  ga_revision :: u64
  ga_outcome :: AggregateGroupCatalogOutcome

definition group_create ::
  "AggregateGroupCatalog \<Rightarrow> AggregateGroupDefinition \<Rightarrow> u16
     \<Rightarrow> AggregateGroupCatalog \<times> AggregateGroupCatalogOutcome" where
  "group_create g d partition_count =
     (let key = (grp_aggregate_type d, grp_name d)
      in case AggregateGroupDefinition_validate d partition_count of
           Inl r \<Rightarrow> (g, GroupInvalid r)
         | Inr _ \<Rightarrow>
             (case fmlookup (gc_groups g) key of
                Some existing \<Rightarrow>
                  if grp_create_operation_id existing = grp_create_operation_id d
                  then (g, GroupOutcome existing)
                  else (g, GroupConflict (Some (grp_revision existing)))
              | None \<Rightarrow>
                  let d' = d\<lparr>grp_revision := 1, grp_epoch := 1,
                             grp_last_operation_id := grp_create_operation_id d\<rparr>
                  in (g\<lparr>gc_deleted_operations := fmdrop key (gc_deleted_operations g),
                        gc_groups := fmupd key d' (gc_groups g),
                        gc_revision := saturating_add (gc_revision g) 1\<rparr>, GroupOutcome d')))"

definition group_replace ::
  "AggregateGroupCatalog \<Rightarrow> AggregateGroupDefinition \<Rightarrow> u64 \<Rightarrow> u16 \<Rightarrow> bool
     \<Rightarrow> AggregateGroupCatalog \<times> AggregateGroupCatalogOutcome" where
  "group_replace g d expected_revision partition_count reset =
     (let key = (grp_aggregate_type d, grp_name d)
      in case AggregateGroupDefinition_validate d partition_count of
           Inl r \<Rightarrow> (g, GroupInvalid r)
         | Inr _ \<Rightarrow>
             (case fmlookup (gc_groups g) key of
                None \<Rightarrow> (g, GroupNotFound)
              | Some existing \<Rightarrow>
                  if grp_last_operation_id existing = grp_last_operation_id d
                  then (g, GroupOutcome existing)
                  else if grp_revision existing \<noteq> expected_revision
                  then (g, GroupConflict (Some (grp_revision existing)))
                  else
                    let d' = d\<lparr>grp_create_operation_id := grp_create_operation_id existing,
                               grp_revision := saturating_add (grp_revision existing) 1,
                               grp_epoch := (if reset then saturating_add (grp_epoch existing) 1
                                             else grp_epoch existing)\<rparr>
                    in (g\<lparr>gc_groups := fmupd key d' (gc_groups g),
                          gc_revision := saturating_add (gc_revision g) 1\<rparr>, GroupOutcome d')))"

definition group_delete ::
  "AggregateGroupCatalog \<Rightarrow> AggregateTypeId \<Rightarrow> string \<Rightarrow> u64 \<Rightarrow> uuid
     \<Rightarrow> AggregateGroupCatalog \<times> AggregateGroupCatalogOutcome" where
  "group_delete g t name expected_revision operation_id =
     (let key = (t, name);
          invalid = rbind (map_err reason_of (AggregateTypeId_validate t)) (\<lambda>_.
                      map_err reason_of (validate_aggregate_identifier ''group_name'' name))
      in case (invalid, fmlookup (gc_groups g) key) of
           (Inl r, _) \<Rightarrow> (g, GroupInvalid r)
         | (Inr _, None) \<Rightarrow>
             if fmlookup (gc_deleted_operations g) key = Some operation_id then (g, GroupDeleted)
             else (g, GroupNotFound)
         | (Inr _, Some existing) \<Rightarrow>
             if grp_last_operation_id existing = operation_id then (g, GroupDeleted)
             else if grp_revision existing \<noteq> expected_revision
             then (g, GroupConflict (Some (grp_revision existing)))
             else (g\<lparr>gc_groups := fmdrop key (gc_groups g),
                     gc_deleted_operations := fmupd key operation_id (gc_deleted_operations g),
                     gc_revision := saturating_add (gc_revision g) 1\<rparr>, GroupDeleted))"

fun group_command ::
  "AggregateGroupCatalog \<Rightarrow> AggregateGroupCatalogCommand
     \<Rightarrow> AggregateGroupCatalog \<times> AggregateGroupCatalogOutcome" where
  "group_command g (GroupCreate d n) = group_create g d n"
| "group_command g (GroupReplace d r n reset) = group_replace g d r n reset"
| "group_command g (GroupDelete t name r op) = group_delete g t name r op"

definition AggregateGroupCatalog_apply ::
  "AggregateGroupCatalog \<Rightarrow> AggregateGroupCatalogCommand
     \<Rightarrow> AggregateGroupCatalog \<times> AggregateGroupCatalogApply" where
  "AggregateGroupCatalog_apply g cmd =
     (let (g', outcome) = group_command g cmd
      in (g', \<lparr>ga_revision = gc_revision g', ga_outcome = outcome\<rparr>))"

section \<open>Settings\<close>

definition valid_settings :: "AggregateGroupSettings \<Rightarrow> bool" where
  "valid_settings s \<longleftrightarrow> 0 < max_unacked_per_consumer s
     \<and> max_unacked_per_consumer s \<le> max_unacked_per_group s
     \<and> 0 < ack_timeout_ms s \<and> 0 < retry_min_ms s \<and> retry_min_ms s \<le> retry_max_ms s"

lemma AggregateGroupSettings_validate_iff [simp]:
  "AggregateGroupSettings_validate s = Inr u \<longleftrightarrow> valid_settings s"
  by (auto simp: AggregateGroupSettings_validate_def valid_settings_def word_gt_0 not_less)

lemma settings_validate_valid [simp]: "valid_settings s \<Longrightarrow> AggregateGroupSettings_validate s = Inr ()"
  by simp

lemma is_err_settings [simp]: "is_err (AggregateGroupSettings_validate s) \<longleftrightarrow> \<not> valid_settings s"
  by (metis AggregateGroupSettings_validate_iff is_err_iff is_err_simps(2) obj_sumE)

lemma unat_retry_delay_ms:
  "unat (retry_delay_ms s attempt) =
     min (unat (retry_min_ms s) * 2 ^ min (unat attempt - 1) 62) (unat (retry_max_ms s))"
proof -
  let ?k = "min (unat attempt - 1) 62"
  have shift: "unat (min (saturating_sub attempt 1) 62) = ?k"
    by (simp add: min_def word_le_nat_alt unat_saturating_sub)
  have "(2::nat) ^ ?k < 2 ^ 64" by (rule power_strict_increasing) simp_all
  moreover have "push_bit ?k (1 :: u64) = word_of_nat (2 ^ ?k)" by (simp add: push_bit_eq_mult)
  ultimately have one: "unat (push_bit ?k (1 :: u64)) = 2 ^ ?k"
    by (simp only: unat_of_nat) simp
  have umin: "unat (min a b) = min (unat a) (unat b)" for a b :: u64
    by (simp add: min_def word_le_nat_alt)
  have "unat (retry_max_ms s) \<le> 2 ^ 64 - 1" using unat_le_max [of "retry_max_ms s"] by simp
  then show ?thesis
    unfolding retry_delay_ms_def Let_def shift umin unat_saturating_mul one
    by (simp add: min.assoc min.absorb2)
qed

section \<open>Well-formed group catalogs\<close>

definition wf_group :: "group_key \<Rightarrow> AggregateGroupDefinition \<Rightarrow> bool" where
  "wf_group k d \<longleftrightarrow> k = (grp_aggregate_type d, grp_name d)
     \<and> valid_type_id (grp_aggregate_type d) \<and> valid_identifier (grp_name d)
     \<and> valid_settings (grp_settings d) \<and> (\<exists>n. complete_partition_map n (grp_partition_starts d))
     \<and> 1 \<le> grp_epoch d \<and> grp_epoch d \<le> grp_revision d"

definition wf_group_catalog :: "AggregateGroupCatalog \<Rightarrow> bool" where
  "wf_group_catalog g \<longleftrightarrow>
     (\<forall>k d. fmlookup (gc_groups g) k = Some d \<longrightarrow> wf_group k d)
     \<and> (\<forall>k. fmlookup (gc_groups g) k = None \<or> fmlookup (gc_deleted_operations g) k = None)"

lemma AggregateGroupDefinition_validate_Inr:
  "AggregateGroupDefinition_validate d n = Inr u \<longleftrightarrow>
     valid_type_id (grp_aggregate_type d) \<and> valid_identifier (grp_name d)
     \<and> valid_settings (grp_settings d) \<and> complete_partition_map n (grp_partition_starts d)"
  by (auto simp: AggregateGroupDefinition_validate_def rbind_Inr_iff)

text \<open>What a successful command does to the catalog, seen from the group it names.\<close>

inductive group_step ::
  "AggregateGroupCatalog \<Rightarrow> group_key \<Rightarrow> AggregateGroupDefinition option
     \<Rightarrow> AggregateGroupDefinition option \<Rightarrow> bool" where
  created: "fmlookup (gc_groups g) k = None \<Longrightarrow> AggregateGroupDefinition_validate d n = Inr () \<Longrightarrow>
     k = (grp_aggregate_type d, grp_name d) \<Longrightarrow>
     group_step g k None (Some (d\<lparr>grp_revision := 1, grp_epoch := 1,
       grp_last_operation_id := grp_create_operation_id d\<rparr>))"
| replaced: "fmlookup (gc_groups g) k = Some ex \<Longrightarrow> AggregateGroupDefinition_validate d n = Inr () \<Longrightarrow>
     k = (grp_aggregate_type d, grp_name d) \<Longrightarrow>
     e = (if reset then saturating_add (grp_epoch ex) 1 else grp_epoch ex) \<Longrightarrow>
     group_step g k (Some ex) (Some (d\<lparr>grp_create_operation_id := grp_create_operation_id ex,
       grp_revision := saturating_add (grp_revision ex) 1, grp_epoch := e\<rparr>))"
| deleted: "fmlookup (gc_groups g) k = Some ex \<Longrightarrow> group_step g k (Some ex) None"

definition group_put :: "AggregateGroupCatalog \<Rightarrow> group_key \<Rightarrow> AggregateGroupDefinition option
    \<Rightarrow> AggregateGroupCatalog \<Rightarrow> bool" where
  "group_put g k new g' \<longleftrightarrow>
     gc_revision g' = saturating_add (gc_revision g) 1
     \<and> fmlookup (gc_groups g') = (fmlookup (gc_groups g))(k := new)
     \<and> (case new of None \<Rightarrow> \<exists>op. gc_deleted_operations g' = fmupd k op (gc_deleted_operations g)
        | Some _ \<Rightarrow> gc_deleted_operations g' = gc_deleted_operations g
                  \<or> gc_deleted_operations g' = fmdrop k (gc_deleted_operations g))
     \<and> (fmlookup (gc_groups g) k = None \<longrightarrow> fmlookup (gc_deleted_operations g') k = None)"

definition group_result ::
  "AggregateGroupCatalog \<Rightarrow> AggregateGroupCatalog \<times> AggregateGroupCatalogOutcome \<Rightarrow> bool" where
  "group_result g r \<longleftrightarrow> fst r = g \<or> (\<exists>k old new. group_step g k old new \<and> group_put g k new (fst r))"

lemma group_result_same [simp]: "group_result g (g, out)"
  by (simp add: group_result_def)

lemma group_result_put:
  "group_step g k old new \<Longrightarrow> group_put g k new g' \<Longrightarrow> group_result g (g', out)"
  unfolding group_result_def fst_conv by blast

lemma group_create_result: "group_result g (group_create g d n)"
proof (cases "AggregateGroupDefinition_validate d n")
  case (Inr u)
  then show ?thesis
    using created [of g "(grp_aggregate_type d, grp_name d)" d n]
    by (auto simp: group_create_def Let_def group_put_def fun_eq_iff
        intro!: group_result_put split: option.splits)
qed (simp add: group_create_def)

lemma group_replace_result: "group_result g (group_replace g d r n reset)"
proof (cases "AggregateGroupDefinition_validate d n")
  case (Inr u)
  then show ?thesis
    using replaced [of g "(grp_aggregate_type d, grp_name d)" _ d n _ reset]
    by (auto simp: group_replace_def Let_def group_put_def fun_eq_iff
        intro!: group_result_put split: option.splits)
qed (simp add: group_replace_def)

lemma group_delete_result: "group_result g (group_delete g t name r op)"
  using deleted [of g "(t, name)"]
  by (auto simp: group_delete_def Let_def group_put_def fun_eq_iff
      intro!: group_result_put split: option.splits sum.splits)

lemma group_command_cases:
  obtains (same) "fst (group_command g cmd) = g"
  | (step) k old new where "group_step g k old new" "group_put g k new (fst (group_command g cmd))"
proof -
  have "group_result g (group_command g cmd)"
    by (cases cmd) (simp_all add: group_create_result group_replace_result group_delete_result)
  then show ?thesis using that unfolding group_result_def by blast
qed

lemma fst_group_apply [simp]:
  "fst (AggregateGroupCatalog_apply g cmd) = fst (group_command g cmd)"
  "snd (AggregateGroupCatalog_apply g cmd) =
     \<lparr>ga_revision = gc_revision (fst (group_command g cmd)), ga_outcome = snd (group_command g cmd)\<rparr>"
  by (simp_all add: AggregateGroupCatalog_apply_def split: prod.splits)

lemma group_step_old: "group_step g k old new \<Longrightarrow> fmlookup (gc_groups g) k = old"
  by (auto elim: group_step.cases)

lemma group_step_wf:
  assumes "group_step g k old (Some d)" "wf_group_catalog g"
  shows "wf_group k d"
  using assms(1)
proof cases
  case created
  then show ?thesis by (auto simp: wf_group_def AggregateGroupDefinition_validate_Inr)
next
  case (replaced ex d0 n e reset)
  with assms(2) have "wf_group k ex" by (simp add: wf_group_catalog_def)
  then have "1 \<le> grp_epoch ex" "grp_epoch ex \<le> grp_revision ex" by (auto simp: wf_group_def)
  moreover from this have "e \<le> saturating_add (grp_revision ex) 1" "1 \<le> e"
    using replaced unat_le_max [of "grp_epoch ex"]
    by (auto simp: word_le_nat_alt unat_saturating_add)
  ultimately show ?thesis using replaced by (auto simp: wf_group_def AggregateGroupDefinition_validate_Inr)
qed

lemma wf_group_catalog_apply:
  assumes "wf_group_catalog g"
  shows "wf_group_catalog (fst (AggregateGroupCatalog_apply g cmd))"
proof (cases rule: group_command_cases [of g cmd])
  case same
  with assms show ?thesis by simp
next
  case (step k old new)
  have "wf_group k d" if "new = Some d" for d
    using step(1) that group_step_wf assms by blast
  moreover have "old \<noteq> None" if "new = None"
    using step(1) that by (auto elim: group_step.cases)
  ultimately show ?thesis
    using step(2) group_step_old [OF step(1)] assms
    by (auto simp: wf_group_catalog_def group_put_def simp del: split_paired_All
        split: option.splits if_splits) (metis option.distinct(1))
qed

lemma wf_group_catalog_default: "wf_group_catalog AggregateGroupCatalog_default"
  by (simp add: wf_group_catalog_def AggregateGroupCatalog_default_def)

interpretation group_catalog: command_machine AggregateGroupCatalog_apply wf_group_catalog
  by standard (rule wf_group_catalog_apply)

section \<open>Properties\<close>

text \<open>Every group catalog reachable from the empty one is well formed: a group is filed under
  its valid type and name, its settings are valid, its partition starts are complete, its epoch is
  between 1 and its revision, and no group is both present and recorded as deleted.\<close>

theorem group_catalog_reachable_wf:
  "wf_group_catalog (run_commands AggregateGroupCatalog_apply AggregateGroupCatalog_default cmds)"
  by (rule group_catalog.run_wf [OF wf_group_catalog_default])

definition sample_group :: AggregateGroupDefinition where
  "sample_group = \<lparr>grp_aggregate_type = sample_type, grp_name = ''billing'', grp_revision = 1,
     grp_epoch = 1, grp_start = Beginning, grp_partition_starts = sample_placements,
     grp_settings = AggregateGroupSettings_default, grp_create_operation_id = 5,
     grp_last_operation_id = 5\<rparr>"

definition sample_group_catalog :: AggregateGroupCatalog where
  "sample_group_catalog = \<lparr>gc_revision = 1,
     gc_groups = fmupd (sample_type, ''billing'') sample_group fmempty,
     gc_deleted_operations = fmempty\<rparr>"

lemma sample_group_valid:
  "AggregateGroupDefinition_validate sample_group EVENT_PARTITION_COUNT = Inr ()"
proof -
  have "validate_aggregate_identifier ''group_name'' ''billing'' = Inr ()"
    "AggregateGroupSettings_validate AggregateGroupSettings_default = Inr ()" by code_simp+
  then show ?thesis
    using sample_complete sample_type_valid
    by (simp add: AggregateGroupDefinition_validate_Inr sample_group_def)
qed

text \<open>A Replace is a compare-and-set. It changes the catalog only when the group exists at the
  expected revision under another operation id; then the new definition has the next revision,
  keeps the creation's operation id, and its epoch advances exactly when a reset is asked for.
  Every other Replace leaves the catalog as it was.\<close>

theorem group_replace_compare_and_set:
  assumes "AggregateGroupCatalog_apply g (GroupReplace d expected n reset) = (g', r)"
  shows "g' = g \<or>
    (\<exists>old new. fmlookup (gc_groups g) (grp_aggregate_type d, grp_name d) = Some old
       \<and> grp_revision old = expected \<and> grp_last_operation_id old \<noteq> grp_last_operation_id d
       \<and> gc_groups g' = fmupd (grp_aggregate_type d, grp_name d) new (gc_groups g)
       \<and> ga_outcome r = GroupOutcome new
       \<and> grp_revision new = saturating_add (grp_revision old) 1
       \<and> grp_create_operation_id new = grp_create_operation_id old
       \<and> grp_epoch new = (if reset then saturating_add (grp_epoch old) 1 else grp_epoch old)
       \<and> grp_settings new = grp_settings d)"
  using assms
  by (auto simp: AggregateGroupCatalog_apply_def group_replace_def Let_def
      split: sum.splits option.splits if_splits)

theorem group_replace_compare_and_set_witness:
  "\<exists>g' r new. AggregateGroupCatalog_apply sample_group_catalog
      (GroupReplace (sample_group\<lparr>grp_last_operation_id := 6\<rparr>) 1 EVENT_PARTITION_COUNT True) = (g', r)
    \<and> g' \<noteq> sample_group_catalog \<and> ga_outcome r = GroupOutcome new \<and> grp_epoch new = 2"
proof -
  let ?d = "sample_group\<lparr>grp_last_operation_id := 6\<rparr>"
  obtain g' r where app: "AggregateGroupCatalog_apply sample_group_catalog
      (GroupReplace ?d 1 EVENT_PARTITION_COUNT True) = (g', r)"
    by (metis prod.collapse)
  from sample_group_valid have "AggregateGroupDefinition_validate ?d EVENT_PARTITION_COUNT = Inr ()"
    by (simp add: AggregateGroupDefinition_validate_Inr)
  with app have "gc_revision g' = 2"
    by (simp add: AggregateGroupCatalog_apply_def group_replace_def sample_group_catalog_def
        sample_group_def saturating_add_1 Let_def) auto
  then have "g' \<noteq> sample_group_catalog" by (auto simp: sample_group_catalog_def)
  with group_replace_compare_and_set [OF app] show ?thesis
    using app by (auto simp: sample_group_catalog_def sample_group_def saturating_add_1)
qed

text \<open>Retrying a group command that succeeded, creation, replacement or deletion, changes
  nothing and gets the same reply with the same catalog revision.\<close>

theorem group_retry_idempotent:
  assumes "AggregateGroupCatalog_apply g cmd = (g', r)"
    and "ga_outcome r = GroupDeleted \<or> ga_outcome r = GroupOutcome d"
  shows "AggregateGroupCatalog_apply g' cmd = (g', r)"
proof -
  from assms have "group_command g' cmd = (g', ga_outcome r)"
    by (cases cmd)
      (auto simp: AggregateGroupCatalog_apply_def group_create_def group_replace_def group_delete_def
        Let_def split: sum.splits option.splits if_splits prod.splits)
  moreover from assms have "ga_revision r = gc_revision g'"
    by (auto simp: AggregateGroupCatalog_apply_def split: prod.splits)
  ultimately show ?thesis by (simp add: AggregateGroupCatalog_apply_def)
qed

theorem group_retry_idempotent_witness:
  "\<exists>g' r. AggregateGroupCatalog_apply g' (GroupDelete sample_type ''billing'' 1 6) = (g', r)
     \<and> fmlookup (gc_groups g') (sample_type, ''billing'') = None \<and> ga_outcome r = GroupDeleted"
proof -
  let ?app = "AggregateGroupCatalog_apply sample_group_catalog (GroupDelete sample_type ''billing'' 1 6)"
  have ok: "validate_aggregate_identifier ''group_name'' ''billing'' = Inr ()" by code_simp
  have "ga_outcome (snd ?app) = GroupDeleted"
    "fmlookup (gc_groups (fst ?app)) (sample_type, ''billing'') = None"
    by (simp_all add: group_delete_def Let_def ok sample_group_catalog_def sample_group_def)
  with group_retry_idempotent [OF prod.collapse [symmetric], of sample_group_catalog
      "GroupDelete sample_type ''billing'' 1 6"]
  show ?thesis by blast
qed

text \<open>C38: a Delete can answer that the group is deleted while it still exists, and does so exactly
  when its operation id is the one of the last change to the group; with any other id, the answer
  means that the group is gone.\<close>

theorem group_delete_reply_meaning:
  assumes "AggregateGroupCatalog_apply g (GroupDelete t name expected op) = (g', r)"
    and "ga_outcome r = GroupDeleted"
  shows "fmlookup (gc_groups g') (t, name) \<noteq> None \<longleftrightarrow>
    (\<exists>d. fmlookup (gc_groups g) (t, name) = Some d \<and> grp_last_operation_id d = op)"
  using assms
  by (auto simp: AggregateGroupCatalog_apply_def group_delete_def Let_def
      split: sum.splits option.splits if_splits prod.splits)

theorem group_delete_reply_meaning_witness:
  "fmlookup (gc_groups (fst (AggregateGroupCatalog_apply sample_group_catalog
      (GroupDelete sample_type ''billing'' 1 5)))) (sample_type, ''billing'') \<noteq> None"
proof -
  let ?app = "AggregateGroupCatalog_apply sample_group_catalog (GroupDelete sample_type ''billing'' 1 5)"
  have ok: "validate_aggregate_identifier ''group_name'' ''billing'' = Inr ()" by code_simp
  have "ga_outcome (snd ?app) = GroupDeleted"
    by (simp add: group_delete_def ok sample_group_catalog_def sample_group_def)
  moreover have "\<exists>d. fmlookup (gc_groups sample_group_catalog) (sample_type, ''billing'') = Some d
      \<and> grp_last_operation_id d = 5"
    by (simp add: sample_group_catalog_def sample_group_def)
  ultimately show ?thesis
    using group_delete_reply_meaning [OF prod.collapse [symmetric], of sample_group_catalog
      sample_type "''billing''" 1 5] by blast
qed

text \<open>The retry backoff of valid settings is the capped exponential: it doubles with each
  attempt from \<open>retry_min_ms\<close>, never leaves the configured range, never decreases with the
  attempt, and no intermediate product wraps around.\<close>

theorem retry_delay_ms_capped_exponential:
  assumes "AggregateGroupSettings_validate s = Inr ()"
  shows "unat (retry_delay_ms s a) =
      min (unat (retry_min_ms s) * 2 ^ min (unat a - 1) 62) (unat (retry_max_ms s))
    \<and> retry_min_ms s \<le> retry_delay_ms s a \<and> retry_delay_ms s a \<le> retry_max_ms s
    \<and> (a \<le> b \<longrightarrow> retry_delay_ms s a \<le> retry_delay_ms s b)"
proof -
  from assms have "unat (retry_min_ms s) \<le> unat (retry_max_ms s)"
    by (auto simp: valid_settings_def word_le_nat_alt)
  moreover have "unat (retry_min_ms s) * 1 \<le> unat (retry_min_ms s) * 2 ^ min (unat a - 1) 62"
    by (rule mult_le_mono2) simp
  ultimately have "retry_min_ms s \<le> retry_delay_ms s a" "retry_delay_ms s a \<le> retry_max_ms s"
    by (simp_all add: word_le_nat_alt unat_retry_delay_ms)
  moreover have "retry_delay_ms s a \<le> retry_delay_ms s b" if "a \<le> b"
    unfolding word_le_nat_alt unat_retry_delay_ms using that
    by (intro min.mono mult_le_mono2 power_increasing diff_le_mono) (simp_all add: word_le_nat_alt)
  ultimately show ?thesis by (simp add: unat_retry_delay_ms)
qed

theorem retry_delay_ms_capped_exponential_witness:
  "retry_delay_ms AggregateGroupSettings_default 3 \<le> 5000
   \<and> retry_delay_ms AggregateGroupSettings_default 3 = 400"
proof -
  have "AggregateGroupSettings_validate AggregateGroupSettings_default = Inr ()" by code_simp
  from retry_delay_ms_capped_exponential [OF this, of 3 3]
  have "retry_delay_ms AggregateGroupSettings_default 3 \<le> 5000"
    by (simp add: AggregateGroupSettings_default_def)
  moreover have "retry_delay_ms AggregateGroupSettings_default 3 = 400"
    by (simp add: word_unat_eq_iff unat_retry_delay_ms AggregateGroupSettings_default_def)
  ultimately show ?thesis by blast
qed

end
