(* ===== verification/Group_Partition.thy ===== *)
theory Group_Partition
  imports Group_Catalog
begin

text \<open>
  Delivery state of one consumer group on one event partition, \<open>AggregateGroupPartition\<close> of
  \<open>es-core/src/aggregate_group.rs\<close>: the checkpoint \<open>next_position\<close> with the positions resolved
  ahead of it, deliveries under lease, pending retries and parked events. Every method of the
  source is one function from the state to the state and its result; the \<open>while\<close> loop of
  \<open>resolve\<close> is the terminating \<open>advance_gaps\<close>, the \<open>for\<close> loops are list recursions.
\<close>

record AggregateDeliveryCandidate =
  cand_delivery_id :: uuid
  cand_partition_position :: u64
  cand_aggregate_id :: string
  cand_aggregate_version :: u64
  cand_event_id :: uuid
  cand_payload_bytes :: u64
  cand_replayed :: bool

record AggregateGroupDelivery =
  dlv_delivery_id :: uuid
  dlv_consumer_id :: string
  dlv_partition_position :: u64
  dlv_aggregate_id :: string
  dlv_aggregate_version :: u64
  dlv_event_id :: uuid
  dlv_attempt :: u32
  dlv_deadline_ms :: u64
  dlv_group_epoch :: u64
  dlv_replayed :: bool

record AggregateGroupRetry =
  rty_partition_position :: u64
  rty_aggregate_id :: string
  rty_aggregate_version :: u64
  rty_event_id :: uuid
  rty_attempt :: u32
  rty_not_before_ms :: u64
  rty_replayed :: bool

record AggregateGroupParked =
  pkd_partition_position :: u64
  pkd_aggregate_id :: string
  pkd_aggregate_version :: u64
  pkd_event_id :: uuid
  pkd_attempts :: u32
  pkd_reason :: string
  pkd_parked_at_ms :: u64

record AggregateInstanceLease =
  lse_consumer_id :: string
  lse_group_epoch :: u64
  lse_deadline_ms :: u64

record AggregateGroupPartition =
  epoch :: u64
  next_position :: u64
  resolved_gaps :: "u64 fset"
  leases :: "(string, AggregateInstanceLease) fmap"
  deliveries :: "(uuid, AggregateGroupDelivery) fmap"
  pending_retries :: "(u64, AggregateGroupRetry) fmap"
  parked :: "(uuid, AggregateGroupParked) fmap"

datatype AggregateSettlementAction = Ack | Retry | Park | Skip

record AggregateSettlement =
  stl_delivery_id :: uuid
  stl_action :: AggregateSettlementAction
  stl_reason :: string

datatype AggregateSettlementResult = Applied | AlreadySettled | StaleLease | WrongConsumer

section \<open>Operations\<close>

definition AggregateGroupPartition_new :: "u64 \<Rightarrow> u64 \<Rightarrow> AggregateGroupPartition" where
  "AggregateGroupPartition_new e n =
     \<lparr>epoch = e, next_position = n, resolved_gaps = {||}, leases = fmempty, deliveries = fmempty,
      pending_retries = fmempty, parked = fmempty\<rparr>"

definition AggregateGroupPartition_reset ::
  "AggregateGroupPartition \<Rightarrow> u64 \<Rightarrow> u64 \<Rightarrow> AggregateGroupPartition" where
  "AggregateGroupPartition_reset p e n = AggregateGroupPartition_new e n"

text \<open>\<open>count() as u32\<close> and \<open>len() as u32\<close> truncate to 32 bits.\<close>

definition available_credit :: "AggregateGroupPartition \<Rightarrow> string \<Rightarrow> AggregateGroupSettings \<Rightarrow> u32" where
  "available_credit p consumer_id settings =
     (let consumer_used = word_of_nat (fm_count (\<lambda>d. dlv_consumer_id d = consumer_id) (deliveries p))
      in min (saturating_sub (max_unacked_per_consumer settings) consumer_used)
             (saturating_sub (max_unacked_per_group settings) (word_of_nat (fm_len (deliveries p)))))"

text \<open>\<open>while self.resolved_gaps.remove(&self.next_position)\<close>\<close>

function advance_gaps :: "u64 \<Rightarrow> u64 fset \<Rightarrow> u64 \<times> u64 fset" where
  "advance_gaps n gaps =
     (if n |\<in>| gaps then advance_gaps (saturating_add n 1) (gaps |-| {|n|}) else (n, gaps))"
  by pat_completeness auto
termination
proof (relation "measure (\<lambda>(n, gaps). fcard gaps)")
  fix n :: u64 and gaps assume "n |\<in>| gaps"
  then have "fcard (gaps |-| {|n|}) < fcard gaps" by (rule fcard_fminus1_less)
  then show "((saturating_add n 1, gaps |-| {|n|}), (n, gaps)) \<in> measure (\<lambda>(n, gaps). fcard gaps)"
    by (simp only: in_measure split)
qed simp

declare advance_gaps.simps [simp del]

definition resolve :: "AggregateGroupPartition \<Rightarrow> u64 \<Rightarrow> AggregateGroupPartition" where
  "resolve p pos =
     (if pos < next_position p then p
      else let (n, gaps) = advance_gaps (next_position p) (finsert pos (resolved_gaps p))
           in p\<lparr>next_position := n, resolved_gaps := gaps\<rparr>)"

definition park :: "AggregateGroupPartition \<Rightarrow> AggregateGroupDelivery \<Rightarrow> string \<Rightarrow> u64 \<Rightarrow> AggregateGroupPartition" where
  "park p d reason now_ms =
     (let q = resolve p (dlv_partition_position d)
      in q\<lparr>parked := fmupd (dlv_delivery_id d)
             \<lparr>pkd_partition_position = dlv_partition_position d,
              pkd_aggregate_id = dlv_aggregate_id d,
              pkd_aggregate_version = dlv_aggregate_version d,
              pkd_event_id = dlv_event_id d,
              pkd_attempts = dlv_attempt d,
              pkd_reason = reason,
              pkd_parked_at_ms = now_ms\<rparr> (parked q)\<rparr>)"

definition retry_or_park ::
  "AggregateGroupPartition \<Rightarrow> AggregateGroupDelivery \<Rightarrow> string \<Rightarrow> u64 \<Rightarrow> AggregateGroupSettings
     \<Rightarrow> AggregateGroupPartition" where
  "retry_or_park p d reason now_ms settings =
     (let attempt = saturating_add (dlv_attempt d) 1
      in if attempt > max_retries settings then park p d reason now_ms
         else p\<lparr>pending_retries := fmupd (dlv_partition_position d)
                  \<lparr>rty_partition_position = dlv_partition_position d,
                   rty_aggregate_id = dlv_aggregate_id d,
                   rty_aggregate_version = dlv_aggregate_version d,
                   rty_event_id = dlv_event_id d,
                   rty_attempt = attempt,
                   rty_not_before_ms = saturating_add now_ms (retry_delay_ms settings attempt),
                   rty_replayed = dlv_replayed d\<rparr> (pending_retries p)\<rparr>)"

definition active_aggregates :: "AggregateGroupPartition \<Rightarrow> string fset" where
  "active_aggregates p =
     dlv_aggregate_id |`| fmran (deliveries p) |\<union>| rty_aggregate_id |`| fmran (pending_retries p)"

definition release_unused_leases :: "AggregateGroupPartition \<Rightarrow> AggregateGroupPartition" where
  "release_unused_leases p =
     (let active = active_aggregates p in p\<lparr>leases := fmfilter (\<lambda>a. a |\<in>| active) (leases p)\<rparr>)"

definition remove_delivery :: "AggregateGroupPartition \<Rightarrow> uuid \<Rightarrow> AggregateGroupPartition" where
  "remove_delivery p i = p\<lparr>deliveries := fmdrop i (deliveries p)\<rparr>"

fun expire_loop ::
  "AggregateGroupPartition \<Rightarrow> u64 \<Rightarrow> AggregateGroupSettings \<Rightarrow> uuid list \<Rightarrow> AggregateGroupPartition" where
  "expire_loop p now_ms settings [] = p"
| "expire_loop p now_ms settings (i # ids) =
     (case fmlookup (deliveries p) i of
        None \<Rightarrow> expire_loop p now_ms settings ids
      | Some d \<Rightarrow>
          expire_loop (retry_or_park (remove_delivery p i) d ''ack timeout'' now_ms settings)
            now_ms settings ids)"

definition expired_ids :: "AggregateGroupPartition \<Rightarrow> u64 \<Rightarrow> uuid list" where
  "expired_ids p now_ms =
     map fst (filter (\<lambda>(_, d). dlv_deadline_ms d \<le> now_ms) (sorted_list_of_fmap (deliveries p)))"

definition expire ::
  "AggregateGroupPartition \<Rightarrow> u64 \<Rightarrow> AggregateGroupSettings \<Rightarrow> AggregateGroupPartition \<times> nat" where
  "expire p now_ms settings =
     (let expired = expired_ids p now_ms
      in (release_unused_leases (expire_loop p now_ms settings expired), length expired))"

text \<open>
  The body of the loop of \<open>claim\<close>: the conditions that skip a candidate (\<open>continue\<close>), in order,
  and what taking it does.
\<close>

definition candidate_taken :: "AggregateGroupPartition \<Rightarrow> AggregateDeliveryCandidate \<Rightarrow> bool" where
  "candidate_taken p c =
     (cand_partition_position c |\<in>| resolved_gaps p
      \<or> fmlookup (deliveries p) (cand_delivery_id c) \<noteq> None
      \<or> fm_any (\<lambda>d. dlv_partition_position d = cand_partition_position c) (deliveries p))"

definition candidate_not_due :: "AggregateGroupPartition \<Rightarrow> u64 \<Rightarrow> AggregateDeliveryCandidate \<Rightarrow> bool" where
  "candidate_not_due p now_ms c =
     (case fmlookup (pending_retries p) (cand_partition_position c) of
        Some r \<Rightarrow> rty_not_before_ms r > now_ms \<or> rty_event_id r \<noteq> cand_event_id c
      | None \<Rightarrow> cand_replayed c)"

definition candidate_blocked :: "AggregateGroupPartition \<Rightarrow> AggregateDeliveryCandidate \<Rightarrow> bool" where
  "candidate_blocked p c =
     (fm_any (\<lambda>d. dlv_aggregate_id d = cand_aggregate_id c
                \<and> dlv_partition_position d \<noteq> cand_partition_position c) (deliveries p)
      \<or> fm_any (\<lambda>r. rty_aggregate_id r = cand_aggregate_id c
                \<and> rty_partition_position r \<noteq> cand_partition_position c) (pending_retries p))"

definition lease_held :: "AggregateGroupPartition \<Rightarrow> string \<Rightarrow> u64 \<Rightarrow> AggregateDeliveryCandidate \<Rightarrow> bool" where
  "lease_held p consumer_id now_ms c =
     (case fmlookup (leases p) (cand_aggregate_id c) of
        Some l \<Rightarrow> lse_consumer_id l \<noteq> consumer_id \<and> lse_deadline_ms l > now_ms
      | None \<Rightarrow> False)"

definition delivery_of ::
  "AggregateGroupPartition \<Rightarrow> string \<Rightarrow> u64 \<Rightarrow> AggregateDeliveryCandidate \<Rightarrow> AggregateGroupDelivery" where
  "delivery_of p consumer_id deadline_ms c =
     (let retry = fmlookup (pending_retries p) (cand_partition_position c)
      in \<lparr>dlv_delivery_id = cand_delivery_id c,
          dlv_consumer_id = consumer_id,
          dlv_partition_position = cand_partition_position c,
          dlv_aggregate_id = cand_aggregate_id c,
          dlv_aggregate_version = cand_aggregate_version c,
          dlv_event_id = cand_event_id c,
          dlv_attempt = (case retry of Some r \<Rightarrow> rty_attempt r | None \<Rightarrow> 0),
          dlv_deadline_ms = deadline_ms,
          dlv_group_epoch = epoch p,
          dlv_replayed = (case retry of Some r \<Rightarrow> rty_replayed r | None \<Rightarrow> cand_replayed c)\<rparr>)"

definition take_candidate :: "AggregateGroupPartition \<Rightarrow> AggregateGroupDelivery \<Rightarrow> AggregateGroupPartition" where
  "take_candidate p d =
     p\<lparr>pending_retries := fmdrop (dlv_partition_position d) (pending_retries p),
       leases := fmupd (dlv_aggregate_id d)
         \<lparr>lse_consumer_id = dlv_consumer_id d, lse_group_epoch = epoch p,
          lse_deadline_ms = dlv_deadline_ms d\<rparr> (leases p),
       deliveries := fmupd (dlv_delivery_id d) d (deliveries p)\<rparr>"

fun claim_loop ::
  "string \<Rightarrow> u64 \<Rightarrow> u64 \<Rightarrow> u64 \<Rightarrow> AggregateGroupPartition \<Rightarrow> u32 \<Rightarrow> u64 \<Rightarrow> AggregateGroupDelivery list
     \<Rightarrow> AggregateDeliveryCandidate list \<Rightarrow> AggregateGroupPartition \<times> AggregateGroupDelivery list" where
  "claim_loop consumer_id now_ms deadline_ms max_bytes p credit claimed_bytes claimed [] = (p, claimed)"
| "claim_loop consumer_id now_ms deadline_ms max_bytes p credit claimed_bytes claimed (c # cs) =
     (if credit = 0 \<or> cand_partition_position c < next_position p then (p, claimed)
      else if candidate_taken p c \<or> candidate_not_due p now_ms c \<or> candidate_blocked p c
              \<or> lease_held p consumer_id now_ms c
      then claim_loop consumer_id now_ms deadline_ms max_bytes p credit claimed_bytes claimed cs
      else if claimed \<noteq> [] \<and> saturating_add claimed_bytes (cand_payload_bytes c) > max_bytes
      then (p, claimed)
      else let d = delivery_of p consumer_id deadline_ms c
           in claim_loop consumer_id now_ms deadline_ms max_bytes (take_candidate p d) (credit - 1)
                (saturating_add claimed_bytes (cand_payload_bytes c)) (claimed @ [d]) cs)"

definition claim ::
  "AggregateGroupPartition \<Rightarrow> string \<Rightarrow> u64 \<Rightarrow> u64 \<Rightarrow> AggregateGroupSettings \<Rightarrow> u32 \<Rightarrow> u64
     \<Rightarrow> AggregateDeliveryCandidate list \<Rightarrow> AggregateGroupPartition \<times> AggregateGroupDelivery list" where
  "claim p consumer_id now_ms deadline_ms settings max_claim max_bytes candidates =
     (if consumer_id = [] \<or> deadline_ms \<le> now_ms \<or> max_claim = 0 \<or> max_bytes = 0
         \<or> is_err (AggregateGroupSettings_validate settings)
      then (p, [])
      else let q = fst (expire p now_ms settings)
           in claim_loop consumer_id now_ms deadline_ms max_bytes q
                (min (available_credit q consumer_id settings) max_claim) 0 [] candidates)"

definition settle_one ::
  "AggregateGroupPartition \<Rightarrow> u64 \<Rightarrow> AggregateGroupSettings \<Rightarrow> AggregateGroupDelivery
     \<Rightarrow> AggregateSettlement \<Rightarrow> AggregateGroupPartition" where
  "settle_one p now_ms settings d s =
     (let q = remove_delivery p (stl_delivery_id s)
      in case stl_action s of
           Ack \<Rightarrow> resolve q (dlv_partition_position d)
         | Skip \<Rightarrow> resolve q (dlv_partition_position d)
         | Retry \<Rightarrow> retry_or_park q d (stl_reason s) now_ms settings
         | Park \<Rightarrow> park q d (stl_reason s) now_ms)"

definition settle_step ::
  "string \<Rightarrow> u64 \<Rightarrow> AggregateGroupSettings \<Rightarrow> AggregateGroupPartition \<Rightarrow> AggregateSettlement
     \<Rightarrow> AggregateGroupPartition \<times> AggregateSettlementResult" where
  "settle_step consumer_id now_ms settings p s =
     (case fmlookup (deliveries p) (stl_delivery_id s) of
        None \<Rightarrow> (p, AlreadySettled)
      | Some d \<Rightarrow>
          if dlv_consumer_id d \<noteq> consumer_id then (p, WrongConsumer)
          else (settle_one p now_ms settings d s, Applied))"

fun settle_loop ::
  "AggregateGroupPartition \<Rightarrow> string \<Rightarrow> u64 \<Rightarrow> AggregateGroupSettings \<Rightarrow> AggregateSettlement list
     \<Rightarrow> AggregateGroupPartition \<times> AggregateSettlementResult list" where
  "settle_loop p consumer_id now_ms settings [] = (p, [])"
| "settle_loop p consumer_id now_ms settings (s # ss) =
     (let (p', r) = settle_step consumer_id now_ms settings p s;
          (q, rs) = settle_loop p' consumer_id now_ms settings ss
      in (q, r # rs))"

definition settle ::
  "AggregateGroupPartition \<Rightarrow> string \<Rightarrow> u64 \<Rightarrow> u64 \<Rightarrow> AggregateGroupSettings \<Rightarrow> AggregateSettlement list
     \<Rightarrow> AggregateGroupPartition \<times> AggregateSettlementResult list" where
  "settle p consumer_id e now_ms settings settlements =
     (if e \<noteq> epoch p then (p, replicate (length settlements) StaleLease)
      else let (q, results) = settle_loop p consumer_id now_ms settings settlements
           in (release_unused_leases q, results))"

definition renew_one ::
  "string \<Rightarrow> u64 \<Rightarrow> AggregateGroupPartition \<Rightarrow> uuid \<Rightarrow> AggregateGroupPartition \<times> AggregateSettlementResult" where
  "renew_one consumer_id deadline_ms p i =
     (case fmlookup (deliveries p) i of
        None \<Rightarrow> (p, AlreadySettled)
      | Some d \<Rightarrow>
          if dlv_consumer_id d \<noteq> consumer_id then (p, WrongConsumer)
          else (p\<lparr>deliveries := fmupd i (d\<lparr>dlv_deadline_ms := max (dlv_deadline_ms d) deadline_ms\<rparr>)
                     (deliveries p),
                  leases := (case fmlookup (leases p) (dlv_aggregate_id d) of
                       None \<Rightarrow> leases p
                     | Some l \<Rightarrow> fmupd (dlv_aggregate_id d)
                         (l\<lparr>lse_deadline_ms := max (lse_deadline_ms l) deadline_ms\<rparr>) (leases p))\<rparr>,
                Applied))"

fun renew_loop ::
  "AggregateGroupPartition \<Rightarrow> string \<Rightarrow> u64 \<Rightarrow> uuid list
     \<Rightarrow> AggregateGroupPartition \<times> AggregateSettlementResult list" where
  "renew_loop p consumer_id deadline_ms [] = (p, [])"
| "renew_loop p consumer_id deadline_ms (i # is) =
     (let (p', r) = renew_one consumer_id deadline_ms p i;
          (q, rs) = renew_loop p' consumer_id deadline_ms is
      in (q, r # rs))"

definition renew ::
  "AggregateGroupPartition \<Rightarrow> string \<Rightarrow> u64 \<Rightarrow> u64 \<Rightarrow> uuid list
     \<Rightarrow> AggregateGroupPartition \<times> AggregateSettlementResult list" where
  "renew p consumer_id e deadline_ms delivery_ids =
     (if e \<noteq> epoch p then (p, replicate (length delivery_ids) StaleLease)
      else renew_loop p consumer_id deadline_ms delivery_ids)"

record AggregateDeliveryToken =
  tok_version :: u8
  tok_aggregate_type :: AggregateTypeId
  tok_group_name :: string
  tok_partition_id :: u16
  tok_group_epoch :: u64
  tok_delivery_id :: uuid

section \<open>The invariant\<close>

text \<open>
  An event is outstanding while it is delivered or waits for a retry. \<open>wf_partition\<close> says that
  outstanding events have pairwise different positions and aggregates, lie at or after the
  checkpoint and outside the resolved positions, and that each delivery is covered by a lease of
  its consumer with the same deadline.
\<close>

definition lease_covers :: "AggregateGroupPartition \<Rightarrow> AggregateGroupDelivery \<Rightarrow> bool" where
  "lease_covers p d \<longleftrightarrow> (\<exists>l. fmlookup (leases p) (dlv_aggregate_id d) = Some l
     \<and> lse_consumer_id l = dlv_consumer_id d \<and> lse_deadline_ms l = dlv_deadline_ms d
     \<and> lse_group_epoch l = epoch p)"

definition open_position :: "AggregateGroupPartition \<Rightarrow> u64 \<Rightarrow> bool" where
  "open_position p q \<longleftrightarrow> next_position p \<le> q \<and> q |\<notin>| resolved_gaps p"

definition wf_delivery :: "AggregateGroupPartition \<Rightarrow> uuid \<Rightarrow> AggregateGroupDelivery \<Rightarrow> bool" where
  "wf_delivery p i d \<longleftrightarrow> dlv_delivery_id d = i \<and> dlv_group_epoch d = epoch p
     \<and> open_position p (dlv_partition_position d) \<and> lease_covers p d
     \<and> fmlookup (pending_retries p) (dlv_partition_position d) = None
     \<and> (\<forall>j e. fmlookup (deliveries p) j = Some e \<longrightarrow> j \<noteq> i \<longrightarrow>
          dlv_partition_position e \<noteq> dlv_partition_position d \<and> dlv_aggregate_id e \<noteq> dlv_aggregate_id d)
     \<and> (\<forall>k r. fmlookup (pending_retries p) k = Some r \<longrightarrow> rty_aggregate_id r \<noteq> dlv_aggregate_id d)"

definition wf_retry :: "AggregateGroupPartition \<Rightarrow> u64 \<Rightarrow> AggregateGroupRetry \<Rightarrow> bool" where
  "wf_retry p k r \<longleftrightarrow> rty_partition_position r = k \<and> open_position p k
     \<and> (\<forall>l s. fmlookup (pending_retries p) l = Some s \<longrightarrow> l \<noteq> k \<longrightarrow>
          rty_aggregate_id s \<noteq> rty_aggregate_id r)"

definition wf_partition :: "AggregateGroupPartition \<Rightarrow> bool" where
  "wf_partition p \<longleftrightarrow>
     (\<forall>i d. fmlookup (deliveries p) i = Some d \<longrightarrow> wf_delivery p i d)
     \<and> (\<forall>k r. fmlookup (pending_retries p) k = Some r \<longrightarrow> wf_retry p k r)
     \<and> (\<forall>g. g |\<in>| resolved_gaps p \<longrightarrow> next_position p < g)"

lemmas wf_partition_defs = wf_partition_def wf_delivery_def wf_retry_def open_position_def lease_covers_def

lemma wf_partition_new: "wf_partition (AggregateGroupPartition_new e n)"
  by (simp add: wf_partition_def AggregateGroupPartition_new_def)

text \<open>A delivery that was just removed from the table: nothing else outstanding shares its position
  or its aggregate.\<close>

definition detached :: "AggregateGroupPartition \<Rightarrow> AggregateGroupDelivery \<Rightarrow> bool" where
  "detached p d \<longleftrightarrow> open_position p (dlv_partition_position d)
     \<and> fmlookup (pending_retries p) (dlv_partition_position d) = None
     \<and> (\<forall>j e. fmlookup (deliveries p) j = Some e \<longrightarrow>
          dlv_partition_position e \<noteq> dlv_partition_position d \<and> dlv_aggregate_id e \<noteq> dlv_aggregate_id d)
     \<and> (\<forall>k r. fmlookup (pending_retries p) k = Some r \<longrightarrow> rty_aggregate_id r \<noteq> dlv_aggregate_id d)"

lemma remove_delivery_wf:
  assumes "wf_partition p" "fmlookup (deliveries p) i = Some d"
  shows "wf_partition (remove_delivery p i)" "detached (remove_delivery p i) d"
proof -
  from assms have d: "wf_delivery p i d" by (simp add: wf_partition_def)
  show "wf_partition (remove_delivery p i)"
    using assms(1) by (auto simp: remove_delivery_def wf_partition_defs)
  from d show "detached (remove_delivery p i) d"
    by (auto simp: detached_def remove_delivery_def wf_delivery_def open_position_def)
qed

section \<open>Advancing the checkpoint\<close>

lemma advance_gaps_induct [case_names stop step]:
  assumes "\<And>n gaps. n |\<notin>| gaps \<Longrightarrow> P n gaps"
    and "\<And>n gaps. n |\<in>| gaps \<Longrightarrow> P (saturating_add n 1) (gaps |-| {|n|}) \<Longrightarrow> P n gaps"
  shows "P (n :: u64) gaps"
  by (induction n gaps rule: advance_gaps.induct) (use assms in blast)

lemma advance_gaps_stop: "n |\<notin>| gaps \<Longrightarrow> advance_gaps n gaps = (n, gaps)"
  by (simp add: advance_gaps.simps)

lemma advance_gaps_step:
  "n |\<in>| gaps \<Longrightarrow> advance_gaps n gaps = advance_gaps (saturating_add n 1) (gaps |-| {|n|})"
  by (subst advance_gaps.simps) simp

lemma word_next_le: "n < x \<Longrightarrow> saturating_add n 1 \<le> x" for n x :: u64
  using unat_le_max [of x]
  by (auto simp: word_less_nat_alt word_le_nat_alt unat_saturating_add)

text \<open>The loop leaves a checkpoint that is not itself resolved, keeps only positions above it, and
  never passes a position that is not resolved.\<close>

lemma advance_gaps_spec:
  assumes "advance_gaps n gaps = (n', gaps')" "\<And>g. g |\<in>| gaps \<Longrightarrow> n \<le> g"
  shows "n \<le> n' \<and> n' |\<notin>| gaps' \<and> (\<forall>g. g |\<in>| gaps' \<longrightarrow> g |\<in>| gaps \<and> n' < g)
    \<and> (\<forall>x. n \<le> x \<longrightarrow> x |\<notin>| gaps \<longrightarrow> n' \<le> x)"
  using assms
proof (induction n gaps rule: advance_gaps_induct)
  case (stop n gaps)
  then show ?case by (auto simp: advance_gaps_stop order.strict_iff_order)
next
  case (step n gaps)
  have "saturating_add n 1 \<le> g" if "g |\<in>| gaps |-| {|n|}" for g
    using that step.prems(2) [of g] by (intro word_next_le) (auto simp: order.strict_iff_order)
  moreover have "advance_gaps (saturating_add n 1) (gaps |-| {|n|}) = (n', gaps')"
    using step.prems(1) advance_gaps_step [OF step.hyps] by simp
  ultimately have IH: "saturating_add n 1 \<le> n' \<and> n' |\<notin>| gaps'
      \<and> (\<forall>g. g |\<in>| gaps' \<longrightarrow> g |\<in>| gaps |-| {|n|} \<and> n' < g)
      \<and> (\<forall>x. saturating_add n 1 \<le> x \<longrightarrow> x |\<notin>| gaps |-| {|n|} \<longrightarrow> n' \<le> x)"
    using step.IH by blast
  have "n' \<le> x" if "n \<le> x" "x |\<notin>| gaps" for x
  proof -
    from that step.hyps have "n < x" by (auto simp: order.strict_iff_order)
    then have "saturating_add n 1 \<le> x" by (rule word_next_le)
    with IH that show ?thesis by auto
  qed
  moreover have "n \<le> n'" using IH saturating_add_ge order_trans by blast
  ultimately show ?case using IH by auto
qed

text \<open>The last position, \<open>u64::MAX\<close>, is never assigned to an event; it is left out here because the
  checkpoint saturates there.\<close>

lemma advance_gaps_done:
  assumes "advance_gaps n gaps = (n', gaps')" "x \<noteq> - 1"
  shows "x < n' \<or> x |\<in>| gaps' \<longleftrightarrow> x < n \<or> x |\<in>| gaps"
  using assms
proof (induction n gaps rule: advance_gaps_induct)
  case (stop n gaps)
  then show ?case by (simp add: advance_gaps_stop)
next
  case (step n gaps)
  have "x < saturating_add n 1 \<longleftrightarrow> x < n \<or> (x = n \<and> n \<noteq> - 1)"
    using unat_max_word_cases [of n]
    by (auto simp: saturating_add_1 word_less_nat_alt word_unat_eq_iff)
  with step show ?case
    by (auto simp: advance_gaps_step)
qed

definition done_positions :: "AggregateGroupPartition \<Rightarrow> u64 set" where
  "done_positions p = {q. q \<noteq> - 1 \<and> (q < next_position p \<or> q |\<in>| resolved_gaps p)}"

lemma resolve_simps [simp]:
  "epoch (resolve p q) = epoch p" "leases (resolve p q) = leases p"
  "deliveries (resolve p q) = deliveries p" "pending_retries (resolve p q) = pending_retries p"
  "parked (resolve p q) = parked p"
  by (simp_all add: resolve_def Let_def split: prod.splits)

lemma resolve_spec:
  assumes "\<And>g. g |\<in>| resolved_gaps p \<Longrightarrow> next_position p < g"
  shows "next_position p \<le> next_position (resolve p q)"
    and "g |\<in>| resolved_gaps (resolve p q) \<Longrightarrow> next_position (resolve p q) < g"
    and "open_position p x \<Longrightarrow> x \<noteq> q \<Longrightarrow> open_position (resolve p q) x"
proof -
  show "next_position p \<le> next_position (resolve p q)"
    and "g |\<in>| resolved_gaps (resolve p q) \<Longrightarrow> next_position (resolve p q) < g"
    and "open_position p x \<Longrightarrow> x \<noteq> q \<Longrightarrow> open_position (resolve p q) x"
  proof (atomize (full), cases "q < next_position p")
    case True
    then show "next_position p \<le> next_position (resolve p q)
        \<and> (g |\<in>| resolved_gaps (resolve p q) \<longrightarrow> next_position (resolve p q) < g)
        \<and> (open_position p x \<longrightarrow> x \<noteq> q \<longrightarrow> open_position (resolve p q) x)"
      using assms by (simp add: resolve_def)
  next
    case False
    obtain n gaps where adv: "advance_gaps (next_position p) (finsert q (resolved_gaps p)) = (n, gaps)"
      by fastforce
    have "next_position p \<le> g" if "g |\<in>| finsert q (resolved_gaps p)" for g
      using that False assms by (force simp: not_less)
    from advance_gaps_spec [OF adv this] False adv show
      "next_position p \<le> next_position (resolve p q)
        \<and> (g |\<in>| resolved_gaps (resolve p q) \<longrightarrow> next_position (resolve p q) < g)
        \<and> (open_position p x \<longrightarrow> x \<noteq> q \<longrightarrow> open_position (resolve p q) x)"
      by (auto simp: resolve_def open_position_def)
  qed
qed

lemma resolve_done: "done_positions (resolve p q) = done_positions p \<union> ({q} - {- 1})"
proof (cases "q < next_position p")
  case True
  then show ?thesis by (auto simp: resolve_def done_positions_def)
next
  case False
  obtain n gaps where adv: "advance_gaps (next_position p) (finsert q (resolved_gaps p)) = (n, gaps)"
    by fastforce
  with False have "x \<in> done_positions (resolve p q) \<longleftrightarrow> x \<in> done_positions p \<union> ({q} - {- 1})" for x
    using advance_gaps_done [OF adv, of x] by (auto simp: resolve_def done_positions_def)
  then show ?thesis by blast
qed

lemma resolve_wf:
  assumes "wf_partition p" "detached p d"
  shows "wf_partition (resolve p (dlv_partition_position d))"
proof -
  let ?q = "resolve p (dlv_partition_position d)"
  have gaps: "\<And>g. g |\<in>| resolved_gaps p \<Longrightarrow> next_position p < g"
    using assms(1) by (simp add: wf_partition_def)
  note spec = resolve_spec [of p, OF gaps]
  have "wf_delivery ?q i e" if "fmlookup (deliveries p) i = Some e" for i e
    using assms that spec(3) [of "dlv_partition_position e" "dlv_partition_position d"]
    by (auto simp: wf_partition_def wf_delivery_def detached_def lease_covers_def)
  moreover have "wf_retry ?q k r" if "fmlookup (pending_retries p) k = Some r" for k r
  proof -
    from assms that have "k \<noteq> dlv_partition_position d" by (auto simp: detached_def)
    with assms(1) that spec(3) [of k "dlv_partition_position d"] show ?thesis
      by (simp add: wf_partition_def wf_retry_def)
  qed
  ultimately show ?thesis
    using spec(2) by (simp add: wf_partition_def)
qed

lemma wf_partition_parked [simp]: "wf_partition (p\<lparr>parked := x\<rparr>) \<longleftrightarrow> wf_partition p"
  by (simp add: wf_partition_defs)

lemma park_wf: "wf_partition p \<Longrightarrow> detached p d \<Longrightarrow> wf_partition (park p d reason now_ms)"
  by (simp add: park_def Let_def resolve_wf)

lemma pending_wf:
  assumes "wf_partition p" "detached p d"
    and "rty_partition_position r = dlv_partition_position d" "rty_aggregate_id r = dlv_aggregate_id d"
  shows "wf_partition (p\<lparr>pending_retries := fmupd (dlv_partition_position d) r (pending_retries p)\<rparr>)"
proof -
  let ?q = "p\<lparr>pending_retries := fmupd (dlv_partition_position d) r (pending_retries p)\<rparr>"
  have "wf_delivery ?q i e" if e: "fmlookup (deliveries p) i = Some e" for i e
  proof -
    from assms(1) e have "wf_delivery p i e" by (simp add: wf_partition_def)
    moreover from assms(2) e have "dlv_partition_position e \<noteq> dlv_partition_position d"
      "dlv_aggregate_id e \<noteq> dlv_aggregate_id d" by (auto simp: detached_def)
    ultimately show ?thesis
      using assms(4) by (simp add: wf_delivery_def lease_covers_def open_position_def)
  qed
  moreover have "wf_retry ?q k s" if "fmlookup (pending_retries ?q) k = Some s" for k s
    using assms that by (auto simp: wf_partition_def wf_retry_def detached_def open_position_def
        split: if_splits) blast
  ultimately show ?thesis using assms(1) by (simp add: wf_partition_def)
qed

lemma retry_or_park_wf:
  "wf_partition p \<Longrightarrow> detached p d \<Longrightarrow> wf_partition (retry_or_park p d reason now_ms settings)"
  by (simp add: retry_or_park_def Let_def park_wf pending_wf)

lemma release_unused_leases_wf:
  assumes "wf_partition p"
  shows "wf_partition (release_unused_leases p)"
proof -
  have "dlv_aggregate_id d |\<in>| active_aggregates p" if "fmlookup (deliveries p) i = Some d" for i d
    using that by (auto simp: active_aggregates_def intro: fmranI)
  with assms show ?thesis
    by (auto simp: release_unused_leases_def wf_partition_defs Let_def)
qed

lemma settle_one_wf:
  assumes "wf_partition p" "fmlookup (deliveries p) (stl_delivery_id s) = Some d"
  shows "wf_partition (settle_one p now_ms settings d s)"
  using remove_delivery_wf [OF assms]
  by (simp add: settle_one_def Let_def resolve_wf park_wf retry_or_park_wf
      split: AggregateSettlementAction.splits)

lemma settle_step_wf: "wf_partition p \<Longrightarrow> wf_partition (fst (settle_step consumer now_ms settings p s))"
  by (simp add: settle_step_def settle_one_wf split: option.splits)

lemma settle_loop_run:
  "settle_loop p consumer now_ms settings ss =
     (run_commands (settle_step consumer now_ms settings) p ss,
      run_replies (settle_step consumer now_ms settings) p ss)"
  by (induction ss arbitrary: p) (simp_all add: split_beta Let_def)

lemma renew_loop_run:
  "renew_loop p consumer deadline is =
     (run_commands (renew_one consumer deadline) p is, run_replies (renew_one consumer deadline) p is)"
  by (induction "is" arbitrary: p) (simp_all add: split_beta Let_def)

interpretation settling: command_machine "settle_step consumer now_ms settings" wf_partition
  by standard (rule settle_step_wf)

lemma settle_wf: "wf_partition p \<Longrightarrow> wf_partition (fst (settle p consumer e now_ms settings ss))"
  by (simp add: settle_def settle_loop_run settling.run_wf release_unused_leases_wf)

lemma expire_loop_wf: "wf_partition p \<Longrightarrow> wf_partition (expire_loop p now_ms settings ids)"
  by (induction ids arbitrary: p)
    (auto simp: remove_delivery_wf retry_or_park_wf split: option.splits)

lemma expire_wf: "wf_partition p \<Longrightarrow> wf_partition (fst (expire p now_ms settings))"
  by (simp add: expire_def Let_def expire_loop_wf release_unused_leases_wf)

lemma renew_one_wf:
  assumes "wf_partition p"
  shows "wf_partition (fst (renew_one consumer deadline p i))"
proof (cases "\<exists>d. fmlookup (deliveries p) i = Some d \<and> dlv_consumer_id d = consumer")
  case False
  with assms show ?thesis by (auto simp: renew_one_def split: option.splits)
next
  case True
  then obtain d where Some: "fmlookup (deliveries p) i = Some d" "dlv_consumer_id d = consumer" by blast
  with assms have d: "wf_delivery p i d" by (simp add: wf_partition_def)
  then obtain l where l: "fmlookup (leases p) (dlv_aggregate_id d) = Some l"
    "lse_deadline_ms l = dlv_deadline_ms d"
    by (auto simp: wf_delivery_def lease_covers_def)
  let ?q = "fst (renew_one consumer deadline p i)"
  have "wf_delivery ?q j e" if e: "fmlookup (deliveries ?q) j = Some e" for j e
  proof (cases "j = i")
    case True
    with e Some have "e = d\<lparr>dlv_deadline_ms := max (dlv_deadline_ms d) deadline\<rparr>"
      by (simp add: renew_one_def)
    with d l True Some show ?thesis
      by (simp add: renew_one_def wf_delivery_def lease_covers_def open_position_def)
  next
    case False
    with e Some have e': "fmlookup (deliveries p) j = Some e"
      by (simp add: renew_one_def split: if_splits)
    with assms have "wf_delivery p j e" by (simp add: wf_partition_def)
    moreover from d e' False have "dlv_aggregate_id e \<noteq> dlv_aggregate_id d"
      "dlv_partition_position e \<noteq> dlv_partition_position d" by (auto simp: wf_delivery_def)
    ultimately show ?thesis using l Some
      by (simp add: renew_one_def wf_delivery_def lease_covers_def open_position_def)
  qed
  moreover have "wf_retry ?q k r" if "fmlookup (pending_retries p) k = Some r" for k r
    using assms that Some by (simp add: renew_one_def wf_partition_def wf_retry_def open_position_def)
  ultimately show ?thesis
    using assms Some by (auto simp: wf_partition_def renew_one_def split: if_splits)
qed

interpretation renewing: command_machine "renew_one consumer deadline" wf_partition
  by standard (rule renew_one_wf)

lemma renew_wf: "wf_partition p \<Longrightarrow> wf_partition (fst (renew p consumer e deadline is))"
  by (simp add: renew_def renew_loop_run renewing.run_wf)

section \<open>Claiming\<close>

definition claimable ::
  "AggregateGroupPartition \<Rightarrow> string \<Rightarrow> u64 \<Rightarrow> AggregateDeliveryCandidate \<Rightarrow> bool" where
  "claimable p consumer_id now_ms c \<longleftrightarrow>
     next_position p \<le> cand_partition_position c \<and> \<not> candidate_taken p c
     \<and> \<not> candidate_not_due p now_ms c \<and> \<not> candidate_blocked p c \<and> \<not> lease_held p consumer_id now_ms c"

lemma delivery_of_simps [simp]:
  "dlv_delivery_id (delivery_of p consumer deadline c) = cand_delivery_id c"
  "dlv_consumer_id (delivery_of p consumer deadline c) = consumer"
  "dlv_partition_position (delivery_of p consumer deadline c) = cand_partition_position c"
  "dlv_aggregate_id (delivery_of p consumer deadline c) = cand_aggregate_id c"
  "dlv_event_id (delivery_of p consumer deadline c) = cand_event_id c"
  "dlv_deadline_ms (delivery_of p consumer deadline c) = deadline"
  "dlv_group_epoch (delivery_of p consumer deadline c) = epoch p"
  by (simp_all add: delivery_of_def Let_def)

lemma take_candidate_wf:
  assumes "wf_partition p" "claimable p consumer now_ms c"
  shows "wf_partition (take_candidate p (delivery_of p consumer deadline c))"
proof -
  let ?d = "delivery_of p consumer deadline c" and ?q = "take_candidate p (delivery_of p consumer deadline c)"
  have free: "cand_partition_position c |\<notin>| resolved_gaps p" "next_position p \<le> cand_partition_position c"
    using assms(2) by (auto simp: claimable_def candidate_taken_def)
  have d_other: "dlv_partition_position e \<noteq> cand_partition_position c
      \<and> dlv_aggregate_id e \<noteq> cand_aggregate_id c \<and> i \<noteq> cand_delivery_id c"
    if "fmlookup (deliveries p) i = Some e" for i e
    using assms(2) that by (auto simp: claimable_def candidate_taken_def candidate_blocked_def fm_any_iff)
  have r_other: "rty_aggregate_id r \<noteq> cand_aggregate_id c"
    if "fmlookup (pending_retries p) k = Some r" "k \<noteq> cand_partition_position c" for k r
    using assms that
    by (auto simp: claimable_def candidate_blocked_def fm_any_iff wf_partition_def wf_retry_def)
  have "wf_delivery ?q i e" if e: "fmlookup (deliveries ?q) i = Some e" for i e
  proof (cases "i = cand_delivery_id c")
    case True
    with e free d_other r_other show ?thesis
      by (auto simp: take_candidate_def wf_delivery_def lease_covers_def open_position_def)
  next
    case False
    with e have e': "fmlookup (deliveries p) i = Some e" by (simp add: take_candidate_def)
    with assms(1) have "wf_delivery p i e" by (simp add: wf_partition_def)
    with d_other [OF e'] show ?thesis
      by (auto simp: take_candidate_def wf_delivery_def lease_covers_def open_position_def)
  qed
  moreover have "wf_retry ?q k r" if "fmlookup (pending_retries ?q) k = Some r" for k r
    using assms(1) that
    by (auto simp: take_candidate_def wf_partition_def wf_retry_def open_position_def split: if_splits)
  ultimately show ?thesis
    using assms(1) by (simp add: wf_partition_def take_candidate_def)
qed

text \<open>The loop of \<open>claim\<close> as a relation: which candidates it takes, one after the other.\<close>

inductive claims ::
  "string \<Rightarrow> u64 \<Rightarrow> u64 \<Rightarrow> AggregateGroupPartition \<Rightarrow> AggregateDeliveryCandidate list
     \<Rightarrow> AggregateGroupPartition \<Rightarrow> AggregateGroupDelivery list \<Rightarrow> bool"
  for consumer now_ms deadline where
  stop: "claims consumer now_ms deadline p cs p []"
| skip: "\<not> claimable p consumer now_ms c \<Longrightarrow> claims consumer now_ms deadline p cs q ds \<Longrightarrow>
     claims consumer now_ms deadline p (c # cs) q ds"
| take: "claimable p consumer now_ms c \<Longrightarrow> d = delivery_of p consumer deadline c \<Longrightarrow>
     claims consumer now_ms deadline (take_candidate p d) cs q ds \<Longrightarrow>
     claims consumer now_ms deadline p (c # cs) q (d # ds)"

lemma claim_loop_claims:
  "\<exists>ds. snd (claim_loop consumer now_ms deadline max_bytes p credit bytes claimed cs) = claimed @ ds
    \<and> claims consumer now_ms deadline p cs
        (fst (claim_loop consumer now_ms deadline max_bytes p credit bytes claimed cs)) ds"
proof (induction cs arbitrary: p credit bytes claimed)
  case Nil
  then show ?case by (simp add: claims.stop)
next
  case (Cons c cs)
  let ?stop = "credit = 0 \<or> cand_partition_position c < next_position p"
  let ?skip = "candidate_taken p c \<or> candidate_not_due p now_ms c \<or> candidate_blocked p c
    \<or> lease_held p consumer now_ms c"
  let ?full = "claimed \<noteq> [] \<and> saturating_add bytes (cand_payload_bytes c) > max_bytes"
  consider (stop) "?stop \<or> (\<not> ?skip \<and> ?full)" | (skip) "\<not> ?stop" "?skip" | (take) "\<not> ?stop" "\<not> ?skip" "\<not> ?full"
    by blast
  then show ?case
  proof cases
    case stop
    then show ?thesis by (auto simp: claims.stop)
  next
    case skip
    then have "\<not> claimable p consumer now_ms c" by (auto simp: claimable_def)
    with skip Cons [of p credit bytes claimed] show ?thesis by (auto intro: claims.skip)
  next
    case take
    then have "claimable p consumer now_ms c" by (auto simp: claimable_def not_less)
    let ?d = "delivery_of p consumer deadline c"
    from Cons [of "take_candidate p ?d" "credit - 1" "saturating_add bytes (cand_payload_bytes c)" "claimed @ [?d]"]
    show ?thesis using take \<open>claimable p consumer now_ms c\<close>
      by (auto simp: Let_def intro: claims.take)
  qed
qed

lemma claims_wf: "claims consumer now_ms deadline p cs q ds \<Longrightarrow> wf_partition p \<Longrightarrow> wf_partition q"
  by (induction rule: claims.induct) (auto simp: take_candidate_wf)

lemma claim_cases:
  obtains (refused) "claim p consumer now_ms deadline settings max_claim max_bytes cs = (p, [])"
  | (run) "\<not> is_err (AggregateGroupSettings_validate settings)" "now_ms < deadline"
      "claim p consumer now_ms deadline settings max_claim max_bytes cs
        = claim_loop consumer now_ms deadline max_bytes (fst (expire p now_ms settings))
            (min (available_credit (fst (expire p now_ms settings)) consumer settings) max_claim) 0 [] cs"
  by (cases "consumer = [] \<or> deadline \<le> now_ms \<or> max_claim = 0 \<or> max_bytes = 0
        \<or> is_err (AggregateGroupSettings_validate settings)")
    (auto simp: claim_def Let_def)

lemma claim_claims:
  assumes "claim p consumer now_ms deadline settings max_claim max_bytes cs = (q, ds)"
  shows "(q = p \<and> ds = []) \<or> claims consumer now_ms deadline (fst (expire p now_ms settings)) cs q ds"
proof (cases rule: claim_cases [of p consumer now_ms deadline settings max_claim max_bytes cs])
  case refused
  with assms show ?thesis by simp
next
  case run
  with assms claim_loop_claims [of consumer now_ms deadline max_bytes "fst (expire p now_ms settings)" _ 0 "[]" cs]
  show ?thesis by (metis append_Nil fst_conv snd_conv)
qed

lemma claim_wf:
  assumes "wf_partition p"
  shows "wf_partition (fst (claim p consumer now_ms deadline settings max_claim max_bytes cs))"
proof -
  obtain q ds where "claim p consumer now_ms deadline settings max_claim max_bytes cs = (q, ds)" by fastforce
  from claim_claims [OF this] this show ?thesis
    using assms claims_wf expire_wf by auto
qed

section \<open>Progress\<close>

definition outstanding :: "AggregateGroupPartition \<Rightarrow> u64 set" where
  "outstanding p = {q. \<exists>i d. fmlookup (deliveries p) i = Some d \<and> dlv_partition_position d = q}
     \<union> fset (fmdom (pending_retries p))"

lemma outstandingI:
  "fmlookup (deliveries p) i = Some d \<Longrightarrow> dlv_partition_position d \<in> outstanding p"
  "fmlookup (pending_retries p) k = Some r \<Longrightarrow> k \<in> outstanding p"
  by (auto simp: outstanding_def intro: fmdomI)

lemma outstandingE:
  assumes "x \<in> outstanding p"
  obtains i d where "fmlookup (deliveries p) i = Some d" "x = dlv_partition_position d"
  | r where "fmlookup (pending_retries p) x = Some r"
  using assms by (auto simp: outstanding_def fmlookup_dom_iff)

text \<open>What one partition state keeps of an earlier one of the same epoch: the checkpoint does not
  move back, resolved positions stay resolved, and an outstanding event stays outstanding until
  it is resolved.\<close>

definition carries :: "AggregateGroupPartition \<Rightarrow> AggregateGroupPartition \<Rightarrow> bool" where
  "carries p q \<longleftrightarrow> epoch q = epoch p \<and> next_position p \<le> next_position q
     \<and> done_positions p \<subseteq> done_positions q
     \<and> outstanding p \<subseteq> outstanding q \<union> done_positions q \<union> {- 1}"

lemma carries_refl [simp]: "carries p p"
  by (auto simp: carries_def)

lemma carries_trans: "carries p q \<Longrightarrow> carries q r \<Longrightarrow> carries p r"
  unfolding carries_def by (auto intro: order_trans)

lemma carries_same:
  assumes "epoch q = epoch p" "next_position q = next_position p" "resolved_gaps q = resolved_gaps p"
    and "outstanding p \<subseteq> outstanding q"
  shows "carries p q"
  using assms by (auto simp: carries_def done_positions_def)

lemma outstanding_remove:
  assumes "fmlookup (deliveries p) i = Some d"
  shows "outstanding p \<subseteq> insert (dlv_partition_position d) (outstanding (remove_delivery p i))"
proof
  fix x assume "x \<in> outstanding p"
  then show "x \<in> insert (dlv_partition_position d) (outstanding (remove_delivery p i))"
  proof (cases rule: outstandingE)
    case (1 j e)
    with assms show ?thesis
      using outstandingI(1) [of "remove_delivery p i" j e] by (cases "j = i") (auto simp: remove_delivery_def)
  next
    case (2 r)
    then show ?thesis
      using outstandingI(2) [of "remove_delivery p i" x r] by (simp add: remove_delivery_def)
  qed
qed

lemma carries_resolve:
  assumes "wf_partition p" "fmlookup (deliveries p) i = Some d"
  shows "carries p (resolve (remove_delivery p i) (dlv_partition_position d))"
proof -
  let ?r = "remove_delivery p i"
  have "g |\<in>| resolved_gaps ?r \<Longrightarrow> next_position ?r < g" for g
    using assms(1) by (simp add: remove_delivery_def wf_partition_def)
  from resolve_spec(1) [OF this, of "dlv_partition_position d"]
  have "next_position p \<le> next_position (resolve ?r (dlv_partition_position d))"
    by (simp add: remove_delivery_def)
  moreover have "done_positions ?r = done_positions p"
    by (simp add: done_positions_def remove_delivery_def)
  moreover have "outstanding (resolve ?r q) = outstanding ?r" for q
    by (simp add: outstanding_def)
  ultimately show ?thesis
    using outstanding_remove [OF assms(2)] by (auto simp: carries_def resolve_done remove_delivery_def)
qed

lemma carries_parked [simp]: "carries p (q\<lparr>parked := x\<rparr>) \<longleftrightarrow> carries p q"
  by (simp add: carries_def outstanding_def done_positions_def)

lemma carries_leases [simp]: "carries p (q\<lparr>leases := x\<rparr>) \<longleftrightarrow> carries p q"
  by (simp add: carries_def outstanding_def done_positions_def)

lemma carries_park:
  assumes "wf_partition p" "fmlookup (deliveries p) i = Some d"
  shows "carries p (park (remove_delivery p i) d reason now_ms)"
  using carries_resolve [OF assms] by (simp add: park_def Let_def)

lemma carries_retry_or_park:
  assumes "wf_partition p" "fmlookup (deliveries p) i = Some d"
  shows "carries p (retry_or_park (remove_delivery p i) d reason now_ms settings)"
proof -
  have "carries p (remove_delivery p i\<lparr>pending_retries := fmupd (dlv_partition_position d) r
      (pending_retries (remove_delivery p i))\<rparr>)" for r
    using outstanding_remove [OF assms(2)]
    by (intro carries_same) (auto simp: remove_delivery_def outstanding_def)
  then show ?thesis
    using carries_park [OF assms] by (simp add: retry_or_park_def Let_def)
qed

lemma settle_step_carries:
  assumes "wf_partition p"
  shows "carries p (fst (settle_step consumer now_ms settings p s))"
proof (cases "fmlookup (deliveries p) (stl_delivery_id s)")
  case None
  then show ?thesis by (simp add: settle_step_def)
next
  case (Some d)
  note c = carries_resolve [OF assms Some] carries_park [OF assms Some] carries_retry_or_park [OF assms Some]
  with Some show ?thesis
    by (simp add: settle_step_def settle_one_def Let_def split: AggregateSettlementAction.splits)
qed

lemma renew_one_carries: "carries p (fst (renew_one consumer deadline p i))"
proof (rule carries_same)
  let ?q = "fst (renew_one consumer deadline p i)"
  show "outstanding p \<subseteq> outstanding ?q"
  proof
    fix x assume "x \<in> outstanding p"
    then show "x \<in> outstanding ?q"
    proof (cases rule: outstandingE)
      case (1 j e)
      then have "\<exists>e'. fmlookup (deliveries ?q) j = Some e' \<and> dlv_partition_position e' = x"
        by (auto simp: renew_one_def split: option.splits)
      then show ?thesis using outstandingI(1) by blast
    next
      case (2 r)
      then have "fmlookup (pending_retries ?q) x = Some r"
        by (simp add: renew_one_def split: option.splits)
      then show ?thesis by (rule outstandingI)
    qed
  qed
qed (simp_all add: renew_one_def split: option.splits)

interpretation settling_carries: monotone_machine "settle_step consumer now_ms settings" wf_partition carries
  by standard (auto simp: settle_step_carries intro: carries_trans)

interpretation renewing_carries: monotone_machine "renew_one consumer deadline" wf_partition carries
  by standard (auto simp: renew_one_carries intro: carries_trans)

lemma release_carries [simp]: "carries p (release_unused_leases q) \<longleftrightarrow> carries p q"
  by (simp add: release_unused_leases_def Let_def)

lemma settle_carries: "wf_partition p \<Longrightarrow> carries p (fst (settle p consumer e now_ms settings ss))"
  by (simp add: settle_def settle_loop_run settling_carries.run_below)

lemma renew_carries: "wf_partition p \<Longrightarrow> carries p (fst (renew p consumer e deadline is))"
  by (simp add: renew_def renew_loop_run renewing_carries.run_below)

lemma expire_loop_carries: "wf_partition p \<Longrightarrow> carries p (expire_loop p now_ms settings ids)"
proof (induction ids arbitrary: p)
  case Nil
  then show ?case by simp
next
  case (Cons i ids)
  show ?case
  proof (cases "fmlookup (deliveries p) i")
    case (Some d)
    let ?q = "retry_or_park (remove_delivery p i) d ''ack timeout'' now_ms settings"
    have "wf_partition ?q" using Cons.prems Some by (simp add: remove_delivery_wf retry_or_park_wf)
    from Cons.IH [OF this] carries_retry_or_park [OF Cons.prems Some] show ?thesis
      using Some carries_trans by simp blast
  qed (simp add: Cons)
qed

lemma expire_carries: "wf_partition p \<Longrightarrow> carries p (fst (expire p now_ms settings))"
  by (simp add: expire_def Let_def expire_loop_carries)

lemma take_candidate_carries: "carries p (take_candidate p (delivery_of p consumer deadline c))"
  if "claimable p consumer now_ms c"
proof (rule carries_same)
  let ?q = "take_candidate p (delivery_of p consumer deadline c)"
  have new: "fmlookup (deliveries p) (cand_delivery_id c) = None"
    using that by (simp add: claimable_def candidate_taken_def)
  show "outstanding p \<subseteq> outstanding ?q"
  proof
    fix x assume "x \<in> outstanding p"
    then show "x \<in> outstanding ?q"
    proof (cases rule: outstandingE)
      case (1 j e)
      with new have "fmlookup (deliveries ?q) j = Some e" by (auto simp: take_candidate_def)
      with 1 show ?thesis using outstandingI(1) by blast
    next
      case (2 r)
      show ?thesis
      proof (cases "x = cand_partition_position c")
        case True
        then show ?thesis
          using outstandingI(1) [of ?q "cand_delivery_id c" "delivery_of p consumer deadline c"]
          by (simp add: take_candidate_def)
      next
        case False
        with 2 show ?thesis
          using outstandingI(2) [of ?q x r] by (simp add: take_candidate_def)
      qed
    qed
  qed
qed (simp_all add: take_candidate_def)

lemma claims_carries: "claims consumer now_ms deadline p cs q ds \<Longrightarrow> carries p q"
  by (induction rule: claims.induct) (auto intro: carries_trans take_candidate_carries)

lemma claim_carries:
  assumes "wf_partition p"
  shows "carries p (fst (claim p consumer now_ms deadline settings max_claim max_bytes cs))"
proof -
  obtain q ds where "claim p consumer now_ms deadline settings max_claim max_bytes cs = (q, ds)" by fastforce
  from claim_claims [OF this] this show ?thesis
    using assms claims_carries expire_carries carries_trans by (metis carries_refl fst_conv)
qed

end
