(* ===== verification/Group_Delivery.thy ===== *)
theory Group_Delivery
  imports Group_Partition "HOL-Library.Sublist"
begin

text \<open>
  Consumer group commands on one partition as the Raft state machine applies them
  (\<open>es-storage/src/raft_type.rs\<close> and \<open>apply_aggregate_group_partition\<close> in
  \<open>es-storage/src/state_machine.rs\<close>): the epoch check with its reset, then one of Claim, Settle,
  Renew and Expire. The properties say what a consumer can rely on over any sequence of commands:
  exclusive delivery per aggregate, no event lost, quotas, order within an aggregate, fencing.
\<close>

datatype AggregateGroupPartitionCommand =
    GpClaim string u64 u64 u32 u64 "AggregateDeliveryCandidate list"
  | GpSettle string u64 "AggregateSettlement list"
  | GpRenew string u64 "uuid list"
  | GpExpire u64

datatype group_reply =
    GroupStaleEpoch u64
  | GroupClaimed "AggregateGroupDelivery list"
  | GroupSettled "AggregateSettlementResult list"
  | GroupRenewed "AggregateSettlementResult list"
  | GroupExpired u64

record group_request =
  gr_group_epoch :: u64
  gr_start_position :: u64
  gr_settings :: AggregateGroupSettings
  gr_command :: AggregateGroupPartitionCommand

fun group_partition_command ::
  "AggregateGroupPartition \<Rightarrow> u64 \<Rightarrow> AggregateGroupSettings \<Rightarrow> AggregateGroupPartitionCommand
     \<Rightarrow> AggregateGroupPartition \<times> group_reply" where
  "group_partition_command p group_epoch settings
     (GpClaim consumer_id now_ms deadline_ms max_claim max_bytes candidates) =
     (let (q, claimed) = claim p consumer_id now_ms deadline_ms settings max_claim max_bytes candidates
      in (q, GroupClaimed claimed))"
| "group_partition_command p group_epoch settings (GpSettle consumer_id now_ms settlements) =
     (let (q, results) = settle p consumer_id group_epoch now_ms settings settlements
      in (q, GroupSettled results))"
| "group_partition_command p group_epoch settings (GpRenew consumer_id deadline_ms delivery_ids) =
     (let (q, results) = renew p consumer_id group_epoch deadline_ms delivery_ids
      in (q, GroupRenewed results))"
| "group_partition_command p group_epoch settings (GpExpire now_ms) =
     (let (q, n) = expire p now_ms settings in (q, GroupExpired (word_of_nat n)))"

definition group_partition_step ::
  "AggregateGroupPartition \<Rightarrow> group_request \<Rightarrow> AggregateGroupPartition \<times> group_reply" where
  "group_partition_step p req =
     (if epoch p > gr_group_epoch req then (p, GroupStaleEpoch (epoch p))
      else let q = (if epoch p < gr_group_epoch req
                    then AggregateGroupPartition_reset p (gr_group_epoch req) (gr_start_position req)
                    else p)
           in group_partition_command q (gr_group_epoch req) (gr_settings req) (gr_command req))"

section \<open>Reachable partition states\<close>

lemma group_partition_command_wf:
  "wf_partition p \<Longrightarrow> wf_partition (fst (group_partition_command p e settings cmd))"
  by (cases cmd)
    (simp_all add: split_beta Let_def claim_wf settle_wf renew_wf expire_wf)

lemma group_partition_command_carries:
  "wf_partition p \<Longrightarrow> carries p (fst (group_partition_command p e settings cmd))"
  by (cases cmd)
    (simp_all add: split_beta Let_def claim_carries settle_carries renew_carries expire_carries)

text \<open>Across epochs only the epoch itself is ordered; within one epoch progress is carried on.\<close>

definition group_progress :: "AggregateGroupPartition \<Rightarrow> AggregateGroupPartition \<Rightarrow> bool" where
  "group_progress p q \<longleftrightarrow> epoch p < epoch q \<or> carries p q"

lemma carries_epoch: "carries p q \<Longrightarrow> epoch q = epoch p"
  by (simp add: carries_def)

lemma group_partition_step_wf: "wf_partition p \<Longrightarrow> wf_partition (fst (group_partition_step p req))"
  by (simp add: group_partition_step_def Let_def AggregateGroupPartition_reset_def
      group_partition_command_wf wf_partition_new)

lemma group_partition_step_progress:
  assumes "wf_partition p"
  shows "group_progress p (fst (group_partition_step p req))"
proof (cases "epoch p < gr_group_epoch req")
  case True
  let ?q = "AggregateGroupPartition_new (gr_group_epoch req) (gr_start_position req)"
  have "carries ?q (fst (group_partition_command ?q (gr_group_epoch req) (gr_settings req) (gr_command req)))"
    by (simp add: group_partition_command_carries wf_partition_new)
  then have "epoch (fst (group_partition_step p req)) = gr_group_epoch req"
    using True less_not_sym by (auto simp: group_partition_step_def AggregateGroupPartition_reset_def carries_def
        AggregateGroupPartition_new_def)
  with True show ?thesis by (simp add: group_progress_def)
next
  case False
  with assms show ?thesis
    by (simp add: group_progress_def group_partition_step_def group_partition_command_carries)
qed

interpretation group_partition: monotone_machine group_partition_step wf_partition group_progress
proof
  show "group_progress s u" if "group_progress s t" "group_progress t u" for s t u
    using that by (auto simp: group_progress_def dest: carries_epoch intro: carries_trans less_trans)
  show "group_progress s s" for s by (simp add: group_progress_def)
qed (simp_all add: group_partition_step_wf group_partition_step_progress)

section \<open>Quotas\<close>

lemma fm_len_drop_le: "fm_len (fmdrop k m) \<le> fm_len m"
  by (rule fm_len_subset) auto

lemma fm_count_drop_le: "fm_count P (fmdrop k m) \<le> fm_count P m"
  by (rule fm_count_subset) (auto split: if_splits)

lemma retry_or_park_deliveries [simp]:
  "deliveries (retry_or_park p d reason now_ms settings) = deliveries p"
  by (simp add: retry_or_park_def park_def Let_def)

lemma expire_loop_deliveries_le:
  "fm_len (deliveries (expire_loop p now_ms settings ids)) \<le> fm_len (deliveries p)"
proof (induction ids arbitrary: p)
  case (Cons i ids)
  have "fm_len (deliveries (expire_loop (retry_or_park (remove_delivery p i) d r now_ms settings)
      now_ms settings ids)) \<le> fm_len (deliveries p)" for d r
  proof (rule order_trans [OF Cons])
    show "fm_len (deliveries (retry_or_park (remove_delivery p i) d r now_ms settings))
        \<le> fm_len (deliveries p)"
      by (simp add: remove_delivery_def fm_len_drop_le)
  qed
  then show ?case
    using Cons by (simp split: option.splits)
qed simp

lemma expire_deliveries_le:
  "fm_len (deliveries (fst (expire p now_ms settings))) \<le> fm_len (deliveries p)"
  by (simp add: expire_def Let_def release_unused_leases_def expire_loop_deliveries_le)

lemma claims_counts:
  assumes "claims consumer now_ms deadline p cs q ds"
  shows "fm_len (deliveries q) = fm_len (deliveries p) + length ds
    \<and> fm_count (\<lambda>d. dlv_consumer_id d = consumer) (deliveries q)
        = fm_count (\<lambda>d. dlv_consumer_id d = consumer) (deliveries p) + length ds"
  using assms
proof (induction rule: claims.induct)
  case (take p c d cs q ds)
  from take.hyps(1) have "cand_delivery_id c |\<notin>| fmdom (deliveries p)"
    by (auto simp: claimable_def candidate_taken_def fmlookup_dom_iff)
  with take show ?case by (simp add: take_candidate_def fm_len_upd fm_count_upd)
qed simp_all

lemma claim_loop_length:
  "length (snd (claim_loop consumer now_ms deadline max_bytes p credit bytes claimed cs))
     \<le> length claimed + unat credit"
proof (induction cs arbitrary: p credit bytes claimed)
  case (Cons c cs)
  have "unat credit = Suc (unat (credit - 1))" if "credit \<noteq> 0"
    using that unat_max_word_cases [of "credit - 1"] by (auto simp: unat_eq_0)
  then show ?case
    using Cons [of _ "credit - 1" _ "claimed @ [delivery_of p consumer deadline c]"]
      Cons [of p credit bytes claimed]
    by (auto simp: Let_def)
qed simp

text \<open>The candidates taken, and the byte budget they respect.\<close>

definition payload_total :: "AggregateDeliveryCandidate list \<Rightarrow> nat" where
  "payload_total cs = sum_list (map (\<lambda>c. unat (cand_payload_bytes c)) cs)"

lemma payload_total_simps [simp]:
  "payload_total [] = 0" "payload_total (c # cs) = unat (cand_payload_bytes c) + payload_total cs"
  "payload_total (cs @ ds) = payload_total cs + payload_total ds"
  by (simp_all add: payload_total_def)

lemma claim_loop_bytes:
  assumes "unat bytes = min (payload_total taken) (2 ^ 64 - 1)"
    and "length claimed = length taken" "length taken \<le> 1 \<or> bytes \<le> max_bytes"
    and "map dlv_delivery_id claimed = map cand_delivery_id taken"
  shows "\<exists>more. subseq more cs
    \<and> map dlv_delivery_id (snd (claim_loop consumer now_ms deadline max_bytes p credit bytes claimed cs))
        = map cand_delivery_id (taken @ more)
    \<and> (length (taken @ more) \<le> 1
        \<or> min (payload_total (taken @ more)) (2 ^ 64 - 1) \<le> unat max_bytes)"
  using assms
proof (induction cs arbitrary: p credit bytes claimed taken)
  case Nil
  then show ?case by (auto simp: word_le_nat_alt)
next
  case (Cons c cs)
  have kept: "length taken \<le> 1 \<or>
      min (payload_total taken) (2 ^ 64 - 1) \<le> unat max_bytes"
    using Cons.prems(1,3) by (simp add: word_le_nat_alt)
  let ?stop = "credit = 0 \<or> cand_partition_position c < next_position p"
  let ?skip = "candidate_taken p c \<or> candidate_not_due p now_ms c \<or> candidate_blocked p c
    \<or> lease_held p consumer now_ms c"
  let ?bytes = "saturating_add bytes (cand_payload_bytes c)"
  let ?full = "claimed \<noteq> [] \<and> ?bytes > max_bytes"
  let ?d = "delivery_of p consumer deadline c"
  consider (stop) "?stop \<or> (\<not> ?skip \<and> ?full)" | (skip) "\<not> ?stop" "?skip" | (take) "\<not> ?stop" "\<not> ?skip" "\<not> ?full"
    by blast
  then show ?case
  proof cases
    case stop
    then have "snd (claim_loop consumer now_ms deadline max_bytes p credit bytes claimed (c # cs)) = claimed"
      by auto
    then show ?thesis using Cons.prems(4) kept
      by (intro exI [of _ "[]"]) simp
  next
    case skip
    with Cons.IH [OF Cons.prems, of p credit] show ?thesis by (auto intro: subseq_Cons')
  next
    case take
    have "unat ?bytes = min (payload_total (taken @ [c])) (2 ^ 64 - 1)"
      using Cons.prems(1) by (simp add: unat_saturating_add)
    moreover have "length (taken @ [c]) \<le> 1 \<or> ?bytes \<le> max_bytes"
      using take Cons.prems(2) by (auto simp: not_less)
    ultimately obtain more where "subseq more cs"
      "map dlv_delivery_id (snd (claim_loop consumer now_ms deadline max_bytes (take_candidate p ?d)
          (credit - 1) ?bytes (claimed @ [?d]) cs)) = map cand_delivery_id ((taken @ [c]) @ more)"
      "length ((taken @ [c]) @ more) \<le> 1 \<or> min (payload_total ((taken @ [c]) @ more)) (2 ^ 64 - 1) \<le> unat max_bytes"
      using Cons.IH [of ?bytes "taken @ [c]" "claimed @ [?d]" "take_candidate p ?d" "credit - 1"] Cons.prems
      by auto
    with take show ?thesis by (intro exI [of _ "c # more"]) (auto simp: Let_def)
  qed
qed

section \<open>Order within an aggregate\<close>

text \<open>
  \<open>log\<close> gives the aggregate of the event at each position of the partition. The server builds the
  candidates of a claim from the events at and after the checkpoint, in position order, with fresh
  delivery ids and \<open>replayed: false\<close> (\<open>fetch_group_partition_local\<close>).
\<close>

definition faithful_candidates ::
  "(u64 \<Rightarrow> string option) \<Rightarrow> AggregateGroupPartition \<Rightarrow> AggregateDeliveryCandidate list \<Rightarrow> bool" where
  "faithful_candidates log p cs \<longleftrightarrow>
     sorted_wrt (<) (map cand_partition_position cs) \<and> distinct (map cand_delivery_id cs)
     \<and> (\<forall>c \<in> set cs. log (cand_partition_position c) = Some (cand_aggregate_id c)
          \<and> \<not> cand_replayed c \<and> fmlookup (deliveries p) (cand_delivery_id c) = None
          \<and> (\<forall>q. next_position p \<le> q \<longrightarrow> q < cand_partition_position c \<longrightarrow> log q \<noteq> None \<longrightarrow>
               q \<in> cand_partition_position ` set cs))"

definition outstanding_event :: "AggregateGroupPartition \<Rightarrow> u64 \<Rightarrow> string \<Rightarrow> bool" where
  "outstanding_event p pos agg \<longleftrightarrow>
     (\<exists>i d. fmlookup (deliveries p) i = Some d \<and> dlv_partition_position d = pos \<and> dlv_aggregate_id d = agg)
     \<or> (\<exists>r. fmlookup (pending_retries p) pos = Some r \<and> rty_aggregate_id r = agg)"

definition in_order :: "(u64 \<Rightarrow> string option) \<Rightarrow> AggregateGroupPartition \<Rightarrow> bool" where
  "in_order log p \<longleftrightarrow> (\<forall>pos agg. outstanding_event p pos agg \<longrightarrow>
     log pos = Some agg \<and> (\<forall>q < pos. log q = Some agg \<longrightarrow> q \<in> done_positions p))"

lemma outstanding_eventI:
  "fmlookup (deliveries p) i = Some d \<Longrightarrow>
     outstanding_event p (dlv_partition_position d) (dlv_aggregate_id d)"
  "fmlookup (pending_retries p) k = Some r \<Longrightarrow> outstanding_event p k (rty_aggregate_id r)"
  by (auto simp: outstanding_event_def)

text \<open>A step that adds no outstanding event and keeps what is resolved keeps the order.\<close>

definition settles :: "AggregateGroupPartition \<Rightarrow> AggregateGroupPartition \<Rightarrow> bool" where
  "settles p q \<longleftrightarrow> done_positions p \<subseteq> done_positions q
     \<and> (\<forall>pos agg. outstanding_event q pos agg \<longrightarrow> outstanding_event p pos agg)
     \<and> (\<forall>i. fmlookup (deliveries p) i = None \<longrightarrow> fmlookup (deliveries q) i = None)"

lemma settles_refl [simp]: "settles p p"
  by (simp add: settles_def)

lemma settles_trans: "settles p q \<Longrightarrow> settles q r \<Longrightarrow> settles p r"
  by (auto simp: settles_def)

lemma in_order_settles: "in_order log p \<Longrightarrow> settles p q \<Longrightarrow> in_order log q"
  unfolding in_order_def settles_def by blast

lemma settles_remove_resolve: "settles p (resolve (remove_delivery p i) pos)"
proof -
  have "done_positions (remove_delivery p i) = done_positions p"
    by (simp add: done_positions_def remove_delivery_def)
  then show ?thesis
    by (auto simp: settles_def resolve_done outstanding_event_def)
      (auto simp: remove_delivery_def split: if_splits)
qed

lemma settles_park: "settles p (park (remove_delivery p i) d reason now_ms)"
  using settles_remove_resolve [of p i "dlv_partition_position d"]
  by (simp add: park_def Let_def settles_def outstanding_event_def done_positions_def)

lemma settles_retry_or_park:
  assumes "fmlookup (deliveries p) i = Some d"
  shows "settles p (retry_or_park (remove_delivery p i) d reason now_ms settings)"
proof (cases "saturating_add (dlv_attempt d) 1 > max_retries settings")
  case True
  then show ?thesis by (simp add: retry_or_park_def settles_park)
next
  case False
  with assms show ?thesis
    by (auto simp: retry_or_park_def Let_def settles_def outstanding_event_def done_positions_def
        remove_delivery_def split: if_splits)
qed

lemma settle_step_settles: "settles p (fst (settle_step consumer now_ms settings p s))"
proof (cases "fmlookup (deliveries p) (stl_delivery_id s)")
  case None
  then show ?thesis by (simp add: settle_step_def)
next
  case (Some d)
  with settles_retry_or_park [OF Some] show ?thesis
    by (simp add: settle_step_def settle_one_def Let_def settles_park settles_remove_resolve
        split: AggregateSettlementAction.splits)
qed

lemma settles_leases [simp]: "settles p (q\<lparr>leases := x\<rparr>) \<longleftrightarrow> settles p q"
  by (simp add: settles_def outstanding_event_def done_positions_def)

lemma release_settles [simp]: "settles p (release_unused_leases q) \<longleftrightarrow> settles p q"
  by (simp add: release_unused_leases_def Let_def)

interpretation settling_order: monotone_machine "settle_step consumer now_ms settings" "\<lambda>_. True" settles
  by standard (auto simp: settle_step_settles intro: settles_trans)

lemma settle_settles: "settles p (fst (settle p consumer e now_ms settings ss))"
  by (simp add: settle_def settle_loop_run settling_order.run_below)

lemma renew_one_settles: "settles p (fst (renew_one consumer deadline p i))"
  by (auto simp: settles_def renew_one_def outstanding_event_def done_positions_def
      split: option.splits if_splits)

interpretation renewing_order: monotone_machine "renew_one consumer deadline" "\<lambda>_. True" settles
  by standard (auto simp: renew_one_settles intro: settles_trans)

lemma renew_settles: "settles p (fst (renew p consumer e deadline is))"
  by (simp add: renew_def renew_loop_run renewing_order.run_below)

lemma expire_loop_settles: "settles p (expire_loop p now_ms settings ids)"
proof (induction ids arbitrary: p)
  case (Cons i ids)
  show ?case
  proof (cases "fmlookup (deliveries p) i")
    case (Some d)
    from settles_trans [OF settles_retry_or_park [OF Some] Cons] Some show ?thesis by simp
  qed (simp add: Cons)
qed simp

lemma expire_settles: "settles p (fst (expire p now_ms settings))"
  by (simp add: expire_def Let_def expire_loop_settles)

text \<open>Why an earlier candidate was passed over: it is resolved, or its aggregate has an event in
  flight, or another consumer holds the lease of its aggregate.\<close>

definition passed ::
  "AggregateGroupPartition \<Rightarrow> string \<Rightarrow> u64 \<Rightarrow> AggregateDeliveryCandidate \<Rightarrow> bool" where
  "passed p consumer now_ms c \<longleftrightarrow> cand_partition_position c = - 1
     \<or> cand_partition_position c \<in> done_positions p
     \<or> (\<exists>y. outstanding_event p y (cand_aggregate_id c)) \<or> lease_held p consumer now_ms c"

lemma passed_skip:
  assumes "in_order log p" "\<not> claimable p consumer now_ms c"
    and "log (cand_partition_position c) = Some (cand_aggregate_id c)" "\<not> cand_replayed c"
    and "fmlookup (deliveries p) (cand_delivery_id c) = None"
  shows "passed p consumer now_ms c"
proof -
  have same: "agg = cand_aggregate_id c" if "outstanding_event p (cand_partition_position c) agg" for agg
    using assms(1,3) that by (auto simp: in_order_def)
  from assms(2) consider "cand_partition_position c < next_position p" | "candidate_taken p c"
    | "candidate_not_due p now_ms c" | "candidate_blocked p c" | "lease_held p consumer now_ms c"
    by (auto simp: claimable_def not_less)
  then show ?thesis
  proof cases
    case 1
    then show ?thesis by (auto simp: passed_def done_positions_def)
  next
    case 2
    then show ?thesis
      using assms(5) same outstanding_eventI(1) [of p]
      by (auto simp: passed_def candidate_taken_def done_positions_def fm_any_iff) metis
  next
    case 3
    then show ?thesis
      using assms(4) same outstanding_eventI(2) [of p "cand_partition_position c"]
      by (auto simp: passed_def candidate_not_due_def split: option.splits)
  next
    case 4
    then show ?thesis
      using outstanding_eventI [of p] by (auto simp: passed_def candidate_blocked_def fm_any_iff) metis+
  next
    case 5
    then show ?thesis by (simp add: passed_def)
  qed
qed

lemma outstanding_event_take:
  assumes "claimable p consumer now_ms c"
  shows "outstanding_event (take_candidate p (delivery_of p consumer deadline c)) pos agg \<Longrightarrow>
      outstanding_event p pos agg \<or> (pos = cand_partition_position c \<and> agg = cand_aggregate_id c)"
    and "outstanding_event p pos agg \<Longrightarrow> pos \<noteq> cand_partition_position c \<Longrightarrow>
      outstanding_event (take_candidate p (delivery_of p consumer deadline c)) pos agg"
    and "outstanding_event (take_candidate p (delivery_of p consumer deadline c))
      (cand_partition_position c) (cand_aggregate_id c)"
proof -
  have new: "fmlookup (deliveries p) (cand_delivery_id c) = None"
    using assms by (simp add: claimable_def candidate_taken_def)
  show "outstanding_event (take_candidate p (delivery_of p consumer deadline c)) pos agg \<Longrightarrow>
      outstanding_event p pos agg \<or> (pos = cand_partition_position c \<and> agg = cand_aggregate_id c)"
    by (auto simp: outstanding_event_def take_candidate_def split: if_splits)
  show "outstanding_event p pos agg \<Longrightarrow> pos \<noteq> cand_partition_position c \<Longrightarrow>
      outstanding_event (take_candidate p (delivery_of p consumer deadline c)) pos agg"
    using new by (auto simp: outstanding_event_def take_candidate_def) (metis option.distinct(1))
  show "outstanding_event (take_candidate p (delivery_of p consumer deadline c))
      (cand_partition_position c) (cand_aggregate_id c)"
    using outstanding_eventI(1) [of "take_candidate p (delivery_of p consumer deadline c)" "cand_delivery_id c"]
    by (simp add: take_candidate_def)
qed

lemma claimable_sole:
  assumes "wf_partition p" "claimable p consumer now_ms c" "outstanding_event p y (cand_aggregate_id c)"
  shows "y = cand_partition_position c"
  using assms
  by (auto simp: claimable_def candidate_blocked_def fm_any_iff outstanding_event_def
      wf_partition_def wf_retry_def)

lemma done_take [simp]: "done_positions (take_candidate p d) = done_positions p"
  by (simp add: done_positions_def take_candidate_def)

lemma passed_take:
  assumes "in_order log p" "claimable p consumer now_ms c"
    and "log (cand_partition_position c) = Some (cand_aggregate_id c)" "passed p consumer now_ms b"
  shows "passed (take_candidate p (delivery_of p consumer deadline c)) consumer now_ms b"
proof (cases "cand_aggregate_id b = cand_aggregate_id c")
  case True
  then show ?thesis using outstanding_event_take(3) [OF assms(2)] by (auto simp: passed_def)
next
  case False
  have "outstanding_event (take_candidate p (delivery_of p consumer deadline c)) y (cand_aggregate_id b)"
    if "outstanding_event p y (cand_aggregate_id b)" for y
  proof -
    from assms(1,3) that False have "y \<noteq> cand_partition_position c" by (auto simp: in_order_def)
    with that show ?thesis by (rule outstanding_event_take(2) [OF assms(2)])
  qed
  with assms(4) False show ?thesis
    by (auto simp: passed_def lease_held_def take_candidate_def done_positions_def)
qed

lemma in_order_take:
  assumes "wf_partition p" "in_order log p" "claimable p consumer now_ms c"
    and "log (cand_partition_position c) = Some (cand_aggregate_id c)"
    and earlier: "\<And>q. next_position p \<le> q \<Longrightarrow> q < cand_partition_position c \<Longrightarrow>
      log q = Some (cand_aggregate_id c) \<Longrightarrow>
      \<exists>b. cand_partition_position b = q \<and> cand_aggregate_id b = cand_aggregate_id c
        \<and> passed p consumer now_ms b"
  shows "in_order log (take_candidate p (delivery_of p consumer deadline c))"
proof -
  have "q \<in> done_positions p" if q: "q < cand_partition_position c" "log q = Some (cand_aggregate_id c)" for q
  proof (cases "next_position p \<le> q")
    case False
    moreover from q(1) have "q \<noteq> - 1" by (rule less_not_max)
    ultimately show ?thesis by (simp add: done_positions_def not_le)
  next
    case True
    from earlier [OF True q] obtain b where b: "cand_partition_position b = q"
      "cand_aggregate_id b = cand_aggregate_id c" "passed p consumer now_ms b" by blast
    from q(1) have "q \<noteq> - 1" by (rule less_not_max)
    moreover have "q \<in> done_positions p" if "outstanding_event p y (cand_aggregate_id c)" for y
      using claimable_sole [OF assms(1,3) that] that assms(2) q by (auto simp: in_order_def)
    moreover have "\<not> lease_held p consumer now_ms b"
      using assms(3) b(2) by (simp add: claimable_def lease_held_def)
    ultimately show ?thesis using b by (auto simp: passed_def)
  qed
  with assms(2,4) outstanding_event_take(1) [OF assms(3), of deadline] show ?thesis
    unfolding in_order_def done_take by blast
qed

lemma claims_in_order:
  assumes "claims consumer now_ms deadline p cs q ds" "wf_partition p" "in_order log p"
    and "sorted_wrt (<) (map cand_partition_position (before @ cs))"
    and "distinct (map cand_delivery_id cs)"
    and "\<forall>c \<in> set cs. log (cand_partition_position c) = Some (cand_aggregate_id c) \<and> \<not> cand_replayed c
      \<and> fmlookup (deliveries p) (cand_delivery_id c) = None
      \<and> (\<forall>x. next_position p \<le> x \<longrightarrow> x < cand_partition_position c \<longrightarrow> log x \<noteq> None \<longrightarrow>
           x \<in> cand_partition_position ` set (before @ cs))"
    and "\<forall>b \<in> set before. passed p consumer now_ms b
      \<and> log (cand_partition_position b) = Some (cand_aggregate_id b)"
  shows "in_order log q"
  using assms
proof (induction arbitrary: before rule: claims.induct)
  case (stop p cs)
  then show ?case by simp
next
  case (skip p c cs q ds)
  have "passed p consumer now_ms c"
    using passed_skip [OF skip.prems(2) skip.hyps(1)] skip.prems(5) by simp
  then show ?case
    using skip.IH [of "before @ [c]"] skip.prems by (simp add: sorted_wrt_append)
next
  case (take p c d cs q ds)
  let ?p = "take_candidate p (delivery_of p consumer deadline c)"
  have c: "log (cand_partition_position c) = Some (cand_aggregate_id c)" using take.prems(5) by simp
  have in_order: "in_order log ?p"
  proof (rule in_order_take [OF take.prems(1,2) take.hyps(1) c])
    fix x assume x: "next_position p \<le> x" "x < cand_partition_position c" "log x = Some (cand_aggregate_id c)"
    with take.prems(5) have "x \<in> cand_partition_position ` set (before @ c # cs)" by simp
    moreover have "x \<notin> cand_partition_position ` set (c # cs)"
      using take.prems(3) x(2) by (auto simp: sorted_wrt_append)
    ultimately obtain b where "b \<in> set before" "cand_partition_position b = x" by auto
    with take.prems(6) x(3) show "\<exists>b. cand_partition_position b = x
        \<and> cand_aggregate_id b = cand_aggregate_id c \<and> passed p consumer now_ms b" by auto
  qed
  have "passed ?p consumer now_ms c"
    using outstanding_event_take(3) [OF take.hyps(1)] unfolding passed_def by blast
  then have "passed ?p consumer now_ms b" if "b \<in> set (before @ [c])" for b
    using that take.prems(6) passed_take [OF take.prems(2) take.hyps(1) c] by auto
  moreover have "wf_partition ?p" using take by (simp add: take_candidate_wf)
  moreover have "next_position ?p = next_position p" by (simp add: take_candidate_def)
  moreover have "fmlookup (deliveries ?p) (cand_delivery_id b) = None" if "b \<in> set cs" for b
    using that take.prems(4,5) by (auto simp: take_candidate_def)
  ultimately show ?case
    using take.IH [of "before @ [c]"] take.prems take.hyps(2) in_order c by simp
qed

lemma claim_in_order:
  assumes "wf_partition p" "in_order log p" "faithful_candidates log p cs"
  shows "in_order log (fst (claim p consumer now_ms deadline settings max_claim max_bytes cs))"
proof -
  obtain q ds where app: "claim p consumer now_ms deadline settings max_claim max_bytes cs = (q, ds)"
    by fastforce
  let ?p = "fst (expire p now_ms settings)"
  have "settles p ?p" "next_position p \<le> next_position ?p"
    using expire_settles expire_carries [OF assms(1)] by (auto simp: carries_def)
  then have "in_order log ?p" "faithful_candidates log ?p cs"
    using assms(2,3) in_order_settles by (auto simp: faithful_candidates_def settles_def)
  then have "in_order log q" if "claims consumer now_ms deadline ?p cs q ds"
    using claims_in_order [OF that, of log "[]"] assms(1) by (auto simp: faithful_candidates_def expire_wf)
  with claim_claims [OF app] app assms(2) show ?thesis by auto
qed

text \<open>States reached by requests whose claims offer the events of the log.\<close>

definition enter_epoch :: "AggregateGroupPartition \<Rightarrow> group_request \<Rightarrow> AggregateGroupPartition" where
  "enter_epoch p req = (if epoch p < gr_group_epoch req
     then AggregateGroupPartition_reset p (gr_group_epoch req) (gr_start_position req) else p)"

definition faithful_request ::
  "(u64 \<Rightarrow> string option) \<Rightarrow> AggregateGroupPartition \<Rightarrow> group_request \<Rightarrow> bool" where
  "faithful_request log p req \<longleftrightarrow> (case gr_command req of
     GpClaim _ _ _ _ _ cs \<Rightarrow> faithful_candidates log (enter_epoch p req) cs | _ \<Rightarrow> True)"

inductive consumer_run :: "(u64 \<Rightarrow> string option) \<Rightarrow> AggregateGroupPartition \<Rightarrow> bool" for log where
  start: "consumer_run log (AggregateGroupPartition_new e n)"
| request: "consumer_run log p \<Longrightarrow> faithful_request log p req \<Longrightarrow>
     consumer_run log (fst (group_partition_step p req))"

lemma consumer_run_invariant: "consumer_run log p \<Longrightarrow> wf_partition p \<and> in_order log p"
proof (induction rule: consumer_run.induct)
  case (start e n)
  have "in_order log (AggregateGroupPartition_new e n)"
    by (simp add: in_order_def outstanding_event_def AggregateGroupPartition_new_def)
  then show ?case by (simp add: wf_partition_new)
next
  case (request p req)
  let ?q = "enter_epoch p req"
  have q: "wf_partition ?q" "in_order log ?q"
    using request.IH wf_partition_new
    by (auto simp: enter_epoch_def AggregateGroupPartition_reset_def in_order_def outstanding_event_def)
      (auto simp: AggregateGroupPartition_new_def)
  have "in_order log (fst (group_partition_command ?q (gr_group_epoch req) (gr_settings req) (gr_command req)))"
    using q request.hyps(2) in_order_settles [OF q(2)] settle_settles renew_settles expire_settles
    by (cases "gr_command req") (simp_all add: split_beta Let_def faithful_request_def claim_in_order)
  moreover have "fst (group_partition_step p req) = (if epoch p > gr_group_epoch req then p
      else fst (group_partition_command ?q (gr_group_epoch req) (gr_settings req) (gr_command req)))"
    by (simp add: group_partition_step_def enter_epoch_def)
  ultimately show ?case
    using request.IH group_partition_command_wf [OF q(1)] by simp
qed

section \<open>Properties\<close>

text \<open>C23: after any sequence of requests, two outstanding events of a group partition, whether
  delivered or waiting for a retry, have different positions and belong to different aggregates:
  no aggregate has two events in flight, and no event is delivered twice at a time. Each delivery
  is covered by a lease of its consumer with the same deadline.\<close>

theorem group_delivery_exclusive:
  assumes "p = run_commands group_partition_step (AggregateGroupPartition_new e n) reqs"
    and "fmlookup (deliveries p) i = Some d"
  shows "(\<forall>j d'. fmlookup (deliveries p) j = Some d' \<longrightarrow> j \<noteq> i \<longrightarrow>
      dlv_partition_position d' \<noteq> dlv_partition_position d \<and> dlv_aggregate_id d' \<noteq> dlv_aggregate_id d)
    \<and> (\<forall>k r. fmlookup (pending_retries p) k = Some r \<longrightarrow>
      rty_partition_position r = k \<and> k \<noteq> dlv_partition_position d \<and> rty_aggregate_id r \<noteq> dlv_aggregate_id d)
    \<and> (\<exists>l. fmlookup (leases p) (dlv_aggregate_id d) = Some l \<and> lse_consumer_id l = dlv_consumer_id d
        \<and> lse_deadline_ms l = dlv_deadline_ms d)"
proof -
  have wf: "wf_partition p"
    unfolding assms(1) by (rule group_partition.run_wf [OF wf_partition_new])
  with assms(2) have d: "wf_delivery p i d" by (simp add: wf_partition_def)
  from wf have "rty_partition_position r = k" if "fmlookup (pending_retries p) k = Some r" for k r
    using that by (simp add: wf_partition_def wf_retry_def)
  with d show ?thesis by (auto simp: wf_delivery_def lease_covers_def)
qed

definition sample_candidate :: "uuid \<Rightarrow> u64 \<Rightarrow> string \<Rightarrow> AggregateDeliveryCandidate" where
  "sample_candidate i pos agg = \<lparr>cand_delivery_id = i, cand_partition_position = pos,
     cand_aggregate_id = agg, cand_aggregate_version = 0, cand_event_id = i + 100,
     cand_payload_bytes = 10, cand_replayed = False\<rparr>"

definition sample_request :: "AggregateGroupPartitionCommand \<Rightarrow> group_request" where
  "sample_request cmd = \<lparr>gr_group_epoch = 1, gr_start_position = 0,
     gr_settings = AggregateGroupSettings_default, gr_command = cmd\<rparr>"

definition sample_claim :: group_request where
  "sample_claim = sample_request (GpClaim ''c'' 0 100 10 1000
     [sample_candidate 1 0 ''a'', sample_candidate 2 1 ''a'', sample_candidate 3 2 ''b''])"


theorem group_delivery_exclusive_witness:
  "\<exists>d. fmlookup (deliveries (run_commands group_partition_step (AggregateGroupPartition_new 1 0)
      [sample_claim])) 3 = Some d
    \<and> (\<exists>l. fmlookup (leases (run_commands group_partition_step (AggregateGroupPartition_new 1 0)
      [sample_claim])) (dlv_aggregate_id d) = Some l \<and> lse_consumer_id l = dlv_consumer_id d)"
proof -
  let ?p = "run_commands group_partition_step (AggregateGroupPartition_new 1 0) [sample_claim]"
  have "fmlookup (deliveries ?p) 3 \<noteq> None" by code_simp
  then obtain d where d: "fmlookup (deliveries ?p) 3 = Some d" by blast
  from group_delivery_exclusive [OF refl d] d show ?thesis by blast
qed

text \<open>C24: no event is lost. As long as the group keeps its epoch, whatever requests follow: the
  checkpoint never moves back, a resolved position stays resolved, and an event that was delivered
  or waiting for a retry stays so until it is resolved by an acknowledgement, a skip or parking.
  Position \<open>u64::MAX\<close>, which no event gets, is excepted.\<close>

theorem group_no_event_lost:
  assumes "p = run_commands group_partition_step (AggregateGroupPartition_new e n) reqs"
    and "q = run_commands group_partition_step p later" and "epoch q = epoch p"
  shows "next_position p \<le> next_position q \<and> done_positions p \<subseteq> done_positions q
    \<and> outstanding p \<subseteq> outstanding q \<union> done_positions q \<union> {- 1}"
proof -
  have "wf_partition p"
    unfolding assms(1) by (rule group_partition.run_wf [OF wf_partition_new])
  then have "group_progress p q"
    unfolding assms(2) by (rule group_partition.run_below)
  with assms(3) show ?thesis by (simp add: group_progress_def carries_def)
qed

theorem group_no_event_lost_witness:
  "\<exists>p q. 2 \<in> outstanding p
    \<and> q = run_commands group_partition_step p
        [sample_request (GpSettle ''c'' 5 [\<lparr>stl_delivery_id = 1, stl_action = Ack, stl_reason = []\<rparr>])]
    \<and> 2 \<in> outstanding q \<union> done_positions q \<union> {- 1} \<and> next_position q = 1"
proof -
  let ?later = "[sample_request (GpSettle ''c'' 5 [\<lparr>stl_delivery_id = 1, stl_action = Ack, stl_reason = []\<rparr>])]"
  let ?p = "run_commands group_partition_step (AggregateGroupPartition_new 1 0) [sample_claim]"
  let ?q = "run_commands group_partition_step ?p ?later"
  have "epoch ?q = epoch ?p" "next_position ?q = 1" by code_simp+
  moreover have "case fmlookup (deliveries ?p) 3 of None \<Rightarrow> False | Some d \<Rightarrow> dlv_partition_position d = 2"
    by code_simp
  then obtain d where "fmlookup (deliveries ?p) 3 = Some d" "dlv_partition_position d = 2"
    by (auto split: option.splits)
  then have "2 \<in> outstanding ?p" using outstandingI(1) [of ?p 3 d] by simp
  ultimately show ?thesis using group_no_event_lost [OF refl refl, of 1 0 "[sample_claim]" ?later]
    by blast
qed

text \<open>What settling one delivery does. The consumer that holds it gets \<open>Applied\<close> and the
  delivery is gone. Acknowledging or skipping resolves exactly its position and nothing else;
  parking also records the event with its reason; a retry re-queues the event with the next
  attempt number after the backoff, unless the attempts are used up, which parks it.\<close>

theorem settle_effect:
  assumes "fmlookup (deliveries p) (stl_delivery_id s) = Some d" "dlv_consumer_id d = consumer"
    and "settle p consumer (epoch p) now_ms settings [s] = (q, results)"
  shows "results = [Applied] \<and> deliveries q = fmdrop (stl_delivery_id s) (deliveries p)
    \<and> (let resolved = done_positions p \<union> ({dlv_partition_position d} - {- 1});
            parked' = fmupd (dlv_delivery_id d) \<lparr>pkd_partition_position = dlv_partition_position d,
              pkd_aggregate_id = dlv_aggregate_id d, pkd_aggregate_version = dlv_aggregate_version d,
              pkd_event_id = dlv_event_id d, pkd_attempts = dlv_attempt d, pkd_reason = stl_reason s,
              pkd_parked_at_ms = now_ms\<rparr> (parked p);
            attempt = saturating_add (dlv_attempt d) 1
        in if stl_action s = Ack \<or> stl_action s = Skip
           then done_positions q = resolved \<and> parked q = parked p \<and> pending_retries q = pending_retries p
           else if stl_action s = Park \<or> attempt > max_retries settings
           then done_positions q = resolved \<and> parked q = parked' \<and> pending_retries q = pending_retries p
           else done_positions q = done_positions p \<and> parked q = parked p
             \<and> (\<exists>r. fmlookup (pending_retries q) (dlv_partition_position d) = Some r
                  \<and> rty_attempt r = attempt \<and> rty_event_id r = dlv_event_id d
                  \<and> rty_not_before_ms r = saturating_add now_ms (retry_delay_ms settings attempt)))"
proof -
  have rel: "done_positions (release_unused_leases x) = done_positions x"
    "deliveries (release_unused_leases x) = deliveries x" "parked (release_unused_leases x) = parked x"
    "pending_retries (release_unused_leases x) = pending_retries x" for x
    by (simp_all add: release_unused_leases_def done_positions_def Let_def)
  have parked: "done_positions (x\<lparr>parked := y\<rparr>) = done_positions x"
    "done_positions (x\<lparr>pending_retries := z\<rparr>) = done_positions x" for x y z
    by (simp_all add: done_positions_def)
  have removed: "done_positions (remove_delivery p i) = done_positions p"
    "deliveries (remove_delivery p i) = fmdrop i (deliveries p)"
    "pending_retries (remove_delivery p i) = pending_retries p" "parked (remove_delivery p i) = parked p" for i
    by (simp_all add: remove_delivery_def done_positions_def)
  from assms show ?thesis
    by (cases "stl_action s")
      (auto simp: settle_def settle_step_def settle_one_def Let_def rel parked removed resolve_done
        park_def retry_or_park_def)
qed

theorem settle_effect_witness:
  "\<exists>q. settle (fst (group_partition_step (AggregateGroupPartition_new 1 0) sample_claim)) ''c'' 1 7
      AggregateGroupSettings_default [\<lparr>stl_delivery_id = 3, stl_action = Ack, stl_reason = []\<rparr>] = (q, [Applied])
    \<and> 2 \<in> done_positions q"
proof -
  let ?p = "fst (group_partition_step (AggregateGroupPartition_new 1 0) sample_claim)"
  let ?s = "\<lparr>stl_delivery_id = 3, stl_action = Ack, stl_reason = []\<rparr>"
  have "case fmlookup (deliveries ?p) 3 of None \<Rightarrow> False
    | Some d \<Rightarrow> dlv_consumer_id d = ''c'' \<and> dlv_partition_position d = 2" by code_simp
  then obtain d where d: "fmlookup (deliveries ?p) (stl_delivery_id ?s) = Some d"
    "dlv_consumer_id d = ''c''" "dlv_partition_position d = 2" by (auto split: option.splits)
  have e: "epoch ?p = 1" by code_simp
  obtain q results where app: "settle ?p ''c'' (epoch ?p) 7 AggregateGroupSettings_default [?s] = (q, results)"
    by fastforce
  from settle_effect [OF d(1,2) app] app d(3) show ?thesis unfolding e by (auto simp: Let_def)
qed

text \<open>C26: a claim respects every quota. It returns at most \<open>max_claim\<close> deliveries; afterwards the
  consumer holds at most its quota and the group partition at most the group's; the deliveries are
  for candidates in the order given, and their payload stays within \<open>max_bytes\<close> unless a single
  event exceeds it alone (the total saturates at \<open>u64::MAX\<close>). The 32-bit counters of the source
  are exact below \<open>2 ^ 32\<close> deliveries.\<close>

theorem claim_respects_quotas:
  assumes "claim p consumer now_ms deadline settings max_claim max_bytes cs = (q, ds)" "ds \<noteq> []"
    and "fm_len (deliveries p) < 2 ^ 32"
  shows "length ds \<le> unat max_claim
    \<and> fm_count (\<lambda>d. dlv_consumer_id d = consumer) (deliveries q) \<le> unat (max_unacked_per_consumer settings)
    \<and> fm_len (deliveries q) \<le> unat (max_unacked_per_group settings)
    \<and> (\<exists>taken. subseq taken cs \<and> map dlv_delivery_id ds = map cand_delivery_id taken
        \<and> (length taken = 1 \<or> min (payload_total taken) (2 ^ 64 - 1) \<le> unat max_bytes))"
proof -
  let ?p = "fst (expire p now_ms settings)"
  let ?credit = "min (available_credit ?p consumer settings) max_claim"
  let ?used = "fm_count (\<lambda>d. dlv_consumer_id d = consumer) (deliveries ?p)"
  from assms(1,2) have run: "claim_loop consumer now_ms deadline max_bytes ?p ?credit 0 [] cs = (q, ds)"
    by (cases rule: claim_cases [of p consumer now_ms deadline settings max_claim max_bytes cs]) auto
  from claim_claims [OF assms(1)] assms(2) have "claims consumer now_ms deadline ?p cs q ds" by simp
  note counts = claims_counts [OF this]
  have len: "fm_len (deliveries ?p) < 2 ^ 32" "?used < 2 ^ 32"
    using expire_deliveries_le [of p now_ms settings] assms(3) fm_count_le_len [of _ "deliveries ?p"]
    by (metis order_le_less_trans)+
  have "length ds \<le> unat ?credit"
    using claim_loop_length [of consumer now_ms deadline max_bytes ?p ?credit 0 "[]" cs] run by simp
  then have claimed: "length ds \<le> unat max_claim"
    "length ds \<le> unat (max_unacked_per_consumer settings) - ?used"
    "length ds \<le> unat (max_unacked_per_group settings) - fm_len (deliveries ?p)"
    using len by (auto simp: available_credit_def Let_def min_def word_le_nat_alt unat_saturating_sub
        unat_of_nat split: if_splits)
  moreover from assms(2) have "0 < length ds" by simp
  then have "fm_count (\<lambda>d. dlv_consumer_id d = consumer) (deliveries q) \<le> unat (max_unacked_per_consumer settings)"
    "fm_len (deliveries q) \<le> unat (max_unacked_per_group settings)"
    using claimed counts by linarith+
  moreover obtain taken where "subseq taken cs" "map dlv_delivery_id ds = map cand_delivery_id taken"
    "length taken \<le> 1 \<or> min (payload_total taken) (2 ^ 64 - 1) \<le> unat max_bytes"
    using claim_loop_bytes [of 0 "[]" "[]" max_bytes cs consumer now_ms deadline ?p ?credit] run by auto
  moreover from this(2) assms(2) have "length taken \<noteq> 0" by auto
  then have "length taken = 1" if "length taken \<le> 1" using that by linarith
  ultimately show ?thesis by blast
qed

theorem claim_respects_quotas_witness:
  "\<exists>q ds. claim (AggregateGroupPartition_new 1 0) ''c'' 0 100 AggregateGroupSettings_default 1 1000
      [sample_candidate 1 0 ''a'', sample_candidate 3 2 ''b''] = (q, ds)
    \<and> length ds \<le> 1 \<and> fm_len (deliveries q) \<le> 4096"
proof -
  let ?r = "claim (AggregateGroupPartition_new 1 0) ''c'' 0 100 AggregateGroupSettings_default 1 1000
      [sample_candidate 1 0 ''a'', sample_candidate 3 2 ''b'']"
  obtain q ds where r: "?r = (q, ds)" by fastforce
  have "snd ?r \<noteq> []" by code_simp
  then have "ds \<noteq> []" using r by simp
  from claim_respects_quotas [OF r this] r show ?thesis
    by (auto simp: AggregateGroupPartition_new_def AggregateGroupSettings_default_def)
qed

text \<open>C25: events of one aggregate are delivered in order. If the candidates of every claim are the
  events of the partition from the checkpoint on, as the server offers them, then an event that is
  delivered is the event at its position, and every earlier event of the same aggregate has been
  resolved before.\<close>

theorem group_delivery_in_order:
  assumes "consumer_run log p" "fmlookup (deliveries p) i = Some d"
    and "q < dlv_partition_position d" "log q = Some (dlv_aggregate_id d)"
  shows "log (dlv_partition_position d) = Some (dlv_aggregate_id d) \<and> q \<in> done_positions p"
proof -
  from consumer_run_invariant [OF assms(1)] have "in_order log p" by blast
  with outstanding_eventI(1) [OF assms(2)] assms(3,4) show ?thesis by (auto simp: in_order_def)
qed

definition sample_log :: "u64 \<Rightarrow> string option" where
  "sample_log q = (if q = 0 \<or> q = 1 then Some ''a'' else if q = 2 then Some ''b'' else None)"

theorem group_delivery_in_order_witness:
  "\<exists>p d. fmlookup (deliveries p) 2 = Some d \<and> dlv_partition_position d = 1 \<and> 0 \<in> done_positions p
    \<and> consumer_run sample_log p"
proof -
  let ?p0 = "AggregateGroupPartition_new 1 0"
  let ?c1 = "[sample_candidate 1 0 ''a'', sample_candidate 5 1 ''a'', sample_candidate 3 2 ''b'']"
  let ?c2 = "[sample_candidate 2 1 ''a'', sample_candidate 4 2 ''b'']"
  let ?claim = "\<lambda>cs. sample_request (GpClaim ''c'' 0 100 1 1000 cs)"
  let ?ack = "sample_request (GpSettle ''c'' 5 [\<lparr>stl_delivery_id = 1, stl_action = Ack, stl_reason = []\<rparr>])"
  let ?p1 = "fst (group_partition_step ?p0 (?claim ?c1))"
  let ?p2 = "fst (group_partition_step ?p1 ?ack)"
  let ?p3 = "fst (group_partition_step ?p2 (?claim ?c2))"
  have log: "q \<in> {0, 1, 2}" if "sample_log q \<noteq> None" for q
    using that by (auto simp: sample_log_def split: if_splits)
  have e: "epoch ?p2 = 1" "next_position ?p2 = 1" "fmlookup (deliveries ?p2) 2 = None"
    "fmlookup (deliveries ?p2) 4 = None" by code_simp+
  have r1: "faithful_request sample_log ?p0 (?claim ?c1)"
    using log by (force simp: faithful_request_def sample_request_def faithful_candidates_def enter_epoch_def
        sample_candidate_def AggregateGroupPartition_new_def sample_log_def)
  have r2: "faithful_request sample_log ?p1 ?ack"
    by (simp add: faithful_request_def sample_request_def)
  have r3: "faithful_request sample_log ?p2 (?claim ?c2)"
    using log e by (force simp: faithful_request_def sample_request_def faithful_candidates_def enter_epoch_def
        sample_candidate_def sample_log_def)
  have run: "consumer_run sample_log ?p3"
    by (rule consumer_run.request [OF consumer_run.request [OF consumer_run.request
          [OF consumer_run.start r1] r2] r3])
  have "case fmlookup (deliveries ?p3) 2 of None \<Rightarrow> False
    | Some d \<Rightarrow> dlv_partition_position d = 1 \<and> dlv_aggregate_id d = ''a''" by code_simp
  then obtain d where d: "fmlookup (deliveries ?p3) 2 = Some d" "dlv_partition_position d = 1"
    "dlv_aggregate_id d = ''a''" by (auto split: option.splits)
  from group_delivery_in_order [OF run d(1), of 0] d have "0 \<in> done_positions ?p3"
    by (simp add: sample_log_def)
  with run d show ?thesis by blast
qed

text \<open>C27: a consumer cannot touch what it does not hold. Settling or renewing under another epoch
  changes nothing and answers \<open>StaleLease\<close> for every item; under the current epoch, the
  deliveries of every other consumer are the same afterwards.\<close>

theorem settle_renew_fenced:
  "(e \<noteq> epoch p \<longrightarrow>
      settle p consumer e now_ms settings ss = (p, replicate (length ss) StaleLease)
      \<and> renew p consumer e deadline is = (p, replicate (length is) StaleLease))
   \<and> (\<forall>i d. fmlookup (deliveries p) i = Some d \<longrightarrow> dlv_consumer_id d \<noteq> consumer \<longrightarrow>
      fmlookup (deliveries (fst (settle p consumer e now_ms settings ss))) i = Some d
      \<and> fmlookup (deliveries (fst (renew p consumer e deadline is))) i = Some d)"
proof -
  let ?kept = "\<lambda>p q. \<forall>i d. fmlookup (deliveries p) i = Some d \<longrightarrow> dlv_consumer_id d \<noteq> consumer \<longrightarrow>
      fmlookup (deliveries q) i = Some d"
  have one: "?kept p (fst (settle_step consumer now_ms settings p s))" for p s
    by (auto simp: settle_step_def settle_one_def Let_def park_def retry_or_park_def remove_delivery_def
        split: option.splits AggregateSettlementAction.splits)
  have "?kept p (run_commands (settle_step consumer now_ms settings) p ss)"
    by (induction ss arbitrary: p) (simp, metis one run_commands.simps(2))
  moreover have "?kept p (fst (renew_one consumer deadline p i))" for p i
    by (auto simp: renew_one_def split: option.splits)
  then have "?kept p (run_commands (renew_one consumer deadline) p is)"
    by (induction "is" arbitrary: p) (simp, metis run_commands.simps(2))
  ultimately show ?thesis
    by (simp add: settle_def renew_def settle_loop_run renew_loop_run release_unused_leases_def Let_def)
qed

theorem settle_renew_fenced_witness:
  "settle (fst (group_partition_step (AggregateGroupPartition_new 1 0) sample_claim)) ''c'' 0 5
      AggregateGroupSettings_default [\<lparr>stl_delivery_id = 1, stl_action = Ack, stl_reason = []\<rparr>]
    = (fst (group_partition_step (AggregateGroupPartition_new 1 0) sample_claim), [StaleLease])"
proof -
  let ?p = "fst (group_partition_step (AggregateGroupPartition_new 1 0) sample_claim)"
  have "0 \<noteq> epoch ?p" by code_simp
  then show ?thesis
    using settle_renew_fenced [of 0 ?p "''c''" 5 AggregateGroupSettings_default
        "[\<lparr>stl_delivery_id = 1, stl_action = Ack, stl_reason = []\<rparr>]" 0 "[]"] by simp
qed

end
