(* ===== verification/Raft_Types.thy ===== *)
theory Raft_Types
  imports Group_Delivery Hlc_Clock
begin

text \<open>
  Requests and responses of the replicated state machine (\<open>es-storage/src/raft_type.rs\<close>) and the
  openraft data the storage handles: log ids, log entries and the applied state. The membership
  configuration is opaque to this code; it is the type parameter \<open>'m\<close>.
\<close>

datatype EsRequest =
    RqAggregateAppend AggregateTypeId u16 u64 string ExpectedAggregateVersion NewAggregateEvent Hlc
  | RqPutAggregateState AggregateTypeId u16 u64 string ExpectedStateRevision bytes Hlc
  | RqInstallAggregatePartitionFence AggregateTypeId u16 u64
  | RqCommitAggregateCatalog AggregateCatalogCommand
  | RqCommitAggregateGroupCatalog AggregateGroupCatalogCommand
  | RqAggregateGroupPartition AggregateTypeId u16 u64 string u64 u64 AggregateGroupSettings
      AggregateGroupPartitionCommand

datatype EsResponse =
    RsNoop
  | RsAggregateAppendOk u64 u64
  | RsAggregateOptimisticConflict "u64 option"
  | RsAggregateIdempotencyConflict
  | RsAggregateNotFound
  | RsAggregateStateStored AggregateStateDocument
  | RsAggregateStateConflict "u64 option"
  | RsAggregatePartitionFenceInstalled u64
  | RsAggregatePartitionFenced u64
  | RsAggregateCatalogApplied AggregateCatalogApply
  | RsAggregateInvalid reason
  | RsAggregateGroupCatalogApplied AggregateGroupCatalogApply
  | RsAggregateGroupClaimed "AggregateGroupDelivery list"
  | RsAggregateGroupSettled "AggregateSettlementResult list"
  | RsAggregateGroupRenewed "AggregateSettlementResult list"
  | RsAggregateGroupExpired u64
  | RsAggregateGroupStaleEpoch u64

text \<open>openraft's log id: the leader that created the entry and its index.\<close>

record log_id =
  li_term :: u64
  li_node :: u64
  li_index :: u64

record 'm stored_membership =
  sm_log_id :: "log_id option"
  sm_config :: 'm

datatype 'm EntryPayload = Blank | Normal EsRequest | Membership 'm

record 'm Entry =
  en_log_id :: log_id
  en_payload :: "'m EntryPayload"

record vote =
  vt_term :: u64
  vt_node :: u64
  vt_committed :: bool

record 'm AppliedState =
  ap_last_applied :: "log_id option"
  ap_membership :: "'m stored_membership"

record AggregateIdempotencyRecord =
  idm_fingerprint :: u128
  idm_result :: AggregateAppendResult

text \<open>\<open>error.to_string()\<close> of an invalid-input error, as the response carries it.\<close>

definition invalid_of :: "Error \<Rightarrow> EsResponse" where
  "invalid_of e = RsAggregateInvalid (reason_of e)"

fun response_of_group :: "group_reply \<Rightarrow> EsResponse" where
  "response_of_group (GroupStaleEpoch e) = RsAggregateGroupStaleEpoch e"
| "response_of_group (GroupClaimed ds) = RsAggregateGroupClaimed ds"
| "response_of_group (GroupSettled rs) = RsAggregateGroupSettled rs"
| "response_of_group (GroupRenewed rs) = RsAggregateGroupRenewed rs"
| "response_of_group (GroupExpired n) = RsAggregateGroupExpired n"

end
