(* ===== verification/Keys.thy ===== *)
theory Keys
  imports Partitioning "HOL-Library.Sublist"
begin

text \<open>
  The byte keys of \<open>es-storage/src/key.rs\<close>: a tag byte per namespace, fixed-width big-endian
  integers, length-prefixed identifiers. Each builder of the source is one function; \<open>store_key\<close>
  lists the logical keys they encode. Byte strings are compared lexicographically, as the
  key-value store does.
\<close>

definition TAG_RAFT :: u8 where "TAG_RAFT = 0x01"
definition TAG_SM :: u8 where "TAG_SM = 0x02"
definition TAG_SNAPSHOT :: u8 where "TAG_SNAPSHOT = 0x03"
definition RAFT_LOG_ENTRY :: u8 where "RAFT_LOG_ENTRY = 0x01"
definition RAFT_VOTE :: u8 where "RAFT_VOTE = 0x02"
definition RAFT_LAST_PURGED :: u8 where "RAFT_LAST_PURGED = 0x03"
definition RAFT_COMMITTED :: u8 where "RAFT_COMMITTED = 0x04"
definition SM_APPLIED_STATE :: u8 where "SM_APPLIED_STATE = 0x04"
definition SM_AGGREGATE_EVENT :: u8 where "SM_AGGREGATE_EVENT = 0x0A"
definition SM_AGGREGATE_META :: u8 where "SM_AGGREGATE_META = 0x0B"
definition SM_AGGREGATE_PARTITION_INDEX :: u8 where "SM_AGGREGATE_PARTITION_INDEX = 0x0C"
definition SM_AGGREGATE_NEXT_POSITION :: u8 where "SM_AGGREGATE_NEXT_POSITION = 0x0D"
definition SM_AGGREGATE_STATE :: u8 where "SM_AGGREGATE_STATE = 0x0E"
definition SM_AGGREGATE_IDEMPOTENCY :: u8 where "SM_AGGREGATE_IDEMPOTENCY = 0x0F"
definition SM_AGGREGATE_PARTITION_FENCE :: u8 where "SM_AGGREGATE_PARTITION_FENCE = 0x10"
definition SM_AGGREGATE_CATALOG :: u8 where "SM_AGGREGATE_CATALOG = 0x11"
definition SM_AGGREGATE_GROUP_CATALOG :: u8 where "SM_AGGREGATE_GROUP_CATALOG = 0x12"
definition SM_AGGREGATE_GROUP_PARTITION :: u8 where "SM_AGGREGATE_GROUP_PARTITION = 0x13"
definition SM_AGGREGATE_STATE_MODIFIED :: u8 where "SM_AGGREGATE_STATE_MODIFIED = 0x14"
definition SNAPSHOT_CURRENT :: u8 where "SNAPSHOT_CURRENT = 0x01"

lemmas tag_defs = TAG_RAFT_def TAG_SM_def TAG_SNAPSHOT_def RAFT_LOG_ENTRY_def RAFT_VOTE_def
  RAFT_LAST_PURGED_def RAFT_COMMITTED_def SM_APPLIED_STATE_def SM_AGGREGATE_EVENT_def
  SM_AGGREGATE_META_def SM_AGGREGATE_PARTITION_INDEX_def SM_AGGREGATE_NEXT_POSITION_def
  SM_AGGREGATE_STATE_def SM_AGGREGATE_IDEMPOTENCY_def SM_AGGREGATE_PARTITION_FENCE_def
  SM_AGGREGATE_CATALOG_def SM_AGGREGATE_GROUP_CATALOG_def SM_AGGREGATE_GROUP_PARTITION_def
  SM_AGGREGATE_STATE_MODIFIED_def SNAPSHOT_CURRENT_def

definition encode_u64_be :: "u64 \<Rightarrow> bytes" where
  "encode_u64_be v = to_be_bytes v"

definition decode_u64_be :: "bytes \<Rightarrow> u64 option" where
  "decode_u64_be b = (if length b \<noteq> 8 then None else Some (from_be_bytes b))"

text \<open>The loop of \<open>successor\<close> runs from the last byte to the first: here over the reversed prefix.\<close>

fun successor_loop :: "bytes \<Rightarrow> bytes option" where
  "successor_loop [] = None"
| "successor_loop (b # rest) = (if b \<noteq> 0xFF then Some (rev rest @ [b + 1]) else successor_loop rest)"

definition successor :: "bytes \<Rightarrow> bytes option" where
  "successor key = successor_loop (rev key)"

definition raft_log_entry :: "u64 \<Rightarrow> u64 \<Rightarrow> bytes" where
  "raft_log_entry shard_id index = TAG_RAFT # encode_u64_be shard_id @ RAFT_LOG_ENTRY # encode_u64_be index"

definition raft_vote :: "u64 \<Rightarrow> bytes" where
  "raft_vote shard_id = TAG_RAFT # encode_u64_be shard_id @ [RAFT_VOTE]"

definition raft_last_purged :: "u64 \<Rightarrow> bytes" where
  "raft_last_purged shard_id = TAG_RAFT # encode_u64_be shard_id @ [RAFT_LAST_PURGED]"

definition raft_committed :: "u64 \<Rightarrow> bytes" where
  "raft_committed shard_id = TAG_RAFT # encode_u64_be shard_id @ [RAFT_COMMITTED]"

definition sm_applied_state :: "u64 \<Rightarrow> bytes" where
  "sm_applied_state shard_id = TAG_SM # encode_u64_be shard_id @ [SM_APPLIED_STATE]"

definition append_len_prefixed :: "bytes \<Rightarrow> bytes \<Rightarrow> bytes" where
  "append_len_prefixed key bs = key @ encode_u64_be (word_of_nat (length bs)) @ bs"

definition sm_sub_prefix :: "u64 \<Rightarrow> u8 \<Rightarrow> bytes" where
  "sm_sub_prefix shard_id sub = TAG_SM # encode_u64_be shard_id @ [sub]"

definition aggregate_partition_prefix :: "u64 \<Rightarrow> u8 \<Rightarrow> AggregateTypeId \<Rightarrow> u16 \<Rightarrow> bytes" where
  "aggregate_partition_prefix shard_id sub t partition_id =
     append_len_prefixed (sm_sub_prefix shard_id sub) (as_bytes (canonical_name t))
       @ to_be_bytes partition_id"

definition aggregate_instance_prefix :: "u64 \<Rightarrow> u8 \<Rightarrow> AggregateTypeId \<Rightarrow> u16 \<Rightarrow> string \<Rightarrow> bytes" where
  "aggregate_instance_prefix shard_id sub t partition_id aggregate_id =
     append_len_prefixed (aggregate_partition_prefix shard_id sub t partition_id) (as_bytes aggregate_id)"

definition sm_aggregate_event_prefix :: "u64 \<Rightarrow> AggregateTypeId \<Rightarrow> u16 \<Rightarrow> string \<Rightarrow> bytes" where
  "sm_aggregate_event_prefix shard_id t partition_id aggregate_id =
     aggregate_instance_prefix shard_id SM_AGGREGATE_EVENT t partition_id aggregate_id"

definition sm_aggregate_event :: "u64 \<Rightarrow> AggregateTypeId \<Rightarrow> u16 \<Rightarrow> string \<Rightarrow> u64 \<Rightarrow> bytes" where
  "sm_aggregate_event shard_id t partition_id aggregate_id aggregate_version =
     sm_aggregate_event_prefix shard_id t partition_id aggregate_id @ encode_u64_be aggregate_version"

definition is_aggregate_event_key :: "u64 \<Rightarrow> bytes \<Rightarrow> bool" where
  "is_aggregate_event_key shard_id key =
     (10 \<le> length key \<and> key ! 0 = TAG_SM \<and> take 8 (drop 1 key) = to_be_bytes shard_id
      \<and> key ! 9 = SM_AGGREGATE_EVENT)"

definition sm_aggregate_meta :: "u64 \<Rightarrow> AggregateTypeId \<Rightarrow> u16 \<Rightarrow> string \<Rightarrow> bytes" where
  "sm_aggregate_meta shard_id t partition_id aggregate_id =
     aggregate_instance_prefix shard_id SM_AGGREGATE_META t partition_id aggregate_id"

definition sm_aggregate_partition_index_prefix :: "u64 \<Rightarrow> AggregateTypeId \<Rightarrow> u16 \<Rightarrow> bytes" where
  "sm_aggregate_partition_index_prefix shard_id t partition_id =
     aggregate_partition_prefix shard_id SM_AGGREGATE_PARTITION_INDEX t partition_id"

definition sm_aggregate_partition_index :: "u64 \<Rightarrow> AggregateTypeId \<Rightarrow> u16 \<Rightarrow> u64 \<Rightarrow> bytes" where
  "sm_aggregate_partition_index shard_id t partition_id partition_position =
     sm_aggregate_partition_index_prefix shard_id t partition_id @ encode_u64_be partition_position"

definition sm_aggregate_next_position :: "u64 \<Rightarrow> AggregateTypeId \<Rightarrow> u16 \<Rightarrow> bytes" where
  "sm_aggregate_next_position shard_id t partition_id =
     aggregate_partition_prefix shard_id SM_AGGREGATE_NEXT_POSITION t partition_id"

definition sm_aggregate_state_prefix :: "u64 \<Rightarrow> AggregateTypeId \<Rightarrow> u16 \<Rightarrow> bytes" where
  "sm_aggregate_state_prefix shard_id t partition_id =
     aggregate_partition_prefix shard_id SM_AGGREGATE_STATE t partition_id"

definition sm_aggregate_state :: "u64 \<Rightarrow> AggregateTypeId \<Rightarrow> u16 \<Rightarrow> string \<Rightarrow> bytes" where
  "sm_aggregate_state shard_id t partition_id aggregate_id =
     aggregate_partition_prefix shard_id SM_AGGREGATE_STATE t partition_id @ as_bytes aggregate_id"

definition sm_aggregate_state_modified :: "u64 \<Rightarrow> AggregateTypeId \<Rightarrow> u16 \<Rightarrow> string \<Rightarrow> bytes" where
  "sm_aggregate_state_modified shard_id t partition_id aggregate_id =
     aggregate_partition_prefix shard_id SM_AGGREGATE_STATE_MODIFIED t partition_id @ as_bytes aggregate_id"

definition sm_aggregate_idempotency :: "u64 \<Rightarrow> AggregateTypeId \<Rightarrow> u16 \<Rightarrow> uuid \<Rightarrow> bytes" where
  "sm_aggregate_idempotency shard_id t partition_id event_id =
     aggregate_partition_prefix shard_id SM_AGGREGATE_IDEMPOTENCY t partition_id @ to_be_bytes event_id"

definition sm_aggregate_partition_fence :: "u64 \<Rightarrow> AggregateTypeId \<Rightarrow> u16 \<Rightarrow> bytes" where
  "sm_aggregate_partition_fence shard_id t partition_id =
     aggregate_partition_prefix shard_id SM_AGGREGATE_PARTITION_FENCE t partition_id"

definition sm_aggregate_catalog :: "u64 \<Rightarrow> bytes" where
  "sm_aggregate_catalog shard_id = sm_sub_prefix shard_id SM_AGGREGATE_CATALOG"

definition sm_aggregate_group_catalog :: "u64 \<Rightarrow> bytes" where
  "sm_aggregate_group_catalog shard_id = sm_sub_prefix shard_id SM_AGGREGATE_GROUP_CATALOG"

definition sm_aggregate_group_partition :: "u64 \<Rightarrow> AggregateTypeId \<Rightarrow> u16 \<Rightarrow> string \<Rightarrow> bytes" where
  "sm_aggregate_group_partition shard_id t partition_id group_name =
     append_len_prefixed (aggregate_partition_prefix shard_id SM_AGGREGATE_GROUP_PARTITION t partition_id)
       (as_bytes group_name)"

definition snapshot_current :: "u64 \<Rightarrow> bytes" where
  "snapshot_current shard_id = TAG_SNAPSHOT # encode_u64_be shard_id @ [SNAPSHOT_CURRENT]"

definition raft_log_prefix :: "u64 \<Rightarrow> bytes" where
  "raft_log_prefix shard_id = TAG_RAFT # encode_u64_be shard_id @ [RAFT_LOG_ENTRY]"

text \<open>\<open>expect\<close>: the successor of this prefix exists, see \<open>raft_log_upper_eq\<close>.\<close>

definition raft_log_upper :: "u64 \<Rightarrow> bytes" where
  "raft_log_upper shard_id = the (successor (raft_log_prefix shard_id))"

definition upper_including :: "bytes \<Rightarrow> bytes" where
  "upper_including k = k @ [0]"

definition decode_log_index :: "bytes \<Rightarrow> u64 option" where
  "decode_log_index key = (if length key \<noteq> 10 + 8 then None else decode_u64_be (drop 10 key))"

text \<open>\<open>String::from_utf8\<close> accepts the well-formed UTF-8 sequences of RFC 3629.\<close>

definition utf8_tail :: "u8 \<Rightarrow> bool" where
  "utf8_tail b = (0x80 \<le> b \<and> b \<le> 0xBF)"

fun utf8_valid :: "bytes \<Rightarrow> bool" where
  "utf8_valid [] = True"
| "utf8_valid (a # rest) =
     (if a \<le> 0x7F then utf8_valid rest
      else case rest of
        [] \<Rightarrow> False
      | b # rest2 \<Rightarrow>
          if 0xC2 \<le> a \<and> a \<le> 0xDF then utf8_tail b \<and> utf8_valid rest2
          else case rest2 of
            [] \<Rightarrow> False
          | c # rest3 \<Rightarrow>
              if 0xE0 \<le> a \<and> a \<le> 0xEF
              then utf8_tail b \<and> utf8_tail c \<and> (a = 0xE0 \<longrightarrow> 0xA0 \<le> b) \<and> (a = 0xED \<longrightarrow> b \<le> 0x9F)
                   \<and> utf8_valid rest3
              else case rest3 of
                [] \<Rightarrow> False
              | d # rest4 \<Rightarrow>
                  0xF0 \<le> a \<and> a \<le> 0xF4 \<and> utf8_tail b \<and> utf8_tail c \<and> utf8_tail d
                  \<and> (a = 0xF0 \<longrightarrow> 0x90 \<le> b) \<and> (a = 0xF4 \<longrightarrow> b \<le> 0x8F) \<and> utf8_valid rest4)"

definition from_utf8 :: "bytes \<Rightarrow> string option" where
  "from_utf8 bs = (if utf8_valid bs then Some (string_of_bytes bs) else None)"

text \<open>\<open>checked_add\<close> on \<open>usize\<close>: a start beyond \<open>2 ^ 64\<close> is refused.\<close>

definition decode_aggregate_state_key :: "bytes \<Rightarrow> string option" where
  "decode_aggregate_state_key key =
     (if length key < 10 + 8 + 2 + 1 \<or> key ! 9 \<noteq> SM_AGGREGATE_STATE then None
      else case decode_u64_be (take 8 (drop 10 key)) of
        None \<Rightarrow> None
      | Some n \<Rightarrow>
          let aggregate_start = 10 + 8 + unat n + 2
          in if 2 ^ 64 \<le> aggregate_start \<or> length key \<le> aggregate_start then None
             else from_utf8 (drop aggregate_start key))"

section \<open>Range bounds\<close>

lemma successor_Nil [simp]: "successor [] = None"
  by (simp add: successor_def)

lemma successor_loop_snoc:
  "successor_loop (xs @ [b]) = (case successor_loop xs of Some s \<Rightarrow> Some (b # s)
     | None \<Rightarrow> if b \<noteq> 0xFF then Some [b + 1] else None)"
  by (induction xs) auto

lemma successor_Cons:
  "successor (b # bs) = (case successor bs of Some s \<Rightarrow> Some (b # s)
     | None \<Rightarrow> if b \<noteq> 0xFF then Some [b + 1] else None)"
  by (simp add: successor_def successor_loop_snoc)

lemma u8_less_succ: "b \<noteq> 0xFF \<Longrightarrow> x < b + 1 \<longleftrightarrow> x \<le> (b :: u8)"
  using unat_max_word_cases [of b]
  by (auto simp: word_less_nat_alt word_le_nat_alt)

lemma successor_range:
  "(case successor p of Some s \<Rightarrow> p \<le> k \<and> k < s | None \<Rightarrow> p \<le> k) \<longleftrightarrow> prefix p k"
proof (induction p arbitrary: k)
  case Nil
  then show ?case by simp
next
  case (Cons b bs)
  show ?case
  proof (cases k)
    case Nil
    then show ?thesis by (simp split: option.splits)
  next
    case (Cons y ys)
    have "\<not> 0xFF < y" using unat_le_max [of y] by (simp add: word_less_nat_alt)
    with Cons Cons.IH [of ys] show ?thesis
      by (auto simp: successor_Cons u8_less_succ split: option.splits if_splits)
  qed
qed

section \<open>Logical keys\<close>

text \<open>The keys of one partition, and all keys of one shard, as data.\<close>

datatype partition_key =
    EventKey string u64
  | MetaKey string
  | IndexKey u64
  | NextPositionKey
  | StateKey string
  | StateModifiedKey string
  | IdempotencyKey uuid
  | FenceKey
  | GroupPartitionKey string

datatype store_key =
    LogEntryKey u64
  | VoteKey
  | LastPurgedKey
  | CommittedKey
  | AppliedStateKey
  | PartitionKey AggregateTypeId u16 partition_key
  | CatalogKey
  | GroupCatalogKey
  | SnapshotKey

fun encode_key :: "u64 \<Rightarrow> store_key \<Rightarrow> bytes" where
  "encode_key s (LogEntryKey i) = raft_log_entry s i"
| "encode_key s VoteKey = raft_vote s"
| "encode_key s LastPurgedKey = raft_last_purged s"
| "encode_key s CommittedKey = raft_committed s"
| "encode_key s AppliedStateKey = sm_applied_state s"
| "encode_key s (PartitionKey t p (EventKey a v)) = sm_aggregate_event s t p a v"
| "encode_key s (PartitionKey t p (MetaKey a)) = sm_aggregate_meta s t p a"
| "encode_key s (PartitionKey t p (IndexKey i)) = sm_aggregate_partition_index s t p i"
| "encode_key s (PartitionKey t p NextPositionKey) = sm_aggregate_next_position s t p"
| "encode_key s (PartitionKey t p (StateKey a)) = sm_aggregate_state s t p a"
| "encode_key s (PartitionKey t p (StateModifiedKey a)) = sm_aggregate_state_modified s t p a"
| "encode_key s (PartitionKey t p (IdempotencyKey u)) = sm_aggregate_idempotency s t p u"
| "encode_key s (PartitionKey t p FenceKey) = sm_aggregate_partition_fence s t p"
| "encode_key s (PartitionKey t p (GroupPartitionKey g)) = sm_aggregate_group_partition s t p g"
| "encode_key s CatalogKey = sm_aggregate_catalog s"
| "encode_key s GroupCatalogKey = sm_aggregate_group_catalog s"
| "encode_key s SnapshotKey = snapshot_current s"

fun valid_partition_key :: "partition_key \<Rightarrow> bool" where
  "valid_partition_key (EventKey a v) = valid_identifier a"
| "valid_partition_key (MetaKey a) = valid_identifier a"
| "valid_partition_key (StateKey a) = valid_identifier a"
| "valid_partition_key (StateModifiedKey a) = valid_identifier a"
| "valid_partition_key (GroupPartitionKey g) = valid_identifier g"
| "valid_partition_key _ = True"

fun valid_key :: "store_key \<Rightarrow> bool" where
  "valid_key (PartitionKey t p k) = (valid_type_id t \<and> valid_partition_key k)"
| "valid_key _ = True"

text \<open>Common shape: tag, shard, sub-tag, and the rest.\<close>

fun partition_tag :: "partition_key \<Rightarrow> u8" where
  "partition_tag (EventKey a v) = SM_AGGREGATE_EVENT"
| "partition_tag (MetaKey a) = SM_AGGREGATE_META"
| "partition_tag (IndexKey i) = SM_AGGREGATE_PARTITION_INDEX"
| "partition_tag NextPositionKey = SM_AGGREGATE_NEXT_POSITION"
| "partition_tag (StateKey a) = SM_AGGREGATE_STATE"
| "partition_tag (StateModifiedKey a) = SM_AGGREGATE_STATE_MODIFIED"
| "partition_tag (IdempotencyKey u) = SM_AGGREGATE_IDEMPOTENCY"
| "partition_tag FenceKey = SM_AGGREGATE_PARTITION_FENCE"
| "partition_tag (GroupPartitionKey g) = SM_AGGREGATE_GROUP_PARTITION"

fun partition_rest :: "partition_key \<Rightarrow> bytes" where
  "partition_rest (EventKey a v) = len_prefixed (as_bytes a) @ to_be_bytes v"
| "partition_rest (MetaKey a) = len_prefixed (as_bytes a)"
| "partition_rest (IndexKey i) = to_be_bytes i"
| "partition_rest (StateKey a) = as_bytes a"
| "partition_rest (StateModifiedKey a) = as_bytes a"
| "partition_rest (IdempotencyKey u) = to_be_bytes u"
| "partition_rest (GroupPartitionKey g) = len_prefixed (as_bytes g)"
| "partition_rest _ = []"

fun key_tags :: "store_key \<Rightarrow> u8 \<times> u8" where
  "key_tags (LogEntryKey i) = (TAG_RAFT, RAFT_LOG_ENTRY)"
| "key_tags VoteKey = (TAG_RAFT, RAFT_VOTE)"
| "key_tags LastPurgedKey = (TAG_RAFT, RAFT_LAST_PURGED)"
| "key_tags CommittedKey = (TAG_RAFT, RAFT_COMMITTED)"
| "key_tags AppliedStateKey = (TAG_SM, SM_APPLIED_STATE)"
| "key_tags (PartitionKey t p k) = (TAG_SM, partition_tag k)"
| "key_tags CatalogKey = (TAG_SM, SM_AGGREGATE_CATALOG)"
| "key_tags GroupCatalogKey = (TAG_SM, SM_AGGREGATE_GROUP_CATALOG)"
| "key_tags SnapshotKey = (TAG_SNAPSHOT, SNAPSHOT_CURRENT)"

definition partition_head :: "AggregateTypeId \<Rightarrow> u16 \<Rightarrow> bytes" where
  "partition_head t p = len_prefixed (as_bytes (canonical_name t)) @ to_be_bytes p"

fun key_rest :: "store_key \<Rightarrow> bytes" where
  "key_rest (LogEntryKey i) = to_be_bytes i"
| "key_rest (PartitionKey t p k) = partition_head t p @ partition_rest k"
| "key_rest _ = []"

lemma append_len_prefixed_eq: "append_len_prefixed key bs = key @ len_prefixed bs"
  by (simp add: append_len_prefixed_def len_prefixed_def encode_u64_be_def)

lemma aggregate_partition_prefix_eq:
  "aggregate_partition_prefix s sub t p = TAG_SM # to_be_bytes s @ sub # partition_head t p"
  by (simp add: aggregate_partition_prefix_def append_len_prefixed_eq sm_sub_prefix_def encode_u64_be_def
      partition_head_def)

lemma encode_key_partition:
  "encode_key s (PartitionKey t p k)
     = TAG_SM # to_be_bytes s @ partition_tag k # partition_head t p @ partition_rest k"
  by (cases k) (simp_all add: sm_aggregate_event_def sm_aggregate_event_prefix_def sm_aggregate_meta_def
      sm_aggregate_partition_index_def sm_aggregate_partition_index_prefix_def sm_aggregate_next_position_def
      sm_aggregate_state_def sm_aggregate_state_modified_def sm_aggregate_idempotency_def
      sm_aggregate_partition_fence_def sm_aggregate_group_partition_def aggregate_instance_prefix_def
      append_len_prefixed_eq aggregate_partition_prefix_eq encode_u64_be_def)

lemma encode_key_eq:
  "encode_key s k = fst (key_tags k) # to_be_bytes s @ snd (key_tags k) # key_rest k"
proof (cases k)
  case (PartitionKey t p k')
  then show ?thesis by (simp only: encode_key_partition key_tags.simps key_rest.simps fst_conv snd_conv)
qed (simp_all add: raft_log_entry_def raft_vote_def raft_last_purged_def raft_committed_def
    sm_applied_state_def sm_aggregate_catalog_def sm_aggregate_group_catalog_def snapshot_current_def
    sm_sub_prefix_def encode_u64_be_def)

lemma canonical_name_length: "valid_type_id t \<Longrightarrow> length (canonical_name t) < 2 ^ 64"
  using valid_identifier_length [of "business_space t"] valid_identifier_length [of "aggregate_type t"]
  by (simp add: canonical_name_def valid_type_id_def)

lemma partition_head_inject:
  assumes "valid_type_id t" "valid_type_id t'"
  shows "partition_head t p @ xs = partition_head t' p' @ ys \<longleftrightarrow> t = t' \<and> p = p' \<and> xs = ys"
  using canonical_name_length [OF assms(1)] canonical_name_length [OF assms(2)]
    canonical_name_inject [OF assms]
  by (auto simp: partition_head_def len_prefixed_append_inject)

lemma partition_rest_inject:
  assumes "valid_partition_key k" "valid_partition_key k'" "partition_tag k = partition_tag k'"
    and "partition_rest k = partition_rest k'"
  shows "k = k'"
proof -
  have small: "length a < 2 ^ 64" if "valid_identifier a" for a
    using valid_identifier_length [OF that] by simp
  from assms small show ?thesis
    by (cases k; cases k') (auto simp: tag_defs len_prefixed_append_inject len_prefixed_inject)
qed

lemma key_tags_partition: "key_tags k = (TAG_SM, partition_tag j) \<Longrightarrow> \<exists>t p j'. k = PartitionKey t p j'"
  by (cases k; cases j) (auto simp: tag_defs)

lemma key_tags_inject:
  assumes "key_tags k = key_tags k'" "key_rest k = key_rest k'" "\<And>t p j. k \<noteq> PartitionKey t p j"
  shows "k = k'"
proof -
  from assms(3) have "\<And>t p j. k' \<noteq> PartitionKey t p j"
    using key_tags_partition [of k] assms(1) by (metis key_tags.simps(6))
  with assms show ?thesis by (cases k; cases k') (auto simp: tag_defs)
qed

lemma encode_key_inject:
  assumes "valid_key k" "valid_key k'"
  shows "encode_key s k = encode_key s' k' \<longleftrightarrow> s = s' \<and> k = k'"
proof
  assume "encode_key s k = encode_key s' k'"
  then have "s = s'" and tags: "key_tags k = key_tags k'" and rest: "key_rest k = key_rest k'"
    by (auto simp: encode_key_eq prod_eq_iff)
  moreover have "k = k'"
  proof (cases "\<exists>t p j. k = PartitionKey t p j")
    case True
    then obtain t p j where k: "k = PartitionKey t p j" by blast
    with tags obtain t' p' j' where k': "k' = PartitionKey t' p' j'"
      using key_tags_partition [of k' j] by auto
    with k tags rest assms show ?thesis
      using partition_rest_inject [of j j'] by (simp add: partition_head_inject)
  next
    case False
    with tags rest show ?thesis by (blast intro: key_tags_inject)
  qed
  ultimately show "s = s' \<and> k = k'" by simp
qed simp

section \<open>Scans\<close>

lemma prefix_partition_iff:
  assumes "valid_key k" "valid_type_id t"
  shows "prefix (TAG_SM # to_be_bytes s @ sub # partition_head t p @ xs) (encode_key s' k) \<longleftrightarrow>
    s' = s \<and> (\<exists>j. k = PartitionKey t p j \<and> partition_tag j = sub \<and> prefix xs (partition_rest j))
    \<or> s' = s \<and> (\<forall>t' p' j. k \<noteq> PartitionKey t' p' j) \<and> fst (key_tags k) = TAG_SM
       \<and> snd (key_tags k) = sub \<and> prefix (partition_head t p @ xs) (key_rest k)"
proof (cases "\<exists>t' p' j. k = PartitionKey t' p' j")
  case True
  then obtain t' p' j where k: "k = PartitionKey t' p' j" by blast
  have "prefix (partition_head t p @ xs) (partition_head t' p' @ ys) \<longleftrightarrow> t = t' \<and> p = p' \<and> prefix xs ys" for ys
    using assms k by (auto simp: prefix_def partition_head_inject)
  with k show ?thesis by (auto simp: encode_key_partition prefix_def)
next
  case False
  then show ?thesis by (auto simp: encode_key_eq prefix_def)
qed

lemma partition_head_nonempty [simp]: "partition_head t p \<noteq> []"
proof -
  have "length (partition_head t p) \<ge> 2" by (simp add: partition_head_def)
  then show ?thesis by auto
qed

lemma key_rest_plain: "(\<forall>t p j. k \<noteq> PartitionKey t p j) \<Longrightarrow> fst (key_tags k) = TAG_SM \<Longrightarrow> key_rest k = []"
  by (cases k) (auto simp: tag_defs)

lemma prefix_partition:
  assumes "valid_key k" "valid_type_id t"
  shows "prefix (TAG_SM # to_be_bytes s @ sub # partition_head t p @ xs) (encode_key s' k) \<longleftrightarrow>
    s' = s \<and> (\<exists>j. k = PartitionKey t p j \<and> partition_tag j = sub \<and> prefix xs (partition_rest j))"
  using prefix_partition_iff [OF assms] key_rest_plain [of k] by auto

lemma partition_tag_simps:
  "partition_tag j = SM_AGGREGATE_EVENT \<longleftrightarrow> (\<exists>a v. j = EventKey a v)"
  "partition_tag j = SM_AGGREGATE_PARTITION_INDEX \<longleftrightarrow> (\<exists>i. j = IndexKey i)"
  "partition_tag j = SM_AGGREGATE_STATE \<longleftrightarrow> (\<exists>a. j = StateKey a)"
  by (cases j; simp add: tag_defs)+

lemma prefix_len_prefixed:
  assumes "length a < 2 ^ 64" "length b < 2 ^ 64"
  shows "prefix (len_prefixed a) (len_prefixed b @ xs) \<longleftrightarrow> a = b"
proof
  assume "prefix (len_prefixed a) (len_prefixed b @ xs)"
  then obtain zs where "len_prefixed b @ xs = len_prefixed a @ zs" by (auto simp: prefix_def)
  with assms show "a = b" by (simp add: len_prefixed_append_inject)
qed simp

lemma utf8_ascii: "list_all (\<lambda>b. b \<le> 0x7F) bs \<Longrightarrow> utf8_valid bs"
  by (induction bs) simp_all

lemma identifier_char_ascii: "identifier_char c \<Longrightarrow> (of_char c :: u8) \<le> 0x7F"
  by (auto simp: identifier_char_def is_ascii_alphanumeric_def word_le_nat_alt less_eq_char_def)

lemma from_utf8_identifier: "valid_identifier a \<Longrightarrow> from_utf8 (as_bytes a) = Some a"
  using identifier_char_ascii valid_identifier_chars [of a]
  by (auto simp: from_utf8_def as_bytes_def list_all_iff intro!: utf8_ascii)
    (metis as_bytes_def string_of_as_bytes)

lemma index_prefix_iff:
  assumes "valid_key k" "valid_type_id t"
  shows "prefix (sm_aggregate_partition_index_prefix s t p) (encode_key s' k) \<longleftrightarrow>
    s' = s \<and> (\<exists>i. k = PartitionKey t p (IndexKey i))"
  using prefix_partition [OF assms, of s SM_AGGREGATE_PARTITION_INDEX p "[]" s']
  by (auto simp: sm_aggregate_partition_index_prefix_def aggregate_partition_prefix_eq partition_tag_simps)

lemma state_prefix_iff:
  assumes "valid_key k" "valid_type_id t"
  shows "prefix (sm_aggregate_state_prefix s t p) (encode_key s' k) \<longleftrightarrow>
    s' = s \<and> (\<exists>b. k = PartitionKey t p (StateKey b))"
  using prefix_partition [OF assms, of s SM_AGGREGATE_STATE p "[]" s']
  by (auto simp: sm_aggregate_state_prefix_def aggregate_partition_prefix_eq partition_tag_simps)

lemma event_prefix_iff:
  assumes "valid_key k" "valid_type_id t" "valid_identifier a"
  shows "prefix (sm_aggregate_event_prefix s t p a) (encode_key s' k) \<longleftrightarrow>
    s' = s \<and> (\<exists>v. k = PartitionKey t p (EventKey a v))"
proof -
  have "length (as_bytes a) < 2 ^ 64" using valid_identifier_length [OF assms(3)] by simp
  moreover have "length (as_bytes b) < 2 ^ 64" if "k = PartitionKey t p (EventKey b v)" for b v
    using assms(1) that valid_identifier_length [of b] by simp
  ultimately have "prefix (len_prefixed (as_bytes a)) (partition_rest (EventKey b v)) \<longleftrightarrow> a = b"
    if "k = PartitionKey t p (EventKey b v)" for b v
    using that by (simp add: prefix_len_prefixed)
  then show ?thesis
    using prefix_partition [OF assms(1,2), of s SM_AGGREGATE_EVENT p "len_prefixed (as_bytes a)" s']
    by (auto simp: sm_aggregate_event_prefix_def aggregate_instance_prefix_def append_len_prefixed_eq
        aggregate_partition_prefix_eq partition_tag_simps)
qed

lemma log_range_iff:
  "raft_log_prefix s \<le> encode_key s' k \<and> encode_key s' k < raft_log_upper s \<longleftrightarrow> s' = s \<and> (\<exists>i. k = LogEntryKey i)"
proof -
  have log: "successor (raft_log_prefix s) = Some (TAG_RAFT # to_be_bytes s @ [RAFT_LOG_ENTRY + 1])"
    by (simp add: successor_def raft_log_prefix_def encode_u64_be_def tag_defs)
  have "prefix (raft_log_prefix s) (encode_key s' k) \<longleftrightarrow> s' = s \<and> (\<exists>i. k = LogEntryKey i)"
    by (cases k) (auto simp: encode_key_eq raft_log_prefix_def encode_u64_be_def tag_defs prefix_def
        simp del: encode_key.simps)
  with log show ?thesis
    using successor_range [of "raft_log_prefix s" "encode_key s' k"] by (simp add: raft_log_upper_def)
qed

lemma key_less_iff:
  "sm_aggregate_partition_index s t p i < sm_aggregate_partition_index s t p j \<longleftrightarrow> i < j"
  "sm_aggregate_state s t p a < sm_aggregate_state s t p b \<longleftrightarrow> a < b"
  "sm_aggregate_event s t p a v < sm_aggregate_event s t p a w \<longleftrightarrow> v < w"
  "raft_log_entry s i < raft_log_entry s j \<longleftrightarrow> i < j"
  by (simp_all add: sm_aggregate_partition_index_def sm_aggregate_state_def sm_aggregate_event_def
      raft_log_entry_def encode_u64_be_def to_be_bytes_less_iff bytes_simps as_bytes_less_iff)

lemma le_iff_append_zero: "x < k @ [0] \<longleftrightarrow> x \<le> (k :: bytes)"
proof (induction k arbitrary: x)
  case Nil
  then show ?case by (cases x) auto
next
  case (Cons b bs)
  then show ?case by (cases x) auto
qed

lemma decode_state_key:
  assumes "valid_type_id t" "valid_identifier a"
  shows "decode_aggregate_state_key (sm_aggregate_state s t p a) = Some a"
proof -
  let ?n = "word_of_nat (length (canonical_name t)) :: u64"
  have len: "length (canonical_name t) \<le> 257"
    using assms(1) valid_identifier_length [of "business_space t"] valid_identifier_length [of "aggregate_type t"]
    by (simp add: canonical_name_def valid_type_id_def)
  then have n: "unat ?n = length (canonical_name t)" by (simp add: unat_of_nat)
  let ?head = "TAG_SM # to_be_bytes s @ [SM_AGGREGATE_STATE]"
  let ?rest = "to_be_bytes ?n @ as_bytes (canonical_name t) @ to_be_bytes p @ as_bytes a"
  have key: "sm_aggregate_state s t p a = ?head @ ?rest"
    by (simp add: sm_aggregate_state_def aggregate_partition_prefix_eq partition_head_def len_prefixed_def)
  have "length ?head = 10" by simp
  then have "drop 10 (?head @ ?rest) = ?rest" "(?head @ ?rest) ! 9 = SM_AGGREGATE_STATE"
    by (simp_all add: nth_append)
  moreover have "take 8 ?rest = to_be_bytes ?n" by simp
  moreover have "drop (10 + 8 + length (canonical_name t) + 2) (?head @ ?rest) = as_bytes a"
  proof -
    let ?pre = "?head @ to_be_bytes ?n @ as_bytes (canonical_name t) @ to_be_bytes p"
    have "length ?pre = 10 + 8 + length (canonical_name t) + 2" by simp
    moreover have "?head @ ?rest = ?pre @ as_bytes a" by simp
    ultimately show ?thesis by (metis append_eq_conv_conj)
  qed
  moreover have "decode_u64_be (to_be_bytes ?n) = Some ?n"
    by (simp add: decode_u64_be_def)
  moreover have "0 < length a" using assms(2) valid_identifier_nonempty by blast
  ultimately have "decode_aggregate_state_key (?head @ ?rest) = Some a"
    using len from_utf8_identifier [OF assms(2)]
    unfolding decode_aggregate_state_key_def by (simp only: n Let_def option.case) simp
  then show ?thesis by (simp add: key)
qed

section \<open>Properties\<close>

text \<open>No two different keys collide. Over all namespaces (Raft log, vote, purge and commit marks,
  applied state, every kind of aggregate key, catalogs, snapshot) and all shards, two builders
  give the same bytes only for the same shard and the same logical key, as long as the
  identifiers in them are valid.\<close>

theorem store_keys_injective:
  assumes "valid_key k" "valid_key k'" "encode_key s k = encode_key s' k'"
  shows "s = s' \<and> k = k'"
  using assms encode_key_inject by blast

theorem store_keys_injective_witness:
  "encode_key 1 (PartitionKey (AggregateTypeId ''a'' ''b'') 0 (StateKey ''xy''))
   \<noteq> encode_key 1 (PartitionKey (AggregateTypeId ''a'' ''b'') 0 (MetaKey ''xy''))"
proof -
  have "\<not> is_err (AggregateTypeId_validate (AggregateTypeId ''a'' ''b''))"
    "\<not> is_err (validate_aggregate_identifier ''id'' ''xy'')" by code_simp+
  then have "valid_type_id (AggregateTypeId ''a'' ''b'')" "valid_identifier ''xy''"
    using AggregateTypeId_validate_cases [of "AggregateTypeId ''a'' ''b''"] by fastforce+
  then have "valid_key (PartitionKey (AggregateTypeId ''a'' ''b'') 0 (StateKey ''xy''))"
    "valid_key (PartitionKey (AggregateTypeId ''a'' ''b'') 0 (MetaKey ''xy''))" by simp_all
  from store_keys_injective [OF this] show ?thesis by blast
qed

text \<open>A range scan from a prefix to its successor visits exactly the keys with that prefix, and
  where the prefix has no successor (all bytes \<open>0xFF\<close>), the scan to the end does.\<close>

theorem successor_bounds_prefix:
  "prefix p k \<longleftrightarrow> (case successor p of Some s \<Rightarrow> p \<le> k \<and> k < s | None \<Rightarrow> p \<le> k)"
  by (simp add: successor_range)

text \<open>Scans do not leak between partitions, instances or shards. Among all valid keys of the
  store, the index prefix of a partition is carried exactly by its index entries, the state prefix
  by its state documents, the event prefix of an instance by the events of that instance, and the
  log range of a shard holds exactly its log entries.\<close>

theorem scans_isolated:
  assumes "valid_key k" "valid_type_id t" "valid_identifier a"
  shows "(prefix (sm_aggregate_partition_index_prefix s t p) (encode_key s' k) \<longleftrightarrow>
        s' = s \<and> (\<exists>i. k = PartitionKey t p (IndexKey i)))
    \<and> (prefix (sm_aggregate_state_prefix s t p) (encode_key s' k) \<longleftrightarrow>
        s' = s \<and> (\<exists>b. k = PartitionKey t p (StateKey b)))
    \<and> (prefix (sm_aggregate_event_prefix s t p a) (encode_key s' k) \<longleftrightarrow>
        s' = s \<and> (\<exists>v. k = PartitionKey t p (EventKey a v)))
    \<and> (raft_log_prefix s \<le> encode_key s' k \<and> encode_key s' k < raft_log_upper s \<longleftrightarrow>
        s' = s \<and> (\<exists>i. k = LogEntryKey i))"
  using index_prefix_iff [OF assms(1,2)] state_prefix_iff [OF assms(1,2)] event_prefix_iff [OF assms]
    log_range_iff by simp

theorem scans_isolated_witness:
  "prefix (sm_aggregate_event_prefix 1 (AggregateTypeId ''a'' ''b'') 7 ''x'')
     (encode_key 1 (PartitionKey (AggregateTypeId ''a'' ''b'') 7 (EventKey ''x'' 3)))
   \<and> \<not> prefix (sm_aggregate_event_prefix 1 (AggregateTypeId ''a'' ''b'') 7 ''x'')
     (encode_key 1 (PartitionKey (AggregateTypeId ''a'' ''b'') 7 (EventKey ''xx'' 3)))"
proof -
  have "\<not> is_err (AggregateTypeId_validate (AggregateTypeId ''a'' ''b''))"
    "\<not> is_err (validate_aggregate_identifier ''id'' ''x'')"
    "\<not> is_err (validate_aggregate_identifier ''id'' ''xx'')" by code_simp+
  then have t: "valid_type_id (AggregateTypeId ''a'' ''b'')" and x: "valid_identifier ''x''" "valid_identifier ''xx''"
    using AggregateTypeId_validate_cases [of "AggregateTypeId ''a'' ''b''"] by fastforce+
  then have "valid_key (PartitionKey (AggregateTypeId ''a'' ''b'') 7 (EventKey ''x'' 3))"
    "valid_key (PartitionKey (AggregateTypeId ''a'' ''b'') 7 (EventKey ''xx'' 3))" by simp_all
  from this [THEN scans_isolated, OF t x(1), where s = 1 and p = 7 and s' = 1] show ?thesis by simp
qed

text \<open>Byte order is logical order where the code scans. Within a partition, index keys sort by
  position and state keys by aggregate id; within an instance, event keys sort by version; within
  a shard, log keys sort by index. Appending a zero byte gives the least exclusive bound that
  still includes a key.\<close>

theorem key_order_preserved:
  "(sm_aggregate_partition_index s t p i < sm_aggregate_partition_index s t p j \<longleftrightarrow> i < j)
   \<and> (sm_aggregate_state s t p a < sm_aggregate_state s t p b \<longleftrightarrow> a < b)
   \<and> (sm_aggregate_event s t p a i < sm_aggregate_event s t p a j \<longleftrightarrow> i < j)
   \<and> (raft_log_entry s i < raft_log_entry s j \<longleftrightarrow> i < j)
   \<and> (x < upper_including k \<longleftrightarrow> x \<le> k)"
  by (simp add: key_less_iff upper_including_def le_iff_append_zero)

text \<open>What the scans read back is what was written: a log key gives its index, a state key of
  valid identifiers its aggregate id, and event keys are recognised as such for their shard only.\<close>

theorem key_decoding_roundtrip:
  assumes "valid_type_id t" "valid_identifier a"
  shows "decode_log_index (raft_log_entry s i) = Some i
    \<and> decode_aggregate_state_key (sm_aggregate_state s t p a) = Some a
    \<and> (is_aggregate_event_key s' (sm_aggregate_event s t p a v) \<longleftrightarrow> s' = s)"
proof -
  have "is_aggregate_event_key s' (sm_aggregate_event s t p a v) \<longleftrightarrow> s' = s"
    by (auto simp: is_aggregate_event_key_def sm_aggregate_event_def sm_aggregate_event_prefix_def
        aggregate_instance_prefix_def append_len_prefixed_eq aggregate_partition_prefix_eq nth_append)
  moreover have "decode_log_index (raft_log_entry s i) = Some i"
    by (simp add: decode_log_index_def raft_log_entry_def encode_u64_be_def decode_u64_be_def)
  ultimately show ?thesis using decode_state_key [OF assms] by simp
qed

theorem key_decoding_roundtrip_witness:
  "decode_aggregate_state_key (sm_aggregate_state 1 (AggregateTypeId ''a'' ''b'') 7 ''x'') = Some ''x''"
proof -
  have "\<not> is_err (AggregateTypeId_validate (AggregateTypeId ''a'' ''b''))"
    "\<not> is_err (validate_aggregate_identifier ''id'' ''x'')" by code_simp+
  then have "valid_type_id (AggregateTypeId ''a'' ''b'')" "valid_identifier ''x''"
    using AggregateTypeId_validate_cases [of "AggregateTypeId ''a'' ''b''"] by fastforce+
  from key_decoding_roundtrip [OF this, where s = 1 and p = 7] show ?thesis by blast
qed

end
