(* ===== verification/Storage.thy ===== *)
theory Storage
  imports Raft_Types Keys
begin

text \<open>
  The storage of one shard, \<open>EsStorage\<close> of \<open>es-storage/src/storage.rs\<close>, over two libraries the
  sources only call. The key-value store (surrealkv) is the parameter \<open>kv\<close>: point reads, range
  reads and atomic commits, each of which may fail; \<open>kv_laws\<close> states what the code relies on, for
  a view of the database as a finite map. The value encoding (bincode) is the parameter \<open>cd\<close>:
  \<open>codec_laws\<close> says that what was encoded decodes to the same value at its type.
\<close>

section \<open>The key-value store\<close>

datatype kv_op = KvSet bytes bytes | KvDelete bytes

fun apply_kv_op :: "kv_op \<Rightarrow> (bytes, bytes) fmap \<Rightarrow> (bytes, bytes) fmap" where
  "apply_kv_op (KvSet k v) m = fmupd k v m"
| "apply_kv_op (KvDelete k) m = fmdrop k m"

record 'db kv =
  kv_get :: "'db \<Rightarrow> bytes \<Rightarrow> (bytes option, string) result"
  kv_range :: "'db \<Rightarrow> bytes \<Rightarrow> bytes \<Rightarrow> ((bytes \<times> bytes) list, string) result"
  kv_commit :: "'db \<Rightarrow> kv_op list \<Rightarrow> ('db, string) result"

definition range_of :: "(bytes, bytes) fmap \<Rightarrow> bytes \<Rightarrow> bytes \<Rightarrow> (bytes \<times> bytes) list" where
  "range_of m lo hi = filter (\<lambda>(k, _). lo \<le> k \<and> k < hi) (sorted_list_of_fmap m)"

definition kv_laws :: "'db kv \<Rightarrow> ('db \<Rightarrow> (bytes, bytes) fmap) \<Rightarrow> bool" where
  "kv_laws kv view \<longleftrightarrow>
     (\<forall>db k x. kv_get kv db k = Inr x \<longrightarrow> x = fmlookup (view db) k)
     \<and> (\<forall>db lo hi xs. kv_range kv db lo hi = Inr xs \<longrightarrow> xs = range_of (view db) lo hi)
     \<and> (\<forall>db ops db'. kv_commit kv db ops = Inr db' \<longrightarrow> view db' = fold apply_kv_op ops (view db))"

text \<open>A store whose operations never fail.\<close>

definition kv_reliable :: "'db kv \<Rightarrow> bool" where
  "kv_reliable kv \<longleftrightarrow> (\<forall>db k. \<not> is_err (kv_get kv db k)) \<and> (\<forall>db lo hi. \<not> is_err (kv_range kv db lo hi))
     \<and> (\<forall>db ops. \<not> is_err (kv_commit kv db ops))"

text \<open>A store that never fails, the finite map itself, meets the laws.\<close>

definition map_kv :: "(bytes, bytes) fmap kv" where
  "map_kv = \<lparr>kv_get = \<lambda>m k. Inr (fmlookup m k), kv_range = \<lambda>m lo hi. Inr (range_of m lo hi),
     kv_commit = \<lambda>m ops. Inr (fold apply_kv_op ops m)\<rparr>"

lemma map_kv_laws: "kv_laws map_kv (\<lambda>m. m)"
  by (auto simp: kv_laws_def map_kv_def)

lemma map_kv_reliable: "kv_reliable map_kv"
  by (simp add: kv_reliable_def map_kv_def)

section \<open>The value encoding\<close>

text \<open>One constructor per type the storage encodes.\<close>

datatype 'm sm_value =
    VEvent AggregateEvent
  | VPointer string u64
  | VMeta AggregateMeta
  | VU64 u64
  | VIdempotency AggregateIdempotencyRecord
  | VState AggregateState
  | VHlc Hlc
  | VCatalog AggregateCatalog
  | VGroupCatalog AggregateGroupCatalog
  | VGroupPartition AggregateGroupPartition
  | VApplied "'m AppliedState"
  | VEntry "'m Entry"
  | VVote vote
  | VLogId "log_id option"

datatype sm_kind = KEvent | KPointer | KMeta | KU64 | KIdempotency | KState | KHlc | KCatalog
  | KGroupCatalog | KGroupPartition | KApplied | KEntry | KVote | KLogId

fun value_kind :: "'m sm_value \<Rightarrow> sm_kind" where
  "value_kind (VEvent _) = KEvent"
| "value_kind (VPointer _ _) = KPointer"
| "value_kind (VMeta _) = KMeta"
| "value_kind (VU64 _) = KU64"
| "value_kind (VIdempotency _) = KIdempotency"
| "value_kind (VState _) = KState"
| "value_kind (VHlc _) = KHlc"
| "value_kind (VCatalog _) = KCatalog"
| "value_kind (VGroupCatalog _) = KGroupCatalog"
| "value_kind (VGroupPartition _) = KGroupPartition"
| "value_kind (VApplied _) = KApplied"
| "value_kind (VEntry _) = KEntry"
| "value_kind (VVote _) = KVote"
| "value_kind (VLogId _) = KLogId"

text \<open>\<open>encode\<close> may fail; \<open>decode::<T>\<close> of strict mode is \<open>dec\<close> at the kind of \<open>T\<close>.\<close>

record 'm codec =
  enc :: "'m sm_value \<Rightarrow> bytes option"
  dec :: "sm_kind \<Rightarrow> bytes \<Rightarrow> 'm sm_value option"

definition codec_laws :: "'m codec \<Rightarrow> bool" where
  "codec_laws cd \<longleftrightarrow>
     (\<forall>v b. enc cd v = Some b \<longrightarrow> dec cd (value_kind v) b = Some v)
     \<and> (\<forall>kind b v. dec cd kind b = Some v \<longrightarrow> value_kind v = kind)"

definition codec_total :: "'m codec \<Rightarrow> bool" where
  "codec_total cd \<longleftrightarrow> (\<forall>v. enc cd v \<noteq> None)"

text \<open>The kind of value the code keeps under each key.\<close>

fun key_kind :: "store_key \<Rightarrow> sm_kind" where
  "key_kind (LogEntryKey _) = KEntry"
| "key_kind VoteKey = KVote"
| "key_kind LastPurgedKey = KLogId"
| "key_kind CommittedKey = KLogId"
| "key_kind AppliedStateKey = KApplied"
| "key_kind (PartitionKey _ _ (EventKey _ _)) = KEvent"
| "key_kind (PartitionKey _ _ (MetaKey _)) = KMeta"
| "key_kind (PartitionKey _ _ (IndexKey _)) = KPointer"
| "key_kind (PartitionKey _ _ NextPositionKey) = KU64"
| "key_kind (PartitionKey _ _ (StateKey _)) = KState"
| "key_kind (PartitionKey _ _ (StateModifiedKey _)) = KHlc"
| "key_kind (PartitionKey _ _ (IdempotencyKey _)) = KIdempotency"
| "key_kind (PartitionKey _ _ FenceKey) = KU64"
| "key_kind (PartitionKey _ _ (GroupPartitionKey _)) = KGroupPartition"
| "key_kind CatalogKey = KCatalog"
| "key_kind GroupCatalogKey = KGroupCatalog"
| "key_kind SnapshotKey = KLogId"

section \<open>EsStorage\<close>

record ('db, 'm) EsStorage =
  es_shard_id :: u64
  es_tree :: 'db
  es_last_applied :: "log_id option"
  es_membership :: "'m stored_membership"
  es_broadcast :: "AggregateEvent list"

definition es_get :: "'db kv \<Rightarrow> ('db, 'm) EsStorage \<Rightarrow> bytes \<Rightarrow> (bytes option, Error) result" where
  "es_get kv st k = map_err Error.Storage (kv_get kv (es_tree st) k)"

definition es_commit :: "'db kv \<Rightarrow> ('db, 'm) EsStorage \<Rightarrow> kv_op list \<Rightarrow> (('db, 'm) EsStorage, Error) result" where
  "es_commit kv st ops = rbind (map_err Error.Storage (kv_commit kv (es_tree st) ops)) (\<lambda>db. Inr (st\<lparr>es_tree := db\<rparr>))"

definition es_set :: "'db kv \<Rightarrow> ('db, 'm) EsStorage \<Rightarrow> bytes \<Rightarrow> bytes \<Rightarrow> (('db, 'm) EsStorage, Error) result" where
  "es_set kv st k v = es_commit kv st [KvSet k v]"

text \<open>The iterator loop over \<open>range(start, end)\<close>: \<open>start >= end\<close> gives nothing.\<close>

definition es_range ::
  "'db kv \<Rightarrow> ('db, 'm) EsStorage \<Rightarrow> bytes \<Rightarrow> bytes \<Rightarrow> ((bytes \<times> bytes) list, Error) result" where
  "es_range kv st lo hi =
     (if hi \<le> lo then Inr [] else map_err Error.Storage (kv_range kv (es_tree st) lo hi))"

definition collect_keys ::
  "'db kv \<Rightarrow> ('db, 'm) EsStorage \<Rightarrow> bytes \<Rightarrow> bytes \<Rightarrow> (bytes list, Error) result" where
  "collect_keys kv st lo hi = rbind (es_range kv st lo hi) (\<lambda>xs. Inr (map fst xs))"

definition delete_batch ::
  "'db kv \<Rightarrow> ('db, 'm) EsStorage \<Rightarrow> bytes list \<Rightarrow> (('db, 'm) EsStorage, Error) result" where
  "delete_batch kv st ks = (if ks = [] then Inr st else es_commit kv st (map KvDelete ks))"

text \<open>\<open>limit\<close> 0 means no limit; \<open>desc\<close> scans from the end.\<close>

definition scan_values ::
  "'db kv \<Rightarrow> ('db, 'm) EsStorage \<Rightarrow> bytes \<Rightarrow> bytes \<Rightarrow> bool \<Rightarrow> u64 \<Rightarrow> (bytes list, Error) result" where
  "scan_values kv st lo hi desc limit =
     rbind (es_range kv st lo hi) (\<lambda>xs.
       let vs = map snd (if desc then rev xs else xs)
       in Inr (if limit = 0 then vs else take (unat limit) vs))"

definition encode_value :: "'m codec \<Rightarrow> 'm sm_value \<Rightarrow> (bytes, Error) result" where
  "encode_value cd v = ok_or (Serde ''encode'') (enc cd v)"

text \<open>\<open>self.get(&key)?.map(|bytes| decode(&bytes)).transpose()?\<close>\<close>

definition decode_value :: "'m codec \<Rightarrow> sm_kind \<Rightarrow> bytes \<Rightarrow> ('m sm_value, Error) result" where
  "decode_value cd kind b = ok_or (Serde ''decode'') (dec cd kind b)"

definition read_value ::
  "'db kv \<Rightarrow> 'm codec \<Rightarrow> ('db, 'm) EsStorage \<Rightarrow> store_key \<Rightarrow> ('m sm_value option, Error) result" where
  "read_value kv cd st k =
     rbind (es_get kv st (encode_key (es_shard_id st) k)) (\<lambda>x.
       case x of None \<Rightarrow> Inr None
       | Some b \<Rightarrow> rbind (decode_value cd (key_kind k) b) (\<lambda>v. Inr (Some v)))"

section \<open>Log ranges\<close>

datatype bound = Included u64 | Excluded u64 | Unbounded

definition log_range_keys :: "u64 \<Rightarrow> bound \<Rightarrow> bound \<Rightarrow> (bytes \<times> bytes) option" where
  "log_range_keys shard lo hi =
     Option.bind (case lo of Included i \<Rightarrow> Some i | Excluded i \<Rightarrow> checked_add i 1 | Unbounded \<Rightarrow> Some 0)
       (\<lambda>start_idx.
          Option.bind
            (case hi of
               Excluded i \<Rightarrow> if i \<le> start_idx then None else Some (raft_log_entry shard i)
             | Included i \<Rightarrow>
                 if i < start_idx then None
                 else (case checked_add i 1 of
                         Some n \<Rightarrow> Some (raft_log_entry shard n) | None \<Rightarrow> Some (raft_log_upper shard))
             | Unbounded \<Rightarrow> Some (raft_log_upper shard))
            (\<lambda>end_key. Some (raft_log_entry shard start_idx, end_key)))"

fun decode_all :: "'m codec \<Rightarrow> (bytes \<times> bytes) list \<Rightarrow> ('m Entry list, Error) result" where
  "decode_all cd [] = Inr []"
| "decode_all cd ((k, b) # xs) =
     (case dec cd KEntry b of
        Some (VEntry e) \<Rightarrow> rbind (decode_all cd xs) (\<lambda>es. Inr (e # es))
      | _ \<Rightarrow> Inl (Serde ''log entry''))"

definition read_log_entries ::
  "'db kv \<Rightarrow> 'm codec \<Rightarrow> ('db, 'm) EsStorage \<Rightarrow> bound \<Rightarrow> bound \<Rightarrow> ('m Entry list, Error) result" where
  "read_log_entries kv cd st lo hi =
     (case log_range_keys (es_shard_id st) lo hi of
        None \<Rightarrow> Inr []
      | Some (start, end_key) \<Rightarrow> rbind (es_range kv st start end_key) (decode_all cd))"

definition read_last_log_id ::
  "'db kv \<Rightarrow> 'm codec \<Rightarrow> ('db, 'm) EsStorage \<Rightarrow> (log_id option, Error) result" where
  "read_last_log_id kv cd st =
     rbind (map_err Error.Storage (kv_range kv (es_tree st) (raft_log_prefix (es_shard_id st))
         (raft_log_upper (es_shard_id st)))) (\<lambda>xs.
       if xs = [] then Inr None
       else (case dec cd KEntry (snd (last xs)) of
               Some (VEntry e) \<Rightarrow> Inr (Some (en_log_id e)) | _ \<Rightarrow> Inl (Serde ''log entry'')))"

end
