(* ===== verification/State_Machine.thy ===== *)
theory State_Machine
  imports Storage
begin

text \<open>
  The replicated state machine of \<open>es-storage/src/state_machine.rs\<close>. \<open>sm_apply\<close> runs a batch of
  Raft entries: the handlers read through the caches of an \<open>ApplyBatch\<close>, collect their writes in
  it, and one commit writes them together with the applied state. The readers the server uses
  are here too. Every \<open>?\<close> of the source is an \<open>rbind\<close>; a failed read, encode or commit aborts the
  batch and leaves the storage as it was.
\<close>

section \<open>Typed reads\<close>

definition read_typed ::
  "'db kv \<Rightarrow> 'm codec \<Rightarrow> ('db, 'm) EsStorage \<Rightarrow> store_key \<Rightarrow> ('m sm_value \<Rightarrow> 'x option)
     \<Rightarrow> ('x option, Error) result" where
  "read_typed kv cd st k proj =
     rbind (read_value kv cd st k) (\<lambda>o'.
       case o' of None \<Rightarrow> Inr None
       | Some v \<Rightarrow> (case proj v of None \<Rightarrow> Inl (Serde ''kind'') | Some x \<Rightarrow> Inr (Some x)))"

fun as_event where "as_event (VEvent e) = Some e" | "as_event _ = None"
fun as_meta where "as_meta (VMeta m) = Some m" | "as_meta _ = None"
fun as_pointer where "as_pointer (VPointer a v) = Some (a, v)" | "as_pointer _ = None"
fun as_u64 where "as_u64 (VU64 n) = Some n" | "as_u64 _ = None"
fun as_idempotency where "as_idempotency (VIdempotency r) = Some r" | "as_idempotency _ = None"
fun as_state where "as_state (VState s) = Some s" | "as_state _ = None"
fun as_hlc where "as_hlc (VHlc h) = Some h" | "as_hlc _ = None"
fun as_catalog where "as_catalog (VCatalog c) = Some c" | "as_catalog _ = None"
fun as_group_catalog where "as_group_catalog (VGroupCatalog c) = Some c" | "as_group_catalog _ = None"
fun as_group_partition where "as_group_partition (VGroupPartition p) = Some p" | "as_group_partition _ = None"
fun as_applied where "as_applied (VApplied a) = Some a" | "as_applied _ = None"

definition unwrap_or :: "'x \<Rightarrow> ('x option, Error) result \<Rightarrow> ('x, Error) result" where
  "unwrap_or d r = rbind r (\<lambda>o'. Inr (case o' of None \<Rightarrow> d | Some x \<Rightarrow> x))"

definition read_aggregate_meta where
  "read_aggregate_meta kv cd st t p a = read_typed kv cd st (PartitionKey t p (MetaKey a)) as_meta"

definition read_aggregate_event where
  "read_aggregate_event kv cd st t p a v = read_typed kv cd st (PartitionKey t p (EventKey a v)) as_event"

definition read_aggregate_state where
  "read_aggregate_state kv cd st t p a = read_typed kv cd st (PartitionKey t p (StateKey a)) as_state"

definition read_aggregate_state_document ::
  "'db kv \<Rightarrow> 'm codec \<Rightarrow> ('db, 'm) EsStorage \<Rightarrow> AggregateTypeId \<Rightarrow> u16 \<Rightarrow> string
     \<Rightarrow> (AggregateStateDocument option, Error) result" where
  "read_aggregate_state_document kv cd st t p a =
     rbind (read_typed kv cd st (PartitionKey t p (StateKey a)) as_state) (\<lambda>o'.
       case o' of None \<Rightarrow> Inr None
       | Some s \<Rightarrow>
           rbind (unwrap_or (Hlc 0 0) (read_typed kv cd st (PartitionKey t p (StateModifiedKey a)) as_hlc))
             (\<lambda>h. Inr (Some \<lparr>doc_revision = st_revision s, doc_data = st_data s, doc_modified_hlc = h\<rparr>)))"

definition read_aggregate_partition_head where
  "read_aggregate_partition_head kv cd st t p =
     unwrap_or 0 (read_typed kv cd st (PartitionKey t p NextPositionKey) as_u64)"

definition read_aggregate_catalog where
  "read_aggregate_catalog kv cd st = unwrap_or AggregateCatalog_default (read_typed kv cd st CatalogKey as_catalog)"

definition read_aggregate_group_catalog where
  "read_aggregate_group_catalog kv cd st =
     unwrap_or AggregateGroupCatalog_default (read_typed kv cd st GroupCatalogKey as_group_catalog)"

definition read_aggregate_group_partition where
  "read_aggregate_group_partition kv cd st t p g =
     read_typed kv cd st (PartitionKey t p (GroupPartitionKey g)) as_group_partition"

fun resolve_pointers ::
  "'db kv \<Rightarrow> 'm codec \<Rightarrow> ('db, 'm) EsStorage \<Rightarrow> AggregateTypeId \<Rightarrow> u16 \<Rightarrow> bytes list
     \<Rightarrow> (AggregateEvent list, Error) result" where
  "resolve_pointers kv cd st t p [] = Inr []"
| "resolve_pointers kv cd st t p (b # bs) =
     (case Option.bind (dec cd KPointer b) as_pointer of
        None \<Rightarrow> Inl (Serde ''pointer'')
      | Some (a, v) \<Rightarrow>
          rbind (read_aggregate_event kv cd st t p a v) (\<lambda>o'.
            case o' of None \<Rightarrow> Inl (Error.Storage ''missing event'')
            | Some e \<Rightarrow> rbind (resolve_pointers kv cd st t p bs) (\<lambda>es. Inr (e # es))))"

definition read_aggregate_partition_events ::
  "'db kv \<Rightarrow> 'm codec \<Rightarrow> ('db, 'm) EsStorage \<Rightarrow> AggregateTypeId \<Rightarrow> u16 \<Rightarrow> u64 \<Rightarrow> u64
     \<Rightarrow> (AggregateEvent list, Error) result" where
  "read_aggregate_partition_events kv cd st t p from_position limit =
     (let shard = es_shard_id st;
          start = sm_aggregate_partition_index shard t p from_position
      in case successor (sm_aggregate_partition_index_prefix shard t p) of
           None \<Rightarrow> Inl (Internal ''no successor'')
         | Some end_key \<Rightarrow>
             rbind (scan_values kv st start end_key False limit) (resolve_pointers kv cd st t p))"

text \<open>\<open>list_aggregate_partition_states\<close>: the range, cut to the limit, then each entry decoded in order.\<close>

fun decode_states ::
  "'db kv \<Rightarrow> 'm codec \<Rightarrow> ('db, 'm) EsStorage \<Rightarrow> AggregateTypeId \<Rightarrow> u16 \<Rightarrow> (bytes \<times> bytes) list
     \<Rightarrow> ((string \<times> AggregateStateDocument) list, Error) result" where
  "decode_states kv cd st t p [] = Inr []"
| "decode_states kv cd st t p ((k, b) # xs) =
     (case decode_aggregate_state_key k of
        None \<Rightarrow> Inl (Serde ''state key'')
      | Some a \<Rightarrow>
          (case Option.bind (dec cd KState b) as_state of
             None \<Rightarrow> Inl (Serde ''state'')
           | Some s \<Rightarrow>
               rbind (unwrap_or (Hlc 0 0) (read_typed kv cd st (PartitionKey t p (StateModifiedKey a)) as_hlc))
                 (\<lambda>h. rbind (decode_states kv cd st t p xs) (\<lambda>rest.
                    Inr ((a, \<lparr>doc_revision = st_revision s, doc_data = st_data s, doc_modified_hlc = h\<rparr>) # rest)))))"

definition list_aggregate_partition_states ::
  "'db kv \<Rightarrow> 'm codec \<Rightarrow> ('db, 'm) EsStorage \<Rightarrow> AggregateTypeId \<Rightarrow> u16 \<Rightarrow> string option \<Rightarrow> u64
     \<Rightarrow> ((string \<times> AggregateStateDocument) list, Error) result" where
  "list_aggregate_partition_states kv cd st t p after limit =
     (let prefix_key = sm_aggregate_state_prefix (es_shard_id st) t p;
          start = (case after of
              Some a \<Rightarrow> upper_including (sm_aggregate_state (es_shard_id st) t p a)
            | None \<Rightarrow> prefix_key)
      in case successor prefix_key of
           None \<Rightarrow> Inl (Internal ''no successor'')
         | Some end_key \<Rightarrow>
             rbind (map_err Error.Storage (kv_range kv (es_tree st) start end_key)) (\<lambda>xs.
               decode_states kv cd st t p (if limit = 0 then xs else take (unat limit) xs)))"

section \<open>The batch\<close>

record ApplyBatch =
  ba_ops :: "(bytes \<times> bytes) list"
  ba_versions :: "(AggregateTypeId \<times> u16 \<times> string, u64 option) fmap"
  ba_positions :: "(AggregateTypeId \<times> u16, u64) fmap"
  ba_states :: "(AggregateTypeId \<times> u16 \<times> string, AggregateState option) fmap"
  ba_idempotency :: "(AggregateTypeId \<times> u16 \<times> uuid, AggregateIdempotencyRecord) fmap"
  ba_fences :: "(AggregateTypeId \<times> u16, u64) fmap"
  ba_catalog :: "AggregateCatalog option"
  ba_group_catalog :: "AggregateGroupCatalog option"
  ba_group_partitions :: "(AggregateTypeId \<times> u16 \<times> string, AggregateGroupPartition) fmap"
  ba_new_events :: "AggregateEvent list"

definition empty_batch :: ApplyBatch where
  "empty_batch = \<lparr>ba_ops = [], ba_versions = fmempty, ba_positions = fmempty, ba_states = fmempty,
     ba_idempotency = fmempty, ba_fences = fmempty, ba_catalog = None, ba_group_catalog = None,
     ba_group_partitions = fmempty, ba_new_events = []\<rparr>"

definition push_put :: "u64 \<Rightarrow> store_key \<Rightarrow> bytes \<Rightarrow> ApplyBatch \<Rightarrow> ApplyBatch" where
  "push_put shard k v b = b\<lparr>ba_ops := ba_ops b @ [(encode_key shard k, v)]\<rparr>"

text \<open>Reads through the caches: a miss is read from the store and remembered.\<close>

definition batch_aggregate_version ::
  "'db kv \<Rightarrow> 'm codec \<Rightarrow> ('db, 'm) EsStorage \<Rightarrow> ApplyBatch \<Rightarrow> AggregateTypeId \<Rightarrow> u16 \<Rightarrow> string
     \<Rightarrow> (ApplyBatch \<times> u64 option, Error) result" where
  "batch_aggregate_version kv cd st b t p a =
     (case fmlookup (ba_versions b) (t, p, a) of
        Some version \<Rightarrow> Inr (b, version)
      | None \<Rightarrow>
          rbind (read_aggregate_meta kv cd st t p a) (\<lambda>o'.
            let version = map_option current_version o'
            in Inr (b\<lparr>ba_versions := fmupd (t, p, a) version (ba_versions b)\<rparr>, version)))"

definition batch_aggregate_state ::
  "'db kv \<Rightarrow> 'm codec \<Rightarrow> ('db, 'm) EsStorage \<Rightarrow> ApplyBatch \<Rightarrow> AggregateTypeId \<Rightarrow> u16 \<Rightarrow> string
     \<Rightarrow> (ApplyBatch \<times> AggregateState option, Error) result" where
  "batch_aggregate_state kv cd st b t p a =
     (case fmlookup (ba_states b) (t, p, a) of
        Some s \<Rightarrow> Inr (b, s)
      | None \<Rightarrow>
          rbind (read_aggregate_state kv cd st t p a) (\<lambda>s.
            Inr (b\<lparr>ba_states := fmupd (t, p, a) s (ba_states b)\<rparr>, s)))"

definition batch_aggregate_partition_position ::
  "'db kv \<Rightarrow> 'm codec \<Rightarrow> ('db, 'm) EsStorage \<Rightarrow> ApplyBatch \<Rightarrow> AggregateTypeId \<Rightarrow> u16
     \<Rightarrow> (ApplyBatch \<times> u64, Error) result" where
  "batch_aggregate_partition_position kv cd st b t p =
     (case fmlookup (ba_positions b) (t, p) of
        Some position \<Rightarrow> Inr (b, position)
      | None \<Rightarrow>
          rbind (unwrap_or 0 (read_typed kv cd st (PartitionKey t p NextPositionKey) as_u64)) (\<lambda>position.
            Inr (b\<lparr>ba_positions := fmupd (t, p) position (ba_positions b)\<rparr>, position)))"

definition batch_aggregate_partition_fence ::
  "'db kv \<Rightarrow> 'm codec \<Rightarrow> ('db, 'm) EsStorage \<Rightarrow> ApplyBatch \<Rightarrow> AggregateTypeId \<Rightarrow> u16
     \<Rightarrow> (ApplyBatch \<times> u64, Error) result" where
  "batch_aggregate_partition_fence kv cd st b t p =
     (case fmlookup (ba_fences b) (t, p) of
        Some generation \<Rightarrow> Inr (b, generation)
      | None \<Rightarrow>
          rbind (unwrap_or 0 (read_typed kv cd st (PartitionKey t p FenceKey) as_u64)) (\<lambda>generation.
            Inr (b\<lparr>ba_fences := fmupd (t, p) generation (ba_fences b)\<rparr>, generation)))"

text \<open>The idempotency lookup of \<open>apply_aggregate_append\<close>: only a record that exists is remembered.\<close>

definition batch_idempotency ::
  "'db kv \<Rightarrow> 'm codec \<Rightarrow> ('db, 'm) EsStorage \<Rightarrow> ApplyBatch \<Rightarrow> AggregateTypeId \<Rightarrow> u16 \<Rightarrow> uuid
     \<Rightarrow> (ApplyBatch \<times> AggregateIdempotencyRecord option, Error) result" where
  "batch_idempotency kv cd st b t p event_id =
     (case fmlookup (ba_idempotency b) (t, p, event_id) of
        Some r \<Rightarrow> Inr (b, Some r)
      | None \<Rightarrow>
          rbind (read_typed kv cd st (PartitionKey t p (IdempotencyKey event_id)) as_idempotency) (\<lambda>o'.
            Inr (case o' of
                   None \<Rightarrow> b
                 | Some r \<Rightarrow> b\<lparr>ba_idempotency := fmupd (t, p, event_id) r (ba_idempotency b)\<rparr>, o')))"

fun check_expected_aggregate_version :: "ExpectedAggregateVersion \<Rightarrow> u64 option \<Rightarrow> bool" where
  "check_expected_aggregate_version Any current = True"
| "check_expected_aggregate_version NoAggregate current = (current = None)"
| "check_expected_aggregate_version AggregateExists current = (current \<noteq> None)"
| "check_expected_aggregate_version (Exact expected) current = (current = Some expected)"

section \<open>Handlers\<close>

text \<open>The writes of a successful append, in the order of the source.\<close>

definition append_writes ::
  "'m codec \<Rightarrow> u64 \<Rightarrow> ApplyBatch \<Rightarrow> AggregateEvent \<Rightarrow> u128 \<Rightarrow> u64 \<Rightarrow> (ApplyBatch, Error) result" where
  "append_writes cd shard b stored fingerprint npos =
     (let t = ev_aggregate_type stored; p = ev_partition_id stored; a = ev_aggregate_id stored;
          v = ev_aggregate_version stored; pos = ev_partition_position stored;
          idempotency = \<lparr>idm_fingerprint = fingerprint,
            idm_result = \<lparr>res_aggregate_version = v, res_partition_position = pos\<rparr>\<rparr>
      in rbind (encode_value cd (VEvent stored)) (\<lambda>event_bytes.
         rbind (encode_value cd (VPointer a v)) (\<lambda>pointer.
         rbind (encode_value cd (VMeta \<lparr>current_version = v\<rparr>)) (\<lambda>meta_bytes.
         rbind (encode_value cd (VIdempotency idempotency)) (\<lambda>idempotency_bytes.
         let b1 = push_put shard (PartitionKey t p (EventKey a v)) event_bytes b;
             b2 = push_put shard (PartitionKey t p (IndexKey pos)) pointer b1;
             b3 = push_put shard (PartitionKey t p (MetaKey a)) meta_bytes b2;
             b4 = push_put shard (PartitionKey t p (IdempotencyKey (ev_event_id stored))) idempotency_bytes b3
         in Inr (b4\<lparr>ba_versions := fmupd (t, p, a) (Some v) (ba_versions b4),
                    ba_positions := fmupd (t, p) npos (ba_positions b4),
                    ba_idempotency := fmupd (t, p, ev_event_id stored) idempotency (ba_idempotency b4),
                    ba_new_events := ba_new_events b4 @ [stored]\<rparr>))))))"

text \<open>The part of the append after the idempotency check: fence, expected version, numbering.\<close>

definition append_checked ::
  "'db kv \<Rightarrow> 'm codec \<Rightarrow> ('db, 'm) EsStorage \<Rightarrow> ApplyBatch \<Rightarrow> AggregateTypeId \<Rightarrow> u16 \<Rightarrow> u64 \<Rightarrow> string
     \<Rightarrow> ExpectedAggregateVersion \<Rightarrow> NewAggregateEvent \<Rightarrow> Hlc \<Rightarrow> u128 \<Rightarrow> (ApplyBatch \<times> EsResponse, Error) result" where
  "append_checked kv cd st b t p generation a expected event hlc fingerprint =
     rbind (batch_aggregate_partition_fence kv cd st b t p) (\<lambda>(b, current_fence).
     if current_fence \<noteq> generation then Inr (b, RsAggregatePartitionFenced current_fence)
     else rbind (batch_aggregate_version kv cd st b t p a) (\<lambda>(b, current).
     if \<not> check_expected_aggregate_version expected current
     then Inr (b, RsAggregateOptimisticConflict current)
     else case (case current of None \<Rightarrow> Some 0 | Some version \<Rightarrow> checked_add version 1) of
       None \<Rightarrow> Inr (b, RsAggregateInvalid Version_Exhausted)
     | Some aggregate_version \<Rightarrow>
         rbind (batch_aggregate_partition_position kv cd st b t p) (\<lambda>(b, position).
         case checked_add position 1 of
           None \<Rightarrow> Inr (b, RsAggregateInvalid Position_Exhausted)
         | Some npos \<Rightarrow>
             rbind (append_writes cd (es_shard_id st) b
                 \<lparr>ev_aggregate_type = t, ev_partition_id = p, ev_aggregate_id = a,
                  ev_aggregate_version = aggregate_version, ev_event_id = nev_event_id event,
                  ev_event_type = nev_event_type event, ev_data = nev_data event,
                  ev_metadata = nev_metadata event, ev_hlc = hlc, ev_partition_position = position\<rparr>
                 fingerprint npos) (\<lambda>b.
             Inr (b, RsAggregateAppendOk aggregate_version position)))))"

definition apply_aggregate_append ::
  "(bytes \<Rightarrow> u128) \<Rightarrow> 'db kv \<Rightarrow> 'm codec \<Rightarrow> ('db, 'm) EsStorage \<Rightarrow> ApplyBatch \<Rightarrow> AggregateTypeId \<Rightarrow> u16
     \<Rightarrow> u64 \<Rightarrow> string \<Rightarrow> ExpectedAggregateVersion \<Rightarrow> NewAggregateEvent \<Rightarrow> Hlc
     \<Rightarrow> (ApplyBatch \<times> EsResponse, Error) result" where
  "apply_aggregate_append xxh3_128 kv cd st b t p generation a expected event hlc =
     (case AggregateTypeId_validate t of
        Inl e \<Rightarrow> Inr (b, invalid_of e)
      | Inr _ \<Rightarrow>
     (case validate_aggregate_identifier ''aggregate_id'' a of
        Inl e \<Rightarrow> Inr (b, invalid_of e)
      | Inr _ \<Rightarrow>
     if nev_event_type event = [] then Inr (b, RsAggregateInvalid Event_Type_Empty)
     else let fingerprint = aggregate_append_fingerprint xxh3_128 t a expected event
     in rbind (batch_idempotency kv cd st b t p (nev_event_id event)) (\<lambda>(b, existing).
        case existing of
          Some r \<Rightarrow>
            if idm_fingerprint r = fingerprint
            then Inr (b, RsAggregateAppendOk (res_aggregate_version (idm_result r))
                           (res_partition_position (idm_result r)))
            else Inr (b, RsAggregateIdempotencyConflict)
        | None \<Rightarrow> append_checked kv cd st b t p generation a expected event hlc fingerprint)))"

definition put_state_checked ::
  "'db kv \<Rightarrow> 'm codec \<Rightarrow> ('db, 'm) EsStorage \<Rightarrow> ApplyBatch \<Rightarrow> AggregateTypeId \<Rightarrow> u16 \<Rightarrow> string
     \<Rightarrow> ExpectedStateRevision \<Rightarrow> bytes \<Rightarrow> Hlc \<Rightarrow> (ApplyBatch \<times> EsResponse, Error) result" where
  "put_state_checked kv cd st b t p a expected data hlc =
     rbind (batch_aggregate_state kv cd st b t p a) (\<lambda>(b, current).
     let matches = (case expected of
           Absent \<Rightarrow> current = None
         | ExactRevision r \<Rightarrow> (case current of None \<Rightarrow> False | Some s \<Rightarrow> st_revision s = r))
     in if \<not> matches then Inr (b, RsAggregateStateConflict (map_option st_revision current))
        else case (case current of None \<Rightarrow> Some 0 | Some s \<Rightarrow> checked_add (st_revision s) 1) of
          None \<Rightarrow> Inr (b, RsAggregateInvalid Revision_Exhausted)
        | Some revision \<Rightarrow>
            let s = \<lparr>st_revision = revision, st_data = data\<rparr>
            in rbind (encode_value cd (VState s)) (\<lambda>state_bytes.
               rbind (encode_value cd (VHlc hlc)) (\<lambda>modified_bytes.
               let b = push_put (es_shard_id st) (PartitionKey t p (StateKey a)) state_bytes b;
                   b = push_put (es_shard_id st) (PartitionKey t p (StateModifiedKey a)) modified_bytes b
               in Inr (b\<lparr>ba_states := fmupd (t, p, a) (Some s) (ba_states b)\<rparr>,
                       RsAggregateStateStored \<lparr>doc_revision = revision, doc_data = data,
                         doc_modified_hlc = hlc\<rparr>))))"

definition apply_put_aggregate_state ::
  "'db kv \<Rightarrow> 'm codec \<Rightarrow> ('db, 'm) EsStorage \<Rightarrow> ApplyBatch \<Rightarrow> AggregateTypeId \<Rightarrow> u16 \<Rightarrow> u64 \<Rightarrow> string
     \<Rightarrow> ExpectedStateRevision \<Rightarrow> bytes \<Rightarrow> Hlc \<Rightarrow> (ApplyBatch \<times> EsResponse, Error) result" where
  "apply_put_aggregate_state kv cd st b t p generation a expected data hlc =
     (case AggregateTypeId_validate t of
        Inl e \<Rightarrow> Inr (b, invalid_of e)
      | Inr _ \<Rightarrow>
     (case validate_aggregate_identifier ''aggregate_id'' a of
        Inl e \<Rightarrow> Inr (b, invalid_of e)
      | Inr _ \<Rightarrow>
     rbind (batch_aggregate_partition_fence kv cd st b t p) (\<lambda>(b, current_fence).
     if current_fence \<noteq> generation then Inr (b, RsAggregatePartitionFenced current_fence)
     else rbind (batch_aggregate_version kv cd st b t p a) (\<lambda>(b, version).
     if version = None then Inr (b, RsAggregateNotFound)
     else put_state_checked kv cd st b t p a expected data hlc))))"

definition apply_aggregate_partition_fence ::
  "'db kv \<Rightarrow> 'm codec \<Rightarrow> ('db, 'm) EsStorage \<Rightarrow> ApplyBatch \<Rightarrow> AggregateTypeId \<Rightarrow> u16 \<Rightarrow> u64
     \<Rightarrow> (ApplyBatch \<times> EsResponse, Error) result" where
  "apply_aggregate_partition_fence kv cd st b t p generation =
     (case AggregateTypeId_validate t of
        Inl e \<Rightarrow> Inr (b, invalid_of e)
      | Inr _ \<Rightarrow>
     if generation = 0 then Inr (b, RsAggregateInvalid Fence_Generation_Zero)
     else rbind (batch_aggregate_partition_fence kv cd st b t p) (\<lambda>(b, current).
       let installed = max current generation
       in if installed \<noteq> current
          then rbind (encode_value cd (VU64 installed)) (\<lambda>v.
                 let b = push_put (es_shard_id st) (PartitionKey t p FenceKey) v b
                 in Inr (b\<lparr>ba_fences := fmupd (t, p) installed (ba_fences b)\<rparr>,
                         RsAggregatePartitionFenceInstalled installed))
          else Inr (b, RsAggregatePartitionFenceInstalled installed)))"

definition apply_aggregate_catalog_command ::
  "(bytes \<Rightarrow> u128) \<Rightarrow> 'db kv \<Rightarrow> 'm codec \<Rightarrow> ('db, 'm) EsStorage \<Rightarrow> ApplyBatch \<Rightarrow> AggregateCatalogCommand
     \<Rightarrow> (ApplyBatch \<times> EsResponse, Error) result" where
  "apply_aggregate_catalog_command xxh3_128 kv cd st b command =
     rbind (case ba_catalog b of Some c \<Rightarrow> Inr c | None \<Rightarrow> read_aggregate_catalog kv cd st) (\<lambda>catalog.
     let (catalog', applied) = AggregateCatalog_apply xxh3_128 catalog command;
         b = b\<lparr>ba_catalog := Some catalog'\<rparr>
     in if outcome_changed (ca_outcome applied)
        then rbind (encode_value cd (VCatalog catalog')) (\<lambda>v.
               Inr (push_put (es_shard_id st) CatalogKey v b, RsAggregateCatalogApplied applied))
        else Inr (b, RsAggregateCatalogApplied applied))"

definition apply_aggregate_group_catalog_command ::
  "'db kv \<Rightarrow> 'm codec \<Rightarrow> ('db, 'm) EsStorage \<Rightarrow> ApplyBatch \<Rightarrow> AggregateGroupCatalogCommand
     \<Rightarrow> (ApplyBatch \<times> EsResponse, Error) result" where
  "apply_aggregate_group_catalog_command kv cd st b command =
     rbind (case ba_group_catalog b of Some c \<Rightarrow> Inr c | None \<Rightarrow> read_aggregate_group_catalog kv cd st) (\<lambda>catalog.
     let (catalog', applied) = AggregateGroupCatalog_apply catalog command;
         b = b\<lparr>ba_group_catalog := Some catalog'\<rparr>
     in if gc_revision catalog' \<noteq> gc_revision catalog
        then rbind (encode_value cd (VGroupCatalog catalog')) (\<lambda>v.
               Inr (push_put (es_shard_id st) GroupCatalogKey v b, RsAggregateGroupCatalogApplied applied))
        else Inr (b, RsAggregateGroupCatalogApplied applied))"

definition apply_aggregate_group_partition ::
  "'db kv \<Rightarrow> 'm codec \<Rightarrow> ('db, 'm) EsStorage \<Rightarrow> ApplyBatch \<Rightarrow> AggregateTypeId \<Rightarrow> u16 \<Rightarrow> u64 \<Rightarrow> string
     \<Rightarrow> u64 \<Rightarrow> u64 \<Rightarrow> AggregateGroupSettings \<Rightarrow> AggregateGroupPartitionCommand
     \<Rightarrow> (ApplyBatch \<times> EsResponse, Error) result" where
  "apply_aggregate_group_partition kv cd st b t p generation g group_epoch start settings command =
     (case AggregateTypeId_validate t of
        Inl e \<Rightarrow> Inr (b, invalid_of e)
      | Inr _ \<Rightarrow>
     (case validate_aggregate_identifier ''group_name'' g of
        Inl e \<Rightarrow> Inr (b, invalid_of e)
      | Inr _ \<Rightarrow>
     (case AggregateGroupSettings_validate settings of
        Inl r \<Rightarrow> Inr (b, RsAggregateInvalid r)
      | Inr _ \<Rightarrow>
     rbind (batch_aggregate_partition_fence kv cd st b t p) (\<lambda>(b, current_fence).
     if current_fence \<noteq> generation then Inr (b, RsAggregatePartitionFenced current_fence)
     else
       rbind (case fmlookup (ba_group_partitions b) (t, p, g) of
                Some s \<Rightarrow> Inr s
              | None \<Rightarrow> unwrap_or (AggregateGroupPartition_new group_epoch start)
                          (read_aggregate_group_partition kv cd st t p g)) (\<lambda>s.
       if epoch s > group_epoch then Inr (b, RsAggregateGroupStaleEpoch (epoch s))
       else let (s', reply) = group_partition_step s \<lparr>gr_group_epoch = group_epoch,
                  gr_start_position = start, gr_settings = settings, gr_command = command\<rparr>;
                k = encode_key (es_shard_id st) (PartitionKey t p (GroupPartitionKey g))
            in rbind (encode_value cd (VGroupPartition s')) (\<lambda>v.
               let b = b\<lparr>ba_ops := filter (\<lambda>(k', _). k' \<noteq> k) (ba_ops b)\<rparr>;
                   b = push_put (es_shard_id st) (PartitionKey t p (GroupPartitionKey g)) v b
               in Inr (b\<lparr>ba_group_partitions := fmupd (t, p, g) s' (ba_group_partitions b)\<rparr>,
                       response_of_group reply)))))))"

fun apply_request ::
  "(bytes \<Rightarrow> u128) \<Rightarrow> 'db kv \<Rightarrow> 'm codec \<Rightarrow> ('db, 'm) EsStorage \<Rightarrow> ApplyBatch \<Rightarrow> EsRequest
     \<Rightarrow> (ApplyBatch \<times> EsResponse, Error) result" where
  "apply_request h kv cd st b (RqAggregateAppend t p g a e ev hlc) =
     apply_aggregate_append h kv cd st b t p g a e ev hlc"
| "apply_request h kv cd st b (RqPutAggregateState t p g a e d hlc) =
     apply_put_aggregate_state kv cd st b t p g a e d hlc"
| "apply_request h kv cd st b (RqInstallAggregatePartitionFence t p g) =
     apply_aggregate_partition_fence kv cd st b t p g"
| "apply_request h kv cd st b (RqCommitAggregateCatalog c) = apply_aggregate_catalog_command h kv cd st b c"
| "apply_request h kv cd st b (RqCommitAggregateGroupCatalog c) =
     apply_aggregate_group_catalog_command kv cd st b c"
| "apply_request h kv cd st b (RqAggregateGroupPartition t p gen g e s settings c) =
     apply_aggregate_group_partition kv cd st b t p gen g e s settings c"

section \<open>Applying entries\<close>

text \<open>The loop over the entries: batch, last log id, last membership and responses.\<close>

fun apply_entries ::
  "(bytes \<Rightarrow> u128) \<Rightarrow> 'db kv \<Rightarrow> 'm codec \<Rightarrow> ('db, 'm) EsStorage \<Rightarrow> ApplyBatch \<Rightarrow> log_id option
     \<Rightarrow> 'm stored_membership option \<Rightarrow> 'm Entry list
     \<Rightarrow> (ApplyBatch \<times> log_id option \<times> 'm stored_membership option \<times> EsResponse list, Error) result" where
  "apply_entries h kv cd st b la mem [] = Inr (b, la, mem, [])"
| "apply_entries h kv cd st b la mem (e # es) =
     rbind (case en_payload e of
              Blank \<Rightarrow> Inr (b, mem, RsNoop)
            | Normal req \<Rightarrow> rbind (apply_request h kv cd st b req) (\<lambda>(b, r). Inr (b, mem, r))
            | Membership m \<Rightarrow> Inr (b, Some \<lparr>sm_log_id = Some (en_log_id e), sm_config = m\<rparr>, RsNoop))
       (\<lambda>(b, mem, r).
          rbind (apply_entries h kv cd st b (Some (en_log_id e)) mem es) (\<lambda>(b, la, mem, rs).
            Inr (b, la, mem, r # rs)))"

fun position_puts ::
  "'m codec \<Rightarrow> u64 \<Rightarrow> ((AggregateTypeId \<times> u16) \<times> u64) list \<Rightarrow> ApplyBatch \<Rightarrow> (ApplyBatch, Error) result" where
  "position_puts cd shard [] b = Inr b"
| "position_puts cd shard (((t, p), n) # rest) b =
     rbind (encode_value cd (VU64 n)) (\<lambda>v.
       position_puts cd shard rest (push_put shard (PartitionKey t p NextPositionKey) v b))"

definition sm_apply ::
  "(bytes \<Rightarrow> u128) \<Rightarrow> 'db kv \<Rightarrow> 'm codec \<Rightarrow> ('db, 'm) EsStorage \<Rightarrow> 'm Entry list
     \<Rightarrow> (('db, 'm) EsStorage \<times> EsResponse list, Error) result" where
  "sm_apply h kv cd st entries =
     rbind (apply_entries h kv cd st empty_batch None None entries) (\<lambda>(b, la, mem, responses).
     rbind (position_puts cd (es_shard_id st) (sorted_list_of_fmap (ba_positions b)) b) (\<lambda>b.
     let new_last_applied = (case la of Some l \<Rightarrow> Some l | None \<Rightarrow> es_last_applied st);
         new_membership = (case mem of Some m \<Rightarrow> m | None \<Rightarrow> es_membership st)
     in rbind (encode_value cd (VApplied \<lparr>ap_last_applied = new_last_applied,
                 ap_membership = new_membership\<rparr>)) (\<lambda>v.
        let b = push_put (es_shard_id st) AppliedStateKey v b
        in rbind (es_commit kv st (map (\<lambda>(k, v). KvSet k v) (ba_ops b))) (\<lambda>st.
           Inr (st\<lparr>es_last_applied := new_last_applied, es_membership := new_membership,
                   es_broadcast := es_broadcast st @ ba_new_events b\<rparr>, responses)))))"

end
