(* ===== verification/Shard_Spec.thy ===== *)
theory Shard_Spec
  imports State_Machine
begin

text \<open>
  What a shard promises, without batches, caches, byte keys and encodings: a shard is a map from
  logical keys to typed values, and each request is one function on it. \<open>Apply_Refinement\<close> proves
  that \<open>sm_apply\<close> implements this specification; the properties here are about histories of it.
\<close>

type_synonym 'm shard = "store_key \<Rightarrow> 'm sm_value option"

definition at :: "'m shard \<Rightarrow> store_key \<Rightarrow> ('m sm_value \<Rightarrow> 'x option) \<Rightarrow> 'x option" where
  "at T k proj = Option.bind (T k) proj"

definition or_default :: "'x \<Rightarrow> 'x option \<Rightarrow> 'x" where
  "or_default d x = (case x of None \<Rightarrow> d | Some y \<Rightarrow> y)"

definition spec_version :: "'m shard \<Rightarrow> AggregateTypeId \<Rightarrow> u16 \<Rightarrow> string \<Rightarrow> u64 option" where
  "spec_version T t p a = map_option current_version (at T (PartitionKey t p (MetaKey a)) as_meta)"

definition spec_fence :: "'m shard \<Rightarrow> AggregateTypeId \<Rightarrow> u16 \<Rightarrow> u64" where
  "spec_fence T t p = or_default 0 (at T (PartitionKey t p FenceKey) as_u64)"

definition spec_head :: "'m shard \<Rightarrow> AggregateTypeId \<Rightarrow> u16 \<Rightarrow> u64" where
  "spec_head T t p = or_default 0 (at T (PartitionKey t p NextPositionKey) as_u64)"

definition spec_state :: "'m shard \<Rightarrow> AggregateTypeId \<Rightarrow> u16 \<Rightarrow> string \<Rightarrow> AggregateState option" where
  "spec_state T t p a = at T (PartitionKey t p (StateKey a)) as_state"

definition spec_event :: "'m shard \<Rightarrow> AggregateTypeId \<Rightarrow> u16 \<Rightarrow> string \<Rightarrow> u64 \<Rightarrow> AggregateEvent option" where
  "spec_event T t p a v = at T (PartitionKey t p (EventKey a v)) as_event"

definition spec_idempotency ::
  "'m shard \<Rightarrow> AggregateTypeId \<Rightarrow> u16 \<Rightarrow> uuid \<Rightarrow> AggregateIdempotencyRecord option" where
  "spec_idempotency T t p u = at T (PartitionKey t p (IdempotencyKey u)) as_idempotency"

definition spec_index :: "'m shard \<Rightarrow> AggregateTypeId \<Rightarrow> u16 \<Rightarrow> u64 \<Rightarrow> (string \<times> u64) option" where
  "spec_index T t p pos = at T (PartitionKey t p (IndexKey pos)) as_pointer"

definition spec_catalog :: "'m shard \<Rightarrow> AggregateCatalog" where
  "spec_catalog T = or_default AggregateCatalog_default (at T CatalogKey as_catalog)"

definition spec_group_catalog :: "'m shard \<Rightarrow> AggregateGroupCatalog" where
  "spec_group_catalog T = or_default AggregateGroupCatalog_default (at T GroupCatalogKey as_group_catalog)"

definition spec_group_partition :: "'m shard \<Rightarrow> AggregateTypeId \<Rightarrow> u16 \<Rightarrow> string \<Rightarrow> AggregateGroupPartition option" where
  "spec_group_partition T t p g = at T (PartitionKey t p (GroupPartitionKey g)) as_group_partition"

definition spec_append_event :: "'m shard \<Rightarrow> AggregateEvent \<Rightarrow> u128 \<Rightarrow> u64 \<Rightarrow> 'm shard" where
  "spec_append_event T e fingerprint npos =
     (let t = ev_aggregate_type e; p = ev_partition_id e; a = ev_aggregate_id e; v = ev_aggregate_version e;
          pos = ev_partition_position e
      in T(PartitionKey t p (EventKey a v) \<mapsto> VEvent e,
           PartitionKey t p (IndexKey pos) \<mapsto> VPointer a v,
           PartitionKey t p (MetaKey a) \<mapsto> VMeta \<lparr>current_version = v\<rparr>,
           PartitionKey t p (IdempotencyKey (ev_event_id e)) \<mapsto>
             VIdempotency \<lparr>idm_fingerprint = fingerprint,
               idm_result = \<lparr>res_aggregate_version = v, res_partition_position = pos\<rparr>\<rparr>,
           PartitionKey t p NextPositionKey \<mapsto> VU64 npos))"

definition stored_event ::
  "AggregateTypeId \<Rightarrow> u16 \<Rightarrow> string \<Rightarrow> u64 \<Rightarrow> u64 \<Rightarrow> NewAggregateEvent \<Rightarrow> Hlc \<Rightarrow> AggregateEvent" where
  "stored_event t p a v pos event hlc =
     \<lparr>ev_aggregate_type = t, ev_partition_id = p, ev_aggregate_id = a, ev_aggregate_version = v,
      ev_event_id = nev_event_id event, ev_event_type = nev_event_type event, ev_data = nev_data event,
      ev_metadata = nev_metadata event, ev_hlc = hlc, ev_partition_position = pos\<rparr>"

definition next_version :: "u64 option \<Rightarrow> u64 option" where
  "next_version current = (case current of None \<Rightarrow> Some 0 | Some v \<Rightarrow> checked_add v 1)"

definition spec_append ::
  "(bytes \<Rightarrow> u128) \<Rightarrow> 'm shard \<Rightarrow> AggregateTypeId \<Rightarrow> u16 \<Rightarrow> u64 \<Rightarrow> string \<Rightarrow> ExpectedAggregateVersion
     \<Rightarrow> NewAggregateEvent \<Rightarrow> Hlc \<Rightarrow> 'm shard \<times> EsResponse" where
  "spec_append h T t p generation a expected event hlc =
     (case AggregateTypeId_validate t of Inl e \<Rightarrow> (T, invalid_of e) | Inr _ \<Rightarrow>
     (case validate_aggregate_identifier ''aggregate_id'' a of Inl e \<Rightarrow> (T, invalid_of e) | Inr _ \<Rightarrow>
     if nev_event_type event = [] then (T, RsAggregateInvalid Event_Type_Empty)
     else let fingerprint = aggregate_append_fingerprint h t a expected event
     in case spec_idempotency T t p (nev_event_id event) of
          Some r \<Rightarrow>
            if idm_fingerprint r = fingerprint
            then (T, RsAggregateAppendOk (res_aggregate_version (idm_result r))
                       (res_partition_position (idm_result r)))
            else (T, RsAggregateIdempotencyConflict)
        | None \<Rightarrow>
            if spec_fence T t p \<noteq> generation then (T, RsAggregatePartitionFenced (spec_fence T t p))
            else if \<not> check_expected_aggregate_version expected (spec_version T t p a)
            then (T, RsAggregateOptimisticConflict (spec_version T t p a))
            else case next_version (spec_version T t p a) of
              None \<Rightarrow> (T, RsAggregateInvalid Version_Exhausted)
            | Some v \<Rightarrow>
                (case checked_add (spec_head T t p) 1 of
                   None \<Rightarrow> (T, RsAggregateInvalid Position_Exhausted)
                 | Some npos \<Rightarrow>
                     (spec_append_event T (stored_event t p a v (spec_head T t p) event hlc) fingerprint npos,
                      RsAggregateAppendOk v (spec_head T t p)))))"

definition state_matches :: "ExpectedStateRevision \<Rightarrow> AggregateState option \<Rightarrow> bool" where
  "state_matches expected current = (case expected of
       Absent \<Rightarrow> current = None
     | ExactRevision r \<Rightarrow> (case current of None \<Rightarrow> False | Some s \<Rightarrow> st_revision s = r))"

definition spec_put_state ::
  "'m shard \<Rightarrow> AggregateTypeId \<Rightarrow> u16 \<Rightarrow> u64 \<Rightarrow> string \<Rightarrow> ExpectedStateRevision \<Rightarrow> bytes \<Rightarrow> Hlc
     \<Rightarrow> 'm shard \<times> EsResponse" where
  "spec_put_state T t p generation a expected data hlc =
     (case AggregateTypeId_validate t of Inl e \<Rightarrow> (T, invalid_of e) | Inr _ \<Rightarrow>
     (case validate_aggregate_identifier ''aggregate_id'' a of Inl e \<Rightarrow> (T, invalid_of e) | Inr _ \<Rightarrow>
     if spec_fence T t p \<noteq> generation then (T, RsAggregatePartitionFenced (spec_fence T t p))
     else if spec_version T t p a = None then (T, RsAggregateNotFound)
     else if \<not> state_matches expected (spec_state T t p a)
     then (T, RsAggregateStateConflict (map_option st_revision (spec_state T t p a)))
     else case next_version (map_option st_revision (spec_state T t p a)) of
       None \<Rightarrow> (T, RsAggregateInvalid Revision_Exhausted)
     | Some r \<Rightarrow>
         (T(PartitionKey t p (StateKey a) \<mapsto> VState \<lparr>st_revision = r, st_data = data\<rparr>,
            PartitionKey t p (StateModifiedKey a) \<mapsto> VHlc hlc),
          RsAggregateStateStored \<lparr>doc_revision = r, doc_data = data, doc_modified_hlc = hlc\<rparr>)))"

definition spec_install_fence ::
  "'m shard \<Rightarrow> AggregateTypeId \<Rightarrow> u16 \<Rightarrow> u64 \<Rightarrow> 'm shard \<times> EsResponse" where
  "spec_install_fence T t p generation =
     (case AggregateTypeId_validate t of Inl e \<Rightarrow> (T, invalid_of e) | Inr _ \<Rightarrow>
     if generation = 0 then (T, RsAggregateInvalid Fence_Generation_Zero)
     else let installed = max (spec_fence T t p) generation
          in (if installed \<noteq> spec_fence T t p then T(PartitionKey t p FenceKey \<mapsto> VU64 installed) else T,
              RsAggregatePartitionFenceInstalled installed))"

definition spec_catalog_command ::
  "(bytes \<Rightarrow> u128) \<Rightarrow> 'm shard \<Rightarrow> AggregateCatalogCommand \<Rightarrow> 'm shard \<times> EsResponse" where
  "spec_catalog_command h T command =
     (let (c, applied) = AggregateCatalog_apply h (spec_catalog T) command
      in (if outcome_changed (ca_outcome applied) then T(CatalogKey \<mapsto> VCatalog c) else T,
          RsAggregateCatalogApplied applied))"

definition spec_group_command ::
  "'m shard \<Rightarrow> AggregateGroupCatalogCommand \<Rightarrow> 'm shard \<times> EsResponse" where
  "spec_group_command T command =
     (let (c, applied) = AggregateGroupCatalog_apply (spec_group_catalog T) command
      in (if c \<noteq> spec_group_catalog T then T(GroupCatalogKey \<mapsto> VGroupCatalog c) else T,
          RsAggregateGroupCatalogApplied applied))"

definition spec_group_step ::
  "'m shard \<Rightarrow> AggregateTypeId \<Rightarrow> u16 \<Rightarrow> u64 \<Rightarrow> string \<Rightarrow> group_request \<Rightarrow> 'm shard \<times> EsResponse" where
  "spec_group_step T t p generation g req =
     (case AggregateTypeId_validate t of Inl e \<Rightarrow> (T, invalid_of e) | Inr _ \<Rightarrow>
     (case validate_aggregate_identifier ''group_name'' g of Inl e \<Rightarrow> (T, invalid_of e) | Inr _ \<Rightarrow>
     (case AggregateGroupSettings_validate (gr_settings req) of Inl r \<Rightarrow> (T, RsAggregateInvalid r) | Inr _ \<Rightarrow>
     if spec_fence T t p \<noteq> generation then (T, RsAggregatePartitionFenced (spec_fence T t p))
     else let s = or_default (AggregateGroupPartition_new (gr_group_epoch req) (gr_start_position req))
                    (spec_group_partition T t p g);
              (s', reply) = group_partition_step s req
          in (if epoch s > gr_group_epoch req then T
              else T(PartitionKey t p (GroupPartitionKey g) \<mapsto> VGroupPartition s'),
              response_of_group reply))))"

fun spec_request :: "(bytes \<Rightarrow> u128) \<Rightarrow> 'm shard \<Rightarrow> EsRequest \<Rightarrow> 'm shard \<times> EsResponse" where
  "spec_request h T (RqAggregateAppend t p g a e ev hlc) = spec_append h T t p g a e ev hlc"
| "spec_request h T (RqPutAggregateState t p g a e d hlc) = spec_put_state T t p g a e d hlc"
| "spec_request h T (RqInstallAggregatePartitionFence t p g) = spec_install_fence T t p g"
| "spec_request h T (RqCommitAggregateCatalog c) = spec_catalog_command h T c"
| "spec_request h T (RqCommitAggregateGroupCatalog c) = spec_group_command T c"
| "spec_request h T (RqAggregateGroupPartition t p gen g e s settings c) =
     spec_group_step T t p gen g \<lparr>gr_group_epoch = e, gr_start_position = s, gr_settings = settings,
       gr_command = c\<rparr>"

fun spec_payload :: "(bytes \<Rightarrow> u128) \<Rightarrow> 'm shard \<Rightarrow> 'm EntryPayload \<Rightarrow> 'm shard \<times> EsResponse" where
  "spec_payload h T (Normal req) = spec_request h T req"
| "spec_payload h T _ = (T, RsNoop)"

end
