(* ===== verification/Shard_History.thy ===== *)
theory Shard_History
  imports Shard_Spec
begin

text \<open>
  Histories of the shard specification: what holds of every shard reached by requests, and what a
  request can never undo. \<open>wf_shard\<close> is the invariant: the versions of an aggregate and the positions
  of a partition are gapless, the partition index and the events point at each other, and every
  event has its idempotency record. \<open>shard_grows\<close> is the order every request climbs: events, index
  entries and idempotency records stay, versions, heads, revisions and fences never go back.
\<close>

section \<open>Invariant\<close>

definition event_filed :: "'m shard \<Rightarrow> AggregateTypeId \<Rightarrow> u16 \<Rightarrow> string \<Rightarrow> u64 \<Rightarrow> AggregateEvent \<Rightarrow> bool" where
  "event_filed T t p a v e \<longleftrightarrow> ev_aggregate_type e = t \<and> ev_partition_id e = p \<and> ev_aggregate_id e = a
     \<and> ev_aggregate_version e = v \<and> spec_index T t p (ev_partition_position e) = Some (a, v)
     \<and> (\<exists>r. spec_idempotency T t p (ev_event_id e) = Some r
          \<and> idm_result r = \<lparr>res_aggregate_version = v, res_partition_position = ev_partition_position e\<rparr>)"

definition wf_stream :: "'m shard \<Rightarrow> AggregateTypeId \<Rightarrow> u16 \<Rightarrow> bool" where
  "wf_stream T t p \<longleftrightarrow>
     (\<forall>n. spec_index T t p n \<noteq> None \<longleftrightarrow> n < spec_head T t p)
     \<and> (\<forall>n a v. spec_index T t p n = Some (a, v) \<longrightarrow>
          (\<exists>e. spec_event T t p a v = Some e \<and> ev_partition_position e = n))
     \<and> (\<forall>a v e. spec_event T t p a v = Some e \<longrightarrow> event_filed T t p a v e)
     \<and> (\<forall>a v. spec_event T t p a v \<noteq> None \<longleftrightarrow> (\<exists>m. spec_version T t p a = Some m \<and> v \<le> m))
     \<and> (\<forall>a v v' e e'. spec_event T t p a v = Some e \<longrightarrow> spec_event T t p a v' = Some e' \<longrightarrow> v < v' \<longrightarrow>
          ev_partition_position e < ev_partition_position e')
     \<and> (\<forall>u r. spec_idempotency T t p u = Some r \<longrightarrow>
          (\<exists>a e. spec_event T t p a (res_aggregate_version (idm_result r)) = Some e \<and> ev_event_id e = u))
     \<and> (\<forall>a. spec_state T t p a \<noteq> None \<longrightarrow> spec_version T t p a \<noteq> None)
     \<and> (\<forall>a v. spec_event T t p a v \<noteq> None \<longrightarrow> valid_type_id t \<and> valid_identifier a)"

definition wf_shard :: "'m shard \<Rightarrow> bool" where
  "wf_shard T \<longleftrightarrow> (\<forall>t p. wf_stream T t p) \<and> wf_catalog (spec_catalog T)
     \<and> wf_group_catalog (spec_group_catalog T)
     \<and> (\<forall>t p g s. spec_group_partition T t p g = Some s \<longrightarrow> wf_partition s)"

lemma wf_streamD:
  assumes "wf_stream T t p"
  shows "spec_index T t p n \<noteq> None \<longleftrightarrow> n < spec_head T t p"
    "spec_index T t p n = Some (a, v) \<Longrightarrow> \<exists>e. spec_event T t p a v = Some e \<and> ev_partition_position e = n"
    "spec_event T t p a v = Some e \<Longrightarrow> event_filed T t p a v e"
    "spec_event T t p a v \<noteq> None \<longleftrightarrow> (\<exists>m. spec_version T t p a = Some m \<and> v \<le> m)"
    "spec_event T t p a v = Some e \<Longrightarrow> spec_event T t p a v' = Some e' \<Longrightarrow> v < v' \<Longrightarrow>
       ev_partition_position e < ev_partition_position e'"
    "spec_idempotency T t p u = Some r \<Longrightarrow>
       \<exists>a e. spec_event T t p a (res_aggregate_version (idm_result r)) = Some e \<and> ev_event_id e = u"
    "spec_state T t p a \<noteq> None \<Longrightarrow> spec_version T t p a \<noteq> None"
  using assms unfolding wf_stream_def by (simp_all del: not_None_eq split_paired_All)

lemma wf_stream_valid:
  assumes "wf_stream T t p" "spec_event T t p a v = Some e"
  shows "valid_type_id t \<and> valid_identifier a"
proof -
  have "\<forall>a v. spec_event T t p a v \<noteq> None \<longrightarrow> valid_type_id t \<and> valid_identifier a"
    using assms(1) unfolding wf_stream_def by (elim conjE)
  with assms(2) show ?thesis by (metis option.distinct(1))
qed

section \<open>What a write changes\<close>

text \<open>The observations of a shard, so that one lemma per write covers them all.\<close>

lemma spec_upd [simp]:
  "spec_version (T(k \<mapsto> x)) t p a =
     (if k = PartitionKey t p (MetaKey a) then map_option current_version (as_meta x) else spec_version T t p a)"
  "spec_fence (T(k \<mapsto> x)) t p = (if k = PartitionKey t p FenceKey then or_default 0 (as_u64 x) else spec_fence T t p)"
  "spec_head (T(k \<mapsto> x)) t p = (if k = PartitionKey t p NextPositionKey then or_default 0 (as_u64 x) else spec_head T t p)"
  "spec_state (T(k \<mapsto> x)) t p a = (if k = PartitionKey t p (StateKey a) then as_state x else spec_state T t p a)"
  "spec_event (T(k \<mapsto> x)) t p a v = (if k = PartitionKey t p (EventKey a v) then as_event x else spec_event T t p a v)"
  "spec_idempotency (T(k \<mapsto> x)) t p u =
     (if k = PartitionKey t p (IdempotencyKey u) then as_idempotency x else spec_idempotency T t p u)"
  "spec_index (T(k \<mapsto> x)) t p n = (if k = PartitionKey t p (IndexKey n) then as_pointer x else spec_index T t p n)"
  "spec_catalog (T(k \<mapsto> x)) =
     (if k = CatalogKey then or_default AggregateCatalog_default (as_catalog x) else spec_catalog T)"
  "spec_group_catalog (T(k \<mapsto> x)) =
     (if k = GroupCatalogKey then or_default AggregateGroupCatalog_default (as_group_catalog x) else spec_group_catalog T)"
  "spec_group_partition (T(k \<mapsto> x)) t p g =
     (if k = PartitionKey t p (GroupPartitionKey g) then as_group_partition x else spec_group_partition T t p g)"
  by (simp_all add: spec_version_def spec_fence_def spec_head_def spec_state_def spec_event_def
      spec_idempotency_def spec_index_def spec_catalog_def spec_group_catalog_def spec_group_partition_def at_def)

lemma or_default_Some [simp]: "or_default d (Some x) = x"
  by (simp add: or_default_def)

lemma wf_stream_cong:
  assumes "spec_index T' t p = spec_index T t p" "spec_head T' t p = spec_head T t p"
    "spec_event T' t p = spec_event T t p" "spec_version T' t p = spec_version T t p"
    "spec_idempotency T' t p = spec_idempotency T t p"
    and state: "\<And>a. spec_state T' t p a \<noteq> None \<Longrightarrow> spec_version T t p a \<noteq> None"
    and wf: "wf_stream T t p"
  shows "wf_stream T' t p"
proof -
  have "\<forall>a. spec_state T' t p a \<noteq> None \<longrightarrow> spec_version T t p a \<noteq> None" using state by blast
  then show ?thesis using wf unfolding wf_stream_def event_filed_def assms(1-5) by (elim conjE) (intro conjI)
qed

text \<open>The append of a request that was accepted: the next version and the next position are free.\<close>

inductive accepted ::
  "(bytes \<Rightarrow> u128) \<Rightarrow> 'm shard \<Rightarrow> AggregateTypeId \<Rightarrow> u16 \<Rightarrow> u64 \<Rightarrow> string \<Rightarrow> ExpectedAggregateVersion
     \<Rightarrow> NewAggregateEvent \<Rightarrow> Hlc \<Rightarrow> u64 \<Rightarrow> u64 \<Rightarrow> 'm shard \<Rightarrow> bool" where
  "valid_type_id t \<Longrightarrow> valid_identifier a \<Longrightarrow> nev_event_type ev \<noteq> [] \<Longrightarrow>
   spec_idempotency T t p (nev_event_id ev) = None \<Longrightarrow> spec_fence T t p = generation \<Longrightarrow>
   check_expected_aggregate_version expected (spec_version T t p a) \<Longrightarrow>
   next_version (spec_version T t p a) = Some v \<Longrightarrow> spec_head T t p = pos \<Longrightarrow> pos \<noteq> - 1 \<Longrightarrow>
   T' = spec_append_event T (stored_event t p a v pos ev hlc)
     (aggregate_append_fingerprint h t a expected ev) (pos + 1) \<Longrightarrow>
   accepted h T t p generation a expected ev hlc v pos T'"

inductive_cases acceptedE: "accepted h T t p generation a expected ev hlc v pos T'"

lemma checked_add_1_iff: "checked_add (x :: u64) 1 = Some y \<longleftrightarrow> x \<noteq> - 1 \<and> y = x + 1"
proof (cases "x = - 1")
  case True
  with unat_le_max [of y] show ?thesis by (simp add: checked_add_Some_iff unat_max_word)
next
  case False
  with unat_max_word_cases [of x] show ?thesis by (auto simp: checked_add_Some_iff word_unat_eq_iff)
qed

lemma spec_append_cases:
  obtains (same) "fst (spec_append h T t p g a expected ev hlc) = T"
    "\<And>v pos. snd (spec_append h T t p g a expected ev hlc) = RsAggregateAppendOk v pos \<Longrightarrow>
       \<exists>r. spec_idempotency T t p (nev_event_id ev) = Some r
         \<and> idm_fingerprint r = aggregate_append_fingerprint h t a expected ev
         \<and> idm_result r = \<lparr>res_aggregate_version = v, res_partition_position = pos\<rparr>"
  | (new) v pos where "accepted h T t p g a expected ev hlc v pos (fst (spec_append h T t p g a expected ev hlc))"
    "snd (spec_append h T t p g a expected ev hlc) = RsAggregateAppendOk v pos"
proof (cases "valid_type_id t \<and> valid_identifier a \<and> nev_event_type ev \<noteq> []
    \<and> spec_idempotency T t p (nev_event_id ev) = None \<and> spec_fence T t p = g
    \<and> check_expected_aggregate_version expected (spec_version T t p a)
    \<and> next_version (spec_version T t p a) \<noteq> None \<and> spec_head T t p \<noteq> - 1")
  case True
  then obtain v where v: "next_version (spec_version T t p a) = Some v" by auto
  have npos: "checked_add (spec_head T t p) 1 = Some (spec_head T t p + 1)"
    using True by (simp add: checked_add_1_iff)
  show ?thesis
    by (rule new [of v "spec_head T t p"]) (use True v npos in \<open>auto simp: spec_append_def Let_def intro: accepted.intros\<close>)
next
  case False
  show ?thesis
  proof (rule same)
    show "fst (spec_append h T t p g a expected ev hlc) = T"
      using False by (auto simp: spec_append_def Let_def checked_add_1_iff split: sum.split option.split)
  next
    fix v pos assume "snd (spec_append h T t p g a expected ev hlc) = RsAggregateAppendOk v pos"
    with False show "\<exists>r. spec_idempotency T t p (nev_event_id ev) = Some r
         \<and> idm_fingerprint r = aggregate_append_fingerprint h t a expected ev
         \<and> idm_result r = \<lparr>res_aggregate_version = v, res_partition_position = pos\<rparr>"
      by (auto simp: spec_append_def Let_def checked_add_1_iff invalid_of_def split: sum.splits option.splits if_splits)
  qed
qed

lemma accepted_append:
  "accepted h T t p g a expected ev hlc v pos T' \<Longrightarrow>
     spec_append h T t p g a expected ev hlc = (T', RsAggregateAppendOk v pos)"
  by (erule acceptedE) (simp add: spec_append_def Let_def checked_add_1_iff [THEN iffD2])

text \<open>What the append of an event changes.\<close>

lemma spec_append_event_obs:
  fixes T :: "'m shard"
  assumes "e = stored_event t p a v pos ev hlc" and T': "T' = spec_append_event T e fp n"
  shows "spec_event T' = (spec_event T)(t := (spec_event T t)(p := (spec_event T t p)(a :=
      (spec_event T t p a)(v \<mapsto> e))))"
    "spec_index T' = (spec_index T)(t := (spec_index T t)(p := (spec_index T t p)(pos \<mapsto> (a, v))))"
    "spec_version T' = (spec_version T)(t := (spec_version T t)(p := (spec_version T t p)(a \<mapsto> v)))"
    "spec_idempotency T' = (spec_idempotency T)(t := (spec_idempotency T t)(p := (spec_idempotency T t p)
      (nev_event_id ev \<mapsto> \<lparr>idm_fingerprint = fp,
         idm_result = \<lparr>res_aggregate_version = v, res_partition_position = pos\<rparr>\<rparr>)))"
    "spec_head T' = (spec_head T)(t := (spec_head T t)(p := n))"
    "spec_fence T' = spec_fence T" "spec_state T' = spec_state T" "spec_catalog T' = spec_catalog T"
    "spec_group_catalog T' = spec_group_catalog T" "spec_group_partition T' = spec_group_partition T"
  by ((intro ext)?; auto simp: T' spec_append_event_def assms(1) stored_event_def Let_def)+

lemma less_next: "(x :: u64) \<noteq> - 1 \<Longrightarrow> y < x + 1 \<longleftrightarrow> y \<le> x"
  using unat_max_word_cases [of x] by (auto simp: word_less_nat_alt word_le_nat_alt)

lemma next_version_bound:
  assumes "next_version cur = Some v"
  shows "(\<exists>m. cur = Some m \<and> w \<le> m) \<longleftrightarrow> w < v"
  using assms by (auto simp: next_version_def checked_add_1_iff less_next split: option.splits)

text \<open>The events a well-formed stream can have under the keys an append uses.\<close>

lemma append_fresh:
  assumes wf: "wf_stream T t p" and v: "next_version (spec_version T t p a) = Some v"
  shows "spec_event T t p a w \<noteq> None \<longleftrightarrow> w < v"
    "spec_event T t p b w = Some e \<Longrightarrow> ev_partition_position e < spec_head T t p"
    "spec_event T t p b w = Some e \<Longrightarrow> spec_idempotency T t p (ev_event_id e) \<noteq> None"
proof -
  show "spec_event T t p a w \<noteq> None \<longleftrightarrow> w < v"
    using wf_streamD(4) [OF wf] next_version_bound [OF v, of w] by simp
  assume "spec_event T t p b w = Some e"
  then have filed: "event_filed T t p b w e" by (rule wf_streamD(3) [OF wf])
  then show "spec_idempotency T t p (ev_event_id e) \<noteq> None" by (auto simp: event_filed_def)
  from filed have "spec_index T t p (ev_partition_position e) \<noteq> None" by (simp add: event_filed_def)
  then show "ev_partition_position e < spec_head T t p" using wf_streamD(1) [OF wf] by blast
qed

lemma accepted_wf_stream:
  assumes wf: "wf_stream T t p" and acc: "accepted h T t p g a expected ev hlc v pos T'"
  shows "wf_stream T' t p"
proof -
  define e where "e = stored_event t p a v pos ev hlc"
  from acc obtain fp where acc: "spec_idempotency T t p (nev_event_id ev) = None"
      "next_version (spec_version T t p a) = Some v" "spec_head T t p = pos" "pos \<noteq> - 1"
      "T' = spec_append_event T e fp (pos + 1)" and valid: "valid_type_id t" "valid_identifier a"
    unfolding e_def by (auto elim: acceptedE)
  note obs = spec_append_event_obs [OF e_def acc(5)]
  note fresh = append_fresh [OF wf acc(2)]
  have e: "ev_aggregate_type e = t" "ev_partition_id e = p" "ev_aggregate_id e = a" "ev_aggregate_version e = v"
    "ev_partition_position e = pos" "ev_event_id e = nev_event_id ev" by (simp_all add: e_def stored_event_def)
  note W = wf_streamD [OF wf]
  have index: "spec_index T t p n \<noteq> None \<longleftrightarrow> n < pos" for n
    using W(1) acc(3) by simp
  have index_pos: "spec_index T t p pos = None" using index [of pos] by (simp del: not_None_eq)
  have ev': "spec_event T' t p b w = (if b = a \<and> w = v then Some e else spec_event T t p b w)" for b w
    by (simp add: obs)
  have "\<forall>n. spec_index T' t p n \<noteq> None \<longleftrightarrow> n < spec_head T' t p"
    using index acc(4) by (auto simp: obs less_next order_le_less)
  moreover have "\<forall>n b w. spec_index T' t p n = Some (b, w) \<longrightarrow>
      (\<exists>x. spec_event T' t p b w = Some x \<and> ev_partition_position x = n)"
  proof (intro allI impI)
    fix n b w assume n: "spec_index T' t p n = Some (b, w)"
    show "\<exists>x. spec_event T' t p b w = Some x \<and> ev_partition_position x = n"
    proof (cases "n = pos")
      case True
      with n show ?thesis by (simp add: obs e)
    next
      case False
      with n have "spec_index T t p n = Some (b, w)" by (simp add: obs)
      with W(2) obtain x where x: "spec_event T t p b w = Some x" "ev_partition_position x = n" by blast
      with fresh(1) [of v] have "\<not> (b = a \<and> w = v)" by auto
      with x show ?thesis by (auto simp: obs)
    qed
  qed
  moreover have "\<forall>b w x. spec_event T' t p b w = Some x \<longrightarrow> event_filed T' t p b w x"
  proof (intro allI impI)
    fix b w x assume x: "spec_event T' t p b w = Some x"
    show "event_filed T' t p b w x"
    proof (cases "b = a \<and> w = v")
      case True
      with x have "x = e" by (simp add: obs)
      with True show ?thesis by (simp add: obs event_filed_def e)
    next
      case False
      with x have old: "spec_event T t p b w = Some x" by (auto simp: obs split: if_splits)
      then have "event_filed T t p b w x" by (rule W(3))
      moreover have "ev_partition_position x \<noteq> pos" "ev_event_id x \<noteq> nev_event_id ev"
        using fresh(2,3) [OF old] acc(1,3) by auto
      ultimately show ?thesis by (simp add: obs event_filed_def)
    qed
  qed
  moreover have "\<forall>b w. spec_event T' t p b w \<noteq> None \<longleftrightarrow> (\<exists>m. spec_version T' t p b = Some m \<and> w \<le> m)"
    using W(4) fresh(1) by (auto simp: obs order_le_less)
  moreover have "\<forall>b w w' x x'. spec_event T' t p b w = Some x \<longrightarrow> spec_event T' t p b w' = Some x' \<longrightarrow> w < w' \<longrightarrow>
      ev_partition_position x < ev_partition_position x'"
  proof (intro allI impI)
    fix b w w' x x' assume x: "spec_event T' t p b w = Some x" "spec_event T' t p b w' = Some x'" "w < w'"
    consider "b = a" "w' = v" "x' = e" "spec_event T t p b w = Some x" | "b = a" "w = v" "spec_event T t p b w' = Some x'"
      | "spec_event T t p b w = Some x" "spec_event T t p b w' = Some x'"
      using x unfolding ev' by (cases "b = a \<and> w = v"; cases "b = a \<and> w' = v") simp_all
    then show "ev_partition_position x < ev_partition_position x'"
    proof cases
      case 1
      then show ?thesis using fresh(2) [of b w x] acc(3) by (simp add: e)
    next
      case 2
      then show ?thesis using fresh(1) [of w'] x(3) by auto
    next
      case 3
      then show ?thesis using W(5) x(3) by blast
    qed
  qed
  moreover have "\<forall>u r. spec_idempotency T' t p u = Some r \<longrightarrow>
      (\<exists>b x. spec_event T' t p b (res_aggregate_version (idm_result r)) = Some x \<and> ev_event_id x = u)"
  proof (intro allI impI)
    fix u r assume r: "spec_idempotency T' t p u = Some r"
    let ?w = "res_aggregate_version (idm_result r)"
    show "\<exists>b x. spec_event T' t p b ?w = Some x \<and> ev_event_id x = u"
    proof (cases "u = nev_event_id ev")
      case True
      with r have "?w = v" by (auto simp: obs)
      with True e(6) ev' [of a v] show ?thesis by auto
    next
      case False
      with r have "spec_idempotency T t p u = Some r" by (simp add: obs)
      with W(6) obtain b x where x: "spec_event T t p b ?w = Some x" "ev_event_id x = u" by blast
      with fresh(1) [of v] have "\<not> (b = a \<and> ?w = v)" by auto
      with x ev' [of b ?w] show ?thesis by auto
    qed
  qed
  moreover have "\<forall>b. spec_state T' t p b \<noteq> None \<longrightarrow> spec_version T' t p b \<noteq> None"
    using W(7) by (auto simp: obs)
  moreover have "\<forall>b w. spec_event T' t p b w \<noteq> None \<longrightarrow> valid_type_id t \<and> valid_identifier b"
    using wf_stream_valid [OF wf] valid unfolding ev' by (auto split: if_splits)
  ultimately show ?thesis unfolding wf_stream_def by blast
qed

section \<open>Every request keeps the invariant\<close>

definition shard_grows :: "'m shard \<Rightarrow> 'm shard \<Rightarrow> bool" where
  "shard_grows T T' \<longleftrightarrow>
     (\<forall>t p a v e. spec_event T t p a v = Some e \<longrightarrow> spec_event T' t p a v = Some e)
     \<and> (\<forall>t p n x. spec_index T t p n = Some x \<longrightarrow> spec_index T' t p n = Some x)
     \<and> (\<forall>t p u r. spec_idempotency T t p u = Some r \<longrightarrow> spec_idempotency T' t p u = Some r)
     \<and> (\<forall>t p a m. spec_version T t p a = Some m \<longrightarrow> (\<exists>m'. spec_version T' t p a = Some m' \<and> m \<le> m'))
     \<and> (\<forall>t p a x. spec_state T t p a = Some x \<longrightarrow>
          (\<exists>x'. spec_state T' t p a = Some x' \<and> (x' = x \<or> st_revision x < st_revision x')))
     \<and> (\<forall>t p. spec_head T t p \<le> spec_head T' t p \<and> spec_fence T t p \<le> spec_fence T' t p)
     \<and> (\<forall>t p g s. spec_group_partition T t p g = Some s \<longrightarrow>
          (\<exists>s'. spec_group_partition T' t p g = Some s' \<and> group_progress s s'))
     \<and> catalog_below (spec_catalog T) (spec_catalog T')"

lemma group_progress_refl [simp]: "group_progress s s"
  by (rule group_partition.below_refl)

lemma catalog_below_refl [simp]: "catalog_below c c"
  by (rule catalog.below_refl)

lemma shard_grows_refl [simp]: "shard_grows T T"
  by (simp add: shard_grows_def)

lemma shard_growsD:
  assumes "shard_grows T U"
  shows "spec_event T t p a v = Some e \<Longrightarrow> spec_event U t p a v = Some e"
    "spec_index T t p n = Some x \<Longrightarrow> spec_index U t p n = Some x"
    "spec_idempotency T t p u = Some r \<Longrightarrow> spec_idempotency U t p u = Some r"
    "spec_version T t p a = Some m \<Longrightarrow> \<exists>m'. spec_version U t p a = Some m' \<and> m \<le> m'"
    "spec_state T t p a = Some y \<Longrightarrow>
       \<exists>y'. spec_state U t p a = Some y' \<and> (y' = y \<or> st_revision y < st_revision y')"
    "spec_head T t p \<le> spec_head U t p" "spec_fence T t p \<le> spec_fence U t p"
    "spec_group_partition T t p g = Some s \<Longrightarrow>
       \<exists>s'. spec_group_partition U t p g = Some s' \<and> group_progress s s'"
    "catalog_below (spec_catalog T) (spec_catalog U)"
  using assms by (simp_all add: shard_grows_def del: split_paired_All)

lemma shard_grows_trans:
  assumes TU: "shard_grows T U" and UV: "shard_grows U V"
  shows "shard_grows T V"
proof -
  note D = shard_growsD [OF TU] and E = shard_growsD [OF UV]
  have "\<exists>y''. spec_state V t p a = Some y'' \<and> (y'' = y \<or> st_revision y < st_revision y'')"
    if "spec_state T t p a = Some y" for t p a y
  proof -
    from D(5) [OF that] obtain y' where y': "spec_state U t p a = Some y'" "y' = y \<or> st_revision y < st_revision y'"
      by blast
    with E(5) [OF y'(1)] show ?thesis by (auto intro: less_trans)
  qed
  moreover have "\<exists>m''. spec_version V t p a = Some m'' \<and> m \<le> m''" if "spec_version T t p a = Some m" for t p a m
    using D(4) [OF that] E(4) order_trans by blast
  moreover have "\<exists>s''. spec_group_partition V t p g = Some s'' \<and> group_progress s s''"
    if "spec_group_partition T t p g = Some s" for t p g s
    using D(8) [OF that] E(8) group_partition.below_trans by blast
  moreover have "catalog_below (spec_catalog T) (spec_catalog V)"
    using D(9) E(9) by (rule catalog.below_trans)
  moreover have "spec_head T t p \<le> spec_head V t p" "spec_fence T t p \<le> spec_fence V t p" for t p
    using D(6,7) E(6,7) by (blast intro: order_trans)+
  ultimately show ?thesis
    using D(1-3) E(1-3) unfolding shard_grows_def by (simp del: split_paired_All)
qed

lemma wf_shardI:
  assumes "wf_shard T"
    and "\<And>t p. wf_stream T t p \<Longrightarrow> wf_stream T' t p"
    and "wf_catalog (spec_catalog T) \<Longrightarrow> wf_catalog (spec_catalog T')"
    and "wf_group_catalog (spec_group_catalog T) \<Longrightarrow> wf_group_catalog (spec_group_catalog T')"
    and "\<And>t p g s. spec_group_partition T' t p g = Some s \<Longrightarrow> spec_group_partition T t p g = Some s \<or> wf_partition s"
  shows "wf_shard T'"
  using assms unfolding wf_shard_def by blast

lemma append_step:
  assumes wf: "wf_shard T"
  shows "wf_shard (fst (spec_append h T t p g a expected ev hlc))
    \<and> shard_grows T (fst (spec_append h T t p g a expected ev hlc))"
proof (cases rule: spec_append_cases [of h T t p g a expected ev hlc])
  case same
  with wf show ?thesis by simp
next
  case (new v pos)
  let ?T = "fst (spec_append h T t p g a expected ev hlc)"
  define e where "e = stored_event t p a v pos ev hlc"
  from new(1) obtain fp where acc: "spec_idempotency T t p (nev_event_id ev) = None"
      "next_version (spec_version T t p a) = Some v" "spec_head T t p = pos" "pos \<noteq> - 1"
      "?T = spec_append_event T e fp (pos + 1)"
    unfolding e_def by (auto elim: acceptedE)
  note obs = spec_append_event_obs [OF e_def acc(5)]
  have stream: "wf_stream T t p" using wf by (simp add: wf_shard_def)
  have "wf_stream T t' p' \<Longrightarrow> wf_stream ?T t' p'" for t' p'
  proof (cases "t' = t \<and> p' = p")
    case True
    then show ?thesis using accepted_wf_stream [OF stream new(1)] by simp
  next
    case False
    then have eq: "spec_index ?T t' p' = spec_index T t' p'" "spec_head ?T t' p' = spec_head T t' p'"
      "spec_event ?T t' p' = spec_event T t' p'" "spec_version ?T t' p' = spec_version T t' p'"
      "spec_idempotency ?T t' p' = spec_idempotency T t' p'" "spec_state ?T t' p' = spec_state T t' p'"
      by (auto simp: obs)
    show "wf_stream T t' p' \<Longrightarrow> wf_stream ?T t' p'"
      by (rule wf_stream_cong [OF eq(1-5)]) (simp_all add: eq(6) wf_stream_def)
  qed
  then have "wf_shard ?T" by (rule wf_shardI [OF wf]) (simp_all add: obs)
  moreover have "shard_grows T ?T"
  proof -
    have "spec_event T t p a v = None" using append_fresh(1) [OF stream acc(2), of v] by auto
    moreover have "spec_index T t p pos = None"
      using wf_streamD(1) [OF stream, of pos] acc(3) by (simp del: not_None_eq)
    moreover have "pos \<le> pos + 1" using less_next [OF acc(4), of pos] by simp
    moreover have "m \<le> v" if "spec_version T t p a = Some m" for m
      using next_version_bound [OF acc(2), of m] that by simp
    ultimately show ?thesis using acc(1,3) unfolding shard_grows_def obs by simp
  qed
  ultimately show ?thesis by simp
qed

text \<open>Requests that leave the streams alone.\<close>

lemma stream_kept:
  assumes wf: "wf_shard T"
    and obs: "spec_event T' = spec_event T" "spec_index T' = spec_index T" "spec_version T' = spec_version T"
      "spec_idempotency T' = spec_idempotency T" "spec_head T' = spec_head T"
    and state: "\<And>t p a. spec_state T' t p a \<noteq> spec_state T t p a \<Longrightarrow> spec_version T t p a \<noteq> None"
  shows "wf_stream T' t p"
proof -
  have "wf_stream T t p" using wf by (simp add: wf_shard_def)
  moreover from this have "spec_version T t p a \<noteq> None" if "spec_state T' t p a \<noteq> None" for a
    using that state [of t p a] wf_streamD(7) [of T t p a] by metis
  ultimately show ?thesis using wf_stream_cong [of T' t p T] by (simp add: obs)
qed

lemma put_state_step:
  assumes wf: "wf_shard T"
  shows "wf_shard (fst (spec_put_state T t p g a expected d hlc))
    \<and> shard_grows T (fst (spec_put_state T t p g a expected d hlc))"
proof (cases "fst (spec_put_state T t p g a expected d hlc) = T")
  case True
  with wf show ?thesis by simp
next
  case False
  let ?T = "fst (spec_put_state T t p g a expected d hlc)"
  from False obtain r where r: "spec_version T t p a \<noteq> None"
      "next_version (map_option st_revision (spec_state T t p a)) = Some r"
      "?T = T(PartitionKey t p (StateKey a) \<mapsto> VState \<lparr>st_revision = r, st_data = d\<rparr>,
            PartitionKey t p (StateModifiedKey a) \<mapsto> VHlc hlc)"
    by (auto simp: spec_put_state_def split: sum.splits option.splits if_splits)
  have obs: "spec_event ?T = spec_event T" "spec_index ?T = spec_index T" "spec_version ?T = spec_version T"
      "spec_idempotency ?T = spec_idempotency T" "spec_head ?T = spec_head T" "spec_fence ?T = spec_fence T"
      "spec_catalog ?T = spec_catalog T" "spec_group_catalog ?T = spec_group_catalog T"
      "spec_group_partition ?T = spec_group_partition T"
    unfolding r(3) by ((intro ext)?; simp)+
  have state: "spec_state ?T t' p' a' = (if t' = t \<and> p' = p \<and> a' = a then Some \<lparr>st_revision = r, st_data = d\<rparr>
      else spec_state T t' p' a')" for t' p' a'
    by (auto simp: r(3))
  have less: "st_revision x < r" if "spec_state T t p a = Some x" for x
    using next_version_bound [OF r(2), of "st_revision x"] that by simp
  have "wf_stream ?T t' p'" for t' p'
    by (rule stream_kept [OF wf]) (use r(1) in \<open>auto simp: obs state split: if_splits\<close>)
  then have "wf_shard ?T" using wf by (simp add: wf_shard_def obs)
  moreover have "shard_grows T ?T"
    unfolding shard_grows_def obs state using less by (simp del: split_paired_All)
  ultimately show ?thesis by simp
qed

lemma fence_step:
  assumes wf: "wf_shard T"
  shows "wf_shard (fst (spec_install_fence T t p g)) \<and> shard_grows T (fst (spec_install_fence T t p g))"
proof (cases "fst (spec_install_fence T t p g) = T")
  case True
  with wf show ?thesis by simp
next
  case False
  let ?T = "fst (spec_install_fence T t p g)"
  from False have T': "?T = T(PartitionKey t p FenceKey \<mapsto> VU64 (max (spec_fence T t p) g))"
    by (auto simp: spec_install_fence_def Let_def split: sum.splits if_splits)
  have obs: "spec_event ?T = spec_event T" "spec_index ?T = spec_index T" "spec_version ?T = spec_version T"
      "spec_idempotency ?T = spec_idempotency T" "spec_head ?T = spec_head T" "spec_state ?T = spec_state T"
      "spec_catalog ?T = spec_catalog T" "spec_group_catalog ?T = spec_group_catalog T"
      "spec_group_partition ?T = spec_group_partition T"
    unfolding T' by ((intro ext)?; simp)+
  have fence: "spec_fence T t' p' \<le> spec_fence ?T t' p'" for t' p'
    by (auto simp: T')
  have "wf_stream ?T t' p'" for t' p' by (rule stream_kept [OF wf]) (auto simp: obs)
  then have "wf_shard ?T" using wf by (simp add: wf_shard_def obs)
  moreover have "shard_grows T ?T"
    unfolding shard_grows_def obs using fence by (simp del: split_paired_All)
  ultimately show ?thesis by simp
qed

lemma shard_key_obs:
  fixes T :: "'m shard"
  assumes "k = CatalogKey \<or> k = GroupCatalogKey \<or> (\<exists>t p g. k = PartitionKey t p (GroupPartitionKey g))"
  shows "spec_event (T(k \<mapsto> x)) = spec_event T" "spec_index (T(k \<mapsto> x)) = spec_index T"
    "spec_version (T(k \<mapsto> x)) = spec_version T" "spec_idempotency (T(k \<mapsto> x)) = spec_idempotency T"
    "spec_head (T(k \<mapsto> x)) = spec_head T" "spec_state (T(k \<mapsto> x)) = spec_state T"
    "spec_fence (T(k \<mapsto> x)) = spec_fence T"
  using assms by ((intro ext)?; auto)+

lemma catalog_command_step:
  assumes wf: "wf_shard T"
  shows "wf_shard (fst (spec_catalog_command h T c)) \<and> shard_grows T (fst (spec_catalog_command h T c))"
proof (cases "fst (spec_catalog_command h T c) = T")
  case True
  with wf show ?thesis by simp
next
  case False
  let ?T = "fst (spec_catalog_command h T c)" and ?c = "fst (AggregateCatalog_apply h (spec_catalog T) c)"
  from False have T': "?T = T(CatalogKey \<mapsto> VCatalog ?c)"
    by (auto simp: spec_catalog_command_def split_beta split: if_splits)
  note obs = shard_key_obs [of CatalogKey T "VCatalog ?c", OF disjI1 [OF refl], folded T']
  have group: "spec_group_catalog ?T = spec_group_catalog T" "spec_group_partition ?T = spec_group_partition T"
    unfolding T' by ((intro ext)?; simp)+
  have cat: "spec_catalog ?T = ?c" by (simp add: T')
  have wfc: "wf_catalog (spec_catalog T)" using wf by (simp add: wf_shard_def)
  have "wf_stream ?T t' p'" for t' p' by (rule stream_kept [OF wf]) (auto simp: obs)
  then have "wf_shard ?T"
    using wf catalog.step_wf [OF wfc, of h c] by (simp add: wf_shard_def obs group cat)
  moreover have "shard_grows T ?T"
    unfolding shard_grows_def obs group cat using catalog.step_below [OF wfc, of h c] by (simp del: split_paired_All)
  ultimately show ?thesis by simp
qed

lemma group_command_step:
  assumes wf: "wf_shard T"
  shows "wf_shard (fst (spec_group_command T c)) \<and> shard_grows T (fst (spec_group_command T c))"
proof (cases "fst (spec_group_command T c) = T")
  case True
  with wf show ?thesis by simp
next
  case False
  let ?T = "fst (spec_group_command T c)" and ?c = "fst (AggregateGroupCatalog_apply (spec_group_catalog T) c)"
  from False have T': "?T = T(GroupCatalogKey \<mapsto> VGroupCatalog ?c)"
    by (auto simp: spec_group_command_def split_beta split: if_splits)
  note obs = shard_key_obs [of GroupCatalogKey T "VGroupCatalog ?c", OF disjI2 [OF disjI1 [OF refl]], folded T']
  have other: "spec_catalog ?T = spec_catalog T" "spec_group_partition ?T = spec_group_partition T"
    unfolding T' by ((intro ext)?; simp)+
  have cat: "spec_group_catalog ?T = ?c" by (simp add: T')
  have "wf_stream ?T t' p'" for t' p' by (rule stream_kept [OF wf]) (auto simp: obs)
  then have "wf_shard ?T"
    using wf group_catalog.step_wf [of "spec_group_catalog T" c] by (simp add: wf_shard_def obs other cat)
  moreover have "shard_grows T ?T" unfolding shard_grows_def obs other by (simp del: split_paired_All)
  ultimately show ?thesis by simp
qed

lemma group_step_step:
  assumes wf: "wf_shard T"
  shows "wf_shard (fst (spec_group_step T t p gen g req)) \<and> shard_grows T (fst (spec_group_step T t p gen g req))"
proof (cases "fst (spec_group_step T t p gen g req) = T")
  case True
  with wf show ?thesis by simp
next
  case False
  let ?T = "fst (spec_group_step T t p gen g req)" and ?k = "PartitionKey t p (GroupPartitionKey g)"
  let ?s = "or_default (AggregateGroupPartition_new (gr_group_epoch req) (gr_start_position req)) (spec_group_partition T t p g)"
  let ?s' = "fst (group_partition_step ?s req)"
  from False have T': "?T = T(?k \<mapsto> VGroupPartition ?s')"
    by (auto simp: spec_group_step_def Let_def split_beta split: sum.splits if_splits)
  note obs = shard_key_obs [of ?k T "VGroupPartition ?s'", simplified, folded T']
  have other: "spec_catalog ?T = spec_catalog T" "spec_group_catalog ?T = spec_group_catalog T"
    unfolding T' by simp_all
  have part: "spec_group_partition ?T t' p' g' = (if t' = t \<and> p' = p \<and> g' = g then Some ?s'
      else spec_group_partition T t' p' g')" for t' p' g'
    by (auto simp: T')
  have wfs: "wf_partition ?s"
    using wf by (cases "spec_group_partition T t p g") (auto simp: or_default_def wf_partition_new wf_shard_def)
  have "wf_stream ?T t' p'" for t' p' by (rule stream_kept [OF wf]) (auto simp: obs)
  then have "wf_shard ?T"
    using wf group_partition.step_wf [OF wfs, of req] by (simp add: wf_shard_def obs other part)
  moreover have "shard_grows T ?T"
    unfolding shard_grows_def obs other part using group_partition.step_below [OF wfs, of req]
    by (auto simp del: split_paired_All)
  ultimately show ?thesis by simp
qed

lemma payload_step: "wf_shard T \<Longrightarrow> wf_shard (fst (spec_payload h T pl)) \<and> shard_grows T (fst (spec_payload h T pl))"
proof (cases pl)
  case (Normal req)
  then show "wf_shard T \<Longrightarrow> wf_shard (fst (spec_payload h T pl)) \<and> shard_grows T (fst (spec_payload h T pl))"
    using append_step put_state_step fence_step catalog_command_step group_command_step group_step_step
    by (cases req) simp_all
qed simp_all

interpretation shard: monotone_machine "spec_payload h" wf_shard shard_grows
proof
  show "shard_grows T V" if "shard_grows T U" "shard_grows U V" for T U V :: "'a shard"
    using that by (rule shard_grows_trans)
qed (simp_all add: payload_step)

section \<open>Properties\<close>

definition empty_shard :: "'m shard" where
  "empty_shard = (\<lambda>_. None)"

lemma empty_shard_obs [simp]:
  "spec_event empty_shard t p a v = None" "spec_index empty_shard t p n = None"
  "spec_version empty_shard t p a = None" "spec_idempotency empty_shard t p u = None"
  "spec_state empty_shard t p a = None" "spec_head empty_shard t p = 0" "spec_fence empty_shard t p = 0"
  "spec_group_partition empty_shard t p g = None" "spec_catalog empty_shard = AggregateCatalog_default"
  "spec_group_catalog empty_shard = AggregateGroupCatalog_default"
  by (simp_all add: empty_shard_def spec_version_def spec_fence_def spec_head_def spec_state_def spec_event_def
      spec_idempotency_def spec_index_def spec_catalog_def spec_group_catalog_def spec_group_partition_def at_def
      or_default_def)

lemma empty_shard_wf: "wf_shard empty_shard"
  by (simp add: wf_shard_def wf_stream_def wf_catalog_default wf_group_catalog_default)

text \<open>In every shard reached by any sequence of log entries, each partition stream is sound:
  its index covers exactly the positions below the head, every index entry points at an event stored
  at that position and every event is indexed where it says it is, the versions of each aggregate run
  without a gap from 0 to the current one and in position order, no event id occurs twice, every
  event has the idempotency record of its result, no state exists without its aggregate, and both
  catalogs and all group partitions satisfy their invariants.\<close>

theorem shard_streams_sound: "wf_shard (run_commands (spec_payload xxh3_128) empty_shard payloads)"
  by (rule shard.run_wf [OF empty_shard_wf])

text \<open>Nothing that was committed is ever lost or changed. From any reachable shard, whatever log
  entries follow, every event, index entry and idempotency record stays exactly as it is; aggregate
  versions, partition heads, ownership fences and state revisions never go back; group progress is
  carried and no catalog entry disappears.\<close>

theorem shard_history_immutable:
  fixes past future :: "'m EntryPayload list"
  assumes "T = run_commands (spec_payload h) empty_shard past" "T' = run_commands (spec_payload h) T future"
  shows "(\<forall>t p a v e. spec_event T t p a v = Some e \<longrightarrow> spec_event T' t p a v = Some e)
    \<and> (\<forall>t p n x. spec_index T t p n = Some x \<longrightarrow> spec_index T' t p n = Some x)
    \<and> (\<forall>t p u r. spec_idempotency T t p u = Some r \<longrightarrow> spec_idempotency T' t p u = Some r)
    \<and> (\<forall>t p a m. spec_version T t p a = Some m \<longrightarrow> (\<exists>m'. spec_version T' t p a = Some m' \<and> m \<le> m'))
    \<and> (\<forall>t p a x. spec_state T t p a = Some x \<longrightarrow>
          (\<exists>x'. spec_state T' t p a = Some x' \<and> (x' = x \<or> st_revision x < st_revision x')))
    \<and> (\<forall>t p. spec_head T t p \<le> spec_head T' t p \<and> spec_fence T t p \<le> spec_fence T' t p)
    \<and> (\<forall>t p g s. spec_group_partition T t p g = Some s \<longrightarrow>
          (\<exists>s'. spec_group_partition T' t p g = Some s' \<and> group_progress s s'))
    \<and> catalog_below (spec_catalog T) (spec_catalog T')"
proof -
  have "shard_grows T T'" unfolding assms by (rule shard.run_below [OF shard.run_wf [OF empty_shard_wf]])
  then show ?thesis unfolding shard_grows_def .
qed

definition new_event :: "uuid \<Rightarrow> NewAggregateEvent" where
  "new_event u = \<lparr>nev_event_id = u, nev_event_type = ''e'', nev_data = [], nev_metadata = []\<rparr>"

definition append_x :: "u64 \<Rightarrow> ExpectedAggregateVersion \<Rightarrow> uuid \<Rightarrow> unit EntryPayload" where
  "append_x g expected u =
     Normal (RqAggregateAppend (AggregateTypeId ''a'' ''b'') 3 g ''x'' expected (new_event u) (Hlc 5 0))"

theorem shard_history_immutable_witness:
  "let T = run_commands (spec_payload (\<lambda>_. 7)) empty_shard [append_x 0 NoAggregate 8];
       T' = run_commands (spec_payload (\<lambda>_. 7)) T [append_x 0 (Exact 0) 9]
   in spec_version T (AggregateTypeId ''a'' ''b'') 3 ''x'' = Some 0
      \<and> (\<exists>m'. spec_version T' (AggregateTypeId ''a'' ''b'') 3 ''x'' = Some m' \<and> 0 \<le> m')"
proof -
  define T where "T = run_commands (spec_payload (\<lambda>_. 7)) empty_shard [append_x 0 NoAggregate 8]"
  define T' where "T' = run_commands (spec_payload (\<lambda>_. 7)) T [append_x 0 (Exact 0) 9]"
  have v: "spec_version T (AggregateTypeId ''a'' ''b'') 3 ''x'' = Some 0" unfolding T_def by code_simp
  with shard_history_immutable [OF T_def T'_def] have
    "\<exists>m'. spec_version T' (AggregateTypeId ''a'' ''b'') 3 ''x'' = Some m' \<and> 0 \<le> m'" by blast
  with v show ?thesis unfolding Let_def T_def [symmetric] T'_def [symmetric] by simp
qed

text \<open>An append takes effect exactly once. When an append was answered with a version and a
  position, then after any further log entries the same append, whatever generation and timestamp it
  is retried with, is answered with the same version and position and changes nothing.\<close>

theorem append_exactly_once:
  assumes "spec_append h T t p g a expected ev hlc = (T', RsAggregateAppendOk v pos)" "wf_shard T"
  shows "let T'' = run_commands (spec_payload h) T' payloads
    in spec_append h T'' t p g' a expected ev hlc' = (T'', RsAggregateAppendOk v pos)"
proof -
  let ?T = "run_commands (spec_payload h) T' payloads"
  let ?fp = "aggregate_append_fingerprint h t a expected ev"
  have "wf_shard T'" using append_step [OF assms(2), of h t p g a expected ev hlc] assms(1) by simp
  then have grows: "shard_grows T' ?T" by (rule shard.run_below)
  have valid: "valid_type_id t" "valid_identifier a" "nev_event_type ev \<noteq> []"
    using assms(1) by (auto simp: spec_append_def invalid_of_def split: sum.splits if_splits)
  have "\<exists>r. spec_idempotency T' t p (nev_event_id ev) = Some r \<and> idm_fingerprint r = ?fp
      \<and> idm_result r = \<lparr>res_aggregate_version = v, res_partition_position = pos\<rparr>"
  proof (cases rule: spec_append_cases [of h T t p g a expected ev hlc])
    case same
    with assms(1) show ?thesis by auto
  next
    case (new v' pos')
    from new(1) assms(1) have T': "T' = spec_append_event T (stored_event t p a v' pos' ev hlc) ?fp (pos' + 1)"
      by (auto elim: acceptedE)
    have "spec_idempotency T' t p (nev_event_id ev) = Some \<lparr>idm_fingerprint = ?fp,
        idm_result = \<lparr>res_aggregate_version = v', res_partition_position = pos'\<rparr>\<rparr>"
      by (simp add: spec_append_event_obs(4) [OF refl T'])
    with new(2) assms(1) show ?thesis by simp
  qed
  then obtain r where r: "spec_idempotency T' t p (nev_event_id ev) = Some r" "idm_fingerprint r = ?fp"
    "idm_result r = \<lparr>res_aggregate_version = v, res_partition_position = pos\<rparr>" by blast
  from shard_growsD(3) [OF grows r(1)] r(2,3) valid show ?thesis
    by (simp add: Let_def spec_append_def)
qed

theorem append_exactly_once_witness:
  "let T' = fst (spec_payload (\<lambda>_. 7) empty_shard (append_x 0 NoAggregate 8));
       T'' = run_commands (spec_payload (\<lambda>_. 7)) T' [append_x 0 (Exact 0) 9]
   in spec_append (\<lambda>_. 7) T'' (AggregateTypeId ''a'' ''b'') 3 4 ''x'' NoAggregate (new_event 8) (Hlc 6 0)
      = (T'', RsAggregateAppendOk 0 0)"
proof -
  let ?T = "fst (spec_payload (\<lambda>_. 7) empty_shard (append_x 0 NoAggregate 8))"
  have "snd (spec_append (\<lambda>_. 7) (empty_shard :: unit shard) (AggregateTypeId ''a'' ''b'') 3 0 ''x'' NoAggregate
      (new_event 8) (Hlc 5 0)) = RsAggregateAppendOk 0 0" by code_simp
  then have "spec_append (\<lambda>_. 7) empty_shard (AggregateTypeId ''a'' ''b'') 3 0 ''x'' NoAggregate
      (new_event 8) (Hlc 5 0) = (?T, RsAggregateAppendOk 0 0)"
    by (simp add: append_x_def prod_eq_iff)
  from append_exactly_once [OF this empty_shard_wf, of "[append_x 0 (Exact 0) 9]" 4 "Hlc 6 0"]
  show ?thesis unfolding Let_def .
qed

text \<open>Optimistic concurrency has one winner. Once an append with the expectation \<open>Exact v\<close> (or
  \<open>NoAggregate\<close>) stored a new event, any later append of another event under the same expectation is
  refused, with the fence or with the current version of the aggregate, which is past the expected one,
  and stores nothing, whatever happened in between.\<close>

theorem append_expectation_consumed:
  assumes acc: "accepted h T t p g a expected ev hlc v pos T'" and wf: "wf_shard T"
    and strict: "expected = NoAggregate \<or> (\<exists>n. expected = Exact n)"
    and T'': "T'' = run_commands (spec_payload h) T' payloads"
    and other: "spec_idempotency T'' t p (nev_event_id ev') = None" "nev_event_type ev' \<noteq> []"
  shows "\<exists>cur. spec_version T'' t p a = Some cur \<and> v \<le> cur \<and> \<not> check_expected_aggregate_version expected (Some cur)
    \<and> spec_append h T'' t p g' a expected ev' hlc' =
        (T'', if spec_fence T'' t p \<noteq> g' then RsAggregatePartitionFenced (spec_fence T'' t p)
              else RsAggregateOptimisticConflict (Some cur))"
proof -
  define e where "e = stored_event t p a v pos ev hlc"
  from acc obtain fp where A: "valid_type_id t" "valid_identifier a"
      "check_expected_aggregate_version expected (spec_version T t p a)"
      "next_version (spec_version T t p a) = Some v" "T' = spec_append_event T e fp (pos + 1)"
    unfolding e_def by (auto elim: acceptedE)
  from append_step [OF wf, of h t p g a expected ev hlc] have "wf_shard T'" by (simp add: accepted_append [OF acc])
  then have grows: "shard_grows T' T''" unfolding T'' by (rule shard.run_below)
  have "spec_version T' t p a = Some v" by (simp add: spec_append_event_obs(3) [OF e_def A(5)])
  from shard_growsD(4) [OF grows this] obtain cur where cur: "spec_version T'' t p a = Some cur" "v \<le> cur" by blast
  have "\<not> check_expected_aggregate_version expected (Some cur)"
    using strict
  proof (elim disjE exE)
    fix n assume n: "expected = Exact n"
    with A(3) have "spec_version T t p a = Some n" by simp
    with next_version_bound [OF A(4), of n] have "n < v" by simp
    with n cur(2) show ?thesis by auto
  qed simp
  with cur A(1,2) other show ?thesis by (simp add: spec_append_def Let_def)
qed

theorem append_expectation_consumed_witness:
  "\<exists>T'. accepted (\<lambda>_. 7) (empty_shard :: unit shard) (AggregateTypeId ''a'' ''b'') 3 0 ''x'' NoAggregate (new_event 8)
      (Hlc 5 0) 0 0 T'
    \<and> (\<exists>cur. spec_append (\<lambda>_. 7) T' (AggregateTypeId ''a'' ''b'') 3 0 ''x'' NoAggregate (new_event 9) (Hlc 6 0)
        = (T', RsAggregateOptimisticConflict (Some cur)))"
proof -
  let ?t = "AggregateTypeId ''a'' ''b''" and ?h = "\<lambda>_. 7 :: u128"
  let ?T = "fst (spec_append ?h (empty_shard :: unit shard) ?t 3 0 ''x'' NoAggregate (new_event 8) (Hlc 5 0))"
  have r: "snd (spec_append ?h (empty_shard :: unit shard) ?t 3 0 ''x'' NoAggregate (new_event 8) (Hlc 5 0))
      = RsAggregateAppendOk 0 0" by code_simp
  have acc: "accepted ?h (empty_shard :: unit shard) ?t 3 0 ''x'' NoAggregate (new_event 8) (Hlc 5 0) 0 0 ?T"
    by (cases rule: spec_append_cases [of ?h "empty_shard :: unit shard" ?t 3 0 "''x''" NoAggregate "new_event 8" "Hlc 5 0"])
      (use r in auto)
  have "spec_idempotency ?T ?t 3 (nev_event_id (new_event 9)) = None" "spec_fence ?T ?t 3 = 0" by code_simp+
  with append_expectation_consumed [OF acc empty_shard_wf, of ?T "[]" "new_event 9" 0 "Hlc 6 0"]
  have "\<exists>cur. spec_append ?h ?T ?t 3 0 ''x'' NoAggregate (new_event 9) (Hlc 6 0)
      = (?T, RsAggregateOptimisticConflict (Some cur))"
    by (auto simp: new_event_def)
  with acc show ?thesis by blast
qed

text \<open>A fence shuts the old owner out. After a fence of generation \<open>g\<close> was installed, whatever
  follows, a new append, a state write or a consumer-group command that carries an older generation is
  answered with the fence and changes nothing.\<close>

theorem fence_excludes_old_owner:
  assumes wf: "wf_shard T" and fence: "spec_install_fence T t p g = (T', RsAggregatePartitionFenceInstalled g')"
    and T'': "T'' = run_commands (spec_payload h) T' payloads" and old: "old < g"
    and valid: "valid_identifier a" "nev_event_type ev \<noteq> []" "valid_identifier grp" "valid_settings (gr_settings req)"
    and new: "spec_idempotency T'' t p (nev_event_id ev) = None"
  shows "spec_append h T'' t p old a expected ev hlc = (T'', RsAggregatePartitionFenced (spec_fence T'' t p))
    \<and> spec_put_state T'' t p old a revision data hlc = (T'', RsAggregatePartitionFenced (spec_fence T'' t p))
    \<and> spec_group_step T'' t p old grp req = (T'', RsAggregatePartitionFenced (spec_fence T'' t p))
    \<and> g \<le> spec_fence T'' t p"
proof -
  have t: "valid_type_id t" using fence by (auto simp: spec_install_fence_def invalid_of_def split: sum.splits)
  have "wf_shard T'" using fence_step [OF wf, of t p g] fence by simp
  then have "shard_grows T' T''" unfolding T'' by (rule shard.run_below)
  moreover have "g \<le> spec_fence T' t p"
    using fence t by (auto simp: spec_install_fence_def Let_def max_def split: if_splits)
  ultimately have le: "g \<le> spec_fence T'' t p" using shard_growsD(7) order_trans by blast
  with old have "spec_fence T'' t p \<noteq> old" by auto
  with t valid new le show ?thesis
    by (simp add: spec_append_def spec_put_state_def spec_group_step_def Let_def)
qed

definition sample_request :: group_request where
  "sample_request = \<lparr>gr_group_epoch = 1, gr_start_position = 0, gr_settings = AggregateGroupSettings_default,
     gr_command = GpExpire 0\<rparr>"

theorem fence_excludes_old_owner_witness:
  "let T' = fst (spec_install_fence (empty_shard :: unit shard) (AggregateTypeId ''a'' ''b'') 3 2)
   in spec_append (\<lambda>_. 7) T' (AggregateTypeId ''a'' ''b'') 3 1 ''x'' Any (new_event 8) (Hlc 5 0)
      = (T', RsAggregatePartitionFenced 2)"
proof -
  let ?t = "AggregateTypeId ''a'' ''b''"
  let ?T = "fst (spec_install_fence (empty_shard :: unit shard) ?t 3 2)"
  have r: "snd (spec_install_fence (empty_shard :: unit shard) ?t 3 2) = RsAggregatePartitionFenceInstalled 2" by code_simp
  then have f: "spec_install_fence (empty_shard :: unit shard) ?t 3 2 = (?T, RsAggregatePartitionFenceInstalled 2)"
    by (simp add: prod_eq_iff)
  have obs: "spec_idempotency ?T ?t 3 (nev_event_id (new_event 8)) = None" "spec_fence ?T ?t 3 = 2" by code_simp+
  have "validate_aggregate_identifier [] ''x'' = Inr ()" "AggregateGroupSettings_validate (gr_settings sample_request) = Inr ()"
    by code_simp+
  then have valid: "valid_identifier ''x''" "valid_settings (gr_settings sample_request)" by simp_all
  from fence_excludes_old_owner [OF empty_shard_wf f, of ?T "\<lambda>_. 7" "[]" 1 "''x''" "new_event 8" "''x''" sample_request]
    obs valid show ?thesis by (simp add: new_event_def Let_def)
qed

text \<open>Writing aggregate state is a compare and set. A stored write found exactly the expected
  revision, stores the data under the next revision, and is readable afterwards; and after it, whatever
  follows, a write with the same expectation is refused with the fence or with the current revision,
  so no update is lost.\<close>

theorem state_write_compare_and_set:
  assumes wf: "wf_shard T" and put: "spec_put_state T t p g a expected d hlc = (T', RsAggregateStateStored doc)"
    and T'': "T'' = run_commands (spec_payload h) T' payloads"
  shows "state_matches expected (spec_state T t p a)
    \<and> next_version (map_option st_revision (spec_state T t p a)) = Some (doc_revision doc)
    \<and> doc_data doc = d \<and> doc_modified_hlc doc = hlc
    \<and> spec_state T' t p a = Some \<lparr>st_revision = doc_revision doc, st_data = d\<rparr>
    \<and> (\<exists>x. spec_state T'' t p a = Some x \<and> doc_revision doc \<le> st_revision x
         \<and> spec_put_state T'' t p g' a expected d' hlc' =
             (T'', if spec_fence T'' t p \<noteq> g' then RsAggregatePartitionFenced (spec_fence T'' t p)
                   else RsAggregateStateConflict (Some (st_revision x))))"
proof -
  from put have A: "valid_type_id t" "valid_identifier a" "spec_version T t p a \<noteq> None"
      "state_matches expected (spec_state T t p a)"
      "next_version (map_option st_revision (spec_state T t p a)) = Some (doc_revision doc)"
      "doc = \<lparr>doc_revision = doc_revision doc, doc_data = d, doc_modified_hlc = hlc\<rparr>"
      "T' = T(PartitionKey t p (StateKey a) \<mapsto> VState \<lparr>st_revision = doc_revision doc, st_data = d\<rparr>,
            PartitionKey t p (StateModifiedKey a) \<mapsto> VHlc hlc)"
    by (auto simp: spec_put_state_def invalid_of_def split: sum.splits option.splits if_splits)
  have stored: "spec_state T' t p a = Some \<lparr>st_revision = doc_revision doc, st_data = d\<rparr>" by (simp add: A(7))
  have "wf_shard T'" using put_state_step [OF wf, of t p g a expected d hlc] put by simp
  then have grows: "shard_grows T' T''" unfolding T'' by (rule shard.run_below)
  from shard_growsD(5) [OF grows stored] obtain x where x: "spec_state T'' t p a = Some x" "doc_revision doc \<le> st_revision x"
    by (auto intro: less_imp_le)
  have "spec_version T' t p a \<noteq> None" using A(3) by (simp add: A(7))
  then have version: "spec_version T'' t p a \<noteq> None" using shard_growsD(4) [OF grows] by fastforce
  have "\<not> state_matches expected (Some x)"
  proof
    assume m: "state_matches expected (Some x)"
    then have "expected = ExactRevision (st_revision x)"
      by (auto simp: state_matches_def split: ExpectedStateRevision.splits)
    with A(4) have "map_option st_revision (spec_state T t p a) = Some (st_revision x)"
      by (auto simp: state_matches_def split: option.splits)
    with next_version_bound [OF A(5), of "st_revision x"] x(2) show False by auto
  qed
  with x version A(1,2) have "spec_put_state T'' t p g' a expected d' hlc' =
      (T'', if spec_fence T'' t p \<noteq> g' then RsAggregatePartitionFenced (spec_fence T'' t p)
            else RsAggregateStateConflict (Some (st_revision x)))"
    by (auto simp: spec_put_state_def)
  moreover have "doc_data doc = d" "doc_modified_hlc doc = hlc" by (subst A(6), simp)+
  ultimately show ?thesis using A(4,5) stored x by blast
qed

theorem state_write_compare_and_set_witness:
  "let T = run_commands (spec_payload (\<lambda>_. 7)) empty_shard [append_x 0 NoAggregate 8];
       T' = fst (spec_put_state T (AggregateTypeId ''a'' ''b'') 3 0 ''x'' Absent [1] (Hlc 5 0))
   in \<exists>x. spec_state T' (AggregateTypeId ''a'' ''b'') 3 ''x'' = Some x
      \<and> spec_put_state T' (AggregateTypeId ''a'' ''b'') 3 0 ''x'' Absent [2] (Hlc 6 0)
          = (T', RsAggregateStateConflict (Some (st_revision x)))"
proof -
  let ?t = "AggregateTypeId ''a'' ''b''"
  let ?T = "run_commands (spec_payload (\<lambda>_. 7)) empty_shard [append_x 0 NoAggregate 8]"
  let ?T' = "fst (spec_put_state ?T ?t 3 0 ''x'' Absent [1] (Hlc 5 0))"
  let ?doc = "\<lparr>doc_revision = 0, doc_data = [1], doc_modified_hlc = Hlc 5 0\<rparr>"
  have "snd (spec_put_state ?T ?t 3 0 ''x'' Absent [1] (Hlc 5 0)) = RsAggregateStateStored ?doc" by code_simp
  then have put: "spec_put_state ?T ?t 3 0 ''x'' Absent [1] (Hlc 5 0) = (?T', RsAggregateStateStored ?doc)"
    by (simp add: prod_eq_iff)
  have "spec_fence ?T' ?t 3 = 0" by code_simp
  with state_write_compare_and_set [OF shard.run_wf [OF empty_shard_wf] put, of ?T' "\<lambda>_. 7" "[]" 0 "[2]" "Hlc 6 0"]
  show ?thesis unfolding Let_def by auto
qed

end
