(* ===== verification/Apply_Batch.thy ===== *)
theory Apply_Batch
  imports Shard_Spec
begin

text \<open>
  The relation between the bytes of a store, a batch in progress and the typed shard. \<open>rep\<close> says that
  a store holds exactly a shard; \<open>batch_inv\<close> that the writes collected over the store represent the
  shard computed so far and that each cache entry is its value. The cached reads return what the
  specification reads, and a write moves both sides together.
\<close>

section \<open>Stores that represent a shard\<close>

definition rep_at :: "'m codec \<Rightarrow> u64 \<Rightarrow> (bytes, bytes) fmap \<Rightarrow> 'm shard \<Rightarrow> store_key \<Rightarrow> bool" where
  "rep_at cd s m T k \<longleftrightarrow> (case T k of
       None \<Rightarrow> fmlookup m (encode_key s k) = None
     | Some v \<Rightarrow> \<exists>b. fmlookup m (encode_key s k) = Some b \<and> dec cd (key_kind k) b = Some v)"

text \<open>Several shards share one store: every key in it is a key of some shard.\<close>

definition closed :: "(bytes, bytes) fmap \<Rightarrow> bool" where
  "closed m \<longleftrightarrow> (\<forall>b. b |\<in>| fmdom m \<longrightarrow> (\<exists>s k. valid_key k \<and> b = encode_key s k))"

definition rep :: "'m codec \<Rightarrow> u64 \<Rightarrow> (bytes, bytes) fmap \<Rightarrow> 'm shard \<Rightarrow> bool" where
  "rep cd s m T \<longleftrightarrow> (\<forall>k. valid_key k \<longrightarrow> rep_at cd s m T k) \<and> closed m"

lemma rep_at_cong: "T k = T' k \<Longrightarrow> fmlookup m (encode_key s k) = fmlookup m' (encode_key s k) \<Longrightarrow>
    rep_at cd s m T k \<longleftrightarrow> rep_at cd s m' T' k"
  by (simp add: rep_at_def split: option.split)

lemma rep_at_kind: "codec_laws cd \<Longrightarrow> rep_at cd s m T k \<Longrightarrow> T k = Some v \<Longrightarrow> value_kind v = key_kind k"
  by (auto simp: rep_at_def codec_laws_def)

lemma read_typed_rep:
  assumes "kv_laws kv view" "rep_at cd (es_shard_id st) (view (es_tree st)) T k"
    and "read_typed kv cd st k proj = Inr x"
  shows "x = at T k proj"
proof -
  from assms(3) obtain o' where "kv_get kv (es_tree st) (encode_key (es_shard_id st) k) = Inr o'"
    by (auto simp: read_typed_def read_value_def es_get_def rbind_Inr_iff map_err_def split: sum.splits)
  moreover from this assms(1) have "o' = fmlookup (view (es_tree st)) (encode_key (es_shard_id st) k)"
    by (auto simp: kv_laws_def)
  ultimately show ?thesis
    using assms(2,3)
    by (auto simp: read_typed_def read_value_def es_get_def rep_at_def at_def decode_value_def
        rbind_Inr_iff split: option.splits)
qed

section \<open>Batches in progress\<close>

fun is_next :: "store_key \<Rightarrow> bool" where
  "is_next (PartitionKey _ _ NextPositionKey) = True"
| "is_next _ = False"

text \<open>What the caches say about a key: \<open>None\<close> is a miss.\<close>

fun cached :: "ApplyBatch \<Rightarrow> store_key \<Rightarrow> 'm sm_value option option" where
  "cached b (PartitionKey t p (MetaKey a)) =
     map_option (map_option (\<lambda>v. VMeta \<lparr>current_version = v\<rparr>)) (fmlookup (ba_versions b) (t, p, a))"
| "cached b (PartitionKey t p (StateKey a)) =
     map_option (map_option VState) (fmlookup (ba_states b) (t, p, a))"
| "cached b (PartitionKey t p (IdempotencyKey u)) =
     map_option (\<lambda>r. Some (VIdempotency r)) (fmlookup (ba_idempotency b) (t, p, u))"
| "cached b (PartitionKey t p FenceKey) = map_option (\<lambda>n. Some (VU64 n)) (fmlookup (ba_fences b) (t, p))"
| "cached b (PartitionKey t p NextPositionKey) =
     map_option (\<lambda>n. Some (VU64 n)) (fmlookup (ba_positions b) (t, p))"
| "cached b (PartitionKey t p (GroupPartitionKey g)) =
     map_option (\<lambda>s. Some (VGroupPartition s)) (fmlookup (ba_group_partitions b) (t, p, g))"
| "cached b CatalogKey = map_option (\<lambda>c. Some (VCatalog c)) (ba_catalog b)"
| "cached b GroupCatalogKey = map_option (\<lambda>c. Some (VGroupCatalog c)) (ba_group_catalog b)"
| "cached b _ = None"

fun cacheable :: "store_key \<Rightarrow> bool" where
  "cacheable (PartitionKey _ _ (EventKey _ _)) = False"
| "cacheable (PartitionKey _ _ (IndexKey _)) = False"
| "cacheable (PartitionKey _ _ (StateModifiedKey _)) = False"
| "cacheable (PartitionKey _ _ _) = True"
| "cacheable CatalogKey = True"
| "cacheable GroupCatalogKey = True"
| "cacheable _ = False"

text \<open>The value the readers substitute for an absent key.\<close>

fun default_value :: "store_key \<Rightarrow> 'm sm_value option" where
  "default_value (PartitionKey _ _ FenceKey) = Some (VU64 0)"
| "default_value CatalogKey = Some (VCatalog AggregateCatalog_default)"
| "default_value GroupCatalogKey = Some (VGroupCatalog AggregateGroupCatalog_default)"
| "default_value _ = None"

definition norm :: "store_key \<Rightarrow> 'm sm_value option \<Rightarrow> 'm sm_value option" where
  "norm k x = (case x of None \<Rightarrow> default_value k | Some v \<Rightarrow> Some v)"

definition ops_map :: "(bytes, bytes) fmap \<Rightarrow> (bytes \<times> bytes) list \<Rightarrow> (bytes, bytes) fmap" where
  "ops_map m ops = fold (\<lambda>(k, v). fmupd k v) ops m"

definition touched :: "u64 \<Rightarrow> ApplyBatch \<Rightarrow> store_key \<Rightarrow> bool" where
  "touched s b k \<longleftrightarrow> encode_key s k \<in> fst ` set (ba_ops b)"

definition key_inv ::
  "'m codec \<Rightarrow> u64 \<Rightarrow> (bytes, bytes) fmap \<Rightarrow> ApplyBatch \<Rightarrow> 'm shard \<Rightarrow> store_key \<Rightarrow> bool" where
  "key_inv cd s m b T k \<longleftrightarrow>
     (if is_next k
      then \<not> touched s b k
        \<and> (case cached b k of Some x \<Rightarrow> x = T k | None \<Rightarrow> rep_at cd s (ops_map m (ba_ops b)) T k)
      else rep_at cd s (ops_map m (ba_ops b)) T k
        \<and> (cacheable k \<longrightarrow> (case cached b k of Some x \<Rightarrow> x = norm k (T k) | None \<Rightarrow> \<not> touched s b k)))"

text \<open>The writes of a batch over a store: keys of its own shard only.\<close>

definition own_ops :: "u64 \<Rightarrow> (bytes \<times> bytes) list \<Rightarrow> bool" where
  "own_ops s ops \<longleftrightarrow> (\<forall>b \<in> fst ` set ops. \<exists>k. valid_key k \<and> b = encode_key s k)"

definition batch_inv ::
  "'m codec \<Rightarrow> u64 \<Rightarrow> (bytes, bytes) fmap \<Rightarrow> ApplyBatch \<Rightarrow> 'm shard \<Rightarrow> bool" where
  "batch_inv cd s m b T \<longleftrightarrow> (\<forall>k. valid_key k \<longrightarrow> key_inv cd s m b T k)
     \<and> (\<forall>t p. (t, p) |\<in>| fmdom (ba_positions b) \<longrightarrow> valid_type_id t)
     \<and> closed m \<and> own_ops s (ba_ops b)"

lemma ops_map_append [simp]: "ops_map m (xs @ ys) = ops_map (ops_map m xs) ys"
  by (simp add: ops_map_def)

lemma ops_map_Cons [simp]: "ops_map m ((k, v) # ops) = ops_map (fmupd k v m) ops"
  by (simp add: ops_map_def)

lemma ops_map_Nil [simp]: "ops_map m [] = m"
  by (simp add: ops_map_def)

lemma ops_map_untouched: "k \<notin> fst ` set ops \<Longrightarrow> fmlookup (ops_map m ops) k = fmlookup m k"
  by (induction ops arbitrary: m) auto

lemma fmdom_ops_map: "b |\<in>| fmdom (ops_map m ops) \<longleftrightarrow> b |\<in>| fmdom m \<or> b \<in> fst ` set ops"
  by (induction ops arbitrary: m) (force simp: image_iff)+

lemma own_ops_put:
  assumes "own_ops s ops" "valid_key k"
    and "ops' = ops @ [(encode_key s k, v)] \<or> ops' = filter (\<lambda>(j, _). j \<noteq> encode_key s k) ops @ [(encode_key s k, v)]"
  shows "own_ops s ops'"
proof -
  have "fst ` set ops' \<subseteq> insert (encode_key s k) (fst ` set ops)" using assms(3) by auto
  with assms(1,2) show ?thesis unfolding own_ops_def by blast
qed

lemma own_ops_Nil [simp]: "own_ops s []"
  by (simp add: own_ops_def)

lemma own_ops_closed: "closed m \<Longrightarrow> own_ops s ops \<Longrightarrow> closed (ops_map m ops)"
  unfolding closed_def own_ops_def by (metis fmdom_ops_map)

lemma own_ops_foreign:
  assumes "own_ops s ops" "s' \<noteq> s" "valid_key k"
  shows "fmlookup (ops_map m ops) (encode_key s' k) = fmlookup m (encode_key s' k)"
proof (rule ops_map_untouched)
  show "encode_key s' k \<notin> fst ` set ops"
    using assms encode_key_inject [of k _ s' s] unfolding own_ops_def by blast
qed

lemma ops_map_filter:
  "k' \<noteq> k \<Longrightarrow> fmlookup (ops_map m (filter (\<lambda>(j, _). j \<noteq> k) ops)) k' = fmlookup (ops_map m ops) k'"
proof (induction ops rule: rev_induct)
  case (snoc x xs)
  then show ?case by (cases x) auto
qed simp

text \<open>A cache miss reads the value the batch has for the key.\<close>

lemma batch_miss:
  assumes "batch_inv cd s m b T" "valid_key k" "cacheable k" "cached b k = (None :: 'm sm_value option option)"
  shows "rep_at cd s m (T :: 'm shard) k"
proof -
  have inv: "key_inv cd s m b T k" using assms(1,2) by (simp add: batch_inv_def)
  with assms(3,4) have "\<not> touched s b k" "rep_at cd s (ops_map m (ba_ops b)) T k"
    by (auto simp: key_inv_def split: if_splits)
  then show ?thesis
    using rep_at_cong [of T k T m s "ops_map m (ba_ops b)" cd] ops_map_untouched [of "encode_key s k" "ba_ops b" m]
    by (simp add: touched_def)
qed

lemma batch_hit:
  assumes "batch_inv cd s m b T" "valid_key k" "cacheable k" "\<not> is_next k" "cached b k = Some x"
  shows "x = norm k (T k)"
  using assms by (auto simp: batch_inv_def key_inv_def split: option.splits)

text \<open>Remembering the value of a key in its cache.\<close>

lemma batch_remember:
  fixes T :: "'m shard"
  assumes inv: "batch_inv cd s m b T" and ops: "ba_ops b' = ba_ops b"
    and dom: "fmdom (ba_positions b') = fmdom (ba_positions b)"
    and cache: "\<And>k'. (cached b' k' :: 'm sm_value option option) = (if k' = k then Some (norm k (T k)) else cached b k')"
    and k: "\<not> is_next k"
  shows "batch_inv cd s m b' T"
  unfolding batch_inv_def
proof (intro conjI allI impI)
  fix k' assume "valid_key k'"
  with inv have old: "key_inv cd s m b T k'" by (simp add: batch_inv_def)
  have "touched s b' k' \<longleftrightarrow> touched s b k'" by (simp add: touched_def ops)
  with old show "key_inv cd s m b' T k'"
    by (cases "k' = k") (simp_all add: key_inv_def ops cache k split: option.splits if_splits)
next
  fix t p assume "(t, p) |\<in>| fmdom (ba_positions b')"
  then show "valid_type_id t" using inv dom by (auto simp: batch_inv_def)
next
  show "closed m" "own_ops s (ba_ops b')" using inv ops by (simp_all add: batch_inv_def)
qed

text \<open>Writing a key and remembering the new value.\<close>

lemma batch_write:
  fixes T :: "'m shard"
  assumes cd: "codec_laws cd" and inv: "batch_inv cd s m b T"
    and k: "valid_key k" "\<not> is_next k" and v: "enc cd v = Some bs" "value_kind v = key_kind k"
    and ops: "ba_ops b' = ba_ops b @ [(encode_key s k, bs)]
      \<or> ba_ops b' = filter (\<lambda>(j, _). j \<noteq> encode_key s k) (ba_ops b) @ [(encode_key s k, bs)]"
    and dom: "fmdom (ba_positions b') = fmdom (ba_positions b)"
    and cache: "\<And>k'. cacheable k' \<Longrightarrow>
      (cached b' k' :: 'm sm_value option option) = (if k' = k then Some (Some v) else cached b k')"
  shows "batch_inv cd s m b' (T(k \<mapsto> v))"
  unfolding batch_inv_def
proof (intro conjI allI impI)
  fix k' assume k': "valid_key k'"
  from inv k' have old: "key_inv cd s m b T k'" by (simp add: batch_inv_def)
  show "key_inv cd s m b' (T(k \<mapsto> v)) k'"
  proof (cases "k' = k")
    case True
    have "fmlookup (ops_map m (ba_ops b')) (encode_key s k) = Some bs" using ops by auto
    moreover have "dec cd (key_kind k) bs = Some v" using cd v by (metis codec_laws_def)
    ultimately show ?thesis
      using True k(2) cache [of k] by (auto simp: key_inv_def rep_at_def norm_def)
  next
    case False
    then have ne: "encode_key s k' \<noteq> encode_key s k"
      using k(1) k' encode_key_inject by blast
    have "fmlookup (ops_map m (ba_ops b')) (encode_key s k') = fmlookup (ops_map m (ba_ops b)) (encode_key s k')"
      using ops ne by (auto simp: ops_map_filter)
    then have "rep_at cd s (ops_map m (ba_ops b')) (T(k \<mapsto> v)) k' \<longleftrightarrow> rep_at cd s (ops_map m (ba_ops b)) T k'"
      using False by (intro rep_at_cong) auto
    moreover have "touched s b' k' \<longleftrightarrow> touched s b k'"
      using ops ne by (force simp: touched_def)
    moreover have "is_next k' \<Longrightarrow> cacheable k'" by (cases k' rule: is_next.cases) auto
    ultimately show ?thesis
      using old False cache [of k'] by (auto simp: key_inv_def split: option.splits)
  qed
next
  fix t p assume "(t, p) |\<in>| fmdom (ba_positions b')"
  then show "valid_type_id t" using inv dom by (auto simp: batch_inv_def)
next
  show "closed m" "own_ops s (ba_ops b')"
    using own_ops_put [OF _ k(1) ops] inv by (simp_all add: batch_inv_def)
qed

text \<open>Setting the position counter of a partition, which is written only at the end of the batch.\<close>

lemma batch_position:
  fixes T :: "'m shard"
  assumes "batch_inv cd s m b T" "valid_type_id t"
  shows "batch_inv cd s m (b\<lparr>ba_positions := fmupd (t, p) n (ba_positions b)\<rparr>)
    (T(PartitionKey t p NextPositionKey \<mapsto> VU64 n))"
  unfolding batch_inv_def
proof (intro conjI allI impI)
  let ?b = "b\<lparr>ba_positions := fmupd (t, p) n (ba_positions b)\<rparr>" and ?k = "PartitionKey t p NextPositionKey"
  fix k assume "valid_key k"
  with assms(1) have old: "key_inv cd s m b T k" by (simp add: batch_inv_def)
  have "(cached ?b k :: 'm sm_value option option) = (if k = ?k then Some (Some (VU64 n)) else cached b k)"
    by (cases "(b, k)" rule: cached.cases) auto
  moreover have "touched s ?b k \<longleftrightarrow> touched s b k" by (simp add: touched_def)
  moreover have "k \<noteq> ?k \<Longrightarrow> rep_at cd s x (T(?k \<mapsto> VU64 n)) k \<longleftrightarrow> rep_at cd s x T k" for x
    by (rule rep_at_cong) auto
  ultimately show "key_inv cd s m ?b (T(?k \<mapsto> VU64 n)) k"
    using old by (cases "k = ?k") (simp_all add: key_inv_def split: option.splits if_splits)
next
  fix t' p' assume "(t', p') |\<in>| fmdom (ba_positions (b\<lparr>ba_positions := fmupd (t, p) n (ba_positions b)\<rparr>))"
  then show "valid_type_id t'" using assms by (auto simp: batch_inv_def)
next
  show "closed m" "own_ops s (ba_ops (b\<lparr>ba_positions := fmupd (t, p) n (ba_positions b)\<rparr>))"
    using assms by (simp_all add: batch_inv_def)
qed

section \<open>Cached reads\<close>

lemma cached_upd_versions: "ba_versions b = m \<Longrightarrow> cached (b\<lparr>ba_versions := fmupd (t, p, a) v m\<rparr>) k =
    (if k = PartitionKey t p (MetaKey a) then Some (map_option (\<lambda>v. VMeta \<lparr>current_version = v\<rparr>) v) else cached b k)"
  by (cases "(b, k)" rule: cached.cases) auto

lemma cached_upd_states: "ba_states b = m \<Longrightarrow> cached (b\<lparr>ba_states := fmupd (t, p, a) x m\<rparr>) k =
    (if k = PartitionKey t p (StateKey a) then Some (map_option VState x) else cached b k)"
  by (cases "(b, k)" rule: cached.cases) auto

lemma cached_upd_idempotency: "ba_idempotency b = m \<Longrightarrow> cached (b\<lparr>ba_idempotency := fmupd (t, p, u) r m\<rparr>) k =
    (if k = PartitionKey t p (IdempotencyKey u) then Some (Some (VIdempotency r)) else cached b k)"
  by (cases "(b, k)" rule: cached.cases) auto

lemma cached_upd_fences: "ba_fences b = m \<Longrightarrow> cached (b\<lparr>ba_fences := fmupd (t, p) n m\<rparr>) k =
    (if k = PartitionKey t p FenceKey then Some (Some (VU64 n)) else cached b k)"
  by (cases "(b, k)" rule: cached.cases) auto

lemma cached_upd_group_partitions: "ba_group_partitions b = m \<Longrightarrow> cached (b\<lparr>ba_group_partitions := fmupd (t, p, g) x m\<rparr>) k =
    (if k = PartitionKey t p (GroupPartitionKey g) then Some (Some (VGroupPartition x)) else cached b k)"
  by (cases "(b, k)" rule: cached.cases) auto

lemma cached_upd_catalog: "cached (b\<lparr>ba_catalog := Some c\<rparr>) k =
    (if k = CatalogKey then Some (Some (VCatalog c)) else cached b k)"
  by (cases "(b, k)" rule: cached.cases) auto

lemma cached_upd_group_catalog: "cached (b\<lparr>ba_group_catalog := Some c\<rparr>) k =
    (if k = GroupCatalogKey then Some (Some (VGroupCatalog c)) else cached b k)"
  by (cases "(b, k)" rule: cached.cases) auto

lemma cached_ops [simp]: "cached (b\<lparr>ba_ops := ops\<rparr>) k = cached b k"
  "cached (b\<lparr>ba_new_events := evs\<rparr>) k = cached b k"
  by (cases "(b, k)" rule: cached.cases; simp)+

lemmas cached_upd = cached_upd_versions cached_upd_states cached_upd_idempotency cached_upd_fences
  cached_upd_group_partitions cached_upd_catalog cached_upd_group_catalog

lemma norm_Some [simp]: "norm k (Some v) = Some v" by (simp add: norm_def)

text \<open>A typed value under its key is found by its own projection.\<close>

lemma at_cases:
  assumes "codec_laws cd" "rep_at cd s m T k"
  shows "T k = None \<or> (\<exists>v. T k = Some v \<and> value_kind v = key_kind k)"
  using rep_at_kind [OF assms] by (cases "T k") auto

lemma value_kind_cases:
  "value_kind v = KMeta \<Longrightarrow> \<exists>m. v = VMeta m" "value_kind v = KU64 \<Longrightarrow> \<exists>n. v = VU64 n"
  "value_kind v = KState \<Longrightarrow> \<exists>x. v = VState x" "value_kind v = KIdempotency \<Longrightarrow> \<exists>r. v = VIdempotency r"
  "value_kind v = KCatalog \<Longrightarrow> \<exists>c. v = VCatalog c" "value_kind v = KGroupCatalog \<Longrightarrow> \<exists>c. v = VGroupCatalog c"
  "value_kind v = KGroupPartition \<Longrightarrow> \<exists>x. v = VGroupPartition x" "value_kind v = KEvent \<Longrightarrow> \<exists>e. v = VEvent e"
  "value_kind v = KPointer \<Longrightarrow> \<exists>a n. v = VPointer a n" "value_kind v = KHlc \<Longrightarrow> \<exists>h. v = VHlc h"
  "value_kind v = KApplied \<Longrightarrow> \<exists>x. v = VApplied x" "value_kind v = KEntry \<Longrightarrow> \<exists>e. v = VEntry e"
  "value_kind v = KLogId \<Longrightarrow> \<exists>l. v = VLogId l" "value_kind v = KVote \<Longrightarrow> \<exists>w. v = VVote w"
  by (cases v; simp)+

text \<open>A batch over a store, together with the laws of the store and of the encoding.\<close>

definition computes ::
  "'db kv \<Rightarrow> ('db \<Rightarrow> (bytes, bytes) fmap) \<Rightarrow> 'm codec \<Rightarrow> ('db, 'm) EsStorage \<Rightarrow> ApplyBatch \<Rightarrow> 'm shard \<Rightarrow> bool" where
  "computes kv view cd st b T \<longleftrightarrow> kv_laws kv view \<and> codec_laws cd
     \<and> batch_inv cd (es_shard_id st) (view (es_tree st)) b T"

lemma miss_read:
  fixes T :: "'m shard"
  assumes inv: "computes kv view cd st b T" and "valid_key k" "cacheable k"
    "cached b k = (None :: 'm sm_value option option)" "read_typed kv cd st k proj = Inr x"
  shows "x = at T k proj" "T k = None \<or> (\<exists>v. T k = Some v \<and> value_kind v = key_kind k)"
proof -
  have "rep_at cd (es_shard_id st) (view (es_tree st)) T k"
    using assms batch_miss by (auto simp: computes_def)
  then show "x = at T k proj" "T k = None \<or> (\<exists>v. T k = Some v \<and> value_kind v = key_kind k)"
    using assms(1,5) read_typed_rep at_cases unfolding computes_def by blast+
qed

lemma hit:
  assumes "computes kv view cd st b T" "valid_key k" "cacheable k" "\<not> is_next k" "cached b k = Some x"
  shows "x = norm k (T k)"
  using assms batch_hit by (auto simp: computes_def)

lemma remember:
  fixes T :: "'m shard"
  assumes "computes kv view cd st b T" "ba_ops b' = ba_ops b" "fmdom (ba_positions b') = fmdom (ba_positions b)"
    and "\<And>k'. (cached b' k' :: 'm sm_value option option) = (if k' = k then Some (norm k (T k)) else cached b k')"
    and "\<not> is_next k"
  shows "computes kv view cd st b' T"
  using assms batch_remember [where b' = b' and k = k] unfolding computes_def by blast

lemma version_read:
  assumes inv: "computes kv view cd st b T" and k: "valid_key (PartitionKey t p (MetaKey a))"
    and run: "batch_aggregate_version kv cd st b t p a = Inr (b', x)"
  shows "computes kv view cd st b' T \<and> x = spec_version T t p a"
proof (cases "fmlookup (ba_versions b) (t, p, a)")
  let ?k = "PartitionKey t p (MetaKey a)"
  case None
  with run obtain y where y: "read_typed kv cd st ?k as_meta = Inr y" "x = map_option current_version y"
      "b' = b\<lparr>ba_versions := fmupd (t, p, a) x (ba_versions b)\<rparr>"
    by (auto simp: batch_aggregate_version_def read_aggregate_meta_def rbind_Inr_iff Let_def)
  have "y = at T ?k as_meta" "norm ?k (T ?k) = map_option (\<lambda>v. VMeta \<lparr>current_version = v\<rparr>) x"
    using miss_read [OF inv k _ _ y(1)] None y(2) by (auto simp: norm_def at_def dest!: value_kind_cases)
  then show ?thesis
    using y(2,3) remember [OF inv, of b' ?k] by (auto simp: cached_upd spec_version_def)
next
  case (Some y)
  with hit [OF inv k, of "map_option (\<lambda>v. VMeta \<lparr>current_version = v\<rparr>) y"] run inv show ?thesis
    by (auto simp: batch_aggregate_version_def spec_version_def at_def norm_def split: option.splits)
qed

lemma state_read:
  assumes inv: "computes kv view cd st b T" and k: "valid_key (PartitionKey t p (StateKey a))"
    and run: "batch_aggregate_state kv cd st b t p a = Inr (b', x)"
  shows "computes kv view cd st b' T \<and> x = spec_state T t p a"
proof (cases "fmlookup (ba_states b) (t, p, a)")
  let ?k = "PartitionKey t p (StateKey a)"
  case None
  with run have y: "read_typed kv cd st ?k as_state = Inr x"
      "b' = b\<lparr>ba_states := fmupd (t, p, a) x (ba_states b)\<rparr>"
    by (auto simp: batch_aggregate_state_def read_aggregate_state_def rbind_Inr_iff)
  have "x = at T ?k as_state" "norm ?k (T ?k) = map_option VState x"
    using miss_read [OF inv k _ _ y(1)] None by (auto simp: norm_def at_def dest!: value_kind_cases)
  then show ?thesis
    using y(2) remember [OF inv, of b' ?k] by (auto simp: cached_upd spec_state_def)
next
  case (Some y)
  with hit [OF inv k, of "map_option VState y"] run inv show ?thesis
    by (auto simp: batch_aggregate_state_def spec_state_def at_def norm_def split: option.splits)
qed

lemma fence_read:
  assumes inv: "computes kv view cd st b T" and k: "valid_key (PartitionKey t p FenceKey)"
    and run: "batch_aggregate_partition_fence kv cd st b t p = Inr (b', x)"
  shows "computes kv view cd st b' T \<and> x = spec_fence T t p"
proof (cases "fmlookup (ba_fences b) (t, p)")
  let ?k = "PartitionKey t p FenceKey"
  case None
  with run obtain y where y: "read_typed kv cd st ?k as_u64 = Inr y" "x = or_default 0 y"
      "b' = b\<lparr>ba_fences := fmupd (t, p) x (ba_fences b)\<rparr>"
    by (auto simp: batch_aggregate_partition_fence_def unwrap_or_def or_default_def rbind_Inr_iff)
  have "y = at T ?k as_u64" "norm ?k (T ?k) = Some (VU64 x)"
    using miss_read [OF inv k _ _ y(1)] None y(2)
    by (auto simp: norm_def at_def or_default_def dest!: value_kind_cases)
  then show ?thesis
    using y(2,3) remember [OF inv, of b' ?k] by (auto simp: cached_upd spec_fence_def)
next
  case (Some y)
  with hit [OF inv k, of "Some (VU64 y)"] run inv show ?thesis
    by (auto simp: batch_aggregate_partition_fence_def spec_fence_def or_default_def at_def norm_def
        split: option.splits)
qed

lemma idempotency_read:
  assumes inv: "computes kv view cd st b T" and k: "valid_key (PartitionKey t p (IdempotencyKey u))"
    and run: "batch_idempotency kv cd st b t p u = Inr (b', x)"
  shows "computes kv view cd st b' T \<and> x = spec_idempotency T t p u"
proof (cases "fmlookup (ba_idempotency b) (t, p, u)")
  let ?k = "PartitionKey t p (IdempotencyKey u)"
  case None
  with run have y: "read_typed kv cd st ?k as_idempotency = Inr x"
      "b' = (case x of None \<Rightarrow> b | Some r \<Rightarrow> b\<lparr>ba_idempotency := fmupd (t, p, u) r (ba_idempotency b)\<rparr>)"
    by (auto simp: batch_idempotency_def rbind_Inr_iff)
  have x: "x = at T ?k as_idempotency" "norm ?k (T ?k) = map_option VIdempotency x"
    using miss_read [OF inv k _ _ y(1)] None by (auto simp: norm_def at_def dest!: value_kind_cases)
  show ?thesis
  proof (cases x)
    case None
    with x(1) y(2) inv show ?thesis by (simp add: spec_idempotency_def)
  next
    case (Some r)
    with y(2) have "b' = b\<lparr>ba_idempotency := fmupd (t, p, u) r (ba_idempotency b)\<rparr>" by simp
    then show ?thesis
      using x(1) Some x(2) [unfolded Some, simplified] remember [OF inv, of b' ?k]
      by (simp add: cached_upd spec_idempotency_def)
  qed
next
  case (Some y)
  with hit [OF inv k, of "Some (VIdempotency y)"] run inv show ?thesis
    by (auto simp: batch_idempotency_def spec_idempotency_def at_def norm_def split: option.splits)
qed

text \<open>A position that is read is cached even when the partition has none yet; the handler then
  either stores the next one or reports exhaustion, which needs a position that is there.\<close>

lemma position_read:
  assumes inv: "computes kv view cd st b T" and k: "valid_type_id t"
    and run: "batch_aggregate_partition_position kv cd st b t p = Inr (b', x)"
  shows "computes kv view cd st b' (T(PartitionKey t p NextPositionKey \<mapsto> VU64 x)) \<and> x = spec_head T t p
    \<and> (x \<noteq> 0 \<longrightarrow> T(PartitionKey t p NextPositionKey \<mapsto> VU64 x) = T)"
proof (cases "fmlookup (ba_positions b) (t, p)")
  let ?k = "PartitionKey t p NextPositionKey"
  case None
  with run obtain y where y: "read_typed kv cd st ?k as_u64 = Inr y" "x = or_default 0 y"
      "b' = b\<lparr>ba_positions := fmupd (t, p) x (ba_positions b)\<rparr>"
    by (auto simp: batch_aggregate_partition_position_def unwrap_or_def or_default_def rbind_Inr_iff)
  have "y = at T ?k as_u64" "x \<noteq> 0 \<longrightarrow> T ?k = Some (VU64 x)"
    using miss_read [OF inv _ _ _ y(1)] k None y(2)
    by (auto simp: at_def or_default_def dest!: value_kind_cases)
  moreover have "computes kv view cd st b' (T(?k \<mapsto> VU64 x))"
    using inv batch_position [OF _ k] unfolding computes_def y(3) by blast
  ultimately show ?thesis
    using y(2) by (simp add: spec_head_def fun_upd_idem)
next
  let ?k = "PartitionKey t p NextPositionKey"
  case (Some y)
  then have "T ?k = Some (VU64 y)"
    using inv k by (force simp: computes_def batch_inv_def key_inv_def dest: spec [of _ ?k])
  with Some run inv show ?thesis
    by (auto simp: batch_aggregate_partition_position_def spec_head_def or_default_def at_def fun_upd_idem)
qed

section \<open>Writes\<close>

lemma write_key:
  fixes T :: "'m shard"
  assumes inv: "computes kv view cd st b T"
    and k: "valid_key k" "\<not> is_next k" and v: "encode_value cd v = Inr bs" "value_kind v = key_kind k"
    and ops: "ba_ops b' = ba_ops b @ [(encode_key (es_shard_id st) k, bs)]
      \<or> ba_ops b' = filter (\<lambda>(j, _). j \<noteq> encode_key (es_shard_id st) k) (ba_ops b) @ [(encode_key (es_shard_id st) k, bs)]"
    and dom: "fmdom (ba_positions b') = fmdom (ba_positions b)"
    and cache: "\<And>k'. cacheable k' \<Longrightarrow>
      (cached b' k' :: 'm sm_value option option) = (if k' = k then Some (Some v) else cached b k')"
  shows "computes kv view cd st b' (T(k \<mapsto> v))"
proof -
  have "enc cd v = Some bs" using v(1) by (auto simp: encode_value_def ok_or_def split: option.splits)
  then show ?thesis
    using inv batch_write [OF _ _ k _ v(2) ops dom cache] unfolding computes_def by blast
qed

lemma position_write:
  assumes "computes kv view cd st b T" "valid_type_id t"
  shows "computes kv view cd st (b\<lparr>ba_positions := fmupd (t, p) n (ba_positions b)\<rparr>)
    (T(PartitionKey t p NextPositionKey \<mapsto> VU64 n))"
  using assms batch_position unfolding computes_def by blast

lemma computes_new_events [simp]:
  "computes kv view cd st (b\<lparr>ba_new_events := evs\<rparr>) T \<longleftrightarrow> computes kv view cd st b T"
  by (simp add: computes_def batch_inv_def key_inv_def touched_def cong: option.case_cong)

lemma append_writes_spec:
  assumes inv: "computes kv view cd st b T"
    and t: "valid_type_id (ev_aggregate_type e)" and a: "valid_identifier (ev_aggregate_id e)"
    and run: "append_writes cd (es_shard_id st) b e fp npos = Inr b'"
  shows "computes kv view cd st b' (spec_append_event T e fp npos) \<and> ba_new_events b' = ba_new_events b @ [e]"
proof -
  let ?s = "es_shard_id st"
  define t p a v pos u where "t = ev_aggregate_type e" "p = ev_partition_id e" "a = ev_aggregate_id e"
    "v = ev_aggregate_version e" "pos = ev_partition_position e" "u = ev_event_id e"
  note d = this
  define r where "r = \<lparr>idm_fingerprint = fp, idm_result = \<lparr>res_aggregate_version = v, res_partition_position = pos\<rparr>\<rparr>"
  from run obtain e1 e2 e3 e4 where es: "encode_value cd (VEvent e) = Inr e1"
      "encode_value cd (VPointer a v) = Inr e2" "encode_value cd (VMeta \<lparr>current_version = v\<rparr>) = Inr e3"
      "encode_value cd (VIdempotency r) = Inr e4"
    and b': "b' = push_put ?s (PartitionKey t p (IdempotencyKey u)) e4
       (push_put ?s (PartitionKey t p (MetaKey a)) e3 (push_put ?s (PartitionKey t p (IndexKey pos)) e2
         (push_put ?s (PartitionKey t p (EventKey a v)) e1 b)))
       \<lparr>ba_versions := fmupd (t, p, a) (Some v) (ba_versions b),
        ba_positions := fmupd (t, p) npos (ba_positions b),
        ba_idempotency := fmupd (t, p, u) r (ba_idempotency b),
        ba_new_events := ba_new_events b @ [e]\<rparr>"
    by (auto simp: append_writes_def rbind_Inr_iff Let_def d r_def push_put_def)
  have valid: "valid_key (PartitionKey t p (EventKey a v))" "valid_key (PartitionKey t p (IndexKey pos))"
    "valid_key (PartitionKey t p (MetaKey a))" "valid_key (PartitionKey t p (IdempotencyKey u))"
    using t a by (simp_all add: d)
  define b1 where "b1 = push_put ?s (PartitionKey t p (EventKey a v)) e1 b"
  define b2 where "b2 = push_put ?s (PartitionKey t p (IndexKey pos)) e2 b1"
  define b3 where "b3 = push_put ?s (PartitionKey t p (MetaKey a)) e3 b2
    \<lparr>ba_versions := fmupd (t, p, a) (Some v) (ba_versions b2)\<rparr>"
  define b4 where "b4 = push_put ?s (PartitionKey t p (IdempotencyKey u)) e4 b3
    \<lparr>ba_idempotency := fmupd (t, p, u) r (ba_idempotency b3)\<rparr>"
  have "computes kv view cd st b1 (T(PartitionKey t p (EventKey a v) \<mapsto> VEvent e))"
    by (rule write_key [OF inv valid(1) _ es(1)]) (auto simp: b1_def push_put_def)
  then have "computes kv view cd st b2 (T(PartitionKey t p (EventKey a v) \<mapsto> VEvent e,
      PartitionKey t p (IndexKey pos) \<mapsto> VPointer a v))"
    by (rule write_key [OF _ valid(2) _ es(2)]) (auto simp: b2_def push_put_def)
  then have "computes kv view cd st b3 (T(PartitionKey t p (EventKey a v) \<mapsto> VEvent e,
      PartitionKey t p (IndexKey pos) \<mapsto> VPointer a v,
      PartitionKey t p (MetaKey a) \<mapsto> VMeta \<lparr>current_version = v\<rparr>))"
    by (rule write_key [OF _ valid(3) _ es(3)]) (auto simp: b3_def push_put_def cached_upd)
  then have "computes kv view cd st b4 (T(PartitionKey t p (EventKey a v) \<mapsto> VEvent e,
      PartitionKey t p (IndexKey pos) \<mapsto> VPointer a v,
      PartitionKey t p (MetaKey a) \<mapsto> VMeta \<lparr>current_version = v\<rparr>,
      PartitionKey t p (IdempotencyKey u) \<mapsto> VIdempotency r))"
    by (rule write_key [OF _ valid(4) _ es(4)]) (auto simp: b4_def push_put_def cached_upd)
  from position_write [OF this, of t p npos] t
  have "computes kv view cd st (b4\<lparr>ba_positions := fmupd (t, p) npos (ba_positions b4)\<rparr>)
      (spec_append_event T e fp npos)"
    by (simp add: spec_append_event_def Let_def d r_def)
  moreover have "b' = b4\<lparr>ba_positions := fmupd (t, p) npos (ba_positions b4),
      ba_new_events := ba_new_events b @ [e]\<rparr>"
    by (simp add: b' b4_def b3_def b2_def b1_def push_put_def)
  ultimately show ?thesis by simp
qed

end
