(* ===== verification/Apply_Handlers.thy ===== *)
theory Apply_Handlers
  imports Apply_Batch
begin

text \<open>
  Each handler of the state machine implements the request of the specification: it keeps
  \<open>computes\<close> towards the shard the specification computes and answers with its response.
\<close>

section \<open>Handlers\<close>

lemma append_checked_spec:
  assumes inv: "computes kv view cd st b T" and t: "valid_type_id t" and a: "valid_identifier a"
    and fresh: "spec_idempotency T t p (nev_event_id event) = None" and ev: "nev_event_type event \<noteq> []"
    and run: "append_checked kv cd st b t p generation a expected event hlc
      (aggregate_append_fingerprint h t a expected event) = Inr (b', r)"
  shows "computes kv view cd st b' (fst (spec_append h T t p generation a expected event hlc))
    \<and> r = snd (spec_append h T t p generation a expected event hlc)"
proof -
  let ?fp = "aggregate_append_fingerprint h t a expected event"
  let ?spec = "spec_append h T t p generation a expected event hlc"
  have k: "valid_key (PartitionKey t p FenceKey)" "valid_key (PartitionKey t p (MetaKey a))"
    using t a by simp_all
  note unf = append_checked_def spec_append_def Let_def rbind_Inr_iff
  from run obtain b1 f where f: "batch_aggregate_partition_fence kv cd st b t p = Inr (b1, f)"
    by (auto simp: append_checked_def rbind_Inr_iff)
  note F = fence_read [OF inv k(1) f]
  show ?thesis
  proof (cases "f = generation")
    case False
    with run f F t a fresh ev show ?thesis by (auto simp: unf)
  next
    case f_eq: True
    from run f f_eq obtain b2 v where v: "batch_aggregate_version kv cd st b1 t p a = Inr (b2, v)"
      by (auto simp: append_checked_def rbind_Inr_iff)
    note V = version_read [OF F [THEN conjunct1] k(2) v]
    show ?thesis
    proof (cases "check_expected_aggregate_version expected v \<and> next_version v \<noteq> None")
      case False
      then show ?thesis
        using run f f_eq v V F t a fresh ev by (auto simp: unf next_version_def split: option.splits if_splits)
    next
      case True
      then obtain nv where nv: "next_version v = Some nv" "check_expected_aggregate_version expected v" by auto
      from run f f_eq v True obtain b3 pos
        where pos: "batch_aggregate_partition_position kv cd st b2 t p = Inr (b3, pos)"
        by (auto simp: unf next_version_def split: option.splits if_splits)
      note P = position_read [OF V [THEN conjunct1] t pos]
      show ?thesis
      proof (cases "checked_add pos 1")
        case None
        then have "pos \<noteq> 0" by (auto simp: checked_add_def)
        with None show ?thesis
          using run f f_eq v V F P nv pos t a fresh ev
          by (auto simp: unf next_version_def split: option.splits if_splits)
      next
        case (Some npos)
        with run f f_eq v V F P nv pos obtain b4
          where w: "append_writes cd (es_shard_id st) b3 (stored_event t p a nv pos event hlc) ?fp npos = Inr b4"
            "b' = b4" "r = RsAggregateAppendOk nv pos"
          by (auto simp: unf next_version_def stored_event_def split: option.splits if_splits)
        have "?spec = (spec_append_event T (stored_event t p a nv pos event hlc) ?fp npos, r)"
          using Some V F P nv w f_eq t a fresh ev by (simp add: spec_append_def Let_def)
        moreover have "spec_append_event (T(PartitionKey t p NextPositionKey \<mapsto> VU64 pos))
            (stored_event t p a nv pos event hlc) ?fp npos
          = spec_append_event T (stored_event t p a nv pos event hlc) ?fp npos"
          by (rule ext) (simp add: spec_append_event_def Let_def stored_event_def)
        ultimately show ?thesis
          using append_writes_spec [OF P [THEN conjunct1] _ _ w(1)] t a w(2) by (simp add: stored_event_def)
      qed
    qed
  qed
qed

lemma append_spec:
  assumes inv: "computes kv view cd st b T"
    and run: "apply_aggregate_append h kv cd st b t p generation a expected event hlc = Inr (b', r)"
  shows "computes kv view cd st b' (fst (spec_append h T t p generation a expected event hlc))
    \<and> r = snd (spec_append h T t p generation a expected event hlc)"
proof (cases "valid_type_id t \<and> valid_identifier a \<and> nev_event_type event \<noteq> []")
  case False
  with inv run show ?thesis
    by (auto simp: apply_aggregate_append_def spec_append_def split: sum.splits if_splits)
next
  case True
  with run obtain b1 x where x: "batch_idempotency kv cd st b t p (nev_event_id event) = Inr (b1, x)"
    by (auto simp: apply_aggregate_append_def rbind_Inr_iff Let_def)
  have I: "computes kv view cd st b1 T \<and> x = spec_idempotency T t p (nev_event_id event)"
    using idempotency_read [OF inv _ x] True by simp
  show ?thesis
  proof (cases x)
    case None
    with True run x have "append_checked kv cd st b1 t p generation a expected event hlc
        (aggregate_append_fingerprint h t a expected event) = Inr (b', r)"
      by (auto simp: apply_aggregate_append_def rbind_Inr_iff Let_def)
    with I None True show ?thesis by (intro append_checked_spec) auto
  next
    case (Some rec)
    with I have "spec_idempotency T t p (nev_event_id event) = Some rec" by simp
    with True run x [unfolded Some] I show ?thesis
      by (auto simp: apply_aggregate_append_def spec_append_def rbind_Inr_iff Let_def split: if_splits)
  qed
qed

lemma state_write_spec:
  assumes inv: "computes kv view cd st b T" and t: "valid_type_id t" and a: "valid_identifier a"
    and e: "encode_value cd (VState s) = Inr e1" "encode_value cd (VHlc hlc) = Inr e2"
  shows "computes kv view cd st
    (push_put (es_shard_id st) (PartitionKey t p (StateModifiedKey a)) e2
      (push_put (es_shard_id st) (PartitionKey t p (StateKey a)) e1 b)
     \<lparr>ba_states := fmupd (t, p, a) (Some s) (ba_states b)\<rparr>)
    (T(PartitionKey t p (StateKey a) \<mapsto> VState s, PartitionKey t p (StateModifiedKey a) \<mapsto> VHlc hlc))"
proof -
  have k: "valid_key (PartitionKey t p (StateKey a))" "valid_key (PartitionKey t p (StateModifiedKey a))"
    using t a by simp_all
  have "computes kv view cd st (push_put (es_shard_id st) (PartitionKey t p (StateKey a)) e1 b
      \<lparr>ba_states := fmupd (t, p, a) (Some s) (ba_states b)\<rparr>) (T(PartitionKey t p (StateKey a) \<mapsto> VState s))"
    by (rule write_key [OF inv k(1) _ e(1)]) (auto simp: push_put_def cached_upd)
  then show ?thesis
    by (rule write_key [OF _ k(2) _ e(2)]) (auto simp: push_put_def cached_upd)
qed

lemma put_state_spec:
  assumes inv: "computes kv view cd st b T"
    and run: "apply_put_aggregate_state kv cd st b t p generation a expected data hlc = Inr (b', r)"
  shows "computes kv view cd st b' (fst (spec_put_state T t p generation a expected data hlc))
    \<and> r = snd (spec_put_state T t p generation a expected data hlc)"
proof (cases "valid_type_id t \<and> valid_identifier a")
  case False
  with inv run show ?thesis
    by (auto simp: apply_put_aggregate_state_def spec_put_state_def split: sum.splits if_splits)
next
  case True
  note unf = apply_put_aggregate_state_def spec_put_state_def put_state_checked_def Let_def rbind_Inr_iff
  from run True obtain b1 f where f: "batch_aggregate_partition_fence kv cd st b t p = Inr (b1, f)"
    by (auto simp: apply_put_aggregate_state_def rbind_Inr_iff)
  have F: "computes kv view cd st b1 T \<and> f = spec_fence T t p"
    using fence_read [OF inv _ f] True by simp
  show ?thesis
  proof (cases "f = generation")
    case False
    with run f F True show ?thesis by (auto simp: unf)
  next
    case f_eq: True
    from run f f_eq True obtain b2 v where v: "batch_aggregate_version kv cd st b1 t p a = Inr (b2, v)"
      by (auto simp: apply_put_aggregate_state_def rbind_Inr_iff)
    have V: "computes kv view cd st b2 T \<and> v = spec_version T t p a"
      using version_read [OF F [THEN conjunct1] _ v] True by simp
    show ?thesis
    proof (cases v)
      case None
      with run f f_eq v V F True show ?thesis by (auto simp: unf)
    next
      case (Some ver)
      with run f f_eq v True obtain b3 c where c: "batch_aggregate_state kv cd st b2 t p a = Inr (b3, c)"
        by (auto simp: unf)
      have C: "computes kv view cd st b3 T \<and> c = spec_state T t p a"
        using state_read [OF V [THEN conjunct1] _ c] True by simp
      have upd: "push_put s k e2 (push_put s k' e1 b3)\<lparr>ba_states := m (ba_states
          (push_put s k e2 (push_put s k' e1 b3)))\<rparr> = push_put s k e2 (push_put s k' e1 b3)\<lparr>ba_states := m (ba_states b3)\<rparr>"
        for s k k' e1 e2 m by (simp add: push_put_def)
      show ?thesis
        using run f f_eq v c V F C Some True state_write_spec [of kv view cd st b3 T t a _ _ hlc _ p]
        by (auto simp: unf next_version_def state_matches_def upd split: option.splits if_splits ExpectedStateRevision.splits)
    qed
  qed
qed

lemma fence_spec:
  assumes inv: "computes kv view cd st b T"
    and run: "apply_aggregate_partition_fence kv cd st b t p generation = Inr (b', r)"
  shows "computes kv view cd st b' (fst (spec_install_fence T t p generation))
    \<and> r = snd (spec_install_fence T t p generation)"
proof (cases "valid_type_id t \<and> generation \<noteq> 0")
  case False
  with inv run show ?thesis
    by (auto simp: apply_aggregate_partition_fence_def spec_install_fence_def split: sum.splits if_splits)
next
  case True
  note unf = apply_aggregate_partition_fence_def spec_install_fence_def Let_def rbind_Inr_iff
  from run True obtain b1 f where f: "batch_aggregate_partition_fence kv cd st b t p = Inr (b1, f)"
    by (auto simp: unf)
  have F: "computes kv view cd st b1 T" "f = spec_fence T t p"
    using fence_read [OF inv _ f] True by simp_all
  show ?thesis
  proof (cases "max f generation = f")
    case True
    with run f F \<open>valid_type_id t \<and> generation \<noteq> 0\<close> show ?thesis by (auto simp: unf)
  next
    case False
    with run f F(2) \<open>valid_type_id t \<and> generation \<noteq> 0\<close> obtain e
      where e: "encode_value cd (VU64 (max f generation)) = Inr e"
        "b' = push_put (es_shard_id st) (PartitionKey t p FenceKey) e b1
           \<lparr>ba_fences := fmupd (t, p) (max f generation) (ba_fences b1)\<rparr>"
        "r = RsAggregatePartitionFenceInstalled (max f generation)"
      by (auto simp: unf push_put_def)
    have "computes kv view cd st b' (T(PartitionKey t p FenceKey \<mapsto> VU64 (max f generation)))"
      by (rule write_key [OF F(1) _ _ e(1)]) (auto simp: e(2) push_put_def cached_upd True)
    with False F(2) e(3) \<open>valid_type_id t \<and> generation \<noteq> 0\<close> show ?thesis
      by (simp add: spec_install_fence_def Let_def)
  qed
qed

lemma catalog_read:
  assumes inv: "computes kv view cd st b T"
    and run: "(case ba_catalog b of Some c \<Rightarrow> Inr c | None \<Rightarrow> read_aggregate_catalog kv cd st) = Inr c"
  shows "c = spec_catalog T \<and> norm CatalogKey (T CatalogKey) = Some (VCatalog c)"
proof (cases "ba_catalog b")
  case None
  with run obtain y where y: "read_typed kv cd st CatalogKey as_catalog = Inr y" "c = or_default AggregateCatalog_default y"
    by (auto simp: read_aggregate_catalog_def unwrap_or_def or_default_def rbind_Inr_iff)
  show ?thesis
    using miss_read [OF inv _ _ _ y(1)] None y(2)
    by (auto simp: norm_def at_def or_default_def spec_catalog_def dest!: value_kind_cases)
next
  case (Some y)
  then have y: "ba_catalog b = Some c" using run by simp
  show ?thesis
    using hit [OF inv, of CatalogKey "Some (VCatalog c)"] y
    by (auto simp: norm_def at_def or_default_def spec_catalog_def split: option.splits)
qed

lemma catalog_spec:
  assumes inv: "computes kv view cd st b T"
    and run: "apply_aggregate_catalog_command h kv cd st b command = Inr (b', r)"
  shows "computes kv view cd st b' (fst (spec_catalog_command h T command))
    \<and> r = snd (spec_catalog_command h T command)"
proof -
  from run obtain c where c: "(case ba_catalog b of Some c \<Rightarrow> Inr c | None \<Rightarrow> read_aggregate_catalog kv cd st) = Inr c"
    by (auto simp: apply_aggregate_catalog_command_def rbind_Inr_iff)
  note C = catalog_read [OF inv c]
  obtain c' ap where ap: "AggregateCatalog_apply h c command = (c', ap)" by fastforce
  note unf = apply_aggregate_catalog_command_def spec_catalog_command_def Let_def rbind_Inr_iff
  show ?thesis
  proof (cases "outcome_changed (ca_outcome ap)")
    case False
    with ap have "c' = c" using catalog_rev.unchanged [of h c command] by simp
    then have "computes kv view cd st (b\<lparr>ba_catalog := Some c'\<rparr>) T"
      by (intro remember [OF inv, of _ CatalogKey]) (simp_all add: C cached_upd)
    with False ap run c C show ?thesis by (auto simp: unf)
  next
    case True
    with ap run c obtain e where e: "encode_value cd (VCatalog c') = Inr e"
        "b' = push_put (es_shard_id st) CatalogKey e (b\<lparr>ba_catalog := Some c'\<rparr>)" "r = RsAggregateCatalogApplied ap"
      by (auto simp: unf)
    have "computes kv view cd st b' (T(CatalogKey \<mapsto> VCatalog c'))"
      by (rule write_key [OF inv _ _ e(1)]) (auto simp: e(2) push_put_def cached_upd)
    with True ap C e(3) show ?thesis by (simp add: spec_catalog_command_def)
  qed
qed

lemma group_catalog_read:
  assumes inv: "computes kv view cd st b T"
    and run: "(case ba_group_catalog b of Some c \<Rightarrow> Inr c | None \<Rightarrow> read_aggregate_group_catalog kv cd st) = Inr c"
  shows "c = spec_group_catalog T \<and> norm GroupCatalogKey (T GroupCatalogKey) = Some (VGroupCatalog c)"
proof (cases "ba_group_catalog b")
  case None
  with run obtain y where y: "read_typed kv cd st GroupCatalogKey as_group_catalog = Inr y"
      "c = or_default AggregateGroupCatalog_default y"
    by (auto simp: read_aggregate_group_catalog_def unwrap_or_def or_default_def rbind_Inr_iff)
  show ?thesis
    using miss_read [OF inv _ _ _ y(1)] None y(2)
    by (auto simp: norm_def at_def or_default_def spec_group_catalog_def dest!: value_kind_cases)
next
  case (Some y)
  then have y: "ba_group_catalog b = Some c" using run by simp
  show ?thesis
    using hit [OF inv, of GroupCatalogKey "Some (VGroupCatalog c)"] y
    by (auto simp: norm_def at_def or_default_def spec_group_catalog_def split: option.splits)
qed

text \<open>The group catalog is stored when its revision moved; below the last revision that is
  whenever it changed.\<close>

lemma group_revision_moves:
  assumes "gc_revision c \<noteq> - 1"
  shows "fst (AggregateGroupCatalog_apply c command) = c
    \<or> gc_revision (fst (AggregateGroupCatalog_apply c command)) = gc_revision c + 1"
  using assms
  by (cases rule: group_command_cases [of c command])
    (auto simp: group_put_def saturating_add_1)

lemma group_catalog_spec:
  assumes inv: "computes kv view cd st b T" and room: "gc_revision (spec_group_catalog T) \<noteq> - 1"
    and run: "apply_aggregate_group_catalog_command kv cd st b command = Inr (b', r)"
  shows "computes kv view cd st b' (fst (spec_group_command T command)) \<and> r = snd (spec_group_command T command)"
proof -
  from run obtain c where c: "(case ba_group_catalog b of Some c \<Rightarrow> Inr c | None \<Rightarrow> read_aggregate_group_catalog kv cd st) = Inr c"
    by (auto simp: apply_aggregate_group_catalog_command_def rbind_Inr_iff)
  note C = group_catalog_read [OF inv c]
  obtain c' ap where ap: "AggregateGroupCatalog_apply c command = (c', ap)" by fastforce
  note unf = apply_aggregate_group_catalog_command_def spec_group_command_def Let_def rbind_Inr_iff
  from ap have moves: "c' = c \<or> gc_revision c' \<noteq> gc_revision c"
    using group_revision_moves [of c command] room C by auto
  show ?thesis
  proof (cases "c' = c")
    case True
    then have "computes kv view cd st (b\<lparr>ba_group_catalog := Some c'\<rparr>) T"
      by (intro remember [OF inv, of _ GroupCatalogKey]) (simp_all add: C cached_upd)
    with True ap run c C show ?thesis by (auto simp: unf)
  next
    case False
    with moves ap run c obtain e where e: "encode_value cd (VGroupCatalog c') = Inr e"
        "b' = push_put (es_shard_id st) GroupCatalogKey e (b\<lparr>ba_group_catalog := Some c'\<rparr>)"
        "r = RsAggregateGroupCatalogApplied ap"
      by (auto simp: unf)
    have "computes kv view cd st b' (T(GroupCatalogKey \<mapsto> VGroupCatalog c'))"
      by (rule write_key [OF inv _ _ e(1)]) (auto simp: e(2) push_put_def cached_upd)
    with False ap C e(3) show ?thesis by (simp add: spec_group_command_def)
  qed
qed

lemma group_partition_read:
  assumes inv: "computes kv view cd st b T" and k: "valid_key (PartitionKey t p (GroupPartitionKey g))"
    and run: "(case fmlookup (ba_group_partitions b) (t, p, g) of Some s \<Rightarrow> Inr s
      | None \<Rightarrow> unwrap_or d (read_aggregate_group_partition kv cd st t p g)) = Inr s"
  shows "s = or_default d (spec_group_partition T t p g)"
proof (cases "fmlookup (ba_group_partitions b) (t, p, g)")
  let ?k = "PartitionKey t p (GroupPartitionKey g)"
  case None
  with run obtain y where y: "read_typed kv cd st ?k as_group_partition = Inr y" "s = or_default d y"
    by (auto simp: read_aggregate_group_partition_def unwrap_or_def or_default_def rbind_Inr_iff)
  with miss_read [OF inv k _ _ y(1)] None show ?thesis by (simp add: spec_group_partition_def)
next
  case (Some y)
  with hit [OF inv k, of "Some (VGroupPartition y)"] run show ?thesis
    by (auto simp: norm_def at_def or_default_def spec_group_partition_def split: option.splits)
qed

lemma group_partition_spec:
  assumes inv: "computes kv view cd st b T"
    and run: "apply_aggregate_group_partition kv cd st b t p generation g e start settings command = Inr (b', r)"
    and req: "req = \<lparr>gr_group_epoch = e, gr_start_position = start, gr_settings = settings, gr_command = command\<rparr>"
  shows "computes kv view cd st b' (fst (spec_group_step T t p generation g req))
    \<and> r = snd (spec_group_step T t p generation g req)"
proof (cases "valid_type_id t \<and> valid_identifier g \<and> valid_settings settings")
  case False
  with inv run req show ?thesis
    by (auto simp: apply_aggregate_group_partition_def spec_group_step_def split: sum.splits if_splits)
next
  case True
  note u = this
  note unf = apply_aggregate_group_partition_def spec_group_step_def Let_def rbind_Inr_iff
  let ?k = "PartitionKey t p (GroupPartitionKey g)" and ?d = "AggregateGroupPartition_new e start"
  from run True u obtain b1 f where f: "batch_aggregate_partition_fence kv cd st b t p = Inr (b1, f)"
    by (auto simp: unf)
  have F: "computes kv view cd st b1 T" "f = spec_fence T t p"
    using fence_read [OF inv _ f] True by simp_all
  show ?thesis
  proof (cases "f = generation")
    case False
    with run f F True u req show ?thesis by (auto simp: unf)
  next
    case f_eq: True
    from run f f_eq True u obtain s where s: "(case fmlookup (ba_group_partitions b1) (t, p, g) of Some s \<Rightarrow> Inr s
        | None \<Rightarrow> unwrap_or ?d (read_aggregate_group_partition kv cd st t p g)) = Inr s"
      by (auto simp: unf)
    have S: "s = or_default ?d (spec_group_partition T t p g)"
      using group_partition_read [OF F(1) _ s] True by simp
    obtain s' rep where step: "group_partition_step s req = (s', rep)" by fastforce
    show ?thesis
    proof (cases "e < epoch s")
      case True
      then have "rep = GroupStaleEpoch (epoch s)" using step req by (auto simp: group_partition_step_def)
      with True run f f_eq F s S u step req \<open>valid_type_id t \<and> _\<close> show ?thesis by (auto simp: unf)
    next
      case False
      with run f f_eq s u step req True obtain bs where bs: "encode_value cd (VGroupPartition s') = Inr bs"
          "b' = b1\<lparr>ba_ops := filter (\<lambda>(j, _). j \<noteq> encode_key (es_shard_id st) ?k) (ba_ops b1)
                 @ [(encode_key (es_shard_id st) ?k, bs)],
               ba_group_partitions := fmupd (t, p, g) s' (ba_group_partitions b1)\<rparr>"
          "r = response_of_group rep"
        by (auto simp: unf push_put_def)
      have "computes kv view cd st b' (T(?k \<mapsto> VGroupPartition s'))"
        by (rule write_key [OF F(1) _ _ bs(1)]) (use True in \<open>auto simp: bs(2) cached_upd\<close>)
      with False True f_eq F(2) S step bs(3) u req show ?thesis
        by (simp add: spec_group_step_def Let_def)
    qed
  qed
qed

theorem request_spec:
  assumes "computes kv view cd st b T" "gc_revision (spec_group_catalog T) \<noteq> - 1"
    and "apply_request h kv cd st b req = Inr (b', r)"
  shows "computes kv view cd st b' (fst (spec_request h T req)) \<and> r = snd (spec_request h T req)"
  using assms
  by (cases req) (simp_all add: append_spec put_state_spec fence_spec catalog_spec group_catalog_spec group_partition_spec)

end
