(* ===== verification/Sample_Codec.thy ===== *)
theory Sample_Codec
  imports Storage
begin

text \<open>
  A codec that meets \<open>codec_laws\<close> and never fails, so that the hypotheses on the value encoding can
  hold: every stored value is finite data, so the values can be numbered.
\<close>

instance word :: (len) countable
  by (rule countable_classI [of "\<lambda>w. to_nat (uint w)"]) (simp add: word_uint_eq_iff)

instance Hlc :: countable
  by countable_datatype

instance AggregateTypeId :: countable
  by countable_datatype

instance EventPartitionHash :: countable
  by countable_datatype

instance ExpectedAggregateVersion :: countable
  by countable_datatype

instance ExpectedStateRevision :: countable
  by countable_datatype

instance AggregateTypeStatus :: countable
  by countable_datatype

instance AggregateGroupStart :: countable
  by countable_datatype

instance AggregateSettlementAction :: countable
  by countable_datatype

instance NewAggregateEvent_ext :: (countable) countable
  by (rule countable_classI [of "\<lambda>r. to_nat (nev_event_id r, nev_event_type r, nev_data r, nev_metadata r, NewAggregateEvent.more r)"]) (auto intro: NewAggregateEvent.equality)

instance AggregateEvent_ext :: (countable) countable
  by (rule countable_classI [of "\<lambda>r. to_nat (ev_aggregate_type r, ev_partition_id r, ev_aggregate_id r, ev_aggregate_version r, ev_event_id r, ev_event_type r, ev_data r, ev_metadata r, ev_hlc r, ev_partition_position r, AggregateEvent.more r)"]) (auto intro: AggregateEvent.equality)

instance AggregateMeta_ext :: (countable) countable
  by (rule countable_classI [of "\<lambda>r. to_nat (current_version r, AggregateMeta.more r)"]) (auto intro: AggregateMeta.equality)

instance AggregateState_ext :: (countable) countable
  by (rule countable_classI [of "\<lambda>r. to_nat (st_revision r, st_data r, AggregateState.more r)"]) (auto intro: AggregateState.equality)

instance AggregateAppendResult_ext :: (countable) countable
  by (rule countable_classI [of "\<lambda>r. to_nat (res_aggregate_version r, res_partition_position r, AggregateAppendResult.more r)"]) (auto intro: AggregateAppendResult.equality)

instance PartitionMove_ext :: (countable) countable
  by (rule countable_classI [of "\<lambda>r. to_nat (mv_operation_id r, mv_source_shard r, mv_target_shard r, mv_next_generation r, PartitionMove.more r)"]) (auto intro: PartitionMove.equality)

instance PartitionPlacement_ext :: (countable) countable
  by (rule countable_classI [of "\<lambda>r. to_nat (pl_shard_id r, pl_generation r, pl_pending_move r, pl_last_completed_operation r, PartitionPlacement.more r)"]) (auto intro: PartitionPlacement.equality)

instance AggregateTypeDefinition_ext :: (countable) countable
  by (rule countable_classI [of "\<lambda>r. to_nat (def_id r, def_create_operation_id r, def_create_plan_fingerprint r, def_seed r, def_partition_count r, def_hash_algorithm r, def_status r, def_placements r, AggregateTypeDefinition.more r)"]) (auto intro: AggregateTypeDefinition.equality)

instance AggregateCatalog_ext :: (countable) countable
  by (rule countable_classI [of "\<lambda>r. to_nat (cat_revision r, cat_aggregate_types r, AggregateCatalog.more r)"]) (auto intro: AggregateCatalog.equality)

instance AggregateCatalogCommand :: countable
  by countable_datatype

instance AggregateGroupSettings_ext :: (countable) countable
  by (rule countable_classI [of "\<lambda>r. to_nat (max_unacked_per_consumer r, max_unacked_per_group r, ack_timeout_ms r, max_retries r, retry_min_ms r, retry_max_ms r, AggregateGroupSettings.more r)"]) (auto intro: AggregateGroupSettings.equality)

instance AggregateGroupDefinition_ext :: (countable) countable
  by (rule countable_classI [of "\<lambda>r. to_nat (grp_aggregate_type r, grp_name r, grp_revision r, grp_epoch r, grp_start r, grp_partition_starts r, grp_settings r, grp_create_operation_id r, grp_last_operation_id r, AggregateGroupDefinition.more r)"]) (auto intro: AggregateGroupDefinition.equality)

instance AggregateGroupCatalog_ext :: (countable) countable
  by (rule countable_classI [of "\<lambda>r. to_nat (gc_revision r, gc_groups r, gc_deleted_operations r, AggregateGroupCatalog.more r)"]) (auto intro: AggregateGroupCatalog.equality)

instance AggregateGroupCatalogCommand :: countable
  by countable_datatype

instance AggregateDeliveryCandidate_ext :: (countable) countable
  by (rule countable_classI [of "\<lambda>r. to_nat (cand_delivery_id r, cand_partition_position r, cand_aggregate_id r, cand_aggregate_version r, cand_event_id r, cand_payload_bytes r, cand_replayed r, AggregateDeliveryCandidate.more r)"]) (auto intro: AggregateDeliveryCandidate.equality)

instance AggregateGroupDelivery_ext :: (countable) countable
  by (rule countable_classI [of "\<lambda>r. to_nat (dlv_delivery_id r, dlv_consumer_id r, dlv_partition_position r, dlv_aggregate_id r, dlv_aggregate_version r, dlv_event_id r, dlv_attempt r, dlv_deadline_ms r, dlv_group_epoch r, dlv_replayed r, AggregateGroupDelivery.more r)"]) (auto intro: AggregateGroupDelivery.equality)

instance AggregateGroupRetry_ext :: (countable) countable
  by (rule countable_classI [of "\<lambda>r. to_nat (rty_partition_position r, rty_aggregate_id r, rty_aggregate_version r, rty_event_id r, rty_attempt r, rty_not_before_ms r, rty_replayed r, AggregateGroupRetry.more r)"]) (auto intro: AggregateGroupRetry.equality)

instance AggregateGroupParked_ext :: (countable) countable
  by (rule countable_classI [of "\<lambda>r. to_nat (pkd_partition_position r, pkd_aggregate_id r, pkd_aggregate_version r, pkd_event_id r, pkd_attempts r, pkd_reason r, pkd_parked_at_ms r, AggregateGroupParked.more r)"]) (auto intro: AggregateGroupParked.equality)

instance AggregateInstanceLease_ext :: (countable) countable
  by (rule countable_classI [of "\<lambda>r. to_nat (lse_consumer_id r, lse_group_epoch r, lse_deadline_ms r, AggregateInstanceLease.more r)"]) (auto intro: AggregateInstanceLease.equality)

instance AggregateGroupPartition_ext :: (countable) countable
  by (rule countable_classI [of "\<lambda>r. to_nat (epoch r, next_position r, resolved_gaps r, leases r, deliveries r, pending_retries r, parked r, AggregateGroupPartition.more r)"]) (auto intro: AggregateGroupPartition.equality)

instance AggregateSettlement_ext :: (countable) countable
  by (rule countable_classI [of "\<lambda>r. to_nat (stl_delivery_id r, stl_action r, stl_reason r, AggregateSettlement.more r)"]) (auto intro: AggregateSettlement.equality)

instance AggregateGroupPartitionCommand :: countable
  by countable_datatype

instance EsRequest :: countable
  by countable_datatype

instance log_id_ext :: (countable) countable
  by (rule countable_classI [of "\<lambda>r. to_nat (li_term r, li_node r, li_index r, log_id.more r)"]) (auto intro: log_id.equality)

instance stored_membership_ext :: (countable, countable) countable
  by (rule countable_classI [of "\<lambda>r. to_nat (sm_log_id r, sm_config r, stored_membership.more r)"]) (auto intro: stored_membership.equality)

instance EntryPayload :: (countable) countable
  by countable_datatype

instance Entry_ext :: (countable, countable) countable
  by (rule countable_classI [of "\<lambda>r. to_nat (en_log_id r, en_payload r, Entry.more r)"]) (auto intro: Entry.equality)

instance vote_ext :: (countable) countable
  by (rule countable_classI [of "\<lambda>r. to_nat (vt_term r, vt_node r, vt_committed r, vote.more r)"]) (auto intro: vote.equality)

instance AppliedState_ext :: (countable, countable) countable
  by (rule countable_classI [of "\<lambda>r. to_nat (ap_last_applied r, ap_membership r, AppliedState.more r)"]) (auto intro: AppliedState.equality)

instance AggregateIdempotencyRecord_ext :: (countable) countable
  by (rule countable_classI [of "\<lambda>r. to_nat (idm_fingerprint r, idm_result r, AggregateIdempotencyRecord.more r)"]) (auto intro: AggregateIdempotencyRecord.equality)

instance sm_value :: (countable) countable
  by countable_datatype

definition sample_codec :: "unit codec" where
  "sample_codec = \<lparr>enc = \<lambda>v. Some (replicate (to_nat v) 0),
     dec = \<lambda>kind b. if \<exists>v :: unit sm_value. value_kind v = kind \<and> b = replicate (to_nat v) 0 then Some (from_nat (length b)) else None\<rparr>"

lemma sample_codec_laws: "codec_laws sample_codec"
  by (auto simp: codec_laws_def sample_codec_def split: if_splits)

lemma sample_codec_total: "codec_total sample_codec"
  by (simp add: codec_total_def sample_codec_def)

end
