(* ===== verification/Apply_Refinement.thy ===== *)
theory Apply_Refinement
  imports Apply_Handlers Sample_Codec
begin

text \<open>
  \<open>sm_apply\<close> implements the shard specification: the committed store represents the shard that the
  specification computes entry by entry, the responses and the published events are its own, and a
  batch fails only when the store or the encoder does.
\<close>

section \<open>Entries and the commit\<close>

lemma group_catalog_of_payload:
  assumes "gc_revision (spec_group_catalog T) \<noteq> - 1"
  shows "spec_group_catalog (fst (spec_payload h T pl)) = spec_group_catalog T
    \<or> gc_revision (spec_group_catalog (fst (spec_payload h T pl))) = gc_revision (spec_group_catalog T) + 1"
proof (cases "\<exists>c. pl = Normal (RqCommitAggregateGroupCatalog c)")
  case True
  then obtain c where "pl = Normal (RqCommitAggregateGroupCatalog c)" by blast
  moreover have "spec_group_catalog (T(GroupCatalogKey \<mapsto> VGroupCatalog g)) = g" for g
    by (simp add: spec_group_catalog_def at_def or_default_def)
  ultimately show ?thesis
    using group_revision_moves [OF assms, of c] by (auto simp: spec_group_command_def split_beta)
next
  case False
  have "fst (spec_payload h T pl) GroupCatalogKey = T GroupCatalogKey"
  proof (cases pl)
    case (Normal req)
    with False show ?thesis
      by (cases req) (auto simp: spec_append_def spec_append_event_def spec_put_state_def spec_install_fence_def
          spec_catalog_command_def spec_group_step_def Let_def split: sum.split option.split prod.split if_split)
  qed simp_all
  then show ?thesis by (simp add: spec_group_catalog_def at_def)
qed

abbreviation spec_run :: "(bytes \<Rightarrow> u128) \<Rightarrow> 'm shard \<Rightarrow> 'm Entry list \<Rightarrow> 'm shard" where
  "spec_run h T entries \<equiv> run_commands (spec_payload h) T (map en_payload entries)"

abbreviation spec_responses :: "(bytes \<Rightarrow> u128) \<Rightarrow> 'm shard \<Rightarrow> 'm Entry list \<Rightarrow> EsResponse list" where
  "spec_responses h T entries \<equiv> run_replies (spec_payload h) T (map en_payload entries)"

definition revision_room :: "'m shard \<Rightarrow> nat \<Rightarrow> bool" where
  "revision_room T n \<longleftrightarrow> unat (gc_revision (spec_group_catalog T)) + n < 2 ^ 64"

lemma revision_room_step:
  assumes "revision_room T (Suc n)"
  shows "gc_revision (spec_group_catalog T) \<noteq> - 1" "revision_room (fst (spec_payload h T pl)) n"
proof -
  let ?r = "gc_revision (spec_group_catalog T)"
  show ne: "?r \<noteq> - 1"
  proof
    assume "?r = - 1"
    then have "unat ?r = 2 ^ 64 - 1" by (simp add: unat_max_word)
    with assms show False by (simp add: revision_room_def)
  qed
  with unat_max_word_cases [of ?r] have "unat (?r + 1) = Suc (unat ?r)" by blast
  then show "revision_room (fst (spec_payload h T pl)) n"
    using group_catalog_of_payload [OF ne, of h pl] assms by (auto simp: revision_room_def)
qed

definition latest_membership :: "'m Entry \<Rightarrow> 'm stored_membership option \<Rightarrow> 'm stored_membership option" where
  "latest_membership e old = (case en_payload e of
     Membership m \<Rightarrow> Some \<lparr>sm_log_id = Some (en_log_id e), sm_config = m\<rparr> | _ \<Rightarrow> old)"

lemma entries_spec:
  assumes "computes kv view cd st b T" "revision_room T (length entries)"
    and "apply_entries h kv cd st b la mem entries = Inr (b', la', mem', rs)"
  shows "computes kv view cd st b' (spec_run h T entries) \<and> rs = spec_responses h T entries
    \<and> la' = (if entries = [] then la else Some (en_log_id (last entries)))
    \<and> mem' = fold latest_membership entries mem"
  using assms
proof (induction entries arbitrary: b T la mem rs)
  case Nil
  then show ?case by simp
next
  case (Cons e es)
  note room = revision_room_step [OF Cons.prems(2) [simplified]]
  from Cons.prems(3) obtain b1 mem1 r rs' where
    step: "(case en_payload e of
              Blank \<Rightarrow> Inr (b, mem, RsNoop)
            | Normal req \<Rightarrow> rbind (apply_request h kv cd st b req) (\<lambda>(b, r). Inr (b, mem, r))
            | Membership m \<Rightarrow> Inr (b, Some \<lparr>sm_log_id = Some (en_log_id e), sm_config = m\<rparr>, RsNoop))
        = (Inr (b1, mem1, r) :: (_, Error) result)"
    and rest: "apply_entries h kv cd st b1 (Some (en_log_id e)) mem1 es = Inr (b', la', mem', rs')" "rs = r # rs'"
    by (auto simp: rbind_Inr_iff split_beta)
  have C: "computes kv view cd st b1 (fst (spec_payload h T (en_payload e))) \<and> r = snd (spec_payload h T (en_payload e))"
    using step Cons.prems(1) request_spec [OF Cons.prems(1) room(1)]
    by (cases "en_payload e") (auto simp: rbind_Inr_iff)
  have "mem1 = latest_membership e mem"
    using step by (cases "en_payload e") (auto simp: rbind_Inr_iff latest_membership_def)
  with C Cons.IH [OF C [THEN conjunct1] room(2) rest(1)] rest(2) show ?case by simp
qed

text \<open>The position counters still to be written.\<close>

definition pending :: "'m codec \<Rightarrow> u64 \<Rightarrow> (bytes, bytes) fmap \<Rightarrow> ApplyBatch \<Rightarrow> 'm shard
    \<Rightarrow> ((AggregateTypeId \<times> u16) \<times> u64) list \<Rightarrow> bool" where
  "pending cd s m b T ps \<longleftrightarrow>
     (\<forall>k. valid_key k \<longrightarrow> (\<forall>t p n. ((t, p), n) \<in> set ps \<longrightarrow> k \<noteq> PartitionKey t p NextPositionKey)
        \<longrightarrow> rep_at cd s (ops_map m (ba_ops b)) T k)
     \<and> (\<forall>t p n. ((t, p), n) \<in> set ps \<longrightarrow> T (PartitionKey t p NextPositionKey) = Some (VU64 n) \<and> valid_type_id t)
     \<and> closed m \<and> own_ops s (ba_ops b)"

lemma pending_put:
  assumes cd: "codec_laws cd" and pend: "pending cd s m b T (((t, p), n) # ps)"
    and e: "encode_value cd (VU64 n) = Inr v"
  shows "pending cd s m (push_put s (PartitionKey t p NextPositionKey) v b) T ps"
proof -
  let ?k = "PartitionKey t p NextPositionKey" and ?b = "push_put s (PartitionKey t p NextPositionKey) v b"
  have enc: "enc cd (VU64 n) = Some v" using e by (auto simp: encode_value_def ok_or_def split: option.splits)
  have ops: "ba_ops ?b = ba_ops b @ [(encode_key s ?k, v)]" by (simp add: push_put_def)
  have T: "T ?k = Some (VU64 n)" "valid_type_id t"
    using pend unfolding pending_def by (meson list.set_intros(1))+
  have "rep_at cd s (ops_map m (ba_ops ?b)) T k"
    if "valid_key k" "\<forall>t p n. ((t, p), n) \<in> set ps \<longrightarrow> k \<noteq> PartitionKey t p NextPositionKey" for k
  proof (cases "k = ?k")
    case True
    have "dec cd KU64 v = Some (VU64 n)" using cd enc by (metis codec_laws_def value_kind.simps(4))
    with True T(1) show ?thesis by (simp add: rep_at_def push_put_def)
  next
    case False
    with that T(2) have "encode_key s k \<noteq> encode_key s ?k" using encode_key_inject [of k ?k] by auto
    then have "fmlookup (ops_map m (ba_ops ?b)) (encode_key s k) = fmlookup (ops_map m (ba_ops b)) (encode_key s k)"
      by (simp only: ops) simp
    moreover have "rep_at cd s (ops_map m (ba_ops b)) T k" using that False pend by (auto simp: pending_def)
    ultimately show ?thesis using rep_at_cong [of T k T] by blast
  qed
  moreover have "own_ops s (ba_ops ?b)"
    by (rule own_ops_put [of s "ba_ops b" ?k _ v]) (use pend T(2) in \<open>simp_all add: ops pending_def\<close>)
  ultimately show ?thesis using pend by (simp add: pending_def)
qed

lemma position_puts_pending:
  assumes "codec_laws cd" "pending cd s m b T ps" "position_puts cd s ps b = Inr b'"
  shows "rep cd s (ops_map m (ba_ops b')) T \<and> ba_new_events b' = ba_new_events b \<and> own_ops s (ba_ops b')"
  using assms(2,3)
proof (induction ps arbitrary: b)
  case Nil
  then show ?case by (auto simp: pending_def rep_def intro: own_ops_closed)
next
  case (Cons x ps)
  obtain t p n where x: "x = ((t, p), n)" by (metis prod.collapse)
  with Cons.prems(2) obtain v where v: "encode_value cd (VU64 n) = Inr v"
      "position_puts cd s ps (push_put s (PartitionKey t p NextPositionKey) v b) = Inr b'"
    by (auto simp: rbind_Inr_iff)
  with Cons.IH [OF pending_put [OF assms(1) Cons.prems(1) [unfolded x] v(1)] v(2)] show ?case
    by (simp add: push_put_def)
qed

lemma batch_pending:
  assumes "batch_inv cd s m b T"
  shows "pending cd s m b T (sorted_list_of_fmap (ba_positions b))"
  unfolding pending_def
proof (intro conjI allI impI)
  note inv = assms [unfolded batch_inv_def]
  fix t p n assume "((t, p), n) \<in> set (sorted_list_of_fmap (ba_positions b))"
  then have look: "fmlookup (ba_positions b) (t, p) = Some n" by simp
  from inv [THEN conjunct2, THEN conjunct1] fmdomI [OF look] show t: "valid_type_id t" by blast
  have "key_inv cd s m b T (PartitionKey t p NextPositionKey)" using inv t by simp
  then show "T (PartitionKey t p NextPositionKey) = Some (VU64 n)" using look by (simp add: key_inv_def)
next
  fix k assume k: "valid_key k"
    "\<forall>t p n. ((t, p), n) \<in> set (sorted_list_of_fmap (ba_positions b)) \<longrightarrow> k \<noteq> PartitionKey t p NextPositionKey"
  have inv: "key_inv cd s m b T k" using assms k(1) by (simp add: batch_inv_def)
  show "rep_at cd s (ops_map m (ba_ops b)) T k"
  proof (cases "is_next k")
    case True
    then obtain t p where tp: "k = PartitionKey t p NextPositionKey" by (cases k rule: is_next.cases) auto
    with k(2) have "fmlookup (ba_positions b) (t, p) = None"
      by (cases "fmlookup (ba_positions b) (t, p)") auto
    with inv tp show ?thesis by (simp add: key_inv_def)
  qed (use inv in \<open>simp add: key_inv_def\<close>)
next
  show "closed m" "own_ops s (ba_ops b)" using assms by (simp_all add: batch_inv_def)
qed

section \<open>Published events\<close>

text \<open>What an entry publishes to the subscribers: the event of an append that stored one.\<close>

fun spec_published :: "(bytes \<Rightarrow> u128) \<Rightarrow> 'm shard \<Rightarrow> 'm EntryPayload \<Rightarrow> AggregateEvent list" where
  "spec_published h T (Normal (RqAggregateAppend t p g a expected event hlc)) =
     (if spec_idempotency T t p (nev_event_id event) = None
      then (case snd (spec_append h T t p g a expected event hlc) of
              RsAggregateAppendOk v pos \<Rightarrow> [stored_event t p a v pos event hlc] | _ \<Rightarrow> [])
      else [])"
| "spec_published h T _ = []"

fun spec_publications :: "(bytes \<Rightarrow> u128) \<Rightarrow> 'm shard \<Rightarrow> 'm Entry list \<Rightarrow> AggregateEvent list" where
  "spec_publications h T [] = []"
| "spec_publications h T (e # es) =
     spec_published h T (en_payload e) @ spec_publications h (fst (spec_payload h T (en_payload e))) es"

lemma readers_keep_events:
  "batch_aggregate_version kv cd st b t p a = Inr (b', v) \<Longrightarrow> ba_new_events b' = ba_new_events b"
  "batch_aggregate_state kv cd st b t p a = Inr (b', s) \<Longrightarrow> ba_new_events b' = ba_new_events b"
  "batch_aggregate_partition_fence kv cd st b t p = Inr (b', f) \<Longrightarrow> ba_new_events b' = ba_new_events b"
  "batch_aggregate_partition_position kv cd st b t p = Inr (b', n) \<Longrightarrow> ba_new_events b' = ba_new_events b"
  "batch_idempotency kv cd st b t p u = Inr (b', r) \<Longrightarrow> ba_new_events b' = ba_new_events b"
  by (auto simp: batch_aggregate_version_def batch_aggregate_state_def batch_aggregate_partition_fence_def
      batch_aggregate_partition_position_def batch_idempotency_def rbind_Inr_iff Let_def split: option.splits)

definition emits :: "AggregateEvent list \<Rightarrow> (EsResponse \<Rightarrow> AggregateEvent list)
    \<Rightarrow> (ApplyBatch \<times> EsResponse, Error) result \<Rightarrow> bool" where
  "emits evs E m \<longleftrightarrow> (\<forall>b r. m = Inr (b, r) \<longrightarrow> ba_new_events b = evs @ E r)"

lemma emits_rbind: "(\<And>x. m = Inr x \<Longrightarrow> emits evs E (f x)) \<Longrightarrow> emits evs E (rbind m f)"
  by (auto simp: emits_def rbind_Inr_iff)

lemma emits_version:
  "(\<And>b' x. ba_new_events b' = ba_new_events b \<Longrightarrow> emits evs E (f (b', x)))
     \<Longrightarrow> emits evs E (rbind (batch_aggregate_version kv cd st b t p a) f)"
  by (rule emits_rbind) (auto dest: readers_keep_events)

lemma emits_state:
  "(\<And>b' x. ba_new_events b' = ba_new_events b \<Longrightarrow> emits evs E (f (b', x)))
     \<Longrightarrow> emits evs E (rbind (batch_aggregate_state kv cd st b t p a) f)"
  by (rule emits_rbind) (auto dest: readers_keep_events)

lemma emits_fence:
  "(\<And>b' x. ba_new_events b' = ba_new_events b \<Longrightarrow> emits evs E (f (b', x)))
     \<Longrightarrow> emits evs E (rbind (batch_aggregate_partition_fence kv cd st b t p) f)"
  by (rule emits_rbind) (auto dest: readers_keep_events)

lemma emits_position:
  "(\<And>b' x. ba_new_events b' = ba_new_events b \<Longrightarrow> emits evs E (f (b', x)))
     \<Longrightarrow> emits evs E (rbind (batch_aggregate_partition_position kv cd st b t p) f)"
  by (rule emits_rbind) (auto dest: readers_keep_events)

lemmas emits_reads = emits_version emits_state emits_fence emits_position

lemma emits_Inr: "ba_new_events b = evs @ E r \<Longrightarrow> emits evs E (Inr (b, r))"
  by (simp add: emits_def)

lemma emits_if: "(c \<Longrightarrow> emits evs E x) \<Longrightarrow> (\<not> c \<Longrightarrow> emits evs E y) \<Longrightarrow> emits evs E (if c then x else y)"
  by simp

lemma emits_option:
  "(v = None \<Longrightarrow> emits evs E x) \<Longrightarrow> (\<And>z. v = Some z \<Longrightarrow> emits evs E (y z)) \<Longrightarrow> emits evs E (case v of None \<Rightarrow> x | Some z \<Rightarrow> y z)"
  by (cases v) auto

lemma emits_sum:
  "(\<And>z. v = Inl z \<Longrightarrow> emits evs E (x z)) \<Longrightarrow> (\<And>z. v = Inr z \<Longrightarrow> emits evs E (y z)) \<Longrightarrow>
     emits evs E (case v of Inl z \<Rightarrow> x z | Inr z \<Rightarrow> y z)"
  by (cases v) auto

lemma append_writes_events:
  "append_writes cd s b e fp npos = Inr b' \<Longrightarrow> ba_new_events b' = ba_new_events b @ [e]"
  by (auto simp: append_writes_def push_put_def rbind_Inr_iff Let_def)

definition append_emission :: "AggregateTypeId \<Rightarrow> u16 \<Rightarrow> string \<Rightarrow> NewAggregateEvent \<Rightarrow> Hlc \<Rightarrow> EsResponse \<Rightarrow> AggregateEvent list" where
  "append_emission t p a event hlc r =
     (case r of RsAggregateAppendOk v pos \<Rightarrow> [stored_event t p a v pos event hlc] | _ \<Rightarrow> [])"

lemma append_checked_events:
  "emits (ba_new_events b) (append_emission t p a event hlc)
     (append_checked kv cd st b t p g a expected event hlc fp)"
  unfolding append_checked_def
  by ((rule emits_if emits_reads emits_option emits_Inr | rule emits_rbind | simp only: prod.case
        | (simp add: append_emission_def append_writes_events stored_event_def; fail))+)

lemma put_state_keeps_events: "emits (ba_new_events b) (\<lambda>_. []) (apply_put_aggregate_state kv cd st b t p g a er d hlc)"
  unfolding apply_put_aggregate_state_def put_state_checked_def
  by ((rule emits_sum emits_if emits_reads emits_option emits_Inr | rule emits_rbind
        | simp only: prod.case Let_def split_beta fst_conv snd_conv | (simp add: push_put_def; fail))+)

lemma fence_keeps_events: "emits (ba_new_events b) (\<lambda>_. []) (apply_aggregate_partition_fence kv cd st b t p g)"
  unfolding apply_aggregate_partition_fence_def
  by ((rule emits_sum emits_if emits_reads emits_option emits_Inr | rule emits_rbind
        | simp only: prod.case Let_def split_beta fst_conv snd_conv | (simp add: push_put_def; fail))+)

lemma catalog_keeps_events: "emits (ba_new_events b) (\<lambda>_. []) (apply_aggregate_catalog_command h kv cd st b c)"
  unfolding apply_aggregate_catalog_command_def
  by ((rule emits_sum emits_if emits_reads emits_option emits_Inr | rule emits_rbind
        | simp only: prod.case Let_def split_beta fst_conv snd_conv | (simp add: push_put_def; fail))+)

lemma group_catalog_keeps_events: "emits (ba_new_events b) (\<lambda>_. []) (apply_aggregate_group_catalog_command kv cd st b c)"
  unfolding apply_aggregate_group_catalog_command_def
  by ((rule emits_sum emits_if emits_reads emits_option emits_Inr | rule emits_rbind
        | simp only: prod.case Let_def split_beta fst_conv snd_conv | (simp add: push_put_def; fail))+)

lemma group_partition_keeps_events: "emits (ba_new_events b) (\<lambda>_. []) (apply_aggregate_group_partition kv cd st b t p g n e s settings c)"
  unfolding apply_aggregate_group_partition_def
  by ((rule emits_sum emits_if emits_reads emits_option emits_Inr | rule emits_rbind
        | simp only: prod.case Let_def split_beta fst_conv snd_conv | (simp add: push_put_def; fail))+)

lemmas handlers_keep_events = put_state_keeps_events fence_keeps_events catalog_keeps_events
  group_catalog_keeps_events group_partition_keeps_events

lemma emitsD: "emits evs E m \<Longrightarrow> m = Inr (b, r) \<Longrightarrow> ba_new_events b = evs @ E r"
  by (simp add: emits_def)

lemma request_published:
  assumes inv: "computes kv view cd st b T" and run: "apply_request h kv cd st b req = Inr (b', r)"
  shows "ba_new_events b' = ba_new_events b @ spec_published h T (Normal req)"
proof (cases "\<exists>t p g a expected event hlc. req = RqAggregateAppend t p g a expected event hlc")
  case False
  with run show ?thesis by (cases req) (auto dest: emitsD [OF handlers_keep_events(1)] emitsD [OF handlers_keep_events(2)]
        emitsD [OF handlers_keep_events(3)] emitsD [OF handlers_keep_events(4)] emitsD [OF handlers_keep_events(5)])
next
  case True
  then obtain t p g a expected event hlc where req: "req = RqAggregateAppend t p g a expected event hlc" by blast
  with run have run: "apply_aggregate_append h kv cd st b t p g a expected event hlc = Inr (b', r)" by simp
  have r: "r = snd (spec_append h T t p g a expected event hlc)" using append_spec [OF inv run] by simp
  show ?thesis
  proof (cases "valid_type_id t \<and> valid_identifier a \<and> nev_event_type event \<noteq> []")
    case False
    with run show ?thesis
      by (auto simp: req apply_aggregate_append_def spec_append_def invalid_of_def split: sum.splits if_splits)
  next
    case True
    with run obtain b1 x where x: "batch_idempotency kv cd st b t p (nev_event_id event) = Inr (b1, x)"
      by (auto simp: apply_aggregate_append_def rbind_Inr_iff Let_def)
    have I: "x = spec_idempotency T t p (nev_event_id event)"
      using idempotency_read [OF inv _ x] True by simp
    show ?thesis
      using run True x r I [symmetric] readers_keep_events(5) [OF x]
        append_checked_events [of b1 t p a event hlc kv cd st g expected]
      by (auto simp: req apply_aggregate_append_def rbind_Inr_iff emits_def append_emission_def Let_def
          split: option.splits if_splits)
  qed
qed

lemma entries_published:
  assumes "computes kv view cd st b T" "revision_room T (length entries)"
    and "apply_entries h kv cd st b la mem entries = Inr (b', la', mem', rs)"
  shows "ba_new_events b' = ba_new_events b @ spec_publications h T entries"
  using assms
proof (induction entries arbitrary: b T la mem rs)
  case Nil
  then show ?case by simp
next
  case (Cons e es)
  note room = revision_room_step [OF Cons.prems(2) [simplified]]
  from Cons.prems(3) obtain b1 mem1 r rs' where
    step: "apply_entries h kv cd st b la mem [e] = Inr (b1, Some (en_log_id e), mem1, [r])"
    and rest: "apply_entries h kv cd st b1 (Some (en_log_id e)) mem1 es = Inr (b', la', mem', rs')"
    by (auto simp: rbind_Inr_iff split_beta)
  have "revision_room T (length [e])" using Cons.prems(2) by (simp add: revision_room_def)
  from entries_spec [OF Cons.prems(1) this step]
  have b1: "computes kv view cd st b1 (fst (spec_payload h T (en_payload e)))" by simp
  have "ba_new_events b1 = ba_new_events b @ spec_published h T (en_payload e)"
    using step request_published [OF Cons.prems(1), of h]
    by (cases "en_payload e") (auto simp: rbind_Inr_iff split_beta)
  with Cons.IH [OF b1 room(2) rest] show ?case by simp
qed

lemma cached_empty: "cached empty_batch k = None"
  by (cases "(empty_batch, k)" rule: cached.cases) (auto simp: empty_batch_def)

lemma empty_batch_computes:
  assumes "kv_laws kv view" "codec_laws cd" "rep cd (es_shard_id st) (view (es_tree st)) T"
  shows "computes kv view cd st empty_batch T"
proof -
  have "ba_ops empty_batch = []" "ba_positions empty_batch = fmempty" by (simp_all add: empty_batch_def)
  with assms show ?thesis by (simp add: computes_def batch_inv_def key_inv_def touched_def rep_def cached_empty)
qed

lemma fold_puts: "fold apply_kv_op (map (\<lambda>(k, v). KvSet k v) ops) m = ops_map m ops"
  by (induction ops arbitrary: m) auto

definition applied_state :: "('db, 'm) EsStorage \<Rightarrow> 'm Entry list \<Rightarrow> 'm AppliedState" where
  "applied_state st entries =
     \<lparr>ap_last_applied = (if entries = [] then es_last_applied st else Some (en_log_id (last entries))),
      ap_membership = or_default (es_membership st) (fold latest_membership entries None)\<rparr>"

lemma sm_apply_refines:
  assumes kv: "kv_laws kv view" and cd: "codec_laws cd"
    and R: "rep cd (es_shard_id st) (view (es_tree st)) T" and room: "revision_room T (length entries)"
    and run: "sm_apply h kv cd st entries = Inr (st', responses)"
  shows "rep cd (es_shard_id st') (view (es_tree st'))
      ((spec_run h T entries)(AppliedStateKey \<mapsto> VApplied (applied_state st entries)))
    \<and> responses = spec_responses h T entries
    \<and> es_broadcast st' = es_broadcast st @ spec_publications h T entries
    \<and> es_last_applied st' = ap_last_applied (applied_state st entries)
    \<and> es_membership st' = ap_membership (applied_state st entries)
    \<and> (\<exists>ops. own_ops (es_shard_id st) ops \<and> view (es_tree st') = ops_map (view (es_tree st)) ops)"
proof -
  let ?s = "es_shard_id st" and ?T = "spec_run h T entries" and ?a = "applied_state st entries"
  from run obtain b la mem b1 v db where
    entries: "apply_entries h kv cd st empty_batch None None entries = Inr (b, la, mem, responses)"
    and puts: "position_puts cd ?s (sorted_list_of_fmap (ba_positions b)) b = Inr b1"
    and v: "encode_value cd (VApplied \<lparr>ap_last_applied = (case la of Some l \<Rightarrow> Some l | None \<Rightarrow> es_last_applied st),
        ap_membership = (case mem of Some m \<Rightarrow> m | None \<Rightarrow> es_membership st)\<rparr>) = Inr v"
    and commit: "kv_commit kv (es_tree st) (map (\<lambda>(k, v). KvSet k v) (ba_ops (push_put ?s AppliedStateKey v b1))) = Inr db"
    and st': "st' = st\<lparr>es_tree := db, es_last_applied := (case la of Some l \<Rightarrow> Some l | None \<Rightarrow> es_last_applied st),
        es_membership := (case mem of Some m \<Rightarrow> m | None \<Rightarrow> es_membership st),
        es_broadcast := es_broadcast st @ ba_new_events b1\<rparr>"
    by (auto simp: sm_apply_def es_commit_def rbind_Inr_iff Let_def map_err_Inr_iff push_put_def)
  note start = empty_batch_computes [OF kv cd R]
  note E = entries_spec [OF start room entries]
  have a: "?a = \<lparr>ap_last_applied = (case la of Some l \<Rightarrow> Some l | None \<Rightarrow> es_last_applied st),
      ap_membership = (case mem of Some m \<Rightarrow> m | None \<Rightarrow> es_membership st)\<rparr>"
    using E by (simp add: applied_state_def or_default_def)
  have "batch_inv cd ?s (view (es_tree st)) b ?T" using E by (simp add: computes_def)
  note P = position_puts_pending [OF cd batch_pending [OF this] puts]
  have db: "view db = fmupd (encode_key ?s AppliedStateKey) v (ops_map (view (es_tree st)) (ba_ops b1))"
    using kv commit by (simp add: kv_laws_def fold_puts push_put_def)
  have e: "enc cd (VApplied ?a) = Some v"
    using v a by (auto simp: encode_value_def ok_or_def split: option.splits)
  have "rep_at cd ?s (view db) (?T(AppliedStateKey \<mapsto> VApplied ?a)) k" if "valid_key k" for k
  proof (cases "k = AppliedStateKey")
    case True
    have "dec cd KApplied v = Some (VApplied ?a)" using cd e by (metis codec_laws_def value_kind.simps(11))
    with True db show ?thesis by (simp add: rep_at_def)
  next
    case False
    with that have "encode_key ?s k \<noteq> encode_key ?s AppliedStateKey" using encode_key_inject [of k AppliedStateKey] by auto
    then have "fmlookup (view db) (encode_key ?s k) = fmlookup (ops_map (view (es_tree st)) (ba_ops b1)) (encode_key ?s k)"
      using db by simp
    moreover have "rep_at cd ?s (ops_map (view (es_tree st)) (ba_ops b1)) ?T k" using P that by (simp add: rep_def)
    ultimately show ?thesis
      using rep_at_cong [of "?T(AppliedStateKey \<mapsto> VApplied ?a)" k ?T "view db" ?s] False by simp
  qed
  moreover have "ba_new_events b1 = spec_publications h T entries"
    using P entries_published [OF start room entries] by (simp add: empty_batch_def)
  moreover have own: "own_ops ?s (ba_ops b1 @ [(encode_key ?s AppliedStateKey, v)])"
    by (rule own_ops_put [of ?s "ba_ops b1" AppliedStateKey _ v]) (use P in simp_all)
  moreover have tree: "view db = ops_map (view (es_tree st)) (ba_ops b1 @ [(encode_key ?s AppliedStateKey, v)])"
    using db by simp
  moreover from this have "closed (view db)" using own_ops_closed [OF _ own] R by (simp add: rep_def)
  ultimately show ?thesis using E a by (auto simp: st' rep_def)
qed

text \<open>The shards that share the store keep what they had.\<close>

lemma rep_foreign:
  assumes "rep cd s' m T'" "own_ops s ops" "s' \<noteq> s"
  shows "rep cd s' (ops_map m ops) T'"
proof -
  have "rep_at cd s' (ops_map m ops) T' k" if "valid_key k" for k
    using rep_at_cong [of T' k T' "ops_map m ops" s' m cd] own_ops_foreign [OF assms(2,3) that, of m] assms(1) that
    by (simp add: rep_def)
  with own_ops_closed [OF _ assms(2)] assms(1) show ?thesis by (simp add: rep_def)
qed

section \<open>When a batch cannot fail\<close>

text \<open>The only sources of failure are the store and the encoder.\<close>

lemma ok_rbind: "\<not> is_err m \<Longrightarrow> (\<And>x. m = Inr x \<Longrightarrow> \<not> is_err (f x)) \<Longrightarrow> \<not> is_err (rbind m f)"
  by (cases m) auto

lemma ok_rbind_Inr [simp]: "is_err (rbind m (\<lambda>x. Inr (g x))) \<longleftrightarrow> is_err m"
  by (cases m) auto

lemma ok_encode: "codec_total cd \<Longrightarrow> \<not> is_err (encode_value cd v)"
  by (simp add: codec_total_def encode_value_def ok_or_def split: option.split)

definition projects :: "('m sm_value \<Rightarrow> 'x option) \<Rightarrow> sm_kind \<Rightarrow> bool" where
  "projects proj kind \<longleftrightarrow> (\<forall>v. value_kind v = kind \<longrightarrow> proj v \<noteq> None)"

lemma projects [simp]: "projects as_meta KMeta" "projects as_u64 KU64" "projects as_state KState"
  "projects as_idempotency KIdempotency" "projects as_catalog KCatalog" "projects as_group_catalog KGroupCatalog"
  "projects as_group_partition KGroupPartition" "projects as_event KEvent" "projects as_pointer KPointer"
  "projects as_hlc KHlc" "projects as_applied KApplied"
  by (auto simp: projects_def dest!: value_kind_cases)

lemma read_typed_ok:
  assumes "kv_reliable kv" "kv_laws kv view" "codec_laws cd" "rep_at cd (es_shard_id st) (view (es_tree st)) T k"
    and "projects proj (key_kind k)"
  shows "\<not> is_err (read_typed kv cd st k proj)"
proof -
  obtain x where x: "kv_get kv (es_tree st) (encode_key (es_shard_id st) k) = Inr x"
    using assms(1) by (auto simp: kv_reliable_def is_err_iff) (metis obj_sumE)
  with assms(2) have look: "x = fmlookup (view (es_tree st)) (encode_key (es_shard_id st) k)" by (auto simp: kv_laws_def)
  show ?thesis
  proof (cases "T k")
    case None
    with assms(4) x look show ?thesis
      by (simp add: rep_at_def read_typed_def read_value_def es_get_def)
  next
    case (Some v)
    with assms(4) look obtain b where b: "x = Some b" "dec cd (key_kind k) b = Some v" by (auto simp: rep_at_def)
    with assms(3,5) obtain y where "proj v = Some y" by (fastforce simp: codec_laws_def projects_def)
    with x b show ?thesis by (simp add: read_typed_def read_value_def es_get_def decode_value_def ok_or_def)
  qed
qed

lemma miss_ok:
  fixes T :: "'m shard"
  assumes "computes kv view cd st b T" "kv_reliable kv" "valid_key k" "cacheable k"
    "cached b k = (None :: 'm sm_value option option)" "projects proj (key_kind k)"
  shows "\<not> is_err (read_typed kv cd st k proj)"
  using assms read_typed_ok [of kv view cd st T k proj] batch_miss [of cd "es_shard_id st" "view (es_tree st)" b T k]
  by (simp add: computes_def)

lemma ok_version:
  assumes "computes kv view cd st b T" "kv_reliable kv" "valid_key (PartitionKey t p (MetaKey a))"
    and "\<And>b' x. computes kv view cd st b' T \<Longrightarrow> \<not> is_err (f (b', x))"
  shows "\<not> is_err (rbind (batch_aggregate_version kv cd st b t p a) f)"
proof (rule ok_rbind)
  show "\<not> is_err (batch_aggregate_version kv cd st b t p a)"
    using miss_ok [OF assms(1-3), of as_meta]
    by (auto simp: batch_aggregate_version_def read_aggregate_meta_def Let_def split: option.split)
qed (use assms(1,3,4) version_read in force)

lemma ok_state:
  assumes "computes kv view cd st b T" "kv_reliable kv" "valid_key (PartitionKey t p (StateKey a))"
    and "\<And>b' x. computes kv view cd st b' T \<Longrightarrow> \<not> is_err (f (b', x))"
  shows "\<not> is_err (rbind (batch_aggregate_state kv cd st b t p a) f)"
proof (rule ok_rbind)
  show "\<not> is_err (batch_aggregate_state kv cd st b t p a)"
    using miss_ok [OF assms(1-3), of as_state]
    by (auto simp: batch_aggregate_state_def read_aggregate_state_def split: option.split)
qed (use assms(1,3,4) state_read in force)

lemma ok_fence:
  assumes "computes kv view cd st b T" "kv_reliable kv" "valid_key (PartitionKey t p FenceKey)"
    and "\<And>b' x. computes kv view cd st b' T \<Longrightarrow> \<not> is_err (f (b', x))"
  shows "\<not> is_err (rbind (batch_aggregate_partition_fence kv cd st b t p) f)"
proof (rule ok_rbind)
  show "\<not> is_err (batch_aggregate_partition_fence kv cd st b t p)"
    using miss_ok [OF assms(1-3), of as_u64]
    by (auto simp: batch_aggregate_partition_fence_def unwrap_or_def split: option.split)
qed (use assms(1,3,4) fence_read in force)

lemma ok_idempotency:
  assumes "computes kv view cd st b T" "kv_reliable kv" "valid_key (PartitionKey t p (IdempotencyKey u))"
    and "\<And>b' x. computes kv view cd st b' T \<Longrightarrow> \<not> is_err (f (b', x))"
  shows "\<not> is_err (rbind (batch_idempotency kv cd st b t p u) f)"
proof (rule ok_rbind)
  show "\<not> is_err (batch_idempotency kv cd st b t p u)"
    using miss_ok [OF assms(1-3), of as_idempotency]
    by (auto simp: batch_idempotency_def split: option.split)
qed (use assms(1,3,4) idempotency_read in force)

lemma ok_position:
  assumes "computes kv view cd st b T" "kv_reliable kv" "valid_type_id t"
    and "\<And>b' x. \<not> is_err (f (b', x))"
  shows "\<not> is_err (rbind (batch_aggregate_partition_position kv cd st b t p) f)"
proof (rule ok_rbind)
  show "\<not> is_err (batch_aggregate_partition_position kv cd st b t p)"
    using miss_ok [OF assms(1,2), of "PartitionKey t p NextPositionKey" as_u64] assms(3)
    by (auto simp: batch_aggregate_partition_position_def unwrap_or_def split: option.split)
qed (use assms(4) in auto)

lemma append_writes_ok: "codec_total cd \<Longrightarrow> \<not> is_err (append_writes cd s b e fp npos)"
  unfolding append_writes_def Let_def by (intro ok_rbind ok_encode) auto

lemma ok_if: "(c \<Longrightarrow> \<not> is_err x) \<Longrightarrow> (\<not> c \<Longrightarrow> \<not> is_err y) \<Longrightarrow> \<not> is_err (if c then x else y)"
  by simp

lemma ok_option:
  "(v = None \<Longrightarrow> \<not> is_err x) \<Longrightarrow> (\<And>z. v = Some z \<Longrightarrow> \<not> is_err (y z)) \<Longrightarrow> \<not> is_err (case v of None \<Rightarrow> x | Some z \<Rightarrow> y z)"
  by (cases v) auto

lemma ok_sum:
  "(\<And>z. v = Inl z \<Longrightarrow> \<not> is_err (x z)) \<Longrightarrow> (\<And>z. v = Inr z \<Longrightarrow> \<not> is_err (y z)) \<Longrightarrow>
     \<not> is_err (case v of Inl z \<Rightarrow> x z | Inr z \<Rightarrow> y z)"
  by (cases v) auto

lemmas ok_cached = ok_version ok_state ok_fence ok_idempotency ok_position
lemmas ok_branches = ok_if ok_option ok_sum

lemma append_checked_ok:
  assumes "computes kv view cd st b T" and k: "kv_reliable kv" "codec_total cd" "valid_type_id t" "valid_identifier a"
  shows "\<not> is_err (append_checked kv cd st b t p g a expected event hlc fp)"
  using assms(1) unfolding append_checked_def
  by - (rule ok_cached, assumption, rule k, simp add: k,
      (simp only: prod.case | rule ok_branches is_err_simps | (rule ok_cached, assumption, rule k, (simp add: k; fail))
        | rule ok_rbind [OF append_writes_ok [OF k(2)]])+)

lemma append_ok:
  assumes C: "computes kv view cd st b T" and k: "kv_reliable kv" "codec_total cd"
  shows "\<not> is_err (apply_aggregate_append h kv cd st b t p g a expected event hlc)"
  unfolding apply_aggregate_append_def Let_def
  by (intro ok_branches ok_idempotency [OF C k(1)]) (auto simp: k append_checked_ok split: option.split)

lemma put_state_ok:
  assumes C: "computes kv view cd st b T" and k: "kv_reliable kv" "codec_total cd"
  shows "\<not> is_err (apply_put_aggregate_state kv cd st b t p g a expected data hlc)"
  using C unfolding apply_put_aggregate_state_def put_state_checked_def Let_def
  by - ((simp only: prod.case | rule ok_branches is_err_simps | (rule ok_cached, assumption, rule k, (simp; fail))
        | rule ok_rbind [OF ok_encode [OF k(2)]])+)

lemma fence_ok:
  assumes C: "computes kv view cd st b T" and k: "kv_reliable kv" "codec_total cd"
  shows "\<not> is_err (apply_aggregate_partition_fence kv cd st b t p g)"
  using C unfolding apply_aggregate_partition_fence_def Let_def
  by - ((simp only: prod.case | rule ok_branches is_err_simps | (rule ok_cached, assumption, rule k, (simp; fail))
        | rule ok_rbind [OF ok_encode [OF k(2)]])+)

lemma catalog_ok:
  assumes C: "computes kv view cd st b T" and k: "kv_reliable kv" "codec_total cd"
  shows "\<not> is_err (apply_aggregate_catalog_command h kv cd st b c)"
proof -
  have "\<not> is_err (case ba_catalog b of Some c \<Rightarrow> Inr c | None \<Rightarrow> read_aggregate_catalog kv cd st)"
    using miss_ok [OF C k(1), of CatalogKey as_catalog]
    by (simp add: read_aggregate_catalog_def unwrap_or_def split: option.split)
  then show ?thesis unfolding apply_aggregate_catalog_command_def Let_def split_beta
    by (rule ok_rbind) (simp add: ok_encode k)
qed

lemma group_catalog_ok:
  assumes C: "computes kv view cd st b T" and k: "kv_reliable kv" "codec_total cd"
  shows "\<not> is_err (apply_aggregate_group_catalog_command kv cd st b c)"
proof -
  have "\<not> is_err (case ba_group_catalog b of Some c \<Rightarrow> Inr c | None \<Rightarrow> read_aggregate_group_catalog kv cd st)"
    using miss_ok [OF C k(1), of GroupCatalogKey as_group_catalog]
    by (simp add: read_aggregate_group_catalog_def unwrap_or_def split: option.split)
  then show ?thesis unfolding apply_aggregate_group_catalog_command_def Let_def split_beta
    by (rule ok_rbind) (simp add: ok_encode k)
qed

lemma group_partition_ok:
  assumes C: "computes kv view cd st b T" and k: "kv_reliable kv" "codec_total cd"
  shows "\<not> is_err (apply_aggregate_group_partition kv cd st b t p g n e s settings c)"
proof -
  have read: "\<not> is_err (case fmlookup (ba_group_partitions b') (t, p, n) of Some s \<Rightarrow> Inr s
      | None \<Rightarrow> unwrap_or d (read_aggregate_group_partition kv cd st t p n))"
    if "computes kv view cd st b' T" "valid_type_id t" "valid_identifier n" for b' d
    using miss_ok [OF that(1) k(1), of "PartitionKey t p (GroupPartitionKey n)" as_group_partition] that
    by (simp add: read_aggregate_group_partition_def unwrap_or_def split: option.split)
  show ?thesis
    using C unfolding apply_aggregate_group_partition_def Let_def split_beta
    by - ((simp only: fst_conv snd_conv | rule ok_branches is_err_simps | (rule ok_fence, assumption, rule k, (simp; fail))
        | rule ok_rbind [OF ok_encode [OF k(2)]] | (rule ok_rbind [OF read], assumption, (simp; fail), (simp; fail)))+)
qed

lemma request_ok:
  "computes kv view cd st b T \<Longrightarrow> kv_reliable kv \<Longrightarrow> codec_total cd \<Longrightarrow> \<not> is_err (apply_request h kv cd st b req)"
  by (cases req) (simp_all add: append_ok put_state_ok fence_ok catalog_ok group_catalog_ok group_partition_ok)

lemma entries_ok:
  assumes "computes kv view cd st b T" "revision_room T (length entries)" "kv_reliable kv" "codec_total cd"
  shows "\<not> is_err (apply_entries h kv cd st b la mem entries)"
  using assms(1,2)
proof (induction entries arbitrary: b T la mem)
  case Nil
  then show ?case by simp
next
  case (Cons e es)
  note room = revision_room_step [OF Cons.prems(2) [simplified]]
  have ok: "\<not> is_err (case en_payload e of
              Blank \<Rightarrow> Inr (b, mem, RsNoop)
            | Normal req \<Rightarrow> rbind (apply_request h kv cd st b req) (\<lambda>(b, r). Inr (b, mem, r))
            | Membership m \<Rightarrow> Inr (b, Some \<lparr>sm_log_id = Some (en_log_id e), sm_config = m\<rparr>, RsNoop))"
    using request_ok [OF Cons.prems(1) assms(3,4)] 
    by (cases "en_payload e") (simp_all add: ok_rbind split_beta)
  have room1: "revision_room T (length [e])" using Cons.prems(2) by (simp add: revision_room_def)
  show ?case
    unfolding apply_entries.simps(2)
  proof (rule ok_rbind [OF ok])
    fix x assume x: "(case en_payload e of
              Blank \<Rightarrow> Inr (b, mem, RsNoop)
            | Normal req \<Rightarrow> rbind (apply_request h kv cd st b req) (\<lambda>(b, r). Inr (b, mem, r))
            | Membership m \<Rightarrow> Inr (b, Some \<lparr>sm_log_id = Some (en_log_id e), sm_config = m\<rparr>, RsNoop)) = (Inr x :: (_, Error) result)"
    obtain b1 mem1 r where x': "x = (b1, mem1, r)" by (metis prod.collapse)
    with x have "apply_entries h kv cd st b la mem [e] = Inr (b1, Some (en_log_id e), mem1, [r])" by simp
    from entries_spec [OF Cons.prems(1) room1 this]
    have "computes kv view cd st b1 (fst (spec_payload h T (en_payload e)))" by simp
    from Cons.IH [OF this room(2)] show "\<not> is_err (case x of (b, mem, r) \<Rightarrow>
        rbind (apply_entries h kv cd st b (Some (en_log_id e)) mem es) (\<lambda>(b, la, mem, rs). Inr (b, la, mem, r # rs)))"
      by (simp add: x' split_beta ok_rbind)
  qed
qed

lemma position_puts_ok: "codec_total cd \<Longrightarrow> \<not> is_err (position_puts cd s ps b)"
  by (induction cd s ps b rule: position_puts.induct) (simp_all add: ok_rbind ok_encode)

lemma sm_apply_ok:
  assumes "kv_laws kv view" "codec_laws cd" "rep cd (es_shard_id st) (view (es_tree st)) T"
    "revision_room T (length entries)" and rel: "kv_reliable kv" "codec_total cd"
  shows "\<exists>st' responses. sm_apply h kv cd st entries = Inr (st', responses)"
proof -
  have commit: "\<not> is_err (es_commit kv st ops)" for ops
    using rel(1) by (simp add: es_commit_def kv_reliable_def is_err_def map_err_def split: sum.splits)
  have "\<not> is_err (sm_apply h kv cd st entries)"
    unfolding sm_apply_def Let_def split_beta
    by (intro ok_rbind entries_ok [OF empty_batch_computes [OF assms(1-3)] assms(4) rel] position_puts_ok
        ok_encode commit rel) simp
  then show ?thesis by (cases "sm_apply h kv cd st entries") auto
qed

section \<open>Batching and recovery\<close>

text \<open>No request reads or writes the applied-state record.\<close>

lemma spec_reads_applied [simp]:
  "spec_version (T(AppliedStateKey := x)) t p a = spec_version T t p a"
  "spec_fence (T(AppliedStateKey := x)) t p = spec_fence T t p"
  "spec_head (T(AppliedStateKey := x)) t p = spec_head T t p"
  "spec_state (T(AppliedStateKey := x)) t p a = spec_state T t p a"
  "spec_idempotency (T(AppliedStateKey := x)) t p u = spec_idempotency T t p u"
  "spec_catalog (T(AppliedStateKey := x)) = spec_catalog T"
  "spec_group_catalog (T(AppliedStateKey := x)) = spec_group_catalog T"
  "spec_group_partition (T(AppliedStateKey := x)) t p g = spec_group_partition T t p g"
  by (simp_all add: spec_version_def spec_fence_def spec_head_def spec_state_def spec_idempotency_def
      spec_catalog_def spec_group_catalog_def spec_group_partition_def at_def)

lemma spec_append_event_applied [simp]:
  "spec_append_event (T(AppliedStateKey := x)) e fp n = (spec_append_event T e fp n)(AppliedStateKey := x)"
  by (rule ext) (simp add: spec_append_event_def Let_def)

lemma spec_payload_applied:
  "spec_payload h (T(AppliedStateKey := x)) pl =
     ((fst (spec_payload h T pl))(AppliedStateKey := x), snd (spec_payload h T pl))"
proof (cases pl)
  case (Normal req)
  have twist: "f(AppliedStateKey := x, k := y) = f(k := y, AppliedStateKey := x)" if "k \<noteq> AppliedStateKey"
    for k y and f :: "'a shard"
    using that by (rule fun_upd_twist [OF not_sym])
  show ?thesis
    by (cases req)
      (simp_all add: Normal spec_append_def spec_put_state_def spec_install_fence_def spec_catalog_command_def
        spec_group_command_def spec_group_step_def Let_def twist split: sum.split option.split prod.split)
qed simp_all

lemma spec_run_applied:
  "spec_run h (T(AppliedStateKey := x)) es = (spec_run h T es)(AppliedStateKey := x)"
  "spec_responses h (T(AppliedStateKey := x)) es = spec_responses h T es"
  by (induction es arbitrary: T) (simp_all add: spec_payload_applied)

lemma spec_published_applied: "spec_published h (T(AppliedStateKey := x)) pl = spec_published h T pl"
  by (cases "(h, T, pl)" rule: spec_published.cases)
    (simp_all add: arg_cong [OF spec_payload_applied [where pl = "Normal (RqAggregateAppend _ _ _ _ _ _ _)", simplified], of snd])

lemma spec_publications_applied: "spec_publications h (T(AppliedStateKey := x)) es = spec_publications h T es"
  by (induction es arbitrary: T) (simp_all add: spec_published_applied spec_payload_applied)

lemma spec_publications_append:
  "spec_publications h T (xs @ ys) = spec_publications h T xs @ spec_publications h (spec_run h T xs) ys"
  by (induction xs arbitrary: T) simp_all

lemma revision_room_run:
  "revision_room T (length xs + n) \<Longrightarrow> revision_room (spec_run h T xs) n"
proof (induction xs arbitrary: T)
  case (Cons e es)
  then show ?case using revision_room_step(2) [of T "length es + n" h "en_payload e"] by simp
qed simp

lemma shard_id_kept: "sm_apply h kv cd st entries = Inr (st', rs) \<Longrightarrow> es_shard_id st' = es_shard_id st"
  by (auto simp: sm_apply_def es_commit_def rbind_Inr_iff Let_def)

lemma applied_state_append:
  assumes "es_last_applied st1 = ap_last_applied (applied_state st xs)"
    "es_membership st1 = ap_membership (applied_state st xs)"
  shows "applied_state st1 ys = applied_state st (xs @ ys)"
proof -
  have "or_default (or_default d m) (fold latest_membership ys None) = or_default d (fold latest_membership ys m)" for d m
  proof (induction ys rule: rev_induct)
    case (snoc y ys)
    then show ?case by (cases "en_payload y") (simp_all add: latest_membership_def or_default_def)
  qed (simp add: or_default_def)
  with assms show ?thesis by (simp add: applied_state_def)
qed

section \<open>Properties\<close>

text \<open>C1: applying a batch of Raft entries implements the shard specification. Over any store and
  any value encoding that obey their laws, and a store that represents the shard \<open>T\<close>: if the batch
  is applied, the store afterwards represents exactly the shard the specification computes entry by
  entry together with the record of the last applied log id and membership, the responses and the
  published events are the specification's, and the in-memory applied state agrees with the stored
  one. With a store and an encoder that do not fail the batch is always applied.\<close>

theorem sm_apply_refines_spec:
  assumes "kv_laws kv view" "codec_laws cd" "rep cd (es_shard_id st) (view (es_tree st)) T"
    and "revision_room T (length entries)"
  shows "(\<forall>st' responses. sm_apply h kv cd st entries = Inr (st', responses) \<longrightarrow>
      rep cd (es_shard_id st') (view (es_tree st'))
        ((spec_run h T entries)(AppliedStateKey \<mapsto> VApplied (applied_state st entries)))
      \<and> responses = spec_responses h T entries
      \<and> es_broadcast st' = es_broadcast st @ spec_publications h T entries
      \<and> es_last_applied st' = ap_last_applied (applied_state st entries)
      \<and> es_membership st' = ap_membership (applied_state st entries))
    \<and> (kv_reliable kv \<and> codec_total cd \<longrightarrow>
      (\<exists>st' responses. sm_apply h kv cd st entries = Inr (st', responses)))"
  using sm_apply_refines [OF assms] sm_apply_ok [OF assms] by blast

definition sample_storage :: "((bytes, bytes) fmap, unit) EsStorage" where
  "sample_storage = \<lparr>es_shard_id = 1, es_tree = fmempty, es_last_applied = None,
     es_membership = \<lparr>sm_log_id = None, sm_config = ()\<rparr>, es_broadcast = []\<rparr>"

definition sample_shard :: "unit shard" where
  "sample_shard = (\<lambda>_. None)"

definition sample_entry :: "u64 \<Rightarrow> unit EntryPayload \<Rightarrow> unit Entry" where
  "sample_entry n pl = \<lparr>en_log_id = \<lparr>li_term = 1, li_node = 1, li_index = n\<rparr>, en_payload = pl\<rparr>"

definition sample_append :: "u64 \<Rightarrow> uuid \<Rightarrow> unit EntryPayload" where
  "sample_append generation u = Normal (RqAggregateAppend (AggregateTypeId ''a'' ''b'') 3 generation ''x'' Any
     \<lparr>nev_event_id = u, nev_event_type = ''e'', nev_data = [], nev_metadata = []\<rparr> (Hlc 5 0))"

definition sample_fence :: "unit EntryPayload" where
  "sample_fence = Normal (RqInstallAggregatePartitionFence (AggregateTypeId ''a'' ''b'') 3 1)"

lemma sample_storage_rep:
  "rep sample_codec (es_shard_id sample_storage) (es_tree sample_storage) sample_shard"
  by (simp add: rep_def rep_at_def closed_def sample_storage_def sample_shard_def)

lemma sample_room: "n < 1000 \<Longrightarrow> revision_room sample_shard n"
  by (simp add: revision_room_def spec_group_catalog_def at_def or_default_def sample_shard_def
      AggregateGroupCatalog_default_def)

lemma sample_responses:
  "spec_responses (\<lambda>_. 7) sample_shard
     [sample_entry 1 (sample_append 0 8), sample_entry 2 sample_fence, sample_entry 3 (sample_append 0 9),
      sample_entry 4 (sample_append 0 8), sample_entry 5 (sample_append 1 9)]
   = [RsAggregateAppendOk 0 0, RsAggregatePartitionFenceInstalled 1, RsAggregatePartitionFenced 1,
      RsAggregateAppendOk 0 0, RsAggregateAppendOk 1 1]"
  by code_simp

definition sample_entries :: "unit Entry list" where
  "sample_entries = [sample_entry 1 (sample_append 0 8), sample_entry 2 sample_fence,
     sample_entry 3 (sample_append 0 9), sample_entry 4 (sample_append 0 8), sample_entry 5 (sample_append 1 9)]"

theorem sm_apply_refines_spec_witness:
  "\<exists>st'. sm_apply (\<lambda>_. 7) map_kv sample_codec sample_storage sample_entries =
     Inr (st', [RsAggregateAppendOk 0 0, RsAggregatePartitionFenceInstalled 1, RsAggregatePartitionFenced 1,
       RsAggregateAppendOk 0 0, RsAggregateAppendOk 1 1])"
proof -
  have "revision_room sample_shard (length sample_entries)" by (rule sample_room) (simp add: sample_entries_def)
  from sm_apply_refines_spec [OF map_kv_laws sample_codec_laws sample_storage_rep this, of "\<lambda>_. 7"]
  show ?thesis
    using map_kv_reliable sample_codec_total sample_responses unfolding sample_entries_def by auto
qed

text \<open>C2: how the log is cut into batches does not matter. Applying \<open>xs\<close> and then \<open>ys\<close>, each with its
  own commit, and applying \<open>xs @ ys\<close> at once give the same responses and published events, the same
  applied log id and membership, and stores that represent the same shard.\<close>

theorem apply_batches_compose:
  assumes laws: "kv_laws kv view" "codec_laws cd" and R: "rep cd (es_shard_id st) (view (es_tree st)) T"
    and room: "revision_room T (length (xs @ ys))"
    and first: "sm_apply h kv cd st xs = Inr (st1, r1)" and second: "sm_apply h kv cd st1 ys = Inr (st2, r2)"
    and both: "sm_apply h kv cd st (xs @ ys) = Inr (st3, r3)"
  shows "r3 = r1 @ r2 \<and> es_broadcast st3 = es_broadcast st2
    \<and> es_last_applied st3 = es_last_applied st2 \<and> es_membership st3 = es_membership st2
    \<and> (\<exists>T'. rep cd (es_shard_id st) (view (es_tree st2)) T' \<and> rep cd (es_shard_id st) (view (es_tree st3)) T')"
proof -
  have room1: "revision_room T (length xs)" using room by (simp add: revision_room_def)
  note A = sm_apply_refines [OF laws R room1 first]
  let ?T1 = "(spec_run h T xs)(AppliedStateKey \<mapsto> VApplied (applied_state st xs))"
  have room2: "revision_room ?T1 (length ys)"
    using revision_room_run [of T xs "length ys" h] room by (simp add: revision_room_def)
  note B = sm_apply_refines [OF laws A [THEN conjunct1] room2 second]
  note C = sm_apply_refines [OF laws R room both]
  have ap: "applied_state st1 ys = applied_state st (xs @ ys)"
    using A applied_state_append by blast
  have ids: "es_shard_id st2 = es_shard_id st" "es_shard_id st3 = es_shard_id st"
    using shard_id_kept first second both by metis+
  have "rep cd (es_shard_id st) (view (es_tree st2))
      ((spec_run h T (xs @ ys))(AppliedStateKey \<mapsto> VApplied (applied_state st (xs @ ys))))"
    using B by (simp add: spec_run_applied ap ids)
  with C have "\<exists>T'. rep cd (es_shard_id st) (view (es_tree st2)) T' \<and> rep cd (es_shard_id st) (view (es_tree st3)) T'"
    by (auto simp: ids)
  with A B C show ?thesis
    by (simp add: spec_run_applied spec_publications_applied spec_publications_append ap)
qed

theorem apply_batches_compose_witness:
  "\<exists>st1 r1 st2 r2 st3 r3. sm_apply (\<lambda>_. 7) map_kv sample_codec sample_storage (take 2 sample_entries) = Inr (st1, r1)
     \<and> sm_apply (\<lambda>_. 7) map_kv sample_codec st1 (drop 2 sample_entries) = Inr (st2, r2)
     \<and> sm_apply (\<lambda>_. 7) map_kv sample_codec sample_storage sample_entries = Inr (st3, r3)
     \<and> r3 = r1 @ r2 \<and> es_broadcast st3 = es_broadcast st2"
proof -
  let ?h = "\<lambda>_. 7 :: u128" and ?xs = "take 2 sample_entries" and ?ys = "drop 2 sample_entries"
  note L = map_kv_laws sample_codec_laws and T = map_kv_reliable sample_codec_total
  have n: "length sample_entries = 5" by (simp add: sample_entries_def)
  have room: "revision_room sample_shard (length ?xs + length ?ys)" "revision_room sample_shard (length (?xs @ ?ys))"
    "revision_room sample_shard (length ?xs)" by (rule sample_room, simp add: n)+
  obtain st1 r1 where 1: "sm_apply ?h map_kv sample_codec sample_storage ?xs = Inr (st1, r1)"
    using sm_apply_ok [OF L sample_storage_rep room(3) T] by blast
  note A = sm_apply_refines [OF L sample_storage_rep room(3) 1]
  have "revision_room ((spec_run ?h sample_shard ?xs)(AppliedStateKey \<mapsto> VApplied (applied_state sample_storage ?xs)))
      (length ?ys)"
    using revision_room_run [OF room(1), of ?h] by (simp add: revision_room_def)
  then obtain st2 r2 where 2: "sm_apply ?h map_kv sample_codec st1 ?ys = Inr (st2, r2)"
    using sm_apply_ok [OF L A [THEN conjunct1] _ T] by blast
  obtain st3 r3 where 3: "sm_apply ?h map_kv sample_codec sample_storage (?xs @ ?ys) = Inr (st3, r3)"
    using sm_apply_ok [OF L sample_storage_rep room(2) T] by blast
  from apply_batches_compose [OF L sample_storage_rep room(2) 1 2 3] 1 2 3 show ?thesis by auto
qed

end
