(* ===== verification/Scans.thy ===== *)
theory Scans
  imports Apply_Batch
begin

text \<open>
  Range scans over a store that represents a shard. \<open>prefix_scan\<close> turns a scan of byte keys into a
  list of logical keys in order: it is instantiated for the index of a partition, the states of a
  partition and the Raft log.
\<close>

section \<open>Scans over a finite map\<close>

lemma range_of_eq:
  assumes "sorted ks" "distinct ks" "set ks = {k. k |\<in>| fmdom m \<and> lo \<le> k \<and> k < hi}"
  shows "range_of m lo hi = map (\<lambda>k. (k, the (fmlookup m k))) ks"
proof -
  let ?P = "\<lambda>k. lo \<le> k \<and> k < hi"
  have "filter ?P (sorted_list_of_fset (fmdom m)) = ks"
  proof (rule sorted_distinct_set_unique)
    show "sorted (filter ?P (sorted_list_of_fset (fmdom m)))"
      by (rule sorted_wrt_filter) (rule sorted_sorted_list_of_fset)
    show "set (filter ?P (sorted_list_of_fset (fmdom m))) = set ks"
      by (auto simp: assms(3) sorted_list_of_fset.rep_eq)
  qed (simp_all add: assms(1,2))
  moreover have "range_of m lo hi = map (\<lambda>k. (k, the (fmlookup m k))) (filter ?P (sorted_list_of_fset (fmdom m)))"
    by (simp add: range_of_def sorted_list_of_fmap_def filter_map comp_def)
  ultimately show ?thesis by simp
qed

text \<open>The numbers from \<open>lo\<close> up to \<open>hi\<close>.\<close>

definition upto_u64 :: "u64 \<Rightarrow> u64 \<Rightarrow> u64 list" where
  "upto_u64 lo hi = map of_nat [unat lo..<unat hi]"

lemma set_upto_u64: "set (upto_u64 lo hi) = {n. lo \<le> n \<and> n < hi}"
proof (intro set_eqI iffI)
  fix n assume "n \<in> set (upto_u64 lo hi)"
  then obtain i where i: "n = of_nat i" "unat lo \<le> i" "i < unat hi" by (auto simp: upto_u64_def)
  then have "unat n = i" using unat_le_max [of hi] by (simp add: unat_of_nat)
  with i show "n \<in> {n. lo \<le> n \<and> n < hi}" by (simp add: word_le_nat_alt word_less_nat_alt)
next
  fix n assume "n \<in> {n. lo \<le> n \<and> n < hi}"
  then have "unat n \<in> {unat lo..<unat hi}" by (simp add: word_le_nat_alt word_less_nat_alt)
  then have "(of_nat (unat n) :: u64) \<in> of_nat ` {unat lo..<unat hi}" by (rule imageI)
  then show "n \<in> set (upto_u64 lo hi)" by (simp add: upto_u64_def)
qed

lemma sorted_upto_u64: "sorted_wrt (<) (upto_u64 lo hi)"
proof -
  have "sorted_wrt (\<lambda>i j. (of_nat i :: u64) < of_nat j) [unat lo..<unat hi]"
  proof (rule sorted_wrt_mono_rel [OF _ sorted_wrt_upt [of "unat lo" "unat hi"]])
    fix i j assume ij: "i \<in> set [unat lo..<unat hi]" "j \<in> set [unat lo..<unat hi]" "i < j"
    then have "i < 2 ^ 64" "j < 2 ^ 64" using unat_le_max [of hi] by auto
    with ij(3) show "(of_nat i :: u64) < of_nat j" by (simp add: word_less_nat_alt unat_of_nat)
  qed
  then show ?thesis by (simp add: upto_u64_def sorted_wrt_map)
qed

lemma length_upto_u64 [simp]: "length (upto_u64 lo hi) = unat hi - unat lo"
  by (simp add: upto_u64_def)

lemma nth_upto_u64: "i < unat hi - unat lo \<Longrightarrow> upto_u64 lo hi ! i = lo + of_nat i"
  by (simp add: upto_u64_def)

lemma sorted_map_strict:
  "sorted_wrt (<) xs \<Longrightarrow> (\<And>x y. f x < f y \<longleftrightarrow> x < y) \<Longrightarrow> sorted (map f xs) \<and> distinct (map f xs)"
  for f :: "'x::linorder \<Rightarrow> 'y::linorder"
  by (metis (no_types, lifting) sorted_wrt_map sorted_wrt_mono_rel strict_sorted_iff)

lemma rep_dom:
  assumes "rep cd s m T" "valid_key k"
  shows "encode_key s k |\<in>| fmdom m \<longleftrightarrow> T k \<noteq> None"
  using assms by (auto simp: rep_def rep_at_def fmlookup_dom_iff split: option.splits dest!: spec [of _ k])

text \<open>A scan inside the range of a prefix, where the keys with that prefix are \<open>f x\<close>.\<close>

lemma prefix_scan:
  fixes f :: "'x::linorder \<Rightarrow> store_key" and T :: "'m shard"
  assumes R: "rep cd s m T" and succ: "successor pre = Some e" and bounds: "pre \<le> lo" "hi \<le> e"
    and own: "\<And>s' k. valid_key k \<Longrightarrow> prefix pre (encode_key s' k) \<longleftrightarrow> s' = s \<and> (\<exists>x. k = f x)"
    and mono: "\<And>x y. encode_key s (f x) < encode_key s (f y) \<longleftrightarrow> x < y"
    and range: "\<And>x. valid_key (f x) \<Longrightarrow> lo \<le> encode_key s (f x) \<and> encode_key s (f x) < hi \<longleftrightarrow> P x"
    and xs: "sorted_wrt (<) xs" "set xs = {x. valid_key (f x) \<and> T (f x) \<noteq> None \<and> P x}"
  shows "range_of m lo hi = map (\<lambda>x. (encode_key s (f x), the (fmlookup m (encode_key s (f x))))) xs"
proof -
  let ?key = "\<lambda>x. encode_key s (f x)"
  have "set (map ?key xs) = {k. k |\<in>| fmdom m \<and> lo \<le> k \<and> k < hi}"
  proof (intro set_eqI iffI)
    fix k assume "k \<in> set (map ?key xs)"
    then show "k \<in> {k. k |\<in>| fmdom m \<and> lo \<le> k \<and> k < hi}"
      using xs(2) range rep_dom [OF R] by auto
  next
    fix k assume "k \<in> {k. k |\<in>| fmdom m \<and> lo \<le> k \<and> k < hi}"
    then have k: "k |\<in>| fmdom m" "lo \<le> k" "k < hi" by simp_all
    from R k(1) obtain s' j where j': "valid_key j" "k = encode_key s' j" by (auto simp: rep_def closed_def)
    have "pre \<le> k" "k < e" using bounds k(2,3) by simp_all
    then have "prefix pre k" using successor_range [of pre k] succ by simp
    with j' own obtain x where x: "j = f x" and j: "valid_key j" "k = encode_key s j" by auto
    have "T (f x) \<noteq> None" using rep_dom [OF R, of "f x"] j x k(1) by simp
    moreover have "P x" using range [of x] j x k(2,3) by simp
    ultimately show "k \<in> set (map ?key xs)" using xs(2) j x by simp
  qed
  with sorted_map_strict [OF xs(1), of ?key, OF mono] show ?thesis
    using range_of_eq [of "map ?key xs" m lo hi] by (simp add: comp_def)
qed

lemma prefix_le: "successor pre = Some e \<Longrightarrow> prefix pre k \<Longrightarrow> pre \<le> k \<and> k < e"
  using successor_range [of pre k] by simp

text \<open>Every stored value of a represented key decodes to it.\<close>

lemma rep_value:
  assumes "rep cd s m T" "valid_key k" "T k = Some v"
  shows "fmlookup m (encode_key s k) \<noteq> None" "dec cd (key_kind k) (the (fmlookup m (encode_key s k))) = Some v"
  using assms by (auto simp: rep_def rep_at_def dest!: spec [of _ k])

end
