(* ===== verification/Shard_Reads.thy ===== *)
theory Shard_Reads
  imports Shard_History Apply_Refinement Scans
begin

text \<open>
  The range reads of a shard (\<open>read_aggregate_partition_events\<close>, \<open>list_aggregate_partition_states\<close>)
  over a store that represents a sound shard: what a scan of byte keys returns, in terms of
  positions, aggregate ids and events.
\<close>

section \<open>The index scan of a partition\<close>

definition event_at :: "'m shard \<Rightarrow> AggregateTypeId \<Rightarrow> u16 \<Rightarrow> u64 \<Rightarrow> AggregateEvent option" where
  "event_at T t p n = Option.bind (spec_index T t p n) (\<lambda>(a, v). spec_event T t p a v)"

lemma index_scan:
  assumes R: "rep cd s m T" and cd: "codec_laws cd" and wf: "wf_stream T t p" and t: "valid_type_id t"
    and e: "successor (sm_aggregate_partition_index_prefix s t p) = Some end_key"
  shows "range_of m (sm_aggregate_partition_index s t p pos) end_key =
    map (\<lambda>n. (sm_aggregate_partition_index s t p n, the (fmlookup m (sm_aggregate_partition_index s t p n))))
      (upto_u64 pos (spec_head T t p))"
proof -
  let ?f = "\<lambda>n. PartitionKey t p (IndexKey n)" and ?pre = "sm_aggregate_partition_index_prefix s t p"
  have key: "encode_key s (?f n) = sm_aggregate_partition_index s t p n" for n by simp
  have pre: "prefix ?pre (sm_aggregate_partition_index s t p n)" for n
    using index_prefix_iff [of "?f n" t s p s] t by simp
  have kind: "T (?f n) \<noteq> None \<longleftrightarrow> n < spec_head T t p" for n
    using at_cases [OF cd, of s m T "?f n"] R t wf_streamD(1) [OF wf, of n]
    by (auto simp: rep_def spec_index_def at_def simp del: not_None_eq dest!: value_kind_cases)
  have "range_of m (sm_aggregate_partition_index s t p pos) end_key =
      map (\<lambda>n. (encode_key s (?f n), the (fmlookup m (encode_key s (?f n))))) (upto_u64 pos (spec_head T t p))"
  proof (rule prefix_scan [OF R e, where P = "\<lambda>n. pos \<le> n"])
    show "sm_aggregate_partition_index s t p pos \<le> encode_key s (?f n) \<and> encode_key s (?f n) < end_key \<longleftrightarrow> pos \<le> n" for n
      using prefix_le [OF e pre [of n]] key_less_iff(1) [of s t p n pos] by (simp add: not_less [symmetric])
    show "prefix ?pre (encode_key s' k) \<longleftrightarrow> s' = s \<and> (\<exists>n. k = ?f n)" if "valid_key k" for s' k
      using index_prefix_iff [OF that t, of s p s'] by simp
    show "set (upto_u64 pos (spec_head T t p)) = {n. valid_key (?f n) \<and> T (?f n) \<noteq> None \<and> pos \<le> n}"
      using kind t by (auto simp: set_upto_u64)
  qed (use prefix_le [OF e pre [of pos]] in \<open>simp_all add: key_less_iff sorted_upto_u64\<close>)
  then show ?thesis by simp
qed

text \<open>Each pointer of the index resolves to the event at its position.\<close>

lemma event_at_pointer:
  assumes R: "rep cd s m T" and cd: "codec_laws cd" and wf: "wf_stream T t p" and t: "valid_type_id t"
    and n: "n < spec_head T t p"
  obtains a v e where "T (PartitionKey t p (IndexKey n)) = Some (VPointer a v)" "event_at T t p n = Some e"
    "spec_event T t p a v = Some e" "ev_partition_position e = n"
proof -
  from n obtain a v where av: "spec_index T t p n = Some (a, v)"
    using wf_streamD(1) [OF wf, of n] by auto
  then obtain e where e: "spec_event T t p a v = Some e" "ev_partition_position e = n"
    using wf_streamD(2) [OF wf] by blast
  have "T (PartitionKey t p (IndexKey n)) = Some (VPointer a v)"
    using at_cases [OF cd, of s m T "PartitionKey t p (IndexKey n)"] R t av
    by (auto simp: rep_def spec_index_def at_def dest!: value_kind_cases)
  with that e av show ?thesis by (simp add: event_at_def)
qed

lemma resolve_pointers_exact:
  assumes laws: "kv_laws kv view" "codec_laws cd" and R: "rep cd (es_shard_id st) (view (es_tree st)) T"
    and wf: "wf_stream T t p" and t: "valid_type_id t"
    and ptr: "\<And>n. ptr n = the (fmlookup (view (es_tree st)) (encode_key (es_shard_id st) (PartitionKey t p (IndexKey n))))"
    and "\<And>n. n \<in> set ns \<Longrightarrow> n < spec_head T t p"
  shows "(resolve_pointers kv cd st t p (map ptr ns) = Inr es \<longrightarrow> map (event_at T t p) ns = map Some es)
    \<and> (kv_reliable kv \<longrightarrow> \<not> is_err (resolve_pointers kv cd st t p (map ptr ns)))"
  using assms(7)
proof (induction ns arbitrary: es)
  case Nil
  then show ?case by simp
next
  case (Cons n ns)
  have "n < spec_head T t p" using Cons.prems by simp
  from event_at_pointer [OF R laws(2) wf t this] obtain a v e where
    n: "T (PartitionKey t p (IndexKey n)) = Some (VPointer a v)" "event_at T t p n = Some e"
      "spec_event T t p a v = Some e" by blast
  have dec: "dec cd KPointer (ptr n) = Some (VPointer a v)"
    using rep_value(2) [OF R _ n(1)] t ptr by simp
  have "valid_identifier a" using wf_stream_valid [OF wf n(3)] by simp
  then have ra: "rep_at cd (es_shard_id st) (view (es_tree st)) T (PartitionKey t p (EventKey a v))"
    using R t by (simp add: rep_def)
  have read: "x = Some e" if "read_aggregate_event kv cd st t p a v = Inr x" for x
    using read_typed_rep [OF laws(1) ra that [unfolded read_aggregate_event_def]] n(3) by (simp add: spec_event_def)
  have ok: "kv_reliable kv \<Longrightarrow> \<not> is_err (read_aggregate_event kv cd st t p a v)"
    unfolding read_aggregate_event_def by (rule read_typed_ok [OF _ laws ra]) simp_all
  have IH: "(resolve_pointers kv cd st t p (map ptr ns) = Inr es' \<longrightarrow> map (event_at T t p) ns = map Some es')
      \<and> (kv_reliable kv \<longrightarrow> \<not> is_err (resolve_pointers kv cd st t p (map ptr ns)))" for es'
    using Cons.IH Cons.prems by simp
  have "kv_reliable kv \<Longrightarrow> \<not> is_err (resolve_pointers kv cd st t p (map ptr (n # ns)))"
    using IH read ok by (cases "read_aggregate_event kv cd st t p a v") (auto simp: dec)
  moreover have "map (event_at T t p) (n # ns) = map Some es" if "resolve_pointers kv cd st t p (map ptr (n # ns)) = Inr es"
    using that IH read n(2) by (auto simp: dec rbind_Inr_iff split: option.splits)
  ultimately show ?case by blast
qed

lemma partition_prefix_successor: "successor (aggregate_partition_prefix s sub t p) \<noteq> None"
  by (simp add: aggregate_partition_prefix_eq successor_Cons tag_defs split: option.split)

lemma partition_read:
  fixes pos limit :: u64
  assumes laws: "kv_laws kv view" "codec_laws cd" and R: "rep cd (es_shard_id st) (view (es_tree st)) T"
    and wf: "wf_stream T t p" and t: "valid_type_id t"
  defines "ns \<equiv> (if limit = 0 then upto_u64 pos (spec_head T t p) else take (unat limit) (upto_u64 pos (spec_head T t p)))"
  shows "(read_aggregate_partition_events kv cd st t p pos limit = Inr es \<longrightarrow> map (event_at T t p) ns = map Some es)
    \<and> (kv_reliable kv \<longrightarrow> \<not> is_err (read_aggregate_partition_events kv cd st t p pos limit))"
proof -
  let ?s = "es_shard_id st" and ?key = "sm_aggregate_partition_index (es_shard_id st) t p"
  let ?ptr = "\<lambda>n. the (fmlookup (view (es_tree st)) (?key n))"
  obtain e where e: "successor (sm_aggregate_partition_index_prefix ?s t p) = Some e"
    using partition_prefix_successor unfolding sm_aggregate_partition_index_prefix_def by blast
  have "prefix (sm_aggregate_partition_index_prefix ?s t p) (?key pos)"
    using index_prefix_iff [of "PartitionKey t p (IndexKey pos)" t ?s p ?s] t by simp
  with prefix_le [OF e] have lt: "\<not> e \<le> ?key pos" by (simp add: not_le)
  have scan: "scan_values kv st (?key pos) e False limit = Inr xs \<Longrightarrow> xs = map ?ptr ns" for xs
    using laws(1) lt index_scan [OF R laws(2) wf t e, of pos]
    by (auto simp: scan_values_def es_range_def rbind_Inr_iff kv_laws_def ns_def take_map comp_def)
  have ok: "kv_reliable kv \<Longrightarrow> \<not> is_err (scan_values kv st (?key pos) e False limit)"
    using lt by (cases "kv_range kv (es_tree st) (?key pos) e")
      (auto simp: scan_values_def es_range_def kv_reliable_def Let_def is_err_iff)
  have "n < spec_head T t p" if "n \<in> set ns" for n
    using that set_upto_u64 [of pos "spec_head T t p"] by (auto simp: ns_def dest: in_set_takeD split: if_splits)
  then have P: "(resolve_pointers kv cd st t p (map ?ptr ns) = Inr es \<longrightarrow> map (event_at T t p) ns = map Some es)
      \<and> (kv_reliable kv \<longrightarrow> \<not> is_err (resolve_pointers kv cd st t p (map ?ptr ns)))"
    by (intro resolve_pointers_exact [OF laws R wf t]) simp_all
  have "read_aggregate_partition_events kv cd st t p pos limit =
      rbind (scan_values kv st (?key pos) e False limit) (resolve_pointers kv cd st t p)"
    by (simp add: read_aggregate_partition_events_def e Let_def)
  then show ?thesis
    using P scan ok by (cases "scan_values kv st (?key pos) e False limit") auto
qed

section \<open>The state listing of a partition\<close>

definition spec_document :: "'m shard \<Rightarrow> AggregateTypeId \<Rightarrow> u16 \<Rightarrow> string \<Rightarrow> AggregateStateDocument option" where
  "spec_document T t p a = map_option (\<lambda>s. \<lparr>doc_revision = st_revision s, doc_data = st_data s,
     doc_modified_hlc = or_default (Hlc 0 0) (at T (PartitionKey t p (StateModifiedKey a)) as_hlc)\<rparr>) (spec_state T t p a)"

definition listed :: "'m shard \<Rightarrow> AggregateTypeId \<Rightarrow> u16 \<Rightarrow> string option \<Rightarrow> string \<Rightarrow> bool" where
  "listed T t p after a \<longleftrightarrow> valid_identifier a \<and> spec_state T t p a \<noteq> None
     \<and> (case after of None \<Rightarrow> True | Some b \<Rightarrow> b < a)"

lemma state_scan:
  assumes R: "rep cd s m T" and cd: "codec_laws cd" and t: "valid_type_id t"
    and e: "successor (sm_aggregate_state_prefix s t p) = Some end_key"
    and start: "start = (case after of Some a \<Rightarrow> upper_including (sm_aggregate_state s t p a)
      | None \<Rightarrow> sm_aggregate_state_prefix s t p)"
    and ids: "sorted_wrt (<) ids" "set ids = {a. listed T t p after a}"
  shows "range_of m start end_key =
    map (\<lambda>a. (sm_aggregate_state s t p a, the (fmlookup m (sm_aggregate_state s t p a)))) ids"
proof -
  let ?f = "\<lambda>a. PartitionKey t p (StateKey a)" and ?pre = "sm_aggregate_state_prefix s t p"
  have pre: "prefix ?pre (sm_aggregate_state s t p a)" for a
    by (simp add: sm_aggregate_state_prefix_def sm_aggregate_state_def)
  have kind: "T (?f a) \<noteq> None \<longleftrightarrow> spec_state T t p a \<noteq> None" if "valid_identifier a" for a
    using at_cases [OF cd, of s m T "?f a"] R t that
    by (auto simp: rep_def spec_state_def at_def dest!: value_kind_cases)
  have "range_of m start end_key = map (\<lambda>a. (encode_key s (?f a), the (fmlookup m (encode_key s (?f a))))) ids"
  proof (rule prefix_scan [OF R e, where P = "\<lambda>a. case after of None \<Rightarrow> True | Some b \<Rightarrow> b < a"])
    show "?pre \<le> start"
    proof (cases after)
      case (Some b)
      have "?pre \<le> sm_aggregate_state s t p b" using prefix_le [OF e pre] by blast
      also have "sm_aggregate_state s t p b \<le> start"
        using le_iff_append_zero [of "sm_aggregate_state s t p b" "sm_aggregate_state s t p b"] Some
        by (simp add: start upper_including_def)
      finally show ?thesis .
    qed (simp add: start)
  next
    fix a
    show "start \<le> encode_key s (?f a) \<and> encode_key s (?f a) < end_key \<longleftrightarrow> (case after of None \<Rightarrow> True | Some b \<Rightarrow> b < a)"
    proof (cases after)
      case None
      then show ?thesis using prefix_le [OF e pre [of a]] by (simp add: start)
    next
      case (Some b)
      have "upper_including (sm_aggregate_state s t p b) \<le> sm_aggregate_state s t p a \<longleftrightarrow> b < a"
        using le_iff_append_zero [of "sm_aggregate_state s t p a" "sm_aggregate_state s t p b"]
          key_less_iff(2) [of s t p b a] by (auto simp: upper_including_def not_less [symmetric])
      with Some show ?thesis using prefix_le [OF e pre [of a]] by (simp add: start)
    qed
  next
    show "prefix ?pre (encode_key s' k) \<longleftrightarrow> s' = s \<and> (\<exists>a. k = ?f a)" if "valid_key k" for s' k
      using state_prefix_iff [OF that t, of s p s'] by simp
    show "set ids = {a. valid_key (?f a) \<and> T (?f a) \<noteq> None \<and> (case after of None \<Rightarrow> True | Some b \<Rightarrow> b < a)}"
      using t by (simp add: ids listed_def kind del: not_None_eq cong: conj_cong)
  qed (use ids in \<open>simp_all add: key_less_iff\<close>)
  then show ?thesis by simp
qed

lemma decode_states_exact:
  assumes laws: "kv_laws kv view" "codec_laws cd" and R: "rep cd (es_shard_id st) (view (es_tree st)) T"
    and t: "valid_type_id t" and "\<And>a. a \<in> set ids \<Longrightarrow> valid_identifier a \<and> spec_state T t p a \<noteq> None"
    and val: "\<And>a. val a = the (fmlookup (view (es_tree st)) (sm_aggregate_state (es_shard_id st) t p a))"
  shows "(decode_states kv cd st t p (map (\<lambda>a. (sm_aggregate_state (es_shard_id st) t p a, val a)) ids) = Inr es
      \<longrightarrow> map fst es = ids \<and> (\<forall>(a, d) \<in> set es. spec_document T t p a = Some d))
    \<and> (kv_reliable kv \<longrightarrow>
      \<not> is_err (decode_states kv cd st t p (map (\<lambda>a. (sm_aggregate_state (es_shard_id st) t p a, val a)) ids)))"
  using assms(5)
proof (induction ids arbitrary: es)
  case Nil
  then show ?case by simp
next
  case (Cons a ids)
  let ?s = "es_shard_id st" and ?k = "PartitionKey t p (StateModifiedKey a)"
  have a: "valid_identifier a" "spec_state T t p a \<noteq> None" using Cons.prems [of a] by simp_all
  then obtain x where x: "spec_state T t p a = Some x" by auto
  have "T (PartitionKey t p (StateKey a)) = Some (VState x)"
    using at_cases [OF laws(2), of ?s "view (es_tree st)" T "PartitionKey t p (StateKey a)"] R t a(1) x
    by (auto simp: rep_def spec_state_def at_def dest!: value_kind_cases)
  from rep_value(2) [OF R _ this] have dec: "dec cd KState (val a) = Some (VState x)" using t a(1) by (simp add: val)
  have ra: "rep_at cd ?s (view (es_tree st)) T ?k" using R t a(1) by (simp add: rep_def)
  let ?read = "unwrap_or (Hlc 0 0) (read_typed kv cd st ?k as_hlc)"
  have read: "h = or_default (Hlc 0 0) (at T ?k as_hlc)" if "?read = Inr h" for h
    using that read_typed_rep [OF laws(1) ra] by (auto simp: unwrap_or_def or_default_def rbind_Inr_iff)
  have ok: "kv_reliable kv \<Longrightarrow> \<not> is_err ?read"
    using read_typed_ok [OF _ laws ra, of as_hlc] by (simp add: unwrap_or_def)
  have key: "decode_aggregate_state_key (sm_aggregate_state ?s t p a) = Some a" by (rule decode_state_key [OF t a(1)])
  let ?xs = "map (\<lambda>a. (sm_aggregate_state ?s t p a, val a)) ids"
  have IH: "\<forall>es'. decode_states kv cd st t p ?xs = Inr es' \<longrightarrow> map fst es' = ids
      \<and> (\<forall>(a, d) \<in> set es'. spec_document T t p a = Some d)"
    "kv_reliable kv \<longrightarrow> \<not> is_err (decode_states kv cd st t p ?xs)"
    using Cons.IH Cons.prems by simp_all
  have doc: "spec_document T t p a = Some \<lparr>doc_revision = st_revision x, doc_data = st_data x,
      doc_modified_hlc = or_default (Hlc 0 0) (at T ?k as_hlc)\<rparr>"
    by (simp add: spec_document_def x)
  show ?case
    using IH read ok by (cases ?read; cases "decode_states kv cd st t p ?xs") (auto simp: key dec doc)
qed

lemma states_listing:
  fixes limit :: u64
  assumes laws: "kv_laws kv view" "codec_laws cd" and R: "rep cd (es_shard_id st) (view (es_tree st)) T"
    and t: "valid_type_id t" and ids: "sorted_wrt (<) ids" "set ids = {a. listed T t p after a}"
  defines "page \<equiv> (if limit = 0 then ids else take (unat limit) ids)"
  shows "(list_aggregate_partition_states kv cd st t p after limit = Inr es
      \<longrightarrow> map fst es = page \<and> (\<forall>(a, d) \<in> set es. spec_document T t p a = Some d))
    \<and> (kv_reliable kv \<longrightarrow> \<not> is_err (list_aggregate_partition_states kv cd st t p after limit))"
proof -
  let ?s = "es_shard_id st"
  let ?start = "case after of Some a \<Rightarrow> upper_including (sm_aggregate_state ?s t p a) | None \<Rightarrow> sm_aggregate_state_prefix ?s t p"
  obtain e where e: "successor (sm_aggregate_state_prefix ?s t p) = Some e"
    using partition_prefix_successor unfolding sm_aggregate_state_prefix_def by blast
  let ?val = "\<lambda>a. the (fmlookup (view (es_tree st)) (sm_aggregate_state ?s t p a))"
  note scan = state_scan [OF R laws(2) t e refl ids]
  have "set page \<subseteq> set ids" by (auto simp: page_def dest: in_set_takeD)
  then have D: "(decode_states kv cd st t p (map (\<lambda>a. (sm_aggregate_state ?s t p a, ?val a)) page) = Inr es
      \<longrightarrow> map fst es = page \<and> (\<forall>(a, d) \<in> set es. spec_document T t p a = Some d))
    \<and> (kv_reliable kv \<longrightarrow> \<not> is_err (decode_states kv cd st t p (map (\<lambda>a. (sm_aggregate_state ?s t p a, ?val a)) page)))"
    by (intro decode_states_exact [OF laws R t]) (use ids(2) in \<open>auto simp: listed_def\<close>)
  have xs: "(if limit = 0 then xs else take (unat limit) xs) = map (\<lambda>a. (sm_aggregate_state ?s t p a, ?val a)) page"
    if "kv_range kv (es_tree st) ?start e = Inr xs" for xs
    using that laws(1) scan by (auto simp: kv_laws_def page_def take_map)
  have "list_aggregate_partition_states kv cd st t p after limit =
      rbind (map_err Error.Storage (kv_range kv (es_tree st) ?start e)) (\<lambda>xs.
        decode_states kv cd st t p (if limit = 0 then xs else take (unat limit) xs))"
    by (simp add: list_aggregate_partition_states_def e Let_def)
  then show ?thesis
    using D xs by (cases "kv_range kv (es_tree st) ?start e") (auto simp: kv_reliable_def is_err_iff)
qed

section \<open>Properties\<close>

text \<open>C11: reading a partition returns exactly the events at the requested positions. Over a store
  that represents a sound shard, a read from \<open>pos\<close> with limit \<open>limit\<close> (0: no limit) that succeeds
  returns one event for each position from \<open>pos\<close> up to the head or the limit, in order and without
  a gap, each carrying its position; and with a store that does not fail it succeeds.\<close>

theorem partition_read_exact:
  assumes "kv_laws kv view" "codec_laws cd" "rep cd (es_shard_id st) (view (es_tree st)) T"
    and "wf_shard T" "valid_type_id t"
  shows "(\<forall>es. read_aggregate_partition_events kv cd st t p pos limit = Inr es \<longrightarrow>
      (let available = unat (spec_head T t p) - unat pos;
           n = (if limit = 0 then available else min (unat limit) available)
       in length es = n \<and> (\<forall>i<n. event_at T t p (pos + of_nat i) = Some (es ! i)
            \<and> ev_partition_position (es ! i) = pos + of_nat i)))
    \<and> (kv_reliable kv \<longrightarrow> (\<exists>es. read_aggregate_partition_events kv cd st t p pos limit = Inr es))"
proof -
  let ?h = "spec_head T t p"
  define ns where "ns = (if limit = 0 then upto_u64 pos ?h else take (unat limit) (upto_u64 pos ?h))"
  define n where "n = (if limit = 0 then unat ?h - unat pos else min (unat limit) (unat ?h - unat pos))"
  have wf: "wf_stream T t p" using assms(4) by (simp add: wf_shard_def)
  have ns: "length ns = n" "\<And>i. i < n \<Longrightarrow> ns ! i = pos + of_nat i"
    by (auto simp: ns_def n_def nth_upto_u64 min.commute)
  note P = partition_read [OF assms(1-3) wf assms(5), where pos = pos and limit = limit, folded ns_def]
  have "length es = n \<and> (\<forall>i<n. event_at T t p (pos + of_nat i) = Some (es ! i)
      \<and> ev_partition_position (es ! i) = pos + of_nat i)"
    if es: "read_aggregate_partition_events kv cd st t p pos limit = Inr es" for es
  proof (intro conjI allI impI)
    from P es have m: "map (event_at T t p) ns = map Some es" by blast
    then show len: "length es = n" using ns(1) by (metis length_map)
    fix i assume i: "i < n"
    then have "map (event_at T t p) ns ! i = map Some es ! i" by (simp only: m)
    with i len ns show ev: "event_at T t p (pos + of_nat i) = Some (es ! i)" by simp
    then obtain a v where av: "spec_index T t p (pos + of_nat i) = Some (a, v)" "spec_event T t p a v = Some (es ! i)"
      by (auto simp: event_at_def bind_eq_Some_conv)
    from wf_streamD(2) [OF wf av(1)] av(2) show "ev_partition_position (es ! i) = pos + of_nat i" by simp
  qed
  moreover have "kv_reliable kv \<longrightarrow> (\<exists>es. read_aggregate_partition_events kv cd st t p pos limit = Inr es)"
    using P by (cases "read_aggregate_partition_events kv cd st t p pos limit") auto
  ultimately show ?thesis unfolding Let_def n_def [symmetric] by blast
qed

definition read_entries :: "unit Entry list" where
  "read_entries = [sample_entry 1 (sample_append 0 8), sample_entry 2 (sample_append 0 9)]"

lemma sample_shard_empty: "sample_shard = empty_shard"
  by (simp add: sample_shard_def empty_shard_def)

lemma read_entries_stored:
  "\<exists>(st' :: ((bytes, bytes) fmap, unit) EsStorage) T. rep sample_codec (es_shard_id st') (es_tree st') T \<and> wf_shard T
     \<and> spec_head T (AggregateTypeId ''a'' ''b'') 3 = 2 \<and> valid_type_id (AggregateTypeId ''a'' ''b'')"
proof -
  let ?T = "spec_run (\<lambda>_. 7) sample_shard read_entries"
  have room: "revision_room sample_shard (length read_entries)" by (rule sample_room) (simp add: read_entries_def)
  obtain st' rs where run: "sm_apply (\<lambda>_. 7) map_kv sample_codec sample_storage read_entries = Inr (st', rs)"
    using sm_apply_ok [OF map_kv_laws sample_codec_laws sample_storage_rep room map_kv_reliable sample_codec_total] by blast
  note A = sm_apply_refines [OF map_kv_laws sample_codec_laws sample_storage_rep room run]
  have wf: "wf_shard ?T" unfolding sample_shard_empty by (rule shard.run_wf [OF empty_shard_wf])
  have "wf_shard (?T(AppliedStateKey \<mapsto> x))" for x
    using wf stream_kept [OF wf, of "?T(AppliedStateKey \<mapsto> x)"] by (simp add: wf_shard_def fun_eq_iff)
  moreover have "spec_head ?T (AggregateTypeId ''a'' ''b'') 3 = 2" by code_simp
  moreover have "\<not> is_err (AggregateTypeId_validate (AggregateTypeId ''a'' ''b''))" by code_simp
  then have "valid_type_id (AggregateTypeId ''a'' ''b'')"
    using AggregateTypeId_validate_cases [of "AggregateTypeId ''a'' ''b''"] by fastforce
  ultimately show ?thesis using A [THEN conjunct1] by (intro exI conjI) (assumption | simp)+
qed

theorem partition_read_exact_witness:
  "\<exists>st' es. read_aggregate_partition_events map_kv sample_codec st' (AggregateTypeId ''a'' ''b'') 3 1 0 = Inr es
     \<and> length es = 1 \<and> ev_partition_position (es ! 0) = 1"
proof -
  from read_entries_stored obtain st' :: "((bytes, bytes) fmap, unit) EsStorage" and T
    where S: "rep sample_codec (es_shard_id st') (es_tree st') T" "wf_shard T"
      "spec_head T (AggregateTypeId ''a'' ''b'') 3 = 2" "valid_type_id (AggregateTypeId ''a'' ''b'')" by blast
  note P = partition_read_exact [OF map_kv_laws sample_codec_laws S(1,2,4), of 3 1 0]
  from P map_kv_reliable obtain es where
    es: "read_aggregate_partition_events map_kv sample_codec st' (AggregateTypeId ''a'' ''b'') 3 1 0 = Inr es" by blast
  with P S(3) have "length es = 1" "ev_partition_position (es ! 0) = 1" by (auto simp: Let_def)
  with es show ?thesis by blast
qed

text \<open>Listing the states of a partition is a complete, ordered page. A successful listing after
  the exclusive start \<open>after\<close> returns aggregate ids in strictly ascending order, each with its stored
  document, at most \<open>limit\<close> of them (0: no limit), and leaves out an id that qualifies only when the
  page is full and the id comes after everything on it; and with a store that does not fail it
  succeeds.\<close>

lemma states_listing_complete:
  assumes "kv_laws kv view" "codec_laws cd" "rep cd (es_shard_id st) (view (es_tree st)) T" "valid_type_id t"
  shows "(\<forall>es. list_aggregate_partition_states kv cd st t p after limit = Inr es \<longrightarrow>
      sorted_wrt (<) (map fst es)
      \<and> (\<forall>(a, d) \<in> set es. listed T t p after a \<and> spec_document T t p a = Some d)
      \<and> (limit = 0 \<or> length es \<le> unat limit)
      \<and> (\<forall>a. listed T t p after a \<and> a \<notin> fst ` set es \<longrightarrow>
           limit \<noteq> 0 \<and> length es = unat limit \<and> (\<forall>b \<in> fst ` set es. b < a)))
    \<and> (kv_reliable kv \<longrightarrow> (\<exists>es. list_aggregate_partition_states kv cd st t p after limit = Inr es))"
proof -
  let ?A = "{a. listed T t p after a}"
  define ids where "ids = sorted_list_of_set ?A"
  have "encode_key (es_shard_id st) (PartitionKey t p (StateKey a)) |\<in>| fmdom (view (es_tree st))" if "a \<in> ?A" for a
    using that rep_dom [OF assms(3), of "PartitionKey t p (StateKey a)"] assms(4)
    by (auto simp: listed_def spec_state_def at_def)
  moreover have "inj (\<lambda>a. encode_key (es_shard_id st) (PartitionKey t p (StateKey a)))"
    by (auto simp: inj_def sm_aggregate_state_def)
  ultimately have "finite ?A"
    by (intro inj_on_finite [of "\<lambda>a. encode_key (es_shard_id st) (PartitionKey t p (StateKey a))" _ "fset (fmdom (view (es_tree st)))"])
      (auto simp: inj_def inj_on_def)
  then have ids: "sorted_wrt (<) ids" "set ids = ?A" by (simp_all add: ids_def)
  define page where "page = (if limit = 0 then ids else take (unat limit) ids)"
  note P = states_listing [OF assms ids, where limit = limit, folded page_def]
  have split: "page @ drop (length page) ids = ids" by (auto simp: page_def min_def)
  then have sorted: "sorted_wrt (<) page" "\<And>a b. a \<in> set page \<Longrightarrow> b \<in> set (drop (length page) ids) \<Longrightarrow> a < b"
    using ids(1) by (metis sorted_wrt_append)+
  have rest: "limit \<noteq> 0 \<and> length page = unat limit \<and> (\<forall>b \<in> set page. b < a)" if "a \<in> ?A" "a \<notin> set page" for a
  proof -
    from that ids(2) split have a: "a \<in> set (drop (length page) ids)" by (metis UnE set_append)
    then have "length page < length ids" by (metis drop_all empty_iff empty_set not_le)
    then show ?thesis using sorted(2) [OF _ a] by (auto simp: page_def split: if_splits)
  qed
  have sub: "set page \<subseteq> ?A" using ids(2) split by (metis Un_upper1 set_append)
  have len: "limit = 0 \<or> length page \<le> unat limit" by (simp add: page_def)
  have "sorted_wrt (<) (map fst es)
      \<and> (\<forall>(a, d) \<in> set es. listed T t p after a \<and> spec_document T t p a = Some d)
      \<and> (limit = 0 \<or> length es \<le> unat limit)
      \<and> (\<forall>a. listed T t p after a \<and> a \<notin> fst ` set es \<longrightarrow>
           limit \<noteq> 0 \<and> length es = unat limit \<and> (\<forall>b \<in> fst ` set es. b < a))"
    if "list_aggregate_partition_states kv cd st t p after limit = Inr es" for es
  proof -
    from P that have es: "map fst es = page" "\<forall>(a, d) \<in> set es. spec_document T t p a = Some d" by blast+
    then have fst: "fst ` set es = set page" and n: "length es = length page" by (metis list.set_map, metis length_map)
    have "\<forall>(a, d) \<in> set es. listed T t p after a \<and> spec_document T t p a = Some d"
      using es(2) fst sub by force
    moreover have "\<forall>a. listed T t p after a \<and> a \<notin> fst ` set es \<longrightarrow>
        limit \<noteq> 0 \<and> length es = unat limit \<and> (\<forall>b \<in> fst ` set es. b < a)"
      unfolding fst n using rest by blast
    ultimately show ?thesis using es(1) sorted(1) len n by simp
  qed
  moreover have "kv_reliable kv \<longrightarrow> (\<exists>es. list_aggregate_partition_states kv cd st t p after limit = Inr es)"
    using P by (cases "list_aggregate_partition_states kv cd st t p after limit") auto
  ultimately show ?thesis by blast
qed

end
