(* ===== verification/Shard_Guarantees.thy ===== *)
theory Shard_Guarantees
  imports Shard_Reads
begin

text \<open>
  The guarantees of \<open>Shard_History\<close> for the state machine itself: a node starts on a store without keys
  of its shard and applies the log in batches of any size (\<open>sm_apply\<close>, each with its own commit). The
  properties speak about the responses the node gives and about what its read functions return.
\<close>

section \<open>Applying a log in batches\<close>

fun apply_all ::
  "(bytes \<Rightarrow> u128) \<Rightarrow> 'db kv \<Rightarrow> 'm codec \<Rightarrow> ('db, 'm) EsStorage \<Rightarrow> 'm Entry list list
     \<Rightarrow> (('db, 'm) EsStorage \<times> EsResponse list, Error) result" where
  "apply_all h kv cd st [] = Inr (st, [])"
| "apply_all h kv cd st (b # bs) =
     rbind (sm_apply h kv cd st b) (\<lambda>(st, r).
     rbind (apply_all h kv cd st bs) (\<lambda>(st, rs). Inr (st, r @ rs)))"

abbreviation fresh :: "('db \<Rightarrow> (bytes, bytes) fmap) \<Rightarrow> 'm codec \<Rightarrow> ('db, 'm) EsStorage \<Rightarrow> bool" where
  "fresh view cd st \<equiv> rep cd (es_shard_id st) (view (es_tree st)) empty_shard"

lemma apply_all_refines:
  assumes laws: "kv_laws kv view" "codec_laws cd"
  shows "rep cd (es_shard_id st) (view (es_tree st)) T \<Longrightarrow> revision_room T (length (concat bs)) \<Longrightarrow>
    apply_all h kv cd st bs = Inr (st', rs) \<Longrightarrow>
    (\<exists>x. rep cd (es_shard_id st') (view (es_tree st')) ((spec_run h T (concat bs))(AppliedStateKey := x)))
      \<and> rs = spec_responses h T (concat bs)"
proof (induction bs arbitrary: st T rs)
  case Nil
  then have "T(AppliedStateKey := T AppliedStateKey) = T" by simp
  with Nil show ?case by (metis apply_all.simps(1) concat.simps(1) list.simps(8) old.sum.inject(2) prod.inject
        run_commands.simps(1) run_replies.simps(1))
next
  case (Cons b bs)
  from Cons.prems(3) obtain st1 r rs1 where run: "sm_apply h kv cd st b = Inr (st1, r)"
    "apply_all h kv cd st1 bs = Inr (st', rs1)" "rs = r @ rs1"
    by (auto simp: rbind_Inr_iff)
  have room: "revision_room T (length b)" "revision_room T (length b + length (concat bs))"
    using Cons.prems(2) by (simp_all add: revision_room_def)
  note A = sm_apply_refines [OF laws Cons.prems(1) room(1) run(1)]
  let ?T1 = "(spec_run h T b)(AppliedStateKey \<mapsto> VApplied (applied_state st b))"
  have "revision_room ?T1 (length (concat bs))" using revision_room_run [OF room(2)] by (simp add: revision_room_def)
  from Cons.IH [OF A [THEN conjunct1] this run(2)] obtain x where
    x: "rep cd (es_shard_id st') (view (es_tree st')) ((spec_run h ?T1 (concat bs))(AppliedStateKey := x))"
      "rs1 = spec_responses h ?T1 (concat bs)" by blast
  from x(1) have "rep cd (es_shard_id st') (view (es_tree st')) ((spec_run h T (concat (b # bs)))(AppliedStateKey := x))"
    unfolding spec_run_applied fun_upd_upd by simp
  moreover have "rs = spec_responses h T (concat (b # bs))"
    using x(2) A run(3) unfolding spec_run_applied by simp
  ultimately show ?case by blast
qed

lemma fresh_room: "n < 2 ^ 64 \<Longrightarrow> revision_room empty_shard n"
  by (simp add: revision_room_def AggregateGroupCatalog_default_def)

lemma node_refines:
  assumes "kv_laws kv view" "codec_laws cd" "fresh view cd st" "length (concat bs) < 2 ^ 64"
    and "apply_all h kv cd st bs = Inr (st', rs)"
  obtains x where "rep cd (es_shard_id st') (view (es_tree st')) ((spec_run h empty_shard (concat bs))(AppliedStateKey := x))"
    and "rs = spec_responses h empty_shard (concat bs)"
  using apply_all_refines [OF assms(1-3) fresh_room [OF assms(4)] assms(5)] by blast

lemma spec_events_applied [simp]:
  "spec_event (T(AppliedStateKey := x)) t p a v = spec_event T t p a v"
  "spec_index (T(AppliedStateKey := x)) t p n = spec_index T t p n"
  by (simp_all add: spec_event_def spec_index_def at_def)

lemma wf_stream_applied [simp]: "wf_stream (T(AppliedStateKey := x)) t p \<longleftrightarrow> wf_stream T t p"
  by (simp add: wf_stream_def event_filed_def)

lemma wf_shard_applied [simp]: "wf_shard (T(AppliedStateKey := x)) \<longleftrightarrow> wf_shard T"
  by (simp add: wf_shard_def)

text \<open>The shard before the entry at a position of the log, and the response to that entry.\<close>

lemma response_at:
  assumes "map en_payload log = map en_payload past @ pl # rest"
  shows "spec_responses h T log ! length past = snd (spec_payload h (spec_run h T past) pl)"
  using assms by (simp add: nth_append)

lemma apply_all_ok:
  assumes "kv_laws kv view" "codec_laws cd" "kv_reliable kv" "codec_total cd"
  shows "rep cd (es_shard_id st) (view (es_tree st)) T \<Longrightarrow> revision_room T (length (concat bs)) \<Longrightarrow>
    \<exists>st' rs. apply_all h kv cd st bs = Inr (st', rs)"
proof (induction bs arbitrary: st T)
  case (Cons b bs)
  have room: "revision_room T (length b)" "revision_room T (length b + length (concat bs))"
    using Cons.prems(2) by (simp_all add: revision_room_def)
  obtain st1 r where run: "sm_apply h kv cd st b = Inr (st1, r)"
    using sm_apply_ok [OF assms(1,2) Cons.prems(1) room(1) assms(3,4)] by blast
  note A = sm_apply_refines [OF assms(1,2) Cons.prems(1) room(1) run]
  have "revision_room ((spec_run h T b)(AppliedStateKey \<mapsto> VApplied (applied_state st b))) (length (concat bs))"
    using revision_room_run [OF room(2)] by (simp add: revision_room_def)
  from Cons.IH [OF A [THEN conjunct1] this] run show ?case by auto
qed simp

lemma apply_all_append:
  "apply_all h kv cd st (xs @ ys) =
     rbind (apply_all h kv cd st xs) (\<lambda>(st, r). rbind (apply_all h kv cd st ys) (\<lambda>(st, rs). Inr (st, r @ rs)))"
proof (induction xs arbitrary: st)
  case Nil
  show ?case by (cases "apply_all h kv cd st ys") auto
next
  case (Cons x xs)
  show ?case
  proof (cases "sm_apply h kv cd st x")
    case (Inr y)
    obtain st1 r where y: "y = (st1, r)" by fastforce
    show ?thesis
    proof (cases "apply_all h kv cd st1 xs")
      case (Inr z)
      obtain st2 r2 where z: "z = (st2, r2)" by fastforce
      show ?thesis using \<open>sm_apply h kv cd st x = Inr y\<close> Inr y z Cons [of st1]
        by (cases "apply_all h kv cd st2 ys") auto
    qed (use Inr y Cons [of st1] in simp)
  qed simp
qed

text \<open>Two entries of the log, and the responses to them.\<close>

lemma two_responses:
  assumes laws: "kv_laws kv view" "codec_laws cd" "fresh view cd st0" "length (concat bs) < 2 ^ 64"
    and run: "apply_all h kv cd st0 bs = Inr (st, rs)" and log: "concat bs = past @ e1 # mid @ e2 # rest"
  defines "T \<equiv> spec_run h empty_shard past" and "U \<equiv> spec_run h (fst (spec_payload h (spec_run h empty_shard past) (en_payload e1))) mid"
  shows "rs ! length past = snd (spec_payload h T (en_payload e1))"
    and "rs ! (length past + 1 + length mid) = snd (spec_payload h U (en_payload e2))"
    and "wf_shard T"
proof -
  obtain x where rs: "rs = spec_responses h empty_shard (concat bs)" by (rule node_refines [OF laws run])
  show "rs ! length past = snd (spec_payload h T (en_payload e1))" by (simp add: rs log T_def nth_append)
  have "rs = spec_responses h empty_shard ((past @ e1 # mid) @ e2 # rest)" by (simp add: rs log)
  then show "rs ! (length past + 1 + length mid) = snd (spec_payload h U (en_payload e2))"
    unfolding map_append run_replies_append by (simp add: nth_append U_def del: append_assoc)
  show "wf_shard T" unfolding T_def by (rule shard.run_wf [OF empty_shard_wf])
qed

text \<open>An entry that appends the event with this id to this partition, accepted or not.\<close>

fun appends :: "AggregateTypeId \<Rightarrow> u16 \<Rightarrow> uuid \<Rightarrow> 'm EntryPayload \<Rightarrow> bool" where
  "appends t p u (Normal (RqAggregateAppend t' p' _ _ _ ev _)) \<longleftrightarrow> t' = t \<and> p' = p \<and> nev_event_id ev = u"
| "appends t p u _ \<longleftrightarrow> False"

lemma idempotency_kept:
  assumes "\<not> appends t p u pl"
  shows "spec_idempotency (fst (spec_payload h T pl)) t p u = spec_idempotency T t p u"
proof (cases pl)
  case (Normal req)
  show ?thesis
  proof (cases req)
    case (RqAggregateAppend t' p' g a expected ev hlc)
    have ne: "\<not> (t' = t \<and> p' = p \<and> nev_event_id ev = u)" using assms by (simp add: Normal RqAggregateAppend)
    show ?thesis
    proof (cases rule: spec_append_cases [of h T t' p' g a expected ev hlc])
      case (new v pos)
      from new(1) have "fst (spec_append h T t' p' g a expected ev hlc) = spec_append_event T (stored_event t' p' a v pos ev hlc)
          (aggregate_append_fingerprint h t' a expected ev) (pos + 1)" by (auto elim: acceptedE)
      from spec_append_event_obs(4) [OF refl this] ne show ?thesis by (auto simp: Normal RqAggregateAppend)
    qed (simp add: Normal RqAggregateAppend)
  qed (auto simp: Normal spec_put_state_def spec_install_fence_def spec_catalog_command_def spec_group_command_def
      spec_group_step_def spec_idempotency_def at_def Let_def split: sum.splits option.splits prod.splits)
qed simp_all

lemma idempotency_fresh:
  "\<forall>pl \<in> set pls. \<not> appends t p u pl \<Longrightarrow>
     spec_idempotency (run_commands (spec_payload h) T pls) t p u = spec_idempotency T t p u"
  by (induction pls arbitrary: T) (simp_all add: idempotency_kept)

section \<open>The published events\<close>

definition of_partition :: "AggregateTypeId \<Rightarrow> u16 \<Rightarrow> AggregateEvent \<Rightarrow> bool" where
  "of_partition t p e \<longleftrightarrow> ev_aggregate_type e = t \<and> ev_partition_id e = p"

lemma upto_u64_append: "a \<le> b \<Longrightarrow> b \<le> c \<Longrightarrow> upto_u64 a c = upto_u64 a b @ upto_u64 b c"
  using upt_add_eq_append [of "unat a" "unat b" "unat c - unat b"] by (simp add: upto_u64_def word_le_nat_alt)

lemma upto_u64_single: "a \<noteq> - 1 \<Longrightarrow> upto_u64 a (a + 1) = [a]"
  using unat_max_word_cases [of a] by (simp add: upto_u64_def)

lemma upto_u64_same [simp]: "upto_u64 a a = []"
  by (simp add: upto_u64_def)

lemma event_at_grows:
  assumes "wf_shard T" "shard_grows T U" "n < spec_head T t p"
  shows "event_at U t p n = event_at T t p n"
proof -
  have wf: "wf_stream T t p" using assms(1) by (simp add: wf_shard_def)
  from wf_streamD(1) [OF wf] assms(3) obtain a v where i: "spec_index T t p n = Some (a, v)" by fastforce
  from wf_streamD(2) [OF wf i] obtain e where "spec_event T t p a v = Some e" by blast
  with i shard_growsD(1,2) [OF assms(2)] show ?thesis by (simp add: event_at_def)
qed

lemma published_step:
  fixes T :: "'m shard" and h and pl
  assumes wf: "wf_shard T"
  defines "U \<equiv> fst (spec_payload h T pl)"
  shows "map Some (filter (of_partition t p) (spec_published h T pl))
       = map (event_at U t p) (upto_u64 (spec_head T t p) (spec_head U t p))"
proof (cases "\<exists>t' p' g a expected ev hlc. pl = Normal (RqAggregateAppend t' p' g a expected ev hlc)")
  case True
  then obtain t' p' g a expected ev hlc where pl: "pl = Normal (RqAggregateAppend t' p' g a expected ev hlc)" by blast
  show ?thesis
  proof (cases rule: spec_append_cases [of h T t' p' g a expected ev hlc])
    case same
    then have "spec_published h T pl = []" by (auto simp: pl split: EsResponse.splits)
    with same(1) show ?thesis by (simp add: U_def pl)
  next
    case (new v pos)
    let ?e = "stored_event t' p' a v pos ev hlc"
    from new(1) have A: "spec_idempotency T t' p' (nev_event_id ev) = None" "spec_head T t' p' = pos" "pos \<noteq> - 1"
      "U = spec_append_event T ?e (aggregate_append_fingerprint h t' a expected ev) (pos + 1)"
      by (auto simp: U_def pl elim: acceptedE)
    note O = spec_append_event_obs(1,2,5) [OF refl A(4)]
    have pub: "spec_published h T pl = [?e]" using A(1) new(2) by (simp add: pl)
    show ?thesis
    proof (cases "t' = t \<and> p' = p")
      case True
      then show ?thesis using A(2,3) by (simp add: pub O of_partition_def stored_event_def event_at_def upto_u64_single)
    next
      case False
      then have "spec_head U t p = spec_head T t p" by (auto simp: O)
      with False show ?thesis by (auto simp: pub of_partition_def stored_event_def)
    qed
  qed
next
  case False
  then have "spec_published h T pl = []" by (cases "(h, T, pl)" rule: spec_published.cases) auto
  moreover have "spec_head U t p = spec_head T t p"
  proof (cases pl)
    case (Normal req)
    then show ?thesis using False unfolding U_def
      by (cases req) (auto simp: spec_put_state_def spec_install_fence_def spec_catalog_command_def spec_group_command_def
        spec_group_step_def spec_head_def at_def Let_def split: sum.splits option.splits prod.splits)
  qed (simp_all add: U_def)
  ultimately show ?thesis by simp
qed

lemma publications_stream:
  "wf_shard T \<Longrightarrow> map Some (filter (of_partition t p) (spec_publications h T es))
     = map (event_at (spec_run h T es) t p) (upto_u64 (spec_head T t p) (spec_head (spec_run h T es) t p))"
proof (induction es arbitrary: T)
  case (Cons e es)
  let ?U = "fst (spec_payload h T (en_payload e))"
  let ?V = "spec_run h ?U es"
  have U: "wf_shard ?U" "shard_grows T ?U" using payload_step [OF Cons.prems] by simp_all
  have V: "shard_grows ?U ?V" by (rule shard.run_below [OF U(1)])
  have "map (event_at ?V t p) (upto_u64 (spec_head T t p) (spec_head ?U t p))
      = map (event_at ?U t p) (upto_u64 (spec_head T t p) (spec_head ?U t p))"
    using event_at_grows [OF U(1) V] by (auto simp: set_upto_u64)
  then have "map (event_at ?V t p) (upto_u64 (spec_head T t p) (spec_head ?V t p))
      = map (event_at ?U t p) (upto_u64 (spec_head T t p) (spec_head ?U t p))
        @ map (event_at ?V t p) (upto_u64 (spec_head ?U t p) (spec_head ?V t p))"
    unfolding upto_u64_append [OF shard_growsD(6) [OF U(2)] shard_growsD(6) [OF V]] by simp
  then show ?case
    using Cons.IH [OF U(1)] published_step [OF Cons.prems, of t p h "en_payload e"] by simp
qed simp

lemma apply_all_publishes:
  assumes laws: "kv_laws kv view" "codec_laws cd"
  shows "rep cd (es_shard_id st) (view (es_tree st)) T \<Longrightarrow> revision_room T (length (concat bs)) \<Longrightarrow>
    apply_all h kv cd st bs = Inr (st', rs) \<Longrightarrow> es_broadcast st' = es_broadcast st @ spec_publications h T (concat bs)"
proof (induction bs arbitrary: st T rs)
  case (Cons b bs)
  from Cons.prems(3) obtain st1 r rs1 where run: "sm_apply h kv cd st b = Inr (st1, r)" "apply_all h kv cd st1 bs = Inr (st', rs1)"
    by (auto simp: rbind_Inr_iff)
  have room: "revision_room T (length b)" "revision_room T (length b + length (concat bs))"
    using Cons.prems(2) by (simp_all add: revision_room_def)
  note A = sm_apply_refines [OF laws Cons.prems(1) room(1) run(1)]
  let ?T1 = "(spec_run h T b)(AppliedStateKey \<mapsto> VApplied (applied_state st b))"
  have "revision_room ?T1 (length (concat bs))" using revision_room_run [OF room(2)] by (simp add: revision_room_def)
  from Cons.IH [OF A [THEN conjunct1] this run(2)] A show ?case
    unfolding spec_publications_applied by (simp add: spec_publications_append)
qed simp

section \<open>Properties\<close>

text \<open>C5: whatever log a node has applied, in whatever batches, its store holds sound streams: the
  index of a partition covers exactly the positions below the head and agrees with the events, the
  versions of each aggregate run without a gap from 0, no event id occurs twice, every event has the
  idempotency record of its result, and both catalogs and all group partitions satisfy their invariants.
  The responses are those of applying the entries one by one.\<close>

theorem node_streams_sound:
  assumes laws: "kv_laws kv view" "codec_laws cd" "fresh view cd st0" "length (concat bs) < 2 ^ 64"
    and run: "apply_all h kv cd st0 bs = Inr (st, rs)"
  shows "(\<exists>T. rep cd (es_shard_id st) (view (es_tree st)) T \<and> wf_shard T)
    \<and> rs = spec_responses h empty_shard (concat bs)"
proof -
  obtain x where "rep cd (es_shard_id st) (view (es_tree st)) ((spec_run h empty_shard (concat bs))(AppliedStateKey := x))"
    "rs = spec_responses h empty_shard (concat bs)" by (rule node_refines [OF laws run])
  moreover have "wf_shard ((spec_run h empty_shard (concat bs))(AppliedStateKey := x))"
    by (simp add: shard.run_wf [OF empty_shard_wf])
  ultimately show ?thesis by blast
qed

text \<open>C6: nothing that was committed is ever lost or changed. What a node reads after it has applied
  more batches extends what it read before: an event stays exactly as it is, versions, heads and state
  revisions never go back, a state changes only with its revision, and no aggregate type disappears or
  changes its routing.\<close>

theorem node_history_immutable:
  assumes laws: "kv_laws kv view" "codec_laws cd" "fresh view cd st0" "length (concat (bs @ cs)) < 2 ^ 64"
    and run: "apply_all h kv cd st0 bs = Inr (st1, rs)" "apply_all h kv cd st1 cs = Inr (st2, qs)"
    and valid: "valid_type_id t" "valid_identifier a"
  shows "(\<forall>v e x. read_aggregate_event kv cd st1 t p a v = Inr (Some e) \<and> read_aggregate_event kv cd st2 t p a v = Inr x
        \<longrightarrow> x = Some e)
    \<and> (\<forall>m x. read_aggregate_meta kv cd st1 t p a = Inr (Some m) \<and> read_aggregate_meta kv cd st2 t p a = Inr x
        \<longrightarrow> (\<exists>m'. x = Some m' \<and> current_version m \<le> current_version m'))
    \<and> (\<forall>s x. read_aggregate_state kv cd st1 t p a = Inr (Some s) \<and> read_aggregate_state kv cd st2 t p a = Inr x
        \<longrightarrow> (\<exists>s'. x = Some s' \<and> (s' = s \<or> st_revision s < st_revision s')))
    \<and> (\<forall>m n. read_aggregate_partition_head kv cd st1 t p = Inr m \<and> read_aggregate_partition_head kv cd st2 t p = Inr n
        \<longrightarrow> m \<le> n)
    \<and> (\<forall>c d. read_aggregate_catalog kv cd st1 = Inr c \<and> read_aggregate_catalog kv cd st2 = Inr d \<longrightarrow> catalog_below c d)"
proof -
  let ?T = "spec_run h empty_shard (concat bs)" and ?U = "spec_run h empty_shard (concat (bs @ cs))"
  have "apply_all h kv cd st0 (bs @ cs) = Inr (st2, rs @ qs)" by (simp add: apply_all_append run)
  then obtain y where U: "rep cd (es_shard_id st2) (view (es_tree st2)) (?U(AppliedStateKey := y))"
    by (rule node_refines [OF laws])
  obtain x where T: "rep cd (es_shard_id st1) (view (es_tree st1)) (?T(AppliedStateKey := x))"
    by (rule node_refines [OF laws(1-3) _ run(1)]) (use laws(4) in simp)
  have grows: "shard_grows ?T ?U" using shard.run_below [OF shard.run_wf [OF empty_shard_wf]] by simp
  note D = shard_growsD [OF grows]
  have read: "x1 = at ?T k proj" "x2 = at ?U k proj"
    if "valid_key k" "k \<noteq> AppliedStateKey" "read_typed kv cd st1 k proj = Inr x1" "read_typed kv cd st2 k proj = Inr x2"
    for k x1 x2 and proj :: "'b sm_value \<Rightarrow> 'x option"
    using that read_typed_rep [OF laws(1), of cd st1 "?T(AppliedStateKey := x)" k proj x1]
      read_typed_rep [OF laws(1), of cd st2 "?U(AppliedStateKey := y)" k proj x2] T U
    by (simp_all add: rep_def at_def)
  have "x' = Some e" if "read_aggregate_event kv cd st1 t p a v = Inr (Some e)" "read_aggregate_event kv cd st2 t p a v = Inr x'" for v e x'
    using read [OF _ _ that [unfolded read_aggregate_event_def]] D(1) [of t p a v e] valid by (simp add: spec_event_def)
  moreover have "\<exists>m'. x' = Some m' \<and> current_version m \<le> current_version m'"
    if "read_aggregate_meta kv cd st1 t p a = Inr (Some m)" "read_aggregate_meta kv cd st2 t p a = Inr x'" for m x'
  proof -
    note r = read [OF _ _ that [unfolded read_aggregate_meta_def]]
    have "spec_version ?T t p a = Some (current_version m)" using r(1) valid by (simp add: spec_version_def eq_commute [of "Some m"])
    from D(4) [OF this] r(2) valid show ?thesis by (auto simp: spec_version_def)
  qed
  moreover have "\<exists>s'. x' = Some s' \<and> (s' = s \<or> st_revision s < st_revision s')"
    if "read_aggregate_state kv cd st1 t p a = Inr (Some s)" "read_aggregate_state kv cd st2 t p a = Inr x'" for s x'
    using read [OF _ _ that [unfolded read_aggregate_state_def]] D(5) [of t p a s] valid by (simp add: spec_state_def)
  moreover have "m \<le> n"
    if "read_aggregate_partition_head kv cd st1 t p = Inr m" "read_aggregate_partition_head kv cd st2 t p = Inr n" for m n
  proof -
    from that obtain x1 x2 where r: "read_typed kv cd st1 (PartitionKey t p NextPositionKey) as_u64 = Inr x1" "m = or_default 0 x1"
      "read_typed kv cd st2 (PartitionKey t p NextPositionKey) as_u64 = Inr x2" "n = or_default 0 x2"
      by (auto simp: read_aggregate_partition_head_def unwrap_or_def rbind_Inr_iff or_default_def)
    show ?thesis using read [OF _ _ r(1,3)] D(6) [of t p] valid r(2,4) by (simp add: spec_head_def)
  qed
  moreover have "catalog_below c d" if "read_aggregate_catalog kv cd st1 = Inr c" "read_aggregate_catalog kv cd st2 = Inr d" for c d
  proof -
    from that obtain x1 x2 where r: "read_typed kv cd st1 CatalogKey as_catalog = Inr x1" "c = or_default AggregateCatalog_default x1"
      "read_typed kv cd st2 CatalogKey as_catalog = Inr x2" "d = or_default AggregateCatalog_default x2"
      by (auto simp: read_aggregate_catalog_def unwrap_or_def rbind_Inr_iff or_default_def)
    show ?thesis using read [OF _ _ r(1,3)] D(9) r(2,4) by (simp add: spec_catalog_def)
  qed
  ultimately show ?thesis by blast
qed

lemma sample_fresh: "fresh (\<lambda>m. m) sample_codec sample_storage"
  using sample_storage_rep by (simp add: sample_shard_def empty_shard_def)

lemma sample_runs:
  assumes "length (concat bs) < 1000"
  obtains st rs where "apply_all (\<lambda>_. 7) map_kv sample_codec sample_storage bs = Inr (st, rs)"
  using apply_all_ok [OF map_kv_laws sample_codec_laws map_kv_reliable sample_codec_total sample_fresh fresh_room, of bs "\<lambda>_. 7"]
    assms by auto

lemma sample_node:
  assumes "length (concat bs) < 1000"
  obtains st where "apply_all (\<lambda>_. 7) map_kv sample_codec sample_storage bs
    = Inr (st, spec_responses (\<lambda>_. 7) empty_shard (concat bs))"
proof -
  obtain st rs where run: "apply_all (\<lambda>_. 7) map_kv sample_codec sample_storage bs = Inr (st, rs)"
    by (rule sample_runs [OF assms])
  have "length (concat bs) < 2 ^ 64" using assms by simp
  then show thesis using that run by (metis node_refines [OF map_kv_laws sample_codec_laws sample_fresh _ run])
qed

theorem node_streams_sound_witness:
  "\<exists>st T. apply_all (\<lambda>_. 7) map_kv sample_codec sample_storage [take 2 sample_entries, drop 2 sample_entries]
      = Inr (st, [RsAggregateAppendOk 0 0, RsAggregatePartitionFenceInstalled 1, RsAggregatePartitionFenced 1,
          RsAggregateAppendOk 0 0, RsAggregateAppendOk 1 1])
    \<and> rep sample_codec (es_shard_id st) (es_tree st) T \<and> wf_shard T"
proof -
  let ?bs = "[take 2 sample_entries, drop 2 sample_entries]"
  have n: "concat ?bs = sample_entries" "length sample_entries = 5" by (simp_all add: sample_entries_def)
  obtain st rs where run: "apply_all (\<lambda>_. 7) map_kv sample_codec sample_storage ?bs = Inr (st, rs)"
    by (rule sample_runs [of ?bs]) (use n in auto)
  from node_streams_sound [OF map_kv_laws sample_codec_laws sample_fresh _ run] n run sample_responses
  show ?thesis unfolding sample_entries_def by (auto simp: sample_shard_def empty_shard_def)
qed

lemma sample_runs2:
  assumes "length (concat (bs @ cs)) < 1000"
  obtains st1 rs st2 qs where "apply_all (\<lambda>_. 7) map_kv sample_codec sample_storage bs = Inr (st1, rs)"
    "apply_all (\<lambda>_. 7) map_kv sample_codec st1 cs = Inr (st2, qs)"
proof -
  obtain st ps where "apply_all (\<lambda>_. 7) map_kv sample_codec sample_storage (bs @ cs) = Inr (st, ps)"
    by (rule sample_runs [OF assms])
  then show thesis using that by (auto simp: apply_all_append rbind_Inr_iff)
qed

theorem node_history_immutable_witness:
  "\<exists>st1 rs st2 qs. apply_all (\<lambda>_. 7) map_kv sample_codec sample_storage [take 2 sample_entries] = Inr (st1, rs)
    \<and> apply_all (\<lambda>_. 7) map_kv sample_codec st1 [drop 2 sample_entries] = Inr (st2, qs)
    \<and> (\<forall>m n. read_aggregate_partition_head map_kv sample_codec st1 (AggregateTypeId ''a'' ''b'') 3 = Inr m
         \<and> read_aggregate_partition_head map_kv sample_codec st2 (AggregateTypeId ''a'' ''b'') 3 = Inr n \<longrightarrow> m \<le> n)"
proof -
  have n: "length (concat ([take 2 sample_entries] @ [drop 2 sample_entries])) = 5" by (simp add: sample_entries_def)
  obtain st1 rs st2 qs where run: "apply_all (\<lambda>_. 7) map_kv sample_codec sample_storage [take 2 sample_entries] = Inr (st1, rs)"
    "apply_all (\<lambda>_. 7) map_kv sample_codec st1 [drop 2 sample_entries] = Inr (st2, qs)"
    by (rule sample_runs2 [of "[take 2 sample_entries]" "[drop 2 sample_entries]"]) (use n in auto)
  have "validate_aggregate_identifier [] ''a'' = Inr ()" "validate_aggregate_identifier [] ''b'' = Inr ()" by code_simp+
  then have "valid_type_id (AggregateTypeId ''a'' ''b'')" "valid_identifier ''a''" by (simp_all add: valid_type_id_def)
  from node_history_immutable [OF map_kv_laws sample_codec_laws sample_fresh _ run this] n run show ?thesis
    by auto
qed

text \<open>C7: an append takes effect exactly once. When an entry of the log that appends an event was
  answered with a version and a position, any later entry that repeats the append, whatever generation
  and timestamp it is retried with and whatever was applied in between, in whatever batches, is answered
  with the same version and position.\<close>

theorem node_append_exactly_once:
  assumes laws: "kv_laws kv view" "codec_laws cd" "fresh view cd st0" "length (concat bs) < 2 ^ 64"
    and run: "apply_all h kv cd st0 bs = Inr (st, rs)" and log: "concat bs = past @ e1 # mid @ e2 # rest"
    and first: "en_payload e1 = Normal (RqAggregateAppend t p g a expected ev hlc)" "rs ! length past = RsAggregateAppendOk v pos"
    and retry: "en_payload e2 = Normal (RqAggregateAppend t p g' a expected ev hlc')"
  shows "rs ! (length past + 1 + length mid) = RsAggregateAppendOk v pos"
proof -
  note R = two_responses [OF laws run log]
  let ?T = "spec_run h empty_shard past"
  have "spec_append h ?T t p g a expected ev hlc = (fst (spec_append h ?T t p g a expected ev hlc), RsAggregateAppendOk v pos)"
    using R(1) first by (simp add: prod_eq_iff)
  from append_exactly_once [OF this R(3), of "map en_payload mid" g' hlc'] R(2) first(1) retry show ?thesis
    by (simp add: Let_def)
qed

theorem node_append_exactly_once_witness:
  "\<exists>st rs. apply_all (\<lambda>_. 7) map_kv sample_codec sample_storage
      [[sample_entry 1 (append_x 0 NoAggregate 8), sample_entry 2 sample_fence], [sample_entry 3 (append_x 5 NoAggregate 8)]]
      = Inr (st, rs) \<and> rs ! 2 = RsAggregateAppendOk 0 0"
proof -
  let ?e1 = "sample_entry 1 (append_x 0 NoAggregate 8)" and ?e2 = "sample_entry 3 (append_x 5 NoAggregate 8)"
  let ?bs = "[[?e1, sample_entry 2 sample_fence], [?e2]]"
  obtain st where run: "apply_all (\<lambda>_. 7) map_kv sample_codec sample_storage ?bs
      = Inr (st, spec_responses (\<lambda>_. 7) empty_shard (concat ?bs))" by (rule sample_node [of ?bs]) auto
  have "spec_responses (\<lambda>_. 7) empty_shard (concat ?bs) ! 0 = RsAggregateAppendOk 0 0" by code_simp
  with node_append_exactly_once [OF map_kv_laws sample_codec_laws sample_fresh _ run,
      of "[]" ?e1 "[sample_entry 2 sample_fence]" ?e2 "[]"] run
  show ?thesis by (simp add: sample_entry_def append_x_def)
qed

text \<open>C8: optimistic concurrency has one winner. If an entry appended a new event under the expectation
  \<open>Exact n\<close> or \<open>NoAggregate\<close> and was accepted, then any later entry that appends another new event to the
  aggregate under the same expectation is refused, by the fence or with the current version, which is
  not before the one the winner got.\<close>

theorem node_expectation_consumed:
  assumes laws: "kv_laws kv view" "codec_laws cd" "fresh view cd st0" "length (concat bs) < 2 ^ 64"
    and run: "apply_all h kv cd st0 bs = Inr (st, rs)" and log: "concat bs = past @ e1 # mid @ e2 # rest"
    and first: "en_payload e1 = Normal (RqAggregateAppend t p g a expected ev hlc)" "rs ! length past = RsAggregateAppendOk v pos"
    and strict: "expected = NoAggregate \<or> (\<exists>n. expected = Exact n)"
    and other: "en_payload e2 = Normal (RqAggregateAppend t p g' a expected ev' hlc')" "nev_event_type ev' \<noteq> []"
    and new: "\<forall>e \<in> set past. \<not> appends t p (nev_event_id ev) (en_payload e)"
      "\<forall>e \<in> set (past @ e1 # mid). \<not> appends t p (nev_event_id ev') (en_payload e)"
  shows "(\<exists>f. rs ! (length past + 1 + length mid) = RsAggregatePartitionFenced f)
    \<or> (\<exists>cur. rs ! (length past + 1 + length mid) = RsAggregateOptimisticConflict (Some cur) \<and> v \<le> cur)"
proof -
  note R = two_responses [OF laws run log]
  let ?T = "spec_run h empty_shard past"
  let ?T' = "fst (spec_append h ?T t p g a expected ev hlc)"
  let ?U = "run_commands (spec_payload h) ?T' (map en_payload mid)"
  have u: "spec_idempotency ?T t p (nev_event_id ev) = None"
    using idempotency_fresh [of "map en_payload past" t p "nev_event_id ev" h empty_shard] new(1) by simp
  have r1: "snd (spec_append h ?T t p g a expected ev hlc) = RsAggregateAppendOk v pos" using R(1) first by simp
  have acc: "accepted h ?T t p g a expected ev hlc v pos ?T'"
  proof (cases rule: spec_append_cases [of h ?T t p g a expected ev hlc])
    case same
    then show ?thesis using same(2) [OF r1] u by simp
  next
    case (new v' pos')
    then show ?thesis using r1 by simp
  qed
  have "spec_idempotency ?U t p (nev_event_id ev') = None"
    using idempotency_fresh [of "map en_payload (past @ e1 # mid)" t p "nev_event_id ev'" h empty_shard] new(2) first(1) by auto
  from append_expectation_consumed [OF acc R(3) strict refl this other(2), of g' hlc'] R(2) first(1) other(1)
  show ?thesis by (auto split: if_splits)
qed

theorem node_expectation_consumed_witness:
  "\<exists>st rs cur. apply_all (\<lambda>_. 7) map_kv sample_codec sample_storage
      [[sample_entry 1 (append_x 0 NoAggregate 8)], [sample_entry 2 (append_x 0 NoAggregate 9)]]
      = Inr (st, rs) \<and> rs ! 1 = RsAggregateOptimisticConflict (Some cur)"
proof -
  let ?e1 = "sample_entry 1 (append_x 0 NoAggregate 8)" and ?e2 = "sample_entry 2 (append_x 0 NoAggregate 9)"
  let ?bs = "[[?e1], [?e2]]"
  let ?rs = "spec_responses (\<lambda>_. 7) empty_shard (concat ?bs)"
  obtain st where run: "apply_all (\<lambda>_. 7) map_kv sample_codec sample_storage ?bs = Inr (st, ?rs)"
    by (rule sample_node [of ?bs]) auto
  have ok: "?rs ! length [] = RsAggregateAppendOk 0 0" by code_simp
  have "(\<exists>f. ?rs ! 1 = RsAggregatePartitionFenced f) \<or> (\<exists>cur. ?rs ! 1 = RsAggregateOptimisticConflict (Some cur))"
  proof -
    have log: "concat ?bs = [] @ ?e1 # [] @ ?e2 # []" by simp
    have pl: "en_payload (sample_entry n (append_x 0 NoAggregate u)) = Normal (RqAggregateAppend (AggregateTypeId ''a'' ''b'') 3 0 ''x''
        NoAggregate (new_event u) (Hlc 5 0))" for n u by (simp add: sample_entry_def append_x_def)
    from node_expectation_consumed [OF map_kv_laws sample_codec_laws sample_fresh _ run log pl ok _ pl] show ?thesis
      by (auto simp: pl new_event_def)
  qed
  moreover have "(case ?rs ! 1 of RsAggregatePartitionFenced _ \<Rightarrow> False | _ \<Rightarrow> True)" by code_simp
  ultimately show ?thesis using run by auto
qed

text \<open>A write request that passes the checks before the fence: a new append, a state write or a group command.\<close>

definition well_formed_write :: "AggregateTypeId \<Rightarrow> u16 \<Rightarrow> u64 \<Rightarrow> 'm Entry list \<Rightarrow> 'm EntryPayload \<Rightarrow> bool" where
  "well_formed_write t p old before pl \<longleftrightarrow>
     (\<exists>a expected ev hlc. pl = Normal (RqAggregateAppend t p old a expected ev hlc) \<and> valid_identifier a \<and> nev_event_type ev \<noteq> []
        \<and> (\<forall>e \<in> set before. \<not> appends t p (nev_event_id ev) (en_payload e)))
     \<or> (\<exists>a expected d hlc. pl = Normal (RqPutAggregateState t p old a expected d hlc) \<and> valid_identifier a)
     \<or> (\<exists>grp e s settings c. pl = Normal (RqAggregateGroupPartition t p old grp e s settings c) \<and> valid_identifier grp
        \<and> valid_settings settings)"

text \<open>C9: a fence shuts the old owner out. After an entry installed the fence of generation \<open>g\<close>, whatever
  follows, a new append, a state write or a consumer-group command under an older generation is answered
  with a fence of at least \<open>g\<close>.\<close>

theorem node_fence_excludes_old_owner:
  assumes laws: "kv_laws kv view" "codec_laws cd" "fresh view cd st0" "length (concat bs) < 2 ^ 64"
    and run: "apply_all h kv cd st0 bs = Inr (st, rs)" and log: "concat bs = past @ e1 # mid @ e2 # rest"
    and fence: "en_payload e1 = Normal (RqInstallAggregatePartitionFence t p g)" "rs ! length past = RsAggregatePartitionFenceInstalled g'"
    and late: "well_formed_write t p old (past @ e1 # mid) (en_payload e2)" "old < g"
  shows "\<exists>f. rs ! (length past + 1 + length mid) = RsAggregatePartitionFenced f \<and> g \<le> f"
proof -
  note R = two_responses [OF laws run log]
  let ?T = "spec_run h empty_shard past"
  let ?T' = "fst (spec_install_fence ?T t p g)"
  let ?U = "run_commands (spec_payload h) ?T' (map en_payload mid)"
  have f: "spec_install_fence ?T t p g = (?T', RsAggregatePartitionFenceInstalled g')" using R(1) fence by (simp add: prod_eq_iff)
  have t: "valid_type_id t" using f by (auto simp: spec_install_fence_def invalid_of_def split: sum.splits)
  have wf: "wf_shard ?T'" using fence_step [OF R(3), of t p g] by simp
  have "g \<le> spec_fence ?T' t p" using f t by (auto simp: spec_install_fence_def Let_def max_def split: if_splits)
  with shard_growsD(7) [OF shard.run_below [OF wf, of h "map en_payload mid"], of t p] have le: "g \<le> spec_fence ?U t p" by simp
  with late(2) have ne: "spec_fence ?U t p \<noteq> old" by auto
  have idem: "spec_idempotency ?U t p u = None" if "\<forall>e \<in> set (past @ e1 # mid). \<not> appends t p u (en_payload e)" for u
    using idempotency_fresh [of "map en_payload (past @ e1 # mid)" t p u h empty_shard] that fence(1) by auto
  have r2: "rs ! (length past + 1 + length mid) = snd (spec_payload h ?U (en_payload e2))" using R(2) fence(1) by simp
  have "snd (spec_payload h ?U (en_payload e2)) = RsAggregatePartitionFenced (spec_fence ?U t p)"
    using late(1) unfolding well_formed_write_def
    by (elim disjE exE conjE) (use t ne idem in \<open>simp_all add: spec_append_def spec_put_state_def spec_group_step_def Let_def\<close>)
  with r2 le show ?thesis by simp
qed

theorem node_fence_excludes_old_owner_witness:
  "\<exists>st rs f. apply_all (\<lambda>_. 7) map_kv sample_codec sample_storage
      [[sample_entry 1 sample_fence], [sample_entry 2 (append_x 0 NoAggregate 8)]]
      = Inr (st, rs) \<and> rs ! 1 = RsAggregatePartitionFenced f \<and> 1 \<le> f"
proof -
  let ?e1 = "sample_entry 1 sample_fence" and ?e2 = "sample_entry 2 (append_x 0 NoAggregate 8)"
  let ?bs = "[[?e1], [?e2]]"
  let ?rs = "spec_responses (\<lambda>_. 7) empty_shard (concat ?bs)"
  obtain st where run: "apply_all (\<lambda>_. 7) map_kv sample_codec sample_storage ?bs = Inr (st, ?rs)"
    by (rule sample_node [of ?bs]) auto
  have "?rs ! 0 = RsAggregatePartitionFenceInstalled 1" "validate_aggregate_identifier [] ''x'' = Inr ()" by code_simp+
  moreover from this(2) have "well_formed_write (AggregateTypeId ''a'' ''b'') 3 0 [?e1] (en_payload ?e2)"
    by (auto simp: well_formed_write_def sample_entry_def append_x_def new_event_def sample_fence_def)
  ultimately show ?thesis
    using node_fence_excludes_old_owner [OF map_kv_laws sample_codec_laws sample_fresh _ run, of "[]" ?e1 "[]" ?e2 "[]"] run
    by (simp add: sample_entry_def sample_fence_def)
qed

text \<open>C10: writing aggregate state is a compare and set. A write that was answered with a stored document
  has that document, and any later write under the same expectation is refused, by the fence or with the
  current revision, so no update is lost.\<close>

theorem node_state_compare_and_set:
  assumes laws: "kv_laws kv view" "codec_laws cd" "fresh view cd st0" "length (concat bs) < 2 ^ 64"
    and run: "apply_all h kv cd st0 bs = Inr (st, rs)" and log: "concat bs = past @ e1 # mid @ e2 # rest"
    and first: "en_payload e1 = Normal (RqPutAggregateState t p g a expected d hlc)" "rs ! length past = RsAggregateStateStored doc"
    and second: "en_payload e2 = Normal (RqPutAggregateState t p g' a expected d' hlc')"
  shows "doc_data doc = d \<and> doc_modified_hlc doc = hlc \<and> (expected = Absent \<longleftrightarrow> doc_revision doc = 0)
    \<and> (\<forall>r. expected = ExactRevision r \<longrightarrow> r \<noteq> - 1 \<and> doc_revision doc = r + 1)
    \<and> ((\<exists>f. rs ! (length past + 1 + length mid) = RsAggregatePartitionFenced f)
       \<or> (\<exists>r. rs ! (length past + 1 + length mid) = RsAggregateStateConflict (Some r) \<and> doc_revision doc \<le> r))"
proof -
  note R = two_responses [OF laws run log]
  let ?T = "spec_run h empty_shard past"
  let ?T' = "fst (spec_put_state ?T t p g a expected d hlc)"
  have "spec_put_state ?T t p g a expected d hlc = (?T', RsAggregateStateStored doc)" using R(1) first by (simp add: prod_eq_iff)
  note S = state_write_compare_and_set [OF R(3) this refl, of h "map en_payload mid" g' d' hlc']
  then have "(\<exists>f. rs ! (length past + 1 + length mid) = RsAggregatePartitionFenced f)
       \<or> (\<exists>r. rs ! (length past + 1 + length mid) = RsAggregateStateConflict (Some r) \<and> doc_revision doc \<le> r)"
    using R(2) first(1) second by (auto split: if_splits)
  moreover have "(expected = Absent \<longleftrightarrow> doc_revision doc = 0) \<and> (\<forall>r. expected = ExactRevision r \<longrightarrow> r \<noteq> - 1 \<and> doc_revision doc = r + 1)"
    using S [THEN conjunct1] S [THEN conjunct2, THEN conjunct1]
    by (cases expected) (auto simp: state_matches_def next_version_def checked_add_1_iff eq_neg_iff_add_eq_0 [symmetric] split: option.splits)
  ultimately show ?thesis using S by blast
qed

definition put_x :: "bytes \<Rightarrow> unit EntryPayload" where
  "put_x d = Normal (RqPutAggregateState (AggregateTypeId ''a'' ''b'') 3 0 ''x'' Absent d (Hlc 5 0))"

theorem node_state_compare_and_set_witness:
  "\<exists>st rs. apply_all (\<lambda>_. 7) map_kv sample_codec sample_storage
      [[sample_entry 1 (append_x 0 NoAggregate 8), sample_entry 2 (put_x [1])], [sample_entry 3 (put_x [2])]] = Inr (st, rs)
    \<and> ((\<exists>f. rs ! 2 = RsAggregatePartitionFenced f) \<or> (\<exists>r. rs ! 2 = RsAggregateStateConflict (Some r)))"
proof -
  let ?e0 = "sample_entry 1 (append_x 0 NoAggregate 8)" and ?e1 = "sample_entry 2 (put_x [1])" and ?e2 = "sample_entry 3 (put_x [2])"
  let ?bs = "[[?e0, ?e1], [?e2]]"
  let ?rs = "spec_responses (\<lambda>_. 7) empty_shard (concat ?bs)"
  obtain st where run: "apply_all (\<lambda>_. 7) map_kv sample_codec sample_storage ?bs = Inr (st, ?rs)"
    by (rule sample_node [of ?bs]) auto
  have "?rs ! length [?e0] = RsAggregateStateStored \<lparr>doc_revision = 0, doc_data = [1], doc_modified_hlc = Hlc 5 0\<rparr>" by code_simp
  note stored = this
  have log: "concat ?bs = [?e0] @ ?e1 # [] @ ?e2 # []" by simp
  have pl: "en_payload (sample_entry n (put_x d)) = Normal (RqPutAggregateState (AggregateTypeId ''a'' ''b'') 3 0 ''x'' Absent d
      (Hlc 5 0))" for n d by (simp add: sample_entry_def put_x_def)
  have "(\<exists>f. ?rs ! 2 = RsAggregatePartitionFenced f) \<or> (\<exists>r. ?rs ! 2 = RsAggregateStateConflict (Some r))"
    using node_state_compare_and_set [OF map_kv_laws sample_codec_laws sample_fresh _ run log pl stored pl]
    by auto
  with run show ?thesis by blast
qed

text \<open>C12: what a node publishes to its subscribers is what it stores. Starting with nothing published,
  after any log the published events of a partition are, in order and each once, the events a read of the
  partition from position 0 returns.\<close>

theorem published_stream_exact:
  assumes laws: "kv_laws kv view" "codec_laws cd" "fresh view cd st0" "length (concat bs) < 2 ^ 64"
    and run: "apply_all h kv cd st0 bs = Inr (st, rs)" and none: "es_broadcast st0 = []"
    and t: "valid_type_id t" and read: "read_aggregate_partition_events kv cd st t p 0 0 = Inr evs"
  shows "filter (of_partition t p) (es_broadcast st) = evs"
proof -
  let ?T = "spec_run h empty_shard (concat bs)"
  obtain x where R: "rep cd (es_shard_id st) (view (es_tree st)) (?T(AppliedStateKey := x))"
    by (rule node_refines [OF laws run])
  have wf: "wf_shard ?T" by (rule shard.run_wf [OF empty_shard_wf])
  have e: "event_at (?T(AppliedStateKey := x)) = event_at ?T" by (simp add: event_at_def fun_eq_iff)
  have "wf_stream (?T(AppliedStateKey := x)) t p" using wf unfolding wf_stream_applied by (simp add: wf_shard_def)
  from partition_read [OF laws(1,2) R this t, of 0 0 evs] read
  have "map (event_at ?T t p) (upto_u64 0 (spec_head ?T t p)) = map Some evs" unfolding e by simp
  moreover have "es_broadcast st = spec_publications h empty_shard (concat bs)"
    using apply_all_publishes [OF laws(1-3) fresh_room [OF laws(4)] run] none by simp
  moreover have "spec_head empty_shard t p = 0" by (simp add: spec_head_def at_def empty_shard_def or_default_def)
  ultimately have "map Some (filter (of_partition t p) (es_broadcast st)) = map Some evs"
    using publications_stream [OF empty_shard_wf, of t p h "concat bs"] by simp
  then show ?thesis by (rule map_injective) simp
qed

theorem published_stream_exact_witness:
  "\<exists>st rs evs. apply_all (\<lambda>_. 7) map_kv sample_codec sample_storage [sample_entries] = Inr (st, rs)
    \<and> read_aggregate_partition_events map_kv sample_codec st (AggregateTypeId ''a'' ''b'') 3 0 0 = Inr evs
    \<and> filter (of_partition (AggregateTypeId ''a'' ''b'') 3) (es_broadcast st) = evs"
proof -
  let ?t = "AggregateTypeId ''a'' ''b''" and ?T = "spec_run (\<lambda>_. 7) empty_shard sample_entries"
  have n: "length (concat [sample_entries]) < 1000" by (simp add: sample_entries_def)
  obtain st rs where run: "apply_all (\<lambda>_. 7) map_kv sample_codec sample_storage [sample_entries] = Inr (st, rs)"
    by (rule sample_runs [OF n])
  have "validate_aggregate_identifier [] ''a'' = Inr ()" "validate_aggregate_identifier [] ''b'' = Inr ()" by code_simp+
  then have t: "valid_type_id ?t" by (simp add: valid_type_id_def)
  obtain x where R: "rep sample_codec (es_shard_id st) (es_tree st) (?T(AppliedStateKey := x))"
    using node_refines [OF map_kv_laws sample_codec_laws sample_fresh _ run] n by auto
  have "wf_shard ?T" by (rule shard.run_wf [OF empty_shard_wf])
  then have "wf_stream (?T(AppliedStateKey := x)) ?t 3" unfolding wf_stream_applied by (simp add: wf_shard_def)
  from partition_read [OF map_kv_laws sample_codec_laws R this t, of 0 0] map_kv_reliable
  obtain evs where evs: "read_aggregate_partition_events map_kv sample_codec st ?t 3 0 0 = Inr evs"
    by (cases "read_aggregate_partition_events map_kv sample_codec st ?t 3 0 0") auto
  have "es_broadcast sample_storage = []" by (simp add: sample_storage_def)
  from published_stream_exact [OF map_kv_laws sample_codec_laws sample_fresh _ run this t evs] n run evs show ?thesis
    by auto
qed

end
