(* ===== verification/Strings.thy ===== *)
theory Strings
  imports Prelude
begin

text \<open>
  String functions of the Rust standard library that several components use: decimal formatting of
  unsigned integers, \<open>strip_prefix\<close>, \<open>strip_suffix\<close>, \<open>split_once\<close>, \<open>contains\<close> and \<open>trim\<close>. A string is the list
  of its UTF-8 bytes.
\<close>

section \<open>Decimal numbers\<close>

fun decimal :: "nat \<Rightarrow> string" where
  "decimal n = (if n < 10 then [char_of (48 + n)] else decimal (n div 10) @ [char_of (48 + n mod 10)])"

declare decimal.simps [simp del]

lemma decimal_digits: "c \<in> set (decimal n) \<Longrightarrow> CHR ''0'' \<le> c \<and> c \<le> CHR ''9''"
proof (induction n rule: decimal.induct)
  case (1 n)
  have "CHR ''0'' \<le> (char_of (48 + k) :: char) \<and> char_of (48 + k) \<le> CHR ''9''" if "k < 10" for k :: nat
    using that by (simp add: less_eq_char_def)
  with 1 show ?case by (auto simp: decimal.simps [of n] split: if_splits)
qed

lemma decimal_nonempty [simp]: "decimal n \<noteq> []"
  by (simp add: decimal.simps [of n])

section \<open>Prefixes, suffixes and separators\<close>

definition strip_prefix :: "'a list \<Rightarrow> 'a list \<Rightarrow> 'a list option" where
  "strip_prefix p s = (if take (length p) s = p then Some (drop (length p) s) else None)"

definition strip_suffix :: "'a list \<Rightarrow> 'a list \<Rightarrow> 'a list option" where
  "strip_suffix p s = map_option rev (strip_prefix (rev p) (rev s))"

fun split_once :: "'a list \<Rightarrow> 'a list \<Rightarrow> ('a list \<times> 'a list) option" where
  "split_once p s =
     (case strip_prefix p s of
        Some r \<Rightarrow> Some ([], r)
      | None \<Rightarrow> (case s of [] \<Rightarrow> None | c # cs \<Rightarrow> map_option (apfst ((#) c)) (split_once p cs)))"

declare split_once.simps [simp del]

definition str_contains :: "'a list \<Rightarrow> 'a list \<Rightarrow> bool" where
  "str_contains p s \<longleftrightarrow> split_once p s \<noteq> None"

lemma strip_prefix_Some: "strip_prefix p s = Some r \<longleftrightarrow> s = p @ r"
  by (auto simp: strip_prefix_def) (metis append_take_drop_id)

lemma strip_suffix_Some: "strip_suffix p s = Some r \<longleftrightarrow> s = r @ p"
proof -
  have "strip_suffix p s = Some r \<longleftrightarrow> strip_prefix (rev p) (rev s) = Some (rev r)"
    by (auto simp: strip_suffix_def)
  also have "\<dots> \<longleftrightarrow> s = r @ p" by (metis strip_prefix_Some rev_append rev_rev_ident)
  finally show ?thesis .
qed

lemma strip_prefix_append [simp]: "strip_prefix p (p @ r) = Some r"
  by (simp add: strip_prefix_Some)

lemma split_once_notin:
  assumes "p \<noteq> []" "hd p \<notin> set a"
  shows "split_once p (a @ p @ b) = Some (a, b)"
  using assms(2)
proof (induction a)
  case Nil
  then show ?case by (simp add: split_once.simps [of p "p @ b"])
next
  case (Cons c a)
  have "strip_prefix p (c # a @ p @ b) = None"
    using assms(1) Cons.prems by (cases p) (auto simp: strip_prefix_def)
  with Cons show ?case by (simp add: split_once.simps [of p "c # a @ p @ b"])
qed

lemma split_once_Some_iff: "(\<exists>r. split_once p s = Some r) \<longleftrightarrow> (\<exists>a b. s = a @ p @ b)"
proof (induction s)
  case Nil
  then show ?case by (auto simp: split_once.simps [of p "[]"] strip_prefix_def split: option.splits)
next
  case (Cons c s)
  have "(\<exists>r. split_once p (c # s) = Some r) \<longleftrightarrow> (\<exists>b. c # s = p @ b) \<or> (\<exists>r. split_once p s = Some r)"
    by (auto simp: split_once.simps [of p "c # s"] strip_prefix_Some split: option.splits)
  also have "\<dots> \<longleftrightarrow> (\<exists>a b. c # s = a @ p @ b)"
    unfolding Cons.IH by (metis append_Cons append_Nil append_eq_Cons_conv)
  finally show ?case .
qed

lemma str_contains_iff: "str_contains p s \<longleftrightarrow> (\<exists>a b. s = a @ p @ b)"
  unfolding str_contains_def split_once_Some_iff [symmetric] by auto

section \<open>White space\<close>

text \<open>The UTF-8 encodings of the code points with the property \<open>White_Space\<close>, which \<open>str::trim\<close> removes.\<close>

definition white :: "string list" where
  "white =
    [[CHR 0x09], [CHR 0x0A], [CHR 0x0B], [CHR 0x0C],
     [CHR 0x0D], [CHR 0x20], [CHR 0xC2, CHR 0x85], [CHR 0xC2, CHR 0xA0],
     [CHR 0xE1, CHR 0x9A, CHR 0x80], [CHR 0xE2, CHR 0x80, CHR 0x80], [CHR 0xE2, CHR 0x80, CHR 0x81], [CHR 0xE2, CHR 0x80, CHR 0x82],
     [CHR 0xE2, CHR 0x80, CHR 0x83], [CHR 0xE2, CHR 0x80, CHR 0x84], [CHR 0xE2, CHR 0x80, CHR 0x85], [CHR 0xE2, CHR 0x80, CHR 0x86],
     [CHR 0xE2, CHR 0x80, CHR 0x87], [CHR 0xE2, CHR 0x80, CHR 0x88], [CHR 0xE2, CHR 0x80, CHR 0x89], [CHR 0xE2, CHR 0x80, CHR 0x8A],
     [CHR 0xE2, CHR 0x80, CHR 0xA8], [CHR 0xE2, CHR 0x80, CHR 0xA9], [CHR 0xE2, CHR 0x80, CHR 0xAF], [CHR 0xE2, CHR 0x81, CHR 0x9F],
     [CHR 0xE3, CHR 0x80, CHR 0x80]]"

fun drop_white :: "string list \<Rightarrow> string \<Rightarrow> string" where
  "drop_white ws s =
     (case find (\<lambda>w. w \<noteq> [] \<and> strip_prefix w s \<noteq> None) ws of
        Some w \<Rightarrow> if length (drop (length w) s) < length s then drop_white ws (drop (length w) s) else s
      | None \<Rightarrow> s)"

declare drop_white.simps [simp del]

definition trim :: "string \<Rightarrow> string" where
  "trim s = rev (drop_white (map rev white) (rev (drop_white white s)))"

text \<open>A string that neither begins nor ends with white space.\<close>

definition trimmed :: "string \<Rightarrow> bool" where
  "trimmed s \<longleftrightarrow> list_all (\<lambda>w. strip_prefix w s = None \<and> strip_suffix w s = None) white"

lemma trim_trimmed: "trimmed s \<Longrightarrow> trim s = s"
proof -
  assume t: "trimmed s"
  have "find (\<lambda>w. w \<noteq> [] \<and> strip_prefix w s \<noteq> None) white = None"
    using t by (auto simp: find_None_iff trimmed_def list_all_iff)
  moreover have "find (\<lambda>w. w \<noteq> [] \<and> strip_prefix w (rev s) \<noteq> None) (map rev white) = None"
    using t by (auto simp: find_None_iff trimmed_def list_all_iff strip_suffix_def)
  ultimately show ?thesis by (simp add: trim_def drop_white.simps [of white s] drop_white.simps [of _ "rev s"])
qed

lemma drop_white_space: "drop_white white (CHR '' '' # s) = drop_white white s"
proof -
  have "find (\<lambda>w. w \<noteq> [] \<and> strip_prefix w (CHR '' '' # s) \<noteq> None) white = Some '' ''"
    by (simp add: white_def strip_prefix_def)
  then show ?thesis by (simp add: drop_white.simps [of white "CHR '' '' # s"])
qed

lemma trim_space: "trim (CHR '' '' # s) = trim s"
  by (simp add: trim_def drop_white_space)

end
