(* ===== verification/Leader_Retry.thy ===== *)
theory Leader_Retry
  imports Strings
begin

text \<open>
  How a client finds the leader of a shard: the status a node that is not the leader answers with
  (\<open>es-server/src/rpc_support.rs\<close>), the parser of its hint and the budgeted retry queue
  (\<open>es-core/src/redirect.rs\<close>), and the call loop of the client (\<open>es-client/src/aggregate.rs\<close>). What the network
  and the nodes do is the parameter \<open>net\<close>: the reply to the \<open>n\<close>-th attempt of a call, which may depend on
  the node and on the number of the attempt in any way.
\<close>

section \<open>Statuses and hints\<close>

datatype Code =
    Cancelled | Unknown | InvalidArgument | DeadlineExceeded | NotFound | AlreadyExists | PermissionDenied
  | ResourceExhausted | FailedPrecondition | Aborted | OutOfRange | Unimplemented | Internal | Unavailable
  | DataLoss | Unauthenticated

record Status =
  st_code :: Code
  st_message :: string

definition leader_message :: "u64 \<Rightarrow> string \<Rightarrow> string" where
  "leader_message i addr = ''not leader; leader_id='' @ decimal (unat i) @ '' leader_addr='' @ addr"

definition unknown_message :: string where
  "unknown_message = ''not leader; leader unknown, retry later''"

text \<open>The errors of a Raft write the server distinguishes.\<close>

datatype write_error =
    ForwardToLeader "u64 option" "string option"
  | ChangeMembershipError string
  | Fatal string

fun client_write_to_status :: "write_error \<Rightarrow> Status" where
  "client_write_to_status (ForwardToLeader leader_id leader_node) =
     (let addr = (case leader_node of Some a \<Rightarrow> a | None \<Rightarrow> [])
      in case leader_id of
           Some i \<Rightarrow> \<lparr>st_code = Unavailable, st_message = leader_message i addr\<rparr>
         | None \<Rightarrow> \<lparr>st_code = Unavailable, st_message = unknown_message\<rparr>)"
| "client_write_to_status (ChangeMembershipError e) = \<lparr>st_code = FailedPrecondition, st_message = ''membership: '' @ e\<rparr>"
| "client_write_to_status (Fatal e) = \<lparr>st_code = Internal, st_message = ''raft: '' @ e\<rparr>"

text \<open>
  \<open>RemoteShards\<close>: the peers in the order of their ids. \<open>probe\<close> is the answer of \<open>get_raft_state\<close>, absent if
  the node cannot be reached or does not carry the shard.
\<close>

definition find_leader ::
  "u64 \<Rightarrow> (u64 \<Rightarrow> bool option) \<Rightarrow> (u64, string) fmap \<Rightarrow> (u64 \<times> string) option" where
  "find_leader self_id probe addrs =
     map_option (\<lambda>i. (i, case fmlookup addrs i of Some a \<Rightarrow> a | None \<Rightarrow> []))
       (find (\<lambda>i. i \<noteq> self_id \<and> probe i = Some True) (sorted_list_of_fset (fmdom addrs)))"

definition leader_hint_status :: "(u64 \<times> string) option \<Rightarrow> Status" where
  "leader_hint_status leader =
     (case leader of
        Some (i, addr) \<Rightarrow> \<lparr>st_code = Unavailable, st_message = leader_message i addr\<rparr>
      | None \<Rightarrow> \<lparr>st_code = Unavailable, st_message = unknown_message\<rparr>)"

definition parse_leader_hint :: "string \<Rightarrow> string option" where
  "parse_leader_hint msg =
     Option.bind (strip_prefix ''not leader;'' msg) (\<lambda>rest.
     Option.bind (strip_prefix ''leader_id='' (trim rest)) (\<lambda>rest.
     Option.bind (split_once '' leader_addr='' rest) (\<lambda>(_, addr).
       let addr = trim addr in if addr = [] then None else Some addr)))"

section \<open>The retry plan\<close>

datatype RetryKind = Redirect | Normal

record QueueItem =
  qi_addr :: string
  qi_kind :: RetryKind

record LeaderRetryPlan =
  lp_budget :: nat
  lp_redirect_tail :: nat
  lp_queue :: "QueueItem list"
  lp_tried :: "string set"
  lp_backoff_target :: "string option"

definition LeaderRetryPlan_new :: "string list \<Rightarrow> LeaderRetryPlan" where
  "LeaderRetryPlan_new endpoints =
     (let budget = length endpoints * 2 + 2
      in \<lparr>lp_budget = budget, lp_redirect_tail = budget,
          lp_queue = map (\<lambda>a. \<lparr>qi_addr = a, qi_kind = Normal\<rparr>) endpoints, lp_tried = {}, lp_backoff_target = None\<rparr>)"

definition redirect_to :: "string \<Rightarrow> LeaderRetryPlan \<Rightarrow> LeaderRetryPlan" where
  "redirect_to addr p =
     p\<lparr>lp_tried := lp_tried p - {addr}, lp_queue := \<lparr>qi_addr = addr, qi_kind = Redirect\<rparr> # lp_queue p\<rparr>"

definition retry_later :: "string \<Rightarrow> LeaderRetryPlan \<Rightarrow> LeaderRetryPlan" where
  "retry_later target p =
     p\<lparr>lp_tried := lp_tried p - {target}, lp_backoff_target := Some target,
       lp_queue := lp_queue p @ [\<lparr>qi_addr = target, qi_kind = Normal\<rparr>]\<rparr>"

definition needs_backoff :: "LeaderRetryPlan \<Rightarrow> string \<Rightarrow> bool" where
  "needs_backoff p target \<longleftrightarrow> lp_backoff_target p = Some target"

function LeaderRetryPlan_next :: "LeaderRetryPlan \<Rightarrow> LeaderRetryPlan \<times> string option" where
  "LeaderRetryPlan_next p =
     (case lp_queue p of
        [] \<Rightarrow> (p, None)
      | item # queue \<Rightarrow>
          let p = p\<lparr>lp_queue := queue\<rparr> in
          if qi_addr item \<in> lp_tried p then LeaderRetryPlan_next p
          else
            let p = p\<lparr>lp_tried := insert (qi_addr item) (lp_tried p)\<rparr> in
            if lp_budget p = 0
            then (if qi_kind item = Redirect \<and> lp_redirect_tail p > 0
                  then (p\<lparr>lp_redirect_tail := lp_redirect_tail p - 1\<rparr>, Some (qi_addr item))
                  else LeaderRetryPlan_next p)
            else (p\<lparr>lp_budget := lp_budget p - 1\<rparr>, Some (qi_addr item)))"
  by pat_completeness auto
termination by (relation "measure (\<lambda>p. length (lp_queue p))") auto

declare LeaderRetryPlan_next.simps [simp del]

section \<open>The client\<close>

datatype RetrySafety = Idempotent | Ambiguous

datatype ClientError =
    InvalidConfig string
  | ConnectionFailed string
  | RpcFailed Code string
  | NotLeader "string option"
  | PayloadTooLarge string
  | AllNodesFailed "string list"

definition from_status :: "Status \<Rightarrow> ClientError" where
  "from_status s = RpcFailed (st_code s) (st_message s)"

definition is_retryable_code :: "Code \<Rightarrow> bool" where
  "is_retryable_code c \<longleftrightarrow> c \<in> {Unavailable, DeadlineExceeded, Internal}"

definition normalize_endpoint :: "string \<Rightarrow> string" where
  "normalize_endpoint addr =
     (if strip_prefix ''http://'' addr \<noteq> None \<or> strip_prefix ''https://'' addr \<noteq> None then addr
      else ''http://'' @ addr)"

definition rotated_nodes :: "u64 \<Rightarrow> string list \<Rightarrow> string list" where
  "rotated_nodes cursor nodes = rotate (unat cursor mod length nodes) nodes"

text \<open>
  A node cannot be connected to (with the text of the error), answers, or refuses. An attempt is
  recorded with whether the client waited before it.
\<close>

datatype 't reply = ConnectError string | Answer 't | Refused Status

record 't attempt =
  at_target :: string
  at_backoff :: bool
  at_reply :: "'t reply"

definition give_up :: "string option \<Rightarrow> string list \<Rightarrow> ClientError" where
  "give_up last_redirect errors =
     (case last_redirect of
        Some a \<Rightarrow> NotLeader (Some a)
      | None \<Rightarrow> if errors \<noteq> [] then AllNodesFailed errors else NotLeader None)"

lemma next_decreases:
  "LeaderRetryPlan_next p = (p', Some t) \<Longrightarrow>
     lp_budget p' + lp_redirect_tail p' + 1 = lp_budget p + lp_redirect_tail p
     \<and> lp_budget p' \<le> lp_budget p \<and> lp_redirect_tail p' \<le> lp_redirect_tail p"
proof (induction p arbitrary: p' t rule: LeaderRetryPlan_next.induct)
  case (1 p)
  show ?case
  proof (cases "lp_queue p")
    case Nil
    with "1.prems" show ?thesis by (simp add: LeaderRetryPlan_next.simps [of p])
  next
    case (Cons i q)
    note IH = "1.IH" [OF Cons refl]
    from "1.prems" Cons IH(1) IH(2) [OF _ refl] show ?thesis
      by (auto simp: LeaderRetryPlan_next.simps [of p] Let_def split: if_splits)
  qed
qed

function call_loop ::
  "RetrySafety \<Rightarrow> (nat \<Rightarrow> string \<Rightarrow> 't reply) \<Rightarrow> nat \<Rightarrow> LeaderRetryPlan \<Rightarrow> string option \<Rightarrow> string list
     \<Rightarrow> 't attempt list \<times> ('t, ClientError) result" where
  "call_loop safety net n plan last_redirect errors =
     (case LeaderRetryPlan_next plan of
        (plan, None) \<Rightarrow> ([], Inl (give_up last_redirect errors))
      | (plan, Some target) \<Rightarrow>
          let backoff = needs_backoff plan target; reply = net n target;
              stop = (\<lambda>r. ([\<lparr>at_target = target, at_backoff = backoff, at_reply = reply\<rparr>], r));
              go = apfst ((#) \<lparr>at_target = target, at_backoff = backoff, at_reply = reply\<rparr>) in
          case reply of
            ConnectError e \<Rightarrow>
              go (call_loop safety net (n + 1) (retry_later target plan) last_redirect (errors @ [target @ '': '' @ e]))
          | Answer response \<Rightarrow> stop (Inr response)
          | Refused status \<Rightarrow>
              if st_code status = Unavailable
              then (case parse_leader_hint (st_message status) of
                      Some addr \<Rightarrow>
                        let address = normalize_endpoint addr
                        in go (call_loop safety net (n + 1) (redirect_to address plan) (Some address) errors)
                    | None \<Rightarrow>
                        if safety = Idempotent
                        then go (call_loop safety net (n + 1) (retry_later target plan) last_redirect errors)
                        else stop (Inl (from_status status)))
              else if safety = Idempotent \<and> is_retryable_code (st_code status)
              then go (call_loop safety net (n + 1) (retry_later target plan) last_redirect
                         (errors @ [target @ '': '' @ st_message status]))
              else stop (Inl (from_status status)))"
  by pat_completeness auto
termination
  by (relation "measure (\<lambda>(_, _, _, p, _, _). lp_budget p + lp_redirect_tail p)")
    (auto simp: retry_later_def redirect_to_def dest!: next_decreases [OF sym])

declare call_loop.simps [simp del]

definition call ::
  "RetrySafety \<Rightarrow> (nat \<Rightarrow> string \<Rightarrow> 't reply) \<Rightarrow> u64 \<Rightarrow> string list \<Rightarrow> 't attempt list \<times> ('t, ClientError) result" where
  "call safety net cursor nodes = call_loop safety net 0 (LeaderRetryPlan_new (rotated_nodes cursor nodes)) None []"

section \<open>Runs of a call\<close>

definition hint_of :: "'t reply \<Rightarrow> string option" where
  "hint_of r = (case r of Refused s \<Rightarrow> if st_code s = Unavailable then parse_leader_hint (st_message s) else None | _ \<Rightarrow> None)"

abbreviation plan_room :: "LeaderRetryPlan \<Rightarrow> nat" where
  "plan_room p \<equiv> lp_budget p + lp_redirect_tail p"

lemma retry_later_room [simp]: "lp_budget (retry_later t p) = lp_budget p" "lp_redirect_tail (retry_later t p) = lp_redirect_tail p"
  by (simp_all add: retry_later_def)

lemma redirect_to_room [simp]: "lp_budget (redirect_to t p) = lp_budget p" "lp_redirect_tail (redirect_to t p) = lp_redirect_tail p"
  by (simp_all add: redirect_to_def)

lemma call_loop_cases:
  fixes plan
  obtains
    (exhausted) p' where "LeaderRetryPlan_next plan = (p', None)"
      "call_loop safety net n plan lr errors = ([], Inl (give_up lr errors))"
  | (final) p' a r where "LeaderRetryPlan_next plan = (p', Some (at_target a))" "at_reply a = net n (at_target a)"
      "call_loop safety net n plan lr errors = ([a], r)" "hint_of (at_reply a) = None"
      "\<forall>x. r = Inr x \<longleftrightarrow> at_reply a = Answer x" "is_err r \<longrightarrow> (\<exists>s. at_reply a = Refused s \<and> r = Inl (from_status s))"
      "is_err r \<and> safety = Idempotent \<longrightarrow> (\<exists>s. at_reply a = Refused s \<and> \<not> is_retryable_code (st_code s))"
  | (later) p' a errors' where "LeaderRetryPlan_next plan = (p', Some (at_target a))" "at_reply a = net n (at_target a)"
      "call_loop safety net n plan lr errors = apfst ((#) a) (call_loop safety net (n + 1) (retry_later (at_target a) p') lr errors')"
      "hint_of (at_reply a) = None" "safety = Idempotent \<or> (\<exists>e. at_reply a = ConnectError e)" "\<forall>x. at_reply a \<noteq> Answer x"
  | (redirect) p' a h where "LeaderRetryPlan_next plan = (p', Some (at_target a))" "at_reply a = net n (at_target a)"
      "call_loop safety net n plan lr errors =
         apfst ((#) a) (call_loop safety net (n + 1) (redirect_to (normalize_endpoint h) p') (Some (normalize_endpoint h)) errors)"
      "hint_of (at_reply a) = Some h"
proof (cases "LeaderRetryPlan_next plan")
  case (Pair p' o')
  show thesis
  proof (cases o')
    case None
    with Pair exhausted show thesis by (simp add: call_loop.simps [of safety net n plan])
  next
    case (Some t)
    let ?a = "\<lparr>at_target = t, at_backoff = needs_backoff p' t, at_reply = net n t\<rparr>"
    note unf = call_loop.simps [of safety net n plan lr errors] call_loop.simps [of Idempotent net n plan lr errors] Let_def Pair Some hint_of_def
    have nx: "LeaderRetryPlan_next plan = (p', Some (at_target ?a))" "at_reply ?a = net n (at_target ?a)"
      using Pair Some by simp_all
    show thesis
    proof (cases "net n t")
      case (ConnectError e)
      show thesis by (rule later [OF nx, of "errors @ [t @ '': '' @ e]"]) (use ConnectError in \<open>auto simp: unf\<close>)
    next
      case (Answer x)
      show thesis by (rule final [OF nx, of "Inr x"]) (use Answer in \<open>auto simp: unf\<close>)
    next
      case (Refused s)
      consider (hint) h where "st_code s = Unavailable" "parse_leader_hint (st_message s) = Some h"
        | (again) "safety = Idempotent" "st_code s = Unavailable" "parse_leader_hint (st_message s) = None"
        | (error) "safety = Idempotent" "st_code s \<noteq> Unavailable" "is_retryable_code (st_code s)"
        | (fail) "st_code s = Unavailable \<longrightarrow> safety \<noteq> Idempotent \<and> parse_leader_hint (st_message s) = None"
            "\<not> (safety = Idempotent \<and> is_retryable_code (st_code s))"
        by (cases "parse_leader_hint (st_message s)") (auto simp: is_retryable_code_def)
      then show thesis
      proof cases
        case hint
        show thesis by (rule redirect [OF nx, of h]) (use Refused hint in \<open>auto simp: unf\<close>)
      next
        case again
        show thesis by (rule later [OF nx, of errors]) (use Refused again in \<open>auto simp: unf\<close>)
      next
        case error
        show thesis by (rule later [OF nx, of "errors @ [t @ '': '' @ st_message s]"]) (use Refused error in \<open>auto simp: unf\<close>)
      next
        case fail
        show thesis by (rule final [OF nx, of "Inl (from_status s)"]) (use Refused fail in \<open>auto simp: unf\<close>)
      qed
    qed
  qed
qed

text \<open>What every run of the loop has: one attempt per unit of room, and a redirect is followed at once.\<close>

lemma redirected_next:
  assumes "0 < plan_room p"
  shows "\<exists>p'. LeaderRetryPlan_next (redirect_to t p) = (p', Some t)"
  using assms by (subst LeaderRetryPlan_next.simps) (auto simp: redirect_to_def Let_def)

definition lawful :: "RetrySafety \<Rightarrow> nat \<Rightarrow> (nat \<Rightarrow> string \<Rightarrow> 't reply) \<Rightarrow> nat \<Rightarrow> 't attempt list \<Rightarrow> ('t, ClientError) result \<Rightarrow> bool" where
  "lawful safety room net n tr r \<longleftrightarrow> length tr \<le> room
     \<and> (\<forall>i < length tr. at_reply (tr ! i) = net (n + i) (at_target (tr ! i)))
     \<and> (\<forall>x. r = Inr x \<longleftrightarrow> tr \<noteq> [] \<and> at_reply (last tr) = Answer x)
     \<and> (\<forall>i x. Suc i < length tr \<longrightarrow> at_reply (tr ! i) \<noteq> Answer x)
     \<and> (\<forall>i. Suc i < length tr \<and> safety = Ambiguous \<longrightarrow>
          hint_of (at_reply (tr ! i)) \<noteq> None \<or> (\<exists>e. at_reply (tr ! i) = ConnectError e))
     \<and> (\<forall>i h. i < length tr \<and> Suc i < room \<and> hint_of (at_reply (tr ! i)) = Some h \<longrightarrow>
          Suc i < length tr \<and> at_target (tr ! Suc i) = normalize_endpoint h)"

lemma lawfulD:
  assumes "lawful safety room net n tr r"
  shows "length tr \<le> room"
    and "i < length tr \<Longrightarrow> at_reply (tr ! i) = net (n + i) (at_target (tr ! i))"
    and "r = Inr x \<longleftrightarrow> tr \<noteq> [] \<and> at_reply (last tr) = Answer x"
    and "Suc i < length tr \<Longrightarrow> at_reply (tr ! i) \<noteq> Answer x"
    and "Suc i < length tr \<Longrightarrow> safety = Ambiguous \<Longrightarrow>
          hint_of (at_reply (tr ! i)) \<noteq> None \<or> (\<exists>e. at_reply (tr ! i) = ConnectError e)"
    and "i < length tr \<Longrightarrow> Suc i < room \<Longrightarrow> hint_of (at_reply (tr ! i)) = Some h \<Longrightarrow>
          Suc i < length tr \<and> at_target (tr ! Suc i) = normalize_endpoint h"
  using assms unfolding lawful_def by blast+

lemma lawful_Cons:
  assumes "lawful safety room net (n + 1) tr r" "at_reply a = net n (at_target a)" "\<forall>x. at_reply a \<noteq> Answer x"
    and "safety = Ambiguous \<longrightarrow> hint_of (at_reply a) \<noteq> None \<or> (\<exists>e. at_reply a = ConnectError e)"
    and "\<forall>h. hint_of (at_reply a) = Some h \<and> 0 < room \<longrightarrow> tr \<noteq> [] \<and> at_target (hd tr) = normalize_endpoint h"
  shows "lawful safety (Suc room) net n (a # tr) r"
  using assms unfolding lawful_def by (auto simp: nth_Cons hd_conv_nth split: nat.splits)

lemma call_loop_lawful:
  "lawful safety (plan_room plan) net n (fst (call_loop safety net n plan lr errors)) (snd (call_loop safety net n plan lr errors))"
proof (induction "plan_room plan" arbitrary: n plan lr errors rule: less_induct)
  case less
  show ?case
  proof (cases rule: call_loop_cases [where plan = plan and safety = safety and net = net and n = n and lr = lr and errors = errors])
    case (exhausted p')
    then show ?thesis by (simp add: lawful_def)
  next
    case (final p' a r)
    from next_decreases [OF final(1)] final(2,4,5) show ?thesis unfolding final(3) by (auto simp: lawful_def intro!: gr0I)
  next
    case (later p' a errors')
    note d = next_decreases [OF later(1)]
    have "lawful safety (plan_room p') net (n + 1) (fst (call_loop safety net (n + 1) (retry_later (at_target a) p') lr errors'))
        (snd (call_loop safety net (n + 1) (retry_later (at_target a) p') lr errors'))"
      using less [of "retry_later (at_target a) p'"] d by simp
    from lawful_Cons [OF this later(2)] later(4-6) d show ?thesis unfolding later(3) by auto
  next
    case (redirect p' a h)
    note d = next_decreases [OF redirect(1)]
    let ?p = "redirect_to (normalize_endpoint h) p'"
    let ?c = "call_loop safety net (n + 1) ?p (Some (normalize_endpoint h)) errors"
    have l: "lawful safety (plan_room p') net (n + 1) (fst ?c) (snd ?c)" using less [of ?p] d by simp
    have "fst ?c \<noteq> [] \<and> at_target (hd (fst ?c)) = normalize_endpoint h" if room: "0 < plan_room p'"
    proof -
      obtain q where q: "LeaderRetryPlan_next ?p = (q, Some (normalize_endpoint h))" using redirected_next [OF room] by blast
      show ?thesis by (cases rule: call_loop_cases [where plan = ?p and safety = safety and net = net and n = "n + 1"
          and lr = "Some (normalize_endpoint h)" and errors = errors]) (use q in auto)
    qed
    moreover have "\<forall>x. at_reply a \<noteq> Answer x" using redirect(4) by (auto simp: hint_of_def)
    ultimately show ?thesis using lawful_Cons [OF l redirect(2)] redirect(4) d unfolding redirect(3) by auto
  qed
qed

lemma plan_room_new [simp]: "plan_room (LeaderRetryPlan_new ns) = 4 * length ns + 4"
  by (simp add: LeaderRetryPlan_new_def Let_def)

lemma length_rotated [simp]: "length (rotated_nodes c ns) = length ns"
  by (simp add: rotated_nodes_def)

lemma call_lawful: "lawful safety (4 * length nodes + 4) net 0 (fst (call safety net c nodes)) (snd (call safety net c nodes))"
  using call_loop_lawful [of safety "LeaderRetryPlan_new (rotated_nodes c nodes)"] by (simp add: call_def)

section \<open>Hints\<close>

lemma leader_message_parts:
  "leader_message i a = ''not leader;'' @ CHR '' '' # ''leader_id='' @ decimal (unat i) @ '' leader_addr='' @ a"
  by (simp add: leader_message_def)

lemma white_shape: "w \<in> set white \<Longrightarrow> w \<noteq> [] \<and> hd w \<noteq> CHR ''l'' \<and> CHR ''='' \<notin> set w"
proof -
  have "list_all (\<lambda>w. w \<noteq> [] \<and> hd w \<noteq> CHR ''l'' \<and> CHR ''='' \<notin> set w) white" by code_simp
  then show "w \<in> set white \<Longrightarrow> w \<noteq> [] \<and> hd w \<noteq> CHR ''l'' \<and> CHR ''='' \<notin> set w" by (auto simp: list_all_iff)
qed

lemma trimmed_tail:
  assumes "trimmed a"
  shows "trimmed (CHR ''l'' # x @ CHR ''='' # a)"
proof -
  have "strip_prefix w (CHR ''l'' # x @ CHR ''='' # a) = None" if "w \<in> set white" for w
    using white_shape [OF that] by (cases w) (auto simp: strip_prefix_def)
  moreover have "strip_suffix w (CHR ''l'' # x @ CHR ''='' # a) = None" if w: "w \<in> set white" for w
  proof (rule ccontr)
    assume "strip_suffix w (CHR ''l'' # x @ CHR ''='' # a) \<noteq> None"
    then obtain r where "(CHR ''l'' # x @ [CHR ''='']) @ a = r @ w" by (auto simp: strip_suffix_Some)
    then obtain u where "CHR ''l'' # x @ [CHR ''=''] = r @ u \<and> u @ a = w \<or> a = u @ w"
      unfolding append_eq_append_conv2 by blast
    moreover have "a \<noteq> u @ w" for u using assms w strip_suffix_Some [of w a u] by (auto simp: trimmed_def list_all_iff)
    ultimately have v: "CHR ''l'' # x @ [CHR ''=''] = r @ u" "w = u @ a" by auto
    moreover have "u \<noteq> []" using v(2) \<open>\<And>u. a \<noteq> u @ w\<close> [of "[]"] by auto
    ultimately have "last u = CHR ''=''" by (metis last_ConsR last_appendR last_snoc append_is_Nil_conv not_Cons_self2)
    with \<open>u \<noteq> []\<close> v(2) white_shape [OF w] show False by (metis last_in_set set_append UnCI)
  qed
  ultimately show ?thesis by (simp add: trimmed_def list_all_iff)
qed

lemma parse_leader_message: "trimmed a \<Longrightarrow> parse_leader_hint (leader_message i a) = (if a = [] then None else Some a)"
proof -
  assume a: "trimmed a"
  let ?x = "''eader_id='' @ decimal (unat i) @ '' leader_addr''"
  have "trim (CHR '' '' # ''leader_id='' @ decimal (unat i) @ '' leader_addr='' @ a) = ''leader_id='' @ decimal (unat i) @ '' leader_addr='' @ a"
    using trim_trimmed [OF trimmed_tail [OF a, of ?x]] by (simp add: trim_space)
  moreover have "split_once '' leader_addr='' (decimal (unat i) @ '' leader_addr='' @ a) = Some (decimal (unat i), a)"
    by (rule split_once_notin) (auto dest: decimal_digits simp: less_eq_char_def)
  ultimately show ?thesis
    using trim_trimmed [OF a] strip_prefix_append [of "''not leader;''"] strip_prefix_append [of "''leader_id=''"]
    unfolding parse_leader_hint_def leader_message_parts by (simp add: Let_def)
qed

lemma trimmed_Nil: "trimmed []"
  by code_simp

lemma parse_unknown_message: "parse_leader_hint unknown_message = None"
  by code_simp

section \<open>Properties\<close>

text \<open>C35: the client's call loop always ends, whatever the nodes answer: after at most
  \<open>4 * n + 4\<close> attempts for \<open>n\<close> nodes. It reports success exactly if the last attempt was answered, with
  that answer, and nothing is sent after an answer.\<close>

theorem client_call_bounded:
  "length (fst (call safety net c nodes)) \<le> 4 * length nodes + 4
   \<and> (\<forall>x. snd (call safety net c nodes) = Inr x \<longleftrightarrow>
         fst (call safety net c nodes) \<noteq> [] \<and> at_reply (last (fst (call safety net c nodes))) = Answer x)
   \<and> (\<forall>i x. Suc i < length (fst (call safety net c nodes)) \<longrightarrow> at_reply (fst (call safety net c nodes) ! i) \<noteq> Answer x)"
  using lawfulD(1,3,4) [OF call_lawful [of safety nodes net c]] by blast

definition flaky :: "nat \<Rightarrow> string \<Rightarrow> nat reply" where
  "flaky n t = (if n = 0 then ConnectError ''refused''
                else if t = ''http://b'' then Answer 7
                else Refused \<lparr>st_code = Unavailable, st_message = leader_message 3 ''b''\<rparr>)"

theorem client_call_bounded_witness:
  "length (fst (call Idempotent flaky 1 [''http://a'', ''http://c''])) \<le> 12
   \<and> snd (call Idempotent flaky 1 [''http://a'', ''http://c'']) = Inr 7"
proof -
  have "snd (call Idempotent flaky 1 [''http://a'', ''http://c'']) = Inr 7" by code_simp
  with client_call_bounded [of Idempotent flaky 1 "[''http://a'', ''http://c'']"] show ?thesis by simp
qed

text \<open>C36: when an ambiguous request (\<open>put_state\<close>, \<open>fetch_group\<close>) is sent again. Each attempt but the last either could
  not connect to the node or was answered \<open>Unavailable\<close> with the address of the leader; any other reply, a timeout
  or a lost connection after the request was sent included, ends the call. What the node did before it answered
  with an address is not part of the statement.\<close>

theorem ambiguous_call_repeat_causes:
  assumes "Suc i < length (fst (call Ambiguous net c nodes))"
  shows "(\<exists>e. net i (at_target (fst (call Ambiguous net c nodes) ! i)) = ConnectError e)
       \<or> (\<exists>s a. net i (at_target (fst (call Ambiguous net c nodes) ! i)) = Refused s \<and> st_code s = Unavailable
            \<and> parse_leader_hint (st_message s) = Some a)"
proof -
  let ?a = "fst (call Ambiguous net c nodes) ! i"
  have "at_reply ?a = net i (at_target ?a)" "hint_of (at_reply ?a) \<noteq> None \<or> (\<exists>e. at_reply ?a = ConnectError e)"
    using lawfulD(2,5) [OF call_lawful [of Ambiguous nodes net c], of i] assms by auto
  then show ?thesis by (auto simp: hint_of_def split: reply.splits if_splits)
qed

theorem ambiguous_call_repeat_causes_witness:
  "(\<exists>e. flaky 0 (at_target (fst (call Ambiguous flaky 1 [''http://a'', ''http://c'']) ! 0)) = ConnectError e)
   \<or> (\<exists>s a. flaky 0 (at_target (fst (call Ambiguous flaky 1 [''http://a'', ''http://c'']) ! 0)) = Refused s
        \<and> st_code s = Unavailable \<and> parse_leader_hint (st_message s) = Some a)"
proof -
  have "Suc 0 < length (fst (call Ambiguous flaky 1 [''http://a'', ''http://c'']))" by code_simp
  from ambiguous_call_repeat_causes [OF this] show ?thesis .
qed

section \<open>A known leader is reached\<close>

lemma call_loop_Answer:
  "LeaderRetryPlan_next plan = (p', Some t) \<Longrightarrow> net n t = Answer x \<Longrightarrow> snd (call_loop safety net n plan lr es) = Inr x"
  by (simp add: call_loop.simps [of safety net n plan])

lemma call_loop_hint:
  "LeaderRetryPlan_next plan = (p', Some t) \<Longrightarrow> hint_of (net n t) = Some h \<Longrightarrow>
     snd (call_loop safety net n plan lr es)
       = snd (call_loop safety net (n + 1) (redirect_to (normalize_endpoint h) p') (Some (normalize_endpoint h)) es)"
  by (cases "net n t") (auto simp: call_loop.simps [of safety net n plan] hint_of_def Let_def split: if_splits)

lemma call_loop_later:
  "LeaderRetryPlan_next plan = (p', Some t) \<Longrightarrow> (\<exists>e. net n t = ConnectError e) \<or> net n t = Refused (leader_hint_status None) \<Longrightarrow>
     \<exists>es'. snd (call_loop Idempotent net n plan lr es) = snd (call_loop Idempotent net (n + 1) (retry_later t p') lr es')"
  by (auto simp: call_loop.simps [of Idempotent net n plan] leader_hint_status_def parse_unknown_message Let_def)

lemma call_loop_cong:
  "LeaderRetryPlan_next plan = LeaderRetryPlan_next plan' \<Longrightarrow> call_loop safety net n plan lr es = call_loop safety net n plan' lr es"
  by (simp add: call_loop.simps [of safety net n plan] call_loop.simps [of safety net n plan'])

lemma redirect_succeeds:
  assumes "\<forall>n. net n L = Answer x" "0 < plan_room p"
  shows "snd (call_loop safety net n (redirect_to L p) lr es) = Inr x"
  using redirected_next [OF assms(2), of L] call_loop_Answer assms(1) by metis

lemma call_loop_reaches:
  assumes leader: "\<forall>n. net n L = Answer x" and hint: "\<forall>n. hint_of (net n g) = Some a \<or> g = L" "L = normalize_endpoint a"
    and others: "\<forall>n t. t \<noteq> L \<longrightarrow> (\<exists>e. net n t = ConnectError e) \<or> net n t = Refused (leader_hint_status None) \<or> hint_of (net n t) = Some a"
  shows "lp_queue plan = pre @ item # post \<Longrightarrow> qi_addr item = g \<Longrightarrow> g \<notin> lp_tried plan \<Longrightarrow> length pre < lp_budget plan \<Longrightarrow>
    0 < lp_redirect_tail plan \<Longrightarrow> snd (call_loop Idempotent net n plan lr es) = Inr x"
proof (induction pre arbitrary: plan post n es)
  case Nil
  then obtain p' where p': "LeaderRetryPlan_next plan = (p', Some g)" "lp_redirect_tail p' = lp_redirect_tail plan"
    by (auto simp: LeaderRetryPlan_next.simps [of plan] Let_def)
  show ?case
  proof (cases "g = L")
    case True
    then show ?thesis using call_loop_Answer [OF p'(1)] leader by metis
  next
    case False
    then show ?thesis using call_loop_hint [OF p'(1), of net n a] hint redirect_succeeds [of net L x p', OF leader] p'(2) Nil.prems by simp
  qed
next
  case (Cons h pre)
  let ?t = "qi_addr h"
  show ?case
  proof (cases "?t \<in> lp_tried plan")
    case True
    then have "LeaderRetryPlan_next plan = LeaderRetryPlan_next (plan\<lparr>lp_queue := pre @ item # post\<rparr>)"
      using Cons.prems(1) by (simp add: LeaderRetryPlan_next.simps [of plan] Let_def)
    from call_loop_cong [OF this, of Idempotent net n lr es] Cons.IH [of "plan\<lparr>lp_queue := pre @ item # post\<rparr>" post] Cons.prems show ?thesis by simp
  next
    case False
    then obtain p' where p': "LeaderRetryPlan_next plan = (p', Some ?t)" "lp_redirect_tail p' = lp_redirect_tail plan"
      "lp_queue p' = pre @ item # post" "lp_tried p' = insert ?t (lp_tried plan)" "lp_budget p' = lp_budget plan - 1"
      using Cons.prems by (simp add: LeaderRetryPlan_next.simps [of plan] Let_def)
    consider (leader) "?t = L" | (hint) "?t \<noteq> L" "hint_of (net n ?t) = Some a"
      | (later) "(\<exists>e. net n ?t = ConnectError e) \<or> net n ?t = Refused (leader_hint_status None)"
      using others by blast
    then show ?thesis
    proof cases
      case leader
      then show ?thesis using call_loop_Answer [OF p'(1)] assms(1) by metis
    next
      case hint
      then show ?thesis
        using call_loop_hint [OF p'(1), of net n a] assms(3) redirect_succeeds [of net L x p', OF assms(1)] p'(2) Cons.prems(5) by simp
    next
      case later
      obtain es' where "snd (call_loop Idempotent net n plan lr es) = snd (call_loop Idempotent net (n + 1) (retry_later ?t p') lr es')"
        using call_loop_later [OF p'(1), of net n] later by blast
      moreover have "snd (call_loop Idempotent net (n + 1) (retry_later ?t p') lr es') = Inr x"
        by (rule Cons.IH [of _ "post @ [\<lparr>qi_addr = ?t, qi_kind = Normal\<rparr>]"])
          (use p' Cons.prems in \<open>auto simp: retry_later_def\<close>)
      ultimately show ?thesis by simp
    qed
  qed
qed

lemma hint_of_leader: "trimmed a \<Longrightarrow> a \<noteq> [] \<Longrightarrow> hint_of (Refused (leader_hint_status (Some (i, a)))) = Some a"
  by (simp add: hint_of_def leader_hint_status_def parse_leader_message)

text \<open>C37: a stable leader is found. If the leader answers and every other node is unreachable, does not
  know the leader or names its address, then an idempotent call succeeds, provided the leader is among
  the configured nodes or one of them names it.\<close>

theorem call_reaches_leader:
  assumes addr: "trimmed a" "a \<noteq> []" "L = normalize_endpoint a"
    and leader: "\<forall>n. net n L = Answer x"
    and others: "\<forall>n t. t \<noteq> L \<longrightarrow> (\<exists>e. net n t = ConnectError e) \<or> net n t = Refused (leader_hint_status None)
        \<or> net n t = Refused (leader_hint_status (Some (i, a)))"
    and known: "L \<in> set nodes \<or> (\<exists>g \<in> set nodes. \<forall>n. net n g = Refused (leader_hint_status (Some (i, a))))"
  shows "snd (call Idempotent net c nodes) = Inr x"
proof -
  obtain g where g: "g \<in> set (rotated_nodes c nodes)" "\<forall>n. hint_of (net n g) = Some a \<or> g = L"
    using known hint_of_leader [OF addr(1,2), of i] by (metis (no_types) set_rotate rotated_nodes_def)
  let ?item = "\<lambda>t. \<lparr>qi_addr = t, qi_kind = Normal\<rparr>"
  from split_list [OF g(1)] obtain us vs where q: "rotated_nodes c nodes = us @ g # vs" by blast
  have "\<forall>n t. t \<noteq> L \<longrightarrow> (\<exists>e. net n t = ConnectError e) \<or> net n t = Refused (leader_hint_status None) \<or> hint_of (net n t) = Some a"
    using others hint_of_leader [OF addr(1,2)] by metis
  from call_loop_reaches [OF leader g(2) addr(3) this, of _ "map ?item us" "?item g" "map ?item vs"] show ?thesis
    by (simp add: call_def LeaderRetryPlan_new_def Let_def q)
qed

definition failover :: "nat \<Rightarrow> string \<Rightarrow> nat reply" where
  "failover n t = (if t = ''http://b:1'' then Answer 7
     else if t = ''http://a'' then Refused (leader_hint_status (Some (3, ''b:1'')))
     else ConnectError ''refused'')"

theorem call_reaches_leader_witness: "snd (call Idempotent failover 1 [''http://a'', ''http://c'']) = Inr 7"
proof -
  have L: "normalize_endpoint ''b:1'' = ''http://b:1''" "trimmed ''b:1''" by code_simp+
  show ?thesis
    by (rule call_reaches_leader [of "''b:1''" "''http://b:1''" _ _ 3]) (auto simp: L failover_def)
qed

text \<open>The hint survives the trip. The status a node answers a misdirected write or read with is
  \<open>Unavailable\<close>, and the client reads from it exactly the leader's address, if the leader and a
  (nonempty) address are known, and no address otherwise.\<close>

theorem leader_hint_roundtrip:
  assumes "trimmed a"
  shows "st_code (client_write_to_status (ForwardToLeader l (Some a))) = Unavailable
    \<and> parse_leader_hint (st_message (client_write_to_status (ForwardToLeader l (Some a))))
        = (if l = None \<or> a = [] then None else Some a)
    \<and> parse_leader_hint (st_message (client_write_to_status (ForwardToLeader l None))) = None
    \<and> parse_leader_hint (st_message (leader_hint_status (map_option (\<lambda>i. (i, a)) l)))
        = (if l = None \<or> a = [] then None else Some a)"
  using assms parse_leader_message [OF assms] parse_leader_message [OF trimmed_Nil]
  by (cases l) (simp_all add: leader_hint_status_def parse_unknown_message)

theorem leader_hint_roundtrip_witness:
  "parse_leader_hint (st_message (client_write_to_status (ForwardToLeader (Some 3) (Some ''http://b:1'')))) = Some ''http://b:1''"
proof -
  have "trimmed ''http://b:1''" by code_simp
  from leader_hint_roundtrip [OF this, of "Some 3"] show ?thesis by simp
qed

end
