(* ===== verification/Cluster.thy ===== *)
theory Cluster
  imports Shard_Guarantees Leader_Retry
begin

text \<open>
  What the AggregateStore service (\<open>es-server/src/aggregate_service.rs\<close>, \<open>rpc_support.rs\<close>) stands on. A call runs on
  one node of a cluster and may read the stores of the shards it leads, write through Raft, and call the
  internal service of another node. All of this acts on the state \<open>'w\<close> of the whole cluster, which the other nodes
  and clients change too: every access returns a new state, so anything may happen between two accesses. The
  parameter \<open>cl\<close> is openraft, the network, the clock and bincode; the locale \<open>replicated\<close> states what they promise.
\<close>

section \<open>Calls that may fail or panic\<close>

datatype 'a outcome = Returns 'a | Fails Status | Panics

type_synonym ('a, 'w) svc = "'w \<Rightarrow> 'w \<times> 'a outcome"

definition sreturn :: "'a \<Rightarrow> ('a, 'w) svc" where
  "sreturn a w = (w, Returns a)"

definition sfail :: "Status \<Rightarrow> ('a, 'w) svc" where
  "sfail s w = (w, Fails s)"

definition spanic :: "('a, 'w) svc" where
  "spanic w = (w, Panics)"

definition sbind :: "('a, 'w) svc \<Rightarrow> ('a \<Rightarrow> ('b, 'w) svc) \<Rightarrow> ('b, 'w) svc" where
  "sbind m f w =
     (case m w of
        (w', Returns a) \<Rightarrow> f a w'
      | (w', Fails s) \<Rightarrow> (w', Fails s)
      | (w', Panics) \<Rightarrow> (w', Panics))"

text \<open>An access that cannot fail, a computed result, and \<open>if let Ok(x) = m\<close> and \<open>match m\<close>.\<close>

definition sget :: "('w \<Rightarrow> 'w \<times> 'a) \<Rightarrow> ('a, 'w) svc" where
  "sget f w = (case f w of (w', a) \<Rightarrow> (w', Returns a))"

definition sresult :: "('a, Status) result \<Rightarrow> ('a, 'w) svc" where
  "sresult r = (case r of Inl s \<Rightarrow> sfail s | Inr a \<Rightarrow> sreturn a)"

definition scatch :: "('a, 'w) svc \<Rightarrow> (Status \<Rightarrow> ('b, 'w) svc) \<Rightarrow> ('a \<Rightarrow> ('b, 'w) svc) \<Rightarrow> ('b, 'w) svc" where
  "scatch m e f w =
     (case m w of
        (w', Returns a) \<Rightarrow> f a w'
      | (w', Fails s) \<Rightarrow> e s w'
      | (w', Panics) \<Rightarrow> (w', Panics))"

fun sfor :: "'x list \<Rightarrow> 'a \<Rightarrow> ('x \<Rightarrow> 'a \<Rightarrow> ('a, 'w) svc) \<Rightarrow> ('a, 'w) svc" where
  "sfor [] a f = sreturn a"
| "sfor (x # xs) a f = sbind (f x a) (\<lambda>a. sfor xs a f)"

definition require :: "Status \<Rightarrow> 'a option \<Rightarrow> ('a, 'w) svc" where
  "require s v = sresult (ok_or s v)"

definition status :: "Code \<Rightarrow> string \<Rightarrow> Status" where
  "status c m = \<lparr>st_code = c, st_message = m\<rparr>"

text \<open>What holds when a call returns a value, and calls that never panic.\<close>

definition yields :: "('a, 'w) svc \<Rightarrow> 'w \<Rightarrow> ('w \<Rightarrow> 'a \<Rightarrow> bool) \<Rightarrow> bool" where
  "yields m w P \<longleftrightarrow> (\<forall>w' v. m w = (w', Returns v) \<longrightarrow> P w' v)"

named_theorems yields_simps \<open>returned values of the combinators\<close>

lemma yields_basic [yields_simps]:
  "yields (sreturn a) w P \<longleftrightarrow> P w a" "yields (sfail s) w P" "yields spanic w P"
  "yields (sresult r) w P \<longleftrightarrow> (\<forall>v. r = Inr v \<longrightarrow> P w v)"
  "yields (require s o') w P \<longleftrightarrow> (\<forall>v. o' = Some v \<longrightarrow> P w v)"
  by (auto simp: yields_def sreturn_def sfail_def spanic_def sresult_def require_def ok_or_def split: sum.splits option.splits)

lemma yields_sget [yields_simps]: "yields (sget f) w P \<longleftrightarrow> (\<forall>w' v. f w = (w', v) \<longrightarrow> P w' v)"
  by (auto simp: yields_def sget_def split: prod.splits)

lemma yields_bind: "yields m w P \<Longrightarrow> (\<And>w' v. P w' v \<Longrightarrow> yields (f v) w' Q) \<Longrightarrow> yields (sbind m f) w Q"
  by (auto simp: yields_def sbind_def split: prod.splits outcome.splits)

lemma yields_mono: "yields m w P \<Longrightarrow> (\<And>w' v. P w' v \<Longrightarrow> Q w' v) \<Longrightarrow> yields m w Q"
  by (auto simp: yields_def)

lemma yields_conj: "yields m w P \<Longrightarrow> yields m w Q \<Longrightarrow> yields m w (\<lambda>w' v. P w' v \<and> Q w' v)"
  by (auto simp: yields_def)

lemma yieldsD: "yields m w P \<Longrightarrow> m w = (w', Returns v) \<Longrightarrow> P w' v"
  by (auto simp: yields_def)

lemma yields_if: "(c \<Longrightarrow> yields a w P) \<Longrightarrow> (\<not> c \<Longrightarrow> yields b w P) \<Longrightarrow> yields (if c then a else b) w P"
  by auto

lemma yields_sfor:
  assumes "I w a" "\<And>w x a. x \<in> set xs \<Longrightarrow> I w a \<Longrightarrow> yields (f x a) w I"
  shows "yields (sfor xs a f) w I"
  using assms
proof (induction xs arbitrary: w a)
  case (Cons x xs)
  show ?case unfolding sfor.simps by (rule yields_bind [where P = I]) (use Cons in auto)
qed (simp add: yields_simps)

definition panic_free :: "('a, 'w) svc \<Rightarrow> bool" where
  "panic_free m \<longleftrightarrow> (\<forall>w. snd (m w) \<noteq> Panics)"

named_theorems panic_free_intros \<open>composition of calls that never panic\<close>

lemma panic_free_basic [panic_free_intros]:
  "panic_free (sreturn a)" "panic_free (sfail s)" "panic_free (sresult r)" "panic_free (require s o')" "panic_free (sget f)"
  by (auto simp: panic_free_def sreturn_def sfail_def sresult_def require_def ok_or_def sget_def split: sum.splits option.splits prod.splits)

lemma panic_free_sbind [panic_free_intros]: "panic_free m \<Longrightarrow> (\<And>a. panic_free (f a)) \<Longrightarrow> panic_free (sbind m f)"
  unfolding panic_free_def sbind_def by (auto split: prod.splits outcome.splits) (metis snd_conv)

lemma panic_free_scatch [panic_free_intros]:
  "panic_free m \<Longrightarrow> (\<And>s. panic_free (e s)) \<Longrightarrow> (\<And>a. panic_free (f a)) \<Longrightarrow> panic_free (scatch m e f)"
  unfolding panic_free_def scatch_def by (auto split: prod.splits outcome.splits) (metis snd_conv)+

lemma panic_free_sfor [panic_free_intros]: "(\<And>x a. panic_free (f x a)) \<Longrightarrow> panic_free (sfor xs a f)"
  by (induction xs arbitrary: a) (auto intro!: panic_free_intros)

lemma panic_free_cases [panic_free_intros]:
  "panic_free a \<Longrightarrow> panic_free b \<Longrightarrow> panic_free (if c then a else b)"
  "(\<And>x y. panic_free (g x y)) \<Longrightarrow> panic_free (case p of (x, y) \<Rightarrow> g x y)"
  "panic_free a \<Longrightarrow> (\<And>x. panic_free (k x)) \<Longrightarrow> panic_free (case v of None \<Rightarrow> a | Some x \<Rightarrow> k x)"
  by (auto split: option.split prod.split)

section \<open>Statuses\<close>

text \<open>The texts of errors, short and in English.\<close>

fun reason_text :: "reason \<Rightarrow> string" where
  "reason_text (Identifier_Length k) = k @ '' has a bad length''"
| "reason_text (Identifier_Reserved k _) = k @ '' is reserved''"
| "reason_text (Identifier_Pattern k) = k @ '' has a bad character''"
| "reason_text Type_Id_Shape = ''bad aggregate type''"
| "reason_text Partition_Count_Zero = ''no partitions''"
| "reason_text Placement_Incomplete = ''incomplete placement''"
| "reason_text Type_Defined_By_Other = ''defined by another operation''"
| "reason_text Activate_Operation_Mismatch = ''operation does not match''"
| "reason_text Move_Requires_Active = ''type is not active''"
| "reason_text Partition_Out_Of_Range = ''partition out of range''"
| "reason_text Move_Already_Pending = ''move pending''"
| "reason_text (Generation_Changed a b) = ''generation changed''"
| "reason_text Move_To_Current_Shard = ''already on this shard''"
| "reason_text Generation_Exhausted = ''generation exhausted''"
| "reason_text No_Pending_Move = ''no pending move''"
| "reason_text Complete_Operation_Mismatch = ''operation does not match''"
| "reason_text Credit_Zero = ''no credit''"
| "reason_text Consumer_Credit_Above_Group = ''consumer credit above group credit''"
| "reason_text Ack_Timeout_Zero = ''no acknowledgement timeout''"
| "reason_text Retry_Range = ''bad retry range''"
| "reason_text (Partition_Starts_Incomplete n) = ''incomplete start positions''"
| "reason_text Event_Type_Empty = ''empty event type''"
| "reason_text Version_Exhausted = ''version exhausted''"
| "reason_text Position_Exhausted = ''position exhausted''"
| "reason_text Revision_Exhausted = ''revision exhausted''"
| "reason_text Fence_Generation_Zero = ''zero generation''"

fun error_text :: "Error \<Rightarrow> string" where
  "error_text (InvalidInput r) = reason_text r"
| "error_text (Error.Storage m) = m"
| "error_text (Serde m) = m"
| "error_text (Error.Internal m) = m"
| "error_text (Raft m) = m"
| "error_text (InvalidRequest m) = m"
| "error_text (Error.NotFound m) = m"
| "error_text (ShardNotLocal _) = ''shard is not on this node''"
| "error_text (Error.NotLeader _) = ''not the leader''"

definition internal_error :: "('a, Error) result \<Rightarrow> ('a, Status) result" where
  "internal_error = map_err (\<lambda>e. status Code.Internal (error_text e))"

definition invalid_argument :: "('a, Error) result \<Rightarrow> ('a, Status) result" where
  "invalid_argument = map_err (\<lambda>e. status InvalidArgument (error_text e))"


section \<open>Messages\<close>

record 'x bincode =
  bc_encode :: "'x \<Rightarrow> (bytes, string) result"
  bc_decode :: "bytes \<Rightarrow> ('x \<times> nat, string) result"

definition encode_bincode :: "'x bincode \<Rightarrow> 'x \<Rightarrow> (bytes, Status) result" where
  "encode_bincode bc v = map_err (status Code.Internal) (bc_encode bc v)"

definition decode_bincode :: "'x bincode \<Rightarrow> bytes \<Rightarrow> ('x, Status) result" where
  "decode_bincode bc bs =
     (case bc_decode bc bs of
        Inl e \<Rightarrow> Inl (status Code.Internal e)
      | Inr (v, consumed) \<Rightarrow>
          if consumed \<noteq> length bs then Inl (status InvalidArgument ''trailing bytes'') else Inr v)"

definition bincode_laws :: "'x bincode \<Rightarrow> bool" where
  "bincode_laws bc \<longleftrightarrow> (\<forall>v b. bc_encode bc v = Inr b \<longrightarrow> bc_decode bc b = Inr (v, length b))"

lemma bincode_roundtrip: "bincode_laws bc \<Longrightarrow> encode_bincode bc v = Inr b \<Longrightarrow> decode_bincode bc b = Inr v"
  by (auto simp: bincode_laws_def encode_bincode_def decode_bincode_def map_err_def split: sum.splits)

record AggregateCursor =
  cur_version :: u8
  cur_aggregate_type :: AggregateTypeId
  cur_next_positions :: "u64 list"

record StatePageToken =
  pt_version :: u8
  pt_aggregate_type :: AggregateTypeId
  pt_after_aggregate_ids :: "string list"

record GroupPartitionFetchInput =
  fi_aggregate_type :: AggregateTypeId
  fi_partition_id :: u16
  fi_partition_generation :: u64
  fi_group_name :: string
  fi_group_epoch :: u64
  fi_start_position :: u64
  fi_settings :: AggregateGroupSettings
  fi_consumer_id :: string
  fi_now_ms :: u64
  fi_max_events :: u32
  fi_max_bytes :: u64

record GroupPartitionFetchOutput =
  fo_deliveries :: "(AggregateGroupDelivery \<times> AggregateEvent) list"
  fo_caught_up :: bool
  fo_throttled :: bool

text \<open>The message types bincode encodes.\<close>

record wire_formats =
  wr_catalog :: "AggregateCatalog bincode"
  wr_catalog_command :: "AggregateCatalogCommand bincode"
  wr_catalog_apply :: "AggregateCatalogApply bincode"
  wr_group_catalog :: "AggregateGroupCatalog bincode"
  wr_group_command :: "AggregateGroupCatalogCommand bincode"
  wr_group_apply :: "AggregateGroupCatalogApply bincode"
  wr_request :: "EsRequest bincode"
  wr_response :: "EsResponse bincode"
  wr_fetch_input :: "GroupPartitionFetchInput bincode"
  wr_fetch_output :: "GroupPartitionFetchOutput bincode"
  wr_cursor :: "AggregateCursor bincode"
  wr_page_token :: "StatePageToken bincode"
  wr_delivery_token :: "AggregateDeliveryToken bincode"

definition wire_laws :: "wire_formats \<Rightarrow> bool" where
  "wire_laws wr \<longleftrightarrow>
     bincode_laws (wr_catalog wr) \<and> bincode_laws (wr_catalog_command wr) \<and> bincode_laws (wr_catalog_apply wr)
     \<and> bincode_laws (wr_group_catalog wr) \<and> bincode_laws (wr_group_command wr) \<and> bincode_laws (wr_group_apply wr)
     \<and> bincode_laws (wr_request wr) \<and> bincode_laws (wr_response wr)
     \<and> bincode_laws (wr_fetch_input wr) \<and> bincode_laws (wr_fetch_output wr)
     \<and> bincode_laws (wr_cursor wr) \<and> bincode_laws (wr_page_token wr) \<and> bincode_laws (wr_delivery_token wr)"

section \<open>The cluster\<close>

text \<open>What a node knows of the others (\<open>RuntimeTopologySnapshot\<close> and its \<open>RemoteShards\<close>).\<close>

record RuntimeTopologySnapshot =
  ts_self_id :: u64
  ts_addrs :: "(u64, string) fmap"
  ts_internal_addrs :: "(u64, string) fmap"
  ts_all_shards :: "u64 list"
  ts_control_shard_id :: u64

text \<open>
  \<open>cl_leads node shard\<close>: the node carries the shard and is its leader. \<open>cl_store\<close>: the store of the node's replica.
  \<open>cl_write\<close>: a Raft write through the node. \<open>cl_probe\<close>: the answers of the peers to \<open>get_raft_state\<close>.
  \<open>cl_connect\<close>: the node that answers at an address. \<open>cl_send\<close>: one message crosses the network or is lost.
\<close>

record ('w, 'db, 'm) cluster =
  cl_kv :: "'db kv"
  cl_codec :: "'m codec"
  cl_wire :: wire_formats
  cl_topology :: "u64 \<Rightarrow> 'w \<Rightarrow> 'w \<times> RuntimeTopologySnapshot"
  cl_leads :: "u64 \<Rightarrow> u64 \<Rightarrow> 'w \<Rightarrow> 'w \<times> bool"
  cl_store :: "u64 \<Rightarrow> u64 \<Rightarrow> 'w \<Rightarrow> 'w \<times> ('db, 'm) EsStorage"
  cl_write :: "u64 \<Rightarrow> u64 \<Rightarrow> EsRequest \<Rightarrow> 'w \<Rightarrow> 'w \<times> (EsResponse, write_error) result"
  cl_probe :: "u64 \<Rightarrow> u64 \<Rightarrow> 'w \<Rightarrow> 'w \<times> (u64 \<Rightarrow> bool option)"
  cl_connect :: "string \<Rightarrow> 'w \<Rightarrow> 'w \<times> u64 option"
  cl_send :: "'w \<Rightarrow> 'w \<times> Status option"
  cl_now :: "'w \<Rightarrow> 'w \<times> u64"
  cl_uuid :: "'w \<Rightarrow> 'w \<times> uuid"

definition remote_find_leader ::
  "('w, 'db, 'm) cluster \<Rightarrow> RuntimeTopologySnapshot \<Rightarrow> u64 \<Rightarrow> ((u64 \<times> string) option, 'w) svc" where
  "remote_find_leader cl tp shard =
     sbind (sget (cl_probe cl (ts_self_id tp) shard)) (\<lambda>probe.
       sreturn (find_leader (ts_self_id tp) probe (ts_addrs tp)))"

definition local_leader :: "('w, 'db, 'm) cluster \<Rightarrow> u64 \<Rightarrow> u64 \<Rightarrow> (unit, 'w) svc" where
  "local_leader cl self shard =
     sbind (sget (cl_leads cl self shard)) (\<lambda>leads.
       if leads then sreturn ()
       else sbind (sget (cl_topology cl self)) (\<lambda>tp.
            sbind (remote_find_leader cl tp shard) (\<lambda>l. sfail (leader_hint_status l))))"

definition source_unavailable :: Status where
  "source_unavailable = status Unavailable ''aggregate store source unavailable''"

definition aggregate_internal_client :: "('w, 'db, 'm) cluster \<Rightarrow> RuntimeTopologySnapshot \<Rightarrow> u64 \<Rightarrow> (u64, 'w) svc" where
  "aggregate_internal_client cl tp shard =
     sbind (remote_find_leader cl tp shard) (\<lambda>l.
     sbind (require source_unavailable l) (\<lambda>(leader_id, _).
     sbind (require source_unavailable (fmlookup (ts_internal_addrs tp) leader_id)) (\<lambda>addr.
     sbind (sget (cl_connect cl addr)) (\<lambda>node. require source_unavailable node))))"

text \<open>A call of the internal service: the request crosses the network, the handler runs, its reply crosses back.\<close>

definition transmit :: "('w, 'db, 'm) cluster \<Rightarrow> (unit, 'w) svc" where
  "transmit cl = sbind (sget (cl_send cl)) (\<lambda>e. case e of None \<Rightarrow> sreturn () | Some s \<Rightarrow> sfail s)"

definition internal_call ::
  "('w, 'db, 'm) cluster \<Rightarrow> RuntimeTopologySnapshot \<Rightarrow> u64 \<Rightarrow> (u64 \<Rightarrow> ('a, 'w) svc) \<Rightarrow> ('a, 'w) svc" where
  "internal_call cl tp shard handler =
     sbind (aggregate_internal_client cl tp shard) (\<lambda>node.
     sbind (transmit cl) (\<lambda>_.
     sbind (handler node) (\<lambda>reply.
     sbind (transmit cl) (\<lambda>_. sreturn reply))))"

text \<open>\<open>raft.client_write\<close> on a node, with its errors as statuses; a read of the node's replica.\<close>

definition client_write :: "('w, 'db, 'm) cluster \<Rightarrow> u64 \<Rightarrow> u64 \<Rightarrow> EsRequest \<Rightarrow> (EsResponse, 'w) svc" where
  "client_write cl node shard rq =
     sbind (sget (cl_write cl node shard rq)) (\<lambda>r. sresult (map_err client_write_to_status r))"

definition read_store ::
  "('w, 'db, 'm) cluster \<Rightarrow> u64 \<Rightarrow> u64 \<Rightarrow> ('db kv \<Rightarrow> 'm codec \<Rightarrow> ('db, 'm) EsStorage \<Rightarrow> ('a, Error) result) \<Rightarrow> ('a, 'w) svc" where
  "read_store cl node shard read =
     sbind (sget (cl_store cl node shard)) (\<lambda>st. sresult (internal_error (read (cl_kv cl) (cl_codec cl) st)))"

section \<open>Catalogs and fences\<close>

definition require_control_shard :: "('w, 'db, 'm) cluster \<Rightarrow> u64 \<Rightarrow> u64 \<Rightarrow> (unit, 'w) svc" where
  "require_control_shard cl self shard =
     sbind (sget (cl_topology cl self)) (\<lambda>tp.
       if shard \<noteq> ts_control_shard_id tp then sfail (status InvalidArgument ''control_shard_id'') else sreturn ())"

definition get_aggregate_catalog_internal :: "('w, 'db, 'm) cluster \<Rightarrow> u64 \<Rightarrow> u64 \<Rightarrow> (bytes, 'w) svc" where
  "get_aggregate_catalog_internal cl self control =
     sbind (require_control_shard cl self control) (\<lambda>_.
     sbind (local_leader cl self control) (\<lambda>_.
     sbind (read_store cl self control read_aggregate_catalog) (\<lambda>c.
     sresult (encode_bincode (wr_catalog (cl_wire cl)) c))))"

definition fetch_catalog :: "('w, 'db, 'm) cluster \<Rightarrow> u64 \<Rightarrow> (AggregateCatalog, 'w) svc" where
  "fetch_catalog cl self =
     sbind (sget (cl_topology cl self)) (\<lambda>tp.
       let control = ts_control_shard_id tp in
       scatch (local_leader cl self control)
         (\<lambda>_. sbind (internal_call cl tp control (\<lambda>n. get_aggregate_catalog_internal cl n control)) (\<lambda>payload.
              sresult (decode_bincode (wr_catalog (cl_wire cl)) payload)))
         (\<lambda>_. read_store cl self control read_aggregate_catalog))"

fun catalog_applied :: "EsResponse \<Rightarrow> (AggregateCatalogApply, Status) result" where
  "catalog_applied (RsAggregateCatalogApplied applied) = Inr applied"
| "catalog_applied _ = Inl (status Code.Internal ''unexpected catalog result'')"

definition commit_aggregate_catalog_internal :: "('w, 'db, 'm) cluster \<Rightarrow> u64 \<Rightarrow> u64 \<Rightarrow> bytes \<Rightarrow> (bytes, 'w) svc" where
  "commit_aggregate_catalog_internal cl self control payload =
     sbind (require_control_shard cl self control) (\<lambda>_.
     sbind (sresult (decode_bincode (wr_catalog_command (cl_wire cl)) payload)) (\<lambda>command.
     sbind (local_leader cl self control) (\<lambda>_.
     sbind (client_write cl self control (RqCommitAggregateCatalog command)) (\<lambda>response.
     sbind (sresult (catalog_applied response)) (\<lambda>applied.
     sresult (encode_bincode (wr_catalog_apply (cl_wire cl)) applied))))))"

definition commit_catalog :: "('w, 'db, 'm) cluster \<Rightarrow> u64 \<Rightarrow> AggregateCatalogCommand \<Rightarrow> (AggregateCatalogApply, 'w) svc" where
  "commit_catalog cl self command =
     sbind (sget (cl_topology cl self)) (\<lambda>tp.
       let control = ts_control_shard_id tp in
       scatch (local_leader cl self control)
         (\<lambda>_. sbind (sresult (encode_bincode (wr_catalog_command (cl_wire cl)) command)) (\<lambda>payload.
              sbind (internal_call cl tp control (\<lambda>n. commit_aggregate_catalog_internal cl n control payload)) (\<lambda>reply.
              sresult (decode_bincode (wr_catalog_apply (cl_wire cl)) reply))))
         (\<lambda>_. sbind (client_write cl self control (RqCommitAggregateCatalog command)) (\<lambda>response.
              sresult (catalog_applied response))))"

definition get_aggregate_group_catalog_internal :: "('w, 'db, 'm) cluster \<Rightarrow> u64 \<Rightarrow> u64 \<Rightarrow> (bytes, 'w) svc" where
  "get_aggregate_group_catalog_internal cl self control =
     sbind (require_control_shard cl self control) (\<lambda>_.
     sbind (local_leader cl self control) (\<lambda>_.
     sbind (read_store cl self control read_aggregate_group_catalog) (\<lambda>c.
     sresult (encode_bincode (wr_group_catalog (cl_wire cl)) c))))"

definition fetch_group_catalog :: "('w, 'db, 'm) cluster \<Rightarrow> u64 \<Rightarrow> (AggregateGroupCatalog, 'w) svc" where
  "fetch_group_catalog cl self =
     sbind (sget (cl_topology cl self)) (\<lambda>tp.
       let control = ts_control_shard_id tp in
       scatch (local_leader cl self control)
         (\<lambda>_. sbind (internal_call cl tp control (\<lambda>n. get_aggregate_group_catalog_internal cl n control)) (\<lambda>payload.
              sresult (decode_bincode (wr_group_catalog (cl_wire cl)) payload)))
         (\<lambda>_. read_store cl self control read_aggregate_group_catalog))"

fun group_catalog_applied :: "EsResponse \<Rightarrow> (AggregateGroupCatalogApply, Status) result" where
  "group_catalog_applied (RsAggregateGroupCatalogApplied applied) = Inr applied"
| "group_catalog_applied _ = Inl (status Code.Internal ''unexpected group catalog result'')"

definition commit_aggregate_group_catalog_internal :: "('w, 'db, 'm) cluster \<Rightarrow> u64 \<Rightarrow> u64 \<Rightarrow> bytes \<Rightarrow> (bytes, 'w) svc" where
  "commit_aggregate_group_catalog_internal cl self control payload =
     sbind (require_control_shard cl self control) (\<lambda>_.
     sbind (sresult (decode_bincode (wr_group_command (cl_wire cl)) payload)) (\<lambda>command.
     sbind (local_leader cl self control) (\<lambda>_.
     sbind (client_write cl self control (RqCommitAggregateGroupCatalog command)) (\<lambda>response.
     sbind (sresult (group_catalog_applied response)) (\<lambda>applied.
     sresult (encode_bincode (wr_group_apply (cl_wire cl)) applied))))))"

definition commit_group_catalog ::
  "('w, 'db, 'm) cluster \<Rightarrow> u64 \<Rightarrow> AggregateGroupCatalogCommand \<Rightarrow> (AggregateGroupCatalogApply, 'w) svc" where
  "commit_group_catalog cl self command =
     sbind (sget (cl_topology cl self)) (\<lambda>tp.
       let control = ts_control_shard_id tp in
       scatch (local_leader cl self control)
         (\<lambda>_. sbind (sresult (encode_bincode (wr_group_command (cl_wire cl)) command)) (\<lambda>payload.
              sbind (internal_call cl tp control (\<lambda>n. commit_aggregate_group_catalog_internal cl n control payload)) (\<lambda>reply.
              sresult (decode_bincode (wr_group_apply (cl_wire cl)) reply))))
         (\<lambda>_. sbind (client_write cl self control (RqCommitAggregateGroupCatalog command)) (\<lambda>response.
              sresult (group_catalog_applied response))))"

definition require_active_aggregate_type ::
  "('w, 'db, 'm) cluster \<Rightarrow> u64 \<Rightarrow> AggregateTypeId \<Rightarrow> (AggregateTypeDefinition, 'w) svc" where
  "require_active_aggregate_type cl self t =
     sbind (fetch_catalog cl self) (\<lambda>catalog.
     sbind (require (status Code.NotFound ''aggregate type does not exist'') (fmlookup (cat_aggregate_types catalog) t)) (\<lambda>d.
       if def_status d \<noteq> Active then sfail (status Unavailable ''aggregate type is not active yet, retry'') else sreturn d))"

definition require_group ::
  "('w, 'db, 'm) cluster \<Rightarrow> u64 \<Rightarrow> AggregateTypeId \<Rightarrow> string \<Rightarrow> (AggregateGroupDefinition, 'w) svc" where
  "require_group cl self t name =
     sbind (sresult (invalid_argument (validate_aggregate_identifier ''group_name'' name))) (\<lambda>_.
     sbind (fetch_group_catalog cl self) (\<lambda>catalog.
     require (status Code.NotFound ''group does not exist'') (fmlookup (gc_groups catalog) (t, name))))"

fun map_fence_response :: "EsResponse \<Rightarrow> (u64, Status) result" where
  "map_fence_response (RsAggregatePartitionFenceInstalled generation) = Inr generation"
| "map_fence_response (RsAggregateInvalid reason) = Inl (status InvalidArgument (reason_text reason))"
| "map_fence_response _ = Inl (status Code.Internal ''unexpected fence result'')"

text \<open>The fields \<open>business_space\<close> and \<open>aggregate_type\<close> of the protocol message, absent or present.\<close>

definition proto_aggregate_type :: "(string \<times> string) option \<Rightarrow> (AggregateTypeId, Status) result" where
  "proto_aggregate_type v =
     rbind (ok_or (status InvalidArgument ''aggregate_type is required'') v) (\<lambda>(space, typ).
       invalid_argument (AggregateTypeId_new space typ))"

definition aggregate_type_to_proto :: "AggregateTypeId \<Rightarrow> string \<times> string" where
  "aggregate_type_to_proto t = (business_space t, aggregate_type t)"

definition install_aggregate_partition_fence_internal ::
  "('w, 'db, 'm) cluster \<Rightarrow> u64 \<Rightarrow> u64 \<Rightarrow> (string \<times> string) option \<Rightarrow> u32 \<Rightarrow> u64 \<Rightarrow> (u64, 'w) svc" where
  "install_aggregate_partition_fence_internal cl self shard ty partition_id generation =
     sbind (sresult (proto_aggregate_type ty)) (\<lambda>t.
     if partition_id \<ge> 2 ^ 16 then sfail (status InvalidArgument ''partition_id is out of range'')
     else
       sbind (local_leader cl self shard) (\<lambda>_.
       sbind (client_write cl self shard (RqInstallAggregatePartitionFence t (ucast partition_id) generation)) (\<lambda>response.
       sresult (map_fence_response response))))"

definition install_partition_fence ::
  "('w, 'db, 'm) cluster \<Rightarrow> u64 \<Rightarrow> AggregateTypeId \<Rightarrow> u16 \<Rightarrow> u64 \<Rightarrow> u64 \<Rightarrow> (u64, 'w) svc" where
  "install_partition_fence cl self t p shard generation =
     scatch (local_leader cl self shard)
       (\<lambda>_. sbind (sget (cl_topology cl self)) (\<lambda>tp.
            internal_call cl tp shard (\<lambda>n.
              install_aggregate_partition_fence_internal cl n shard (Some (aggregate_type_to_proto t)) (ucast p) generation)))
       (\<lambda>_. sbind (client_write cl self shard (RqInstallAggregatePartitionFence t p generation)) (\<lambda>response.
            sresult (map_fence_response response)))"


lemma panic_free_catalogs [panic_free_intros]:
  "panic_free (local_leader cl n s)" "panic_free (aggregate_internal_client cl tp s)" "panic_free (transmit cl)"
  "panic_free (client_write cl n s rq)" "panic_free (read_store cl n s rd)"
  "panic_free (fetch_catalog cl n)" "panic_free (commit_catalog cl n command)"
  "panic_free (fetch_group_catalog cl n)" "panic_free (commit_group_catalog cl n gcommand)"
  "panic_free (install_partition_fence cl n t p s g)"
  "panic_free (require_active_aggregate_type cl n t)" "panic_free (require_group cl n t name)"
  unfolding fetch_catalog_def commit_catalog_def fetch_group_catalog_def commit_group_catalog_def install_partition_fence_def
    require_active_aggregate_type_def require_group_def Let_def get_aggregate_catalog_internal_def
    commit_aggregate_catalog_internal_def get_aggregate_group_catalog_internal_def internal_call_def transmit_def
    commit_aggregate_group_catalog_internal_def install_aggregate_partition_fence_internal_def local_leader_def
    remote_find_leader_def client_write_def read_store_def require_control_shard_def aggregate_internal_client_def
  by (intro panic_free_intros)+

end
