(* ===== verification/Replication.thy ===== *)
theory Replication
  imports Cluster
begin

text \<open>
  What the service relies on of a replicated shard, as the locale \<open>replicated\<close>: the state of every shard is that of
  the specification run over the requests committed so far; an answered write took effect once, at some moment of
  the call; a read sees some state the shard was in. A node that was deposed still answers reads from its own
  store, so a read need not be current; \<open>lagging\<close> names how far behind it can be. \<open>progressing\<close> is the part of
  both that lets time pass. The catalog operations are proved to mean what the control shard says, whether they
  ran on the leader or were forwarded to it. The locales are interpreted on a cluster whose shards apply their log
  with \<open>sm_apply\<close>.
\<close>

section \<open>Shards over time\<close>

definition later :: "(bytes \<Rightarrow> u128) \<Rightarrow> 'm shard \<Rightarrow> 'm shard \<Rightarrow> bool" where
  "later h T T' \<longleftrightarrow> (\<exists>cs. T' = run_commands (spec_payload h) T cs)"

lemma later_refl [simp]: "later h T T"
  unfolding later_def by (metis run_commands.simps(1))

lemma later_trans [trans]: "later h T U \<Longrightarrow> later h U V \<Longrightarrow> later h T V"
  unfolding later_def by (metis run_commands_append)

lemma later_request [simp]: "later h T (fst (spec_request h T rq))"
  unfolding later_def by (rule exI [of _ "[EntryPayload.Normal rq]"]) simp

lemma later_wf: "wf_shard T \<Longrightarrow> later h T T' \<Longrightarrow> wf_shard T'"
  unfolding later_def by (auto intro: shard.run_wf)

lemma later_grows: "wf_shard T \<Longrightarrow> later h T T' \<Longrightarrow> shard_grows T T'"
  unfolding later_def by (auto intro: shard.run_below)

definition advances :: "(bytes \<Rightarrow> u128) \<Rightarrow> ('w \<Rightarrow> u64 \<Rightarrow> 'm shard) \<Rightarrow> 'w \<Rightarrow> 'w \<Rightarrow> bool" where
  "advances h sa w w' \<longleftrightarrow> (\<forall>s. later h (sa w s) (sa w' s))"

lemma advances_refl [simp]: "advances h sa w w"
  by (simp add: advances_def)

lemma advances_trans [trans]: "advances h sa u v \<Longrightarrow> advances h sa v w \<Longrightarrow> advances h sa u w"
  unfolding advances_def by (meson later_trans)

text \<open>A request took effect in a shard between two cluster states, with this response.\<close>

definition took_effect ::
  "(bytes \<Rightarrow> u128) \<Rightarrow> ('w \<Rightarrow> u64 \<Rightarrow> 'm shard) \<Rightarrow> u64 \<Rightarrow> EsRequest \<Rightarrow> EsResponse \<Rightarrow> 'w \<Rightarrow> 'w \<Rightarrow> bool" where
  "took_effect h sa s rq resp w w' \<longleftrightarrow>
     (\<exists>T. later h (sa w s) T \<and> resp = snd (spec_request h T rq) \<and> later h (fst (spec_request h T rq)) (sa w' s))"

text \<open>A state the shard was in before \<open>w'\<close>.\<close>

definition observed :: "(bytes \<Rightarrow> u128) \<Rightarrow> ('w \<Rightarrow> u64 \<Rightarrow> 'm shard) \<Rightarrow> u64 \<Rightarrow> 'm shard \<Rightarrow> 'w \<Rightarrow> bool" where
  "observed h sa s T w' \<longleftrightarrow> wf_shard T \<and> later h T (sa w' s)"

lemma took_effect_mono:
  "advances h sa v w \<Longrightarrow> took_effect h sa s rq resp w w' \<Longrightarrow> advances h sa w' v' \<Longrightarrow> took_effect h sa s rq resp v v'"
  unfolding took_effect_def advances_def by (blast intro: later_trans)

lemma observed_mono: "observed h sa s T w \<Longrightarrow> advances h sa w w' \<Longrightarrow> observed h sa s T w'"
  unfolding observed_def advances_def by (meson later_trans)

section \<open>Operations that only let time pass\<close>

definition keeps :: "('w \<Rightarrow> 'w \<Rightarrow> bool) \<Rightarrow> ('a, 'w) svc \<Rightarrow> bool" where
  "keeps R m \<longleftrightarrow> (\<forall>w. R w (fst (m w)))"

named_theorems keeps_intros \<open>composition of operations that keep an order on cluster states\<close>

lemma keeps_yields: "keeps R m \<Longrightarrow> yields m w (\<lambda>w' _. R w w')"
  by (auto simp: keeps_def yields_def) (metis fst_conv)

lemma yields_scatch:
  assumes "keeps R m" "\<And>s w'. R w w' \<Longrightarrow> yields (e s) w' P" "\<And>a w'. R w w' \<Longrightarrow> yields (f a) w' P"
  shows "yields (scatch m e f) w P"
  using assms unfolding yields_def scatch_def keeps_def by (auto split: prod.splits outcome.splits) (metis fst_conv)+

lemma keeps_sreturn [keeps_intros]: "reflp R \<Longrightarrow> keeps R (sreturn a)"
  and keeps_sfail [keeps_intros]: "reflp R \<Longrightarrow> keeps R (sfail s)"
  and keeps_spanic [keeps_intros]: "reflp R \<Longrightarrow> keeps R spanic"
  by (auto simp: keeps_def sreturn_def sfail_def spanic_def reflp_def)

lemma keeps_sresult [keeps_intros]: "reflp R \<Longrightarrow> keeps R (sresult r)"
  and keeps_require [keeps_intros]: "reflp R \<Longrightarrow> keeps R (require s v)"
  by (auto simp: sresult_def require_def ok_or_def intro: keeps_intros split: sum.split option.split)

lemma keeps_sget: "(\<And>w w' a. f w = (w', a) \<Longrightarrow> R w w') \<Longrightarrow> keeps R (sget f)"
  by (auto simp: keeps_def sget_def split: prod.splits)

lemma keeps_sbind [keeps_intros]: "transp R \<Longrightarrow> keeps R m \<Longrightarrow> (\<And>a. keeps R (f a)) \<Longrightarrow> keeps R (sbind m f)"
  unfolding keeps_def sbind_def by (auto split: prod.splits outcome.splits) (metis fst_conv transpE)+

lemma keeps_scatch [keeps_intros]:
  "transp R \<Longrightarrow> keeps R m \<Longrightarrow> (\<And>s. keeps R (e s)) \<Longrightarrow> (\<And>a. keeps R (f a)) \<Longrightarrow> keeps R (scatch m e f)"
  unfolding keeps_def scatch_def by (auto split: prod.splits outcome.splits) (metis fst_conv transpE)+

lemma keeps_sfor [keeps_intros]:
  "reflp R \<Longrightarrow> transp R \<Longrightarrow> (\<And>x a. keeps R (f x a)) \<Longrightarrow> keeps R (sfor xs a f)"
  by (induction xs arbitrary: a) (auto intro!: keeps_intros)

lemma keeps_if [keeps_intros]: "keeps R a \<Longrightarrow> keeps R b \<Longrightarrow> keeps R (if c then a else b)"
  and keeps_prod [keeps_intros]: "(\<And>x y. keeps R (g x y)) \<Longrightarrow> keeps R (case p of (x, y) \<Rightarrow> g x y)"
  and keeps_option [keeps_intros]: "keeps R a \<Longrightarrow> (\<And>x. keeps R (k x)) \<Longrightarrow> keeps R (case v of None \<Rightarrow> a | Some x \<Rightarrow> k x)"
  by (auto split: option.split prod.split)

lemma advances_order: "reflp (advances h sa)" "transp (advances h sa)"
  by (auto simp: reflp_def intro: transpI advances_trans)

lemma yields_decode:
  assumes "bincode_laws bc" "yields m w (\<lambda>w' b. \<exists>v. encode_bincode bc v = Inr b \<and> P w' v)"
  shows "yields (sbind m (\<lambda>b. sresult (decode_bincode bc b))) w P"
proof (rule yields_bind [OF assms(2)])
  fix w' b
  assume "\<exists>v. encode_bincode bc v = Inr b \<and> P w' v"
  then obtain v where "encode_bincode bc v = Inr b" "P w' v" by blast
  with bincode_roundtrip [OF assms(1)] show "yields (sresult (decode_bincode bc b)) w' P" by (simp add: yields_simps)
qed

lemma yields_encode:
  "yields m w P \<Longrightarrow> yields (sbind m (\<lambda>v. sresult (encode_bincode bc v))) w (\<lambda>w' b. \<exists>v. encode_bincode bc v = Inr b \<and> P w' v)"
  by (erule yields_bind) (auto simp: yields_simps)

section \<open>Passing time\<close>

text \<open>Every access to the cluster lets time pass; so do the operations that are built from accesses.\<close>

locale progressing =
  fixes cl :: "('w, 'db, 'm) cluster" and R :: "'w \<Rightarrow> 'w \<Rightarrow> bool"
  assumes order: "reflp R" "transp R"
    and accesses: "cl_topology cl n w = (w', tp) \<Longrightarrow> R w w'" "cl_leads cl n s w = (w', b) \<Longrightarrow> R w w'"
      "cl_probe cl n s w = (w', pr) \<Longrightarrow> R w w'" "cl_connect cl addr w = (w', n') \<Longrightarrow> R w w'"
      "cl_send cl w = (w', e) \<Longrightarrow> R w w'" "cl_now cl w = (w', ms) \<Longrightarrow> R w w'" "cl_uuid cl w = (w', u) \<Longrightarrow> R w w'"
      "cl_store cl n s w = (w', st) \<Longrightarrow> R w w'" "cl_write cl n s rq w = (w', rs) \<Longrightarrow> R w w'"
begin

lemmas keeps_order [keeps_intros] = order

lemmas passes_refl [simp] = reflpD [OF order(1)]
lemmas passes_trans = transpD [OF order(2)]

lemma keeps_accesses [keeps_intros]:
  "keeps R (sget (cl_topology cl n))" "keeps R (sget (cl_leads cl n s))"
  "keeps R (sget (cl_probe cl n s))" "keeps R (sget (cl_connect cl addr))"
  "keeps R (sget (cl_send cl))" "keeps R (sget (cl_now cl))"
  "keeps R (sget (cl_uuid cl))" "keeps R (sget (cl_store cl n s))" "keeps R (sget (cl_write cl n s rq))"
  by (rule keeps_sget, erule accesses)+

lemma keeps_local [keeps_intros]:
  "keeps (R) (remote_find_leader cl tp s)" "keeps (R) (local_leader cl n s)"
  "keeps (R) (aggregate_internal_client cl tp s)" "keeps (R) (transmit cl)"
  "keeps (R) (client_write cl n s rq)" "keeps (R) (read_store cl n s rd)"
  "keeps (R) (require_control_shard cl n s)"
  unfolding remote_find_leader_def local_leader_def aggregate_internal_client_def transmit_def client_write_def
    read_store_def require_control_shard_def
  by (intro keeps_intros)+

lemma keeps_internal_call [keeps_intros]:
  "(\<And>n. keeps (R) (handler n)) \<Longrightarrow> keeps (R) (internal_call cl tp s handler)"
  unfolding internal_call_def by (intro keeps_intros) auto

lemma keeps_catalogs [keeps_intros]:
  "keeps (R) (fetch_catalog cl n)" "keeps (R) (commit_catalog cl n command)"
  "keeps (R) (fetch_group_catalog cl n)" "keeps (R) (commit_group_catalog cl n gcommand)"
  "keeps (R) (install_partition_fence cl n t p s g)"
  "keeps (R) (require_active_aggregate_type cl n t)" "keeps (R) (require_group cl n t name)"
  unfolding fetch_catalog_def commit_catalog_def fetch_group_catalog_def commit_group_catalog_def install_partition_fence_def
    require_active_aggregate_type_def require_group_def Let_def get_aggregate_catalog_internal_def
    commit_aggregate_catalog_internal_def get_aggregate_group_catalog_internal_def
    commit_aggregate_group_catalog_internal_def install_aggregate_partition_fence_internal_def
  by (intro keeps_intros)+

lemma internal_call_yields:
  assumes "\<And>n w1. R w w1 \<Longrightarrow> yields (handler n) w1 P"
    and "\<And>w1 w2 v. P w1 v \<Longrightarrow> R w1 w2 \<Longrightarrow> P w2 v"
  shows "yields (internal_call cl tp s handler) w P"
proof -
  have t: "yields (transmit cl) w1 (\<lambda>w2 _. R w1 w2)" for w1 by (intro keeps_yields keeps_intros)
  have "yields (sbind (transmit cl) (\<lambda>_. sbind (handler n) (\<lambda>reply. sbind (transmit cl) (\<lambda>_. sreturn reply)))) w1 P"
    if "R w w1" for n w1
  proof (rule yields_bind [OF t], rule yields_bind)
    fix w2
    assume "R w1 w2"
    with that show "yields (handler n) w2 P" by (blast intro: assms(1) passes_trans)
  next
    fix w2 v
    assume "P w2 v"
    then show "yields (sbind (transmit cl) (\<lambda>_. sreturn v)) w2 P"
      by (intro yields_bind [OF t]) (auto simp: yields_simps intro: assms(2))
  qed
  then show ?thesis unfolding internal_call_def by (rule yields_bind [OF keeps_yields [OF keeps_local(3)]])
qed

lemmas yields_control_shard = yields_bind [OF keeps_yields [OF keeps_local(7)]]
lemmas yields_local_leader = yields_bind [OF keeps_yields [OF keeps_local(2)]]

text \<open>A call that is served by the leader, here or on the node the call is forwarded to.\<close>

lemma forwarded_yields:
  assumes "R w w0" "\<And>w1. R w w1 \<Longrightarrow> yields there w1 P" "\<And>w1. R w w1 \<Longrightarrow> yields here w1 P"
  shows "yields (scatch (local_leader cl n s) (\<lambda>_. there) (\<lambda>_. here)) w0 P"
  by (rule yields_scatch [OF keeps_local(2)]) (blast intro: assms passes_trans)+

lemma decoded_call_yields:
  assumes "bincode_laws bc"
    and "\<And>m w1. R w w1 \<Longrightarrow> yields (handler m) w1 (\<lambda>w' b. \<exists>v. encode_bincode bc v = Inr b \<and> P w' v)"
    and "\<And>w1 w2 v. P w1 v \<Longrightarrow> R w1 w2 \<Longrightarrow> P w2 v"
  shows "yields (sbind (internal_call cl tp s handler) (\<lambda>b. sresult (decode_bincode bc b))) w P"
  by (rule yields_decode [OF assms(1)], rule internal_call_yields) (blast intro: assms(2,3))+

lemma passes_leads: "yields (local_leader cl n s) w1 (\<lambda>w' _. R w w')" if "R w w1"
  by (rule yields_mono [OF keeps_yields [OF keeps_local(2)]]) (blast intro: passes_trans that)

lemma passes_control: "yields (require_control_shard cl n s) w1 (\<lambda>w' _. R w w')" if "R w w1"
  by (rule yields_mono [OF keeps_yields [OF keeps_local(7)]]) (blast intro: passes_trans that)

lemma yields_topology:
  assumes "\<And>w0 tp. R w w0 \<Longrightarrow> yields (f tp) w0 P"
  shows "yields (sbind (sget (cl_topology cl n)) f) w P"
  by (rule yields_bind [OF keeps_yields [OF keeps_accesses(1)]]) (rule assms)

end

section \<open>Replicated shards\<close>

locale replicated =
  fixes cl :: "('w, 'db, 'm) cluster"
    and h :: "bytes \<Rightarrow> u128"
    and view :: "'db \<Rightarrow> (bytes, bytes) fmap"
    and sa :: "'w \<Rightarrow> u64 \<Rightarrow> 'm shard"
    and control :: u64
  assumes kv: "kv_laws (cl_kv cl) view"
    and codec: "codec_laws (cl_codec cl)"
    and wire: "wire_laws (cl_wire cl)"
    and shards_wf: "wf_shard (sa w s)"
    and topology: "cl_topology cl n w = (w', tp) \<Longrightarrow> advances h sa w w' \<and> ts_control_shard_id tp = control"
    and leads: "cl_leads cl n s w = (w', b) \<Longrightarrow> advances h sa w w'"
    and probe: "cl_probe cl n s w = (w', pr) \<Longrightarrow> advances h sa w w'"
    and connect: "cl_connect cl addr w = (w', n') \<Longrightarrow> advances h sa w w'"
    and send: "cl_send cl w = (w', e) \<Longrightarrow> advances h sa w w'"
    and clock: "cl_now cl w = (w', ms) \<Longrightarrow> advances h sa w w'"
    and uuid: "cl_uuid cl w = (w', u) \<Longrightarrow> advances h sa w w'"
    and store: "cl_store cl n s w = (w', st) \<Longrightarrow> advances h sa w w'
      \<and> (\<exists>T x. observed h sa s T w' \<and> rep (cl_codec cl) (es_shard_id st) (view (es_tree st)) (T(AppliedStateKey := x)))"
    and write_ok: "cl_write cl n s rq w = (w', Inr resp) \<Longrightarrow> advances h sa w w' \<and> took_effect h sa s rq resp w w'"
    and write_error: "cl_write cl n s rq w = (w', Inl err) \<Longrightarrow> advances h sa w w'"

sublocale replicated \<subseteq> progressing cl "advances h sa"
  by unfold_locales (use advances_order [of h sa] topology leads probe connect send clock uuid store write_ok write_error in \<open>auto, metis obj_sumE\<close>)

context replicated
begin

lemmas advances_leads = passes_leads
lemmas advances_control = passes_control

text \<open>What the operations return.\<close>

lemma client_write_yields: "yields (client_write cl n s rq) w (\<lambda>w' resp. took_effect h sa s rq resp w w')"
  unfolding client_write_def
  by (rule yields_bind [where P = "\<lambda>w' r. \<forall>resp. r = Inr resp \<longrightarrow> took_effect h sa s rq resp w w'"])
    (auto simp: yields_simps map_err_def write_ok split: sum.splits)

lemma read_store_yields:
  assumes "\<And>st T v. rep (cl_codec cl) (es_shard_id st) (view (es_tree st)) T \<Longrightarrow> wf_shard T \<Longrightarrow> rd (cl_kv cl) (cl_codec cl) st = Inr v \<Longrightarrow> Q T v"
    and "\<And>T x v. Q (T(AppliedStateKey := x)) v \<Longrightarrow> Q T v"
  shows "yields (read_store cl n s rd) w (\<lambda>w' v. \<exists>T. observed h sa s T w' \<and> Q T v)"
  unfolding read_store_def
proof (rule yields_bind [where P = "\<lambda>w' st. \<exists>T x. observed h sa s T w'
    \<and> rep (cl_codec cl) (es_shard_id st) (view (es_tree st)) (T(AppliedStateKey := x))"])
  fix w' and st :: "('db, 'm) EsStorage"
  assume "\<exists>T x. observed h sa s T w' \<and> rep (cl_codec cl) (es_shard_id st) (view (es_tree st)) (T(AppliedStateKey := x))"
  then obtain T x where T: "observed h sa s T w'" "rep (cl_codec cl) (es_shard_id st) (view (es_tree st)) (T(AppliedStateKey := x))"
    by blast
  have "wf_shard (T(AppliedStateKey := x))" using T(1) by (simp add: observed_def)
  from assms(1) [OF T(2) this] assms(2) T(1)
  show "yields (sresult (internal_error (rd (cl_kv cl) (cl_codec cl) st))) w' (\<lambda>w' v. \<exists>T. observed h sa s T w' \<and> Q T v)"
    by (auto simp: yields_simps internal_error_def map_err_def split: sum.splits)
qed (use store in \<open>auto simp: yields_simps\<close>)

lemma read_catalog_yields:
  "yields (read_store cl n s read_aggregate_catalog) w (\<lambda>w' c. \<exists>T. observed h sa s T w' \<and> c = spec_catalog T)"
proof (rule read_store_yields)
  fix st T c
  assume "rep (cl_codec cl) (es_shard_id st) (view (es_tree st)) T" "read_aggregate_catalog (cl_kv cl) (cl_codec cl) st = Inr c"
  then show "c = spec_catalog T"
    using read_typed_rep [OF kv, of "cl_codec cl" st T CatalogKey as_catalog]
    by (auto simp: read_aggregate_catalog_def unwrap_or_def rbind_Inr_iff rep_def spec_catalog_def or_default_def split: option.splits)
qed (simp add: spec_catalog_def at_def)

lemma read_group_catalog_yields:
  "yields (read_store cl n s read_aggregate_group_catalog) w (\<lambda>w' c. \<exists>T. observed h sa s T w' \<and> c = spec_group_catalog T)"
proof (rule read_store_yields)
  fix st T c
  assume "rep (cl_codec cl) (es_shard_id st) (view (es_tree st)) T" "read_aggregate_group_catalog (cl_kv cl) (cl_codec cl) st = Inr c"
  then show "c = spec_group_catalog T"
    using read_typed_rep [OF kv, of "cl_codec cl" st T GroupCatalogKey as_group_catalog]
    by (auto simp: read_aggregate_group_catalog_def unwrap_or_def rbind_Inr_iff rep_def spec_group_catalog_def or_default_def split: option.splits)
qed (simp add: spec_group_catalog_def at_def)

lemma yields_control:
  assumes "\<And>w0 tp. advances h sa w w0 \<Longrightarrow> ts_control_shard_id tp = control \<Longrightarrow> yields (f tp) w0 P"
  shows "yields (sbind (sget (cl_topology cl n)) f) w P"
  by (rule yields_bind [where P = "\<lambda>w' tp. advances h sa w w' \<and> ts_control_shard_id tp = control"])
    (use topology assms in \<open>auto simp: yields_simps\<close>)

lemma fetch_catalog_yields:
  "yields (fetch_catalog cl n) w (\<lambda>w' c. \<exists>T. observed h sa control T w' \<and> c = spec_catalog T)"
  unfolding fetch_catalog_def Let_def
proof (rule yields_control, unfold get_aggregate_catalog_internal_def, rule forwarded_yields [OF _ decoded_call_yields])
  fix w0 tp
  assume "ts_control_shard_id tp = control"
  note [simp] = this
  show "yields (read_store cl n (ts_control_shard_id tp) read_aggregate_catalog) w1
      (\<lambda>w' c. \<exists>T. observed h sa control T w' \<and> c = spec_catalog T)" for w1
    using read_catalog_yields by simp
  show "yields (sbind (require_control_shard cl m (ts_control_shard_id tp)) (\<lambda>_. sbind (local_leader cl m (ts_control_shard_id tp)) (\<lambda>_.
      sbind (read_store cl m (ts_control_shard_id tp) read_aggregate_catalog) (\<lambda>c. sresult (encode_bincode (wr_catalog (cl_wire cl)) c))))) w1
      (\<lambda>w' b. \<exists>v. encode_bincode (wr_catalog (cl_wire cl)) v = Inr b \<and> (\<exists>T. observed h sa control T w' \<and> v = spec_catalog T))" for m w1
    using read_catalog_yields by (intro yields_control_shard yields_local_leader yields_encode) simp
qed (use wire in \<open>auto simp: wire_laws_def intro: observed_mono\<close>)

lemma fetch_group_catalog_yields:
  "yields (fetch_group_catalog cl n) w (\<lambda>w' c. \<exists>T. observed h sa control T w' \<and> c = spec_group_catalog T)"
  unfolding fetch_group_catalog_def Let_def
proof (rule yields_control, unfold get_aggregate_group_catalog_internal_def, rule forwarded_yields [OF _ decoded_call_yields])
  fix w0 tp
  assume "ts_control_shard_id tp = control"
  note [simp] = this
  show "yields (read_store cl n (ts_control_shard_id tp) read_aggregate_group_catalog) w1
      (\<lambda>w' c. \<exists>T. observed h sa control T w' \<and> c = spec_group_catalog T)" for w1
    using read_group_catalog_yields by simp
  show "yields (sbind (require_control_shard cl m (ts_control_shard_id tp)) (\<lambda>_. sbind (local_leader cl m (ts_control_shard_id tp)) (\<lambda>_.
      sbind (read_store cl m (ts_control_shard_id tp) read_aggregate_group_catalog) (\<lambda>c. sresult (encode_bincode (wr_group_catalog (cl_wire cl)) c))))) w1
      (\<lambda>w' b. \<exists>v. encode_bincode (wr_group_catalog (cl_wire cl)) v = Inr b \<and> (\<exists>T. observed h sa control T w' \<and> v = spec_group_catalog T))" for m w1
    using read_group_catalog_yields by (intro yields_control_shard yields_local_leader yields_encode) simp
qed (use wire in \<open>auto simp: wire_laws_def intro: observed_mono\<close>)

text \<open>Writes that are made on the leader or forwarded to it: the write the client meant took effect.\<close>

lemma write_result_yields:
  assumes "\<And>resp v. f resp = Inr v \<Longrightarrow> resp = g v" "advances h sa w w1"
  shows "yields (sbind (client_write cl n s rq) (\<lambda>resp. sresult (f resp))) w1 (\<lambda>w' v. took_effect h sa s rq (g v) w w')"
  by (rule yields_bind [OF client_write_yields])
    (use assms(1) in \<open>auto simp: yields_simps intro: took_effect_mono [OF assms(2) _ advances_refl]\<close>)

lemma catalog_applied_eq: "catalog_applied resp = Inr v \<Longrightarrow> resp = RsAggregateCatalogApplied v"
  by (cases resp) auto

lemma group_catalog_applied_eq: "group_catalog_applied resp = Inr v \<Longrightarrow> resp = RsAggregateGroupCatalogApplied v"
  by (cases resp) auto

lemma map_fence_response_eq: "map_fence_response resp = Inr v \<Longrightarrow> resp = RsAggregatePartitionFenceInstalled v"
  by (cases resp) auto

lemma sbind_assoc: "sbind (sbind m f) g = sbind m (\<lambda>x. sbind (f x) g)"
  by (auto simp: fun_eq_iff sbind_def split: prod.splits outcome.splits)

lemma sbind_return: "sbind (sresult (Inr v)) f = f v"
  by (auto simp: fun_eq_iff sbind_def sresult_def sreturn_def)

lemma yields_result: "(\<And>v. r = Inr v \<Longrightarrow> yields (f v) w P) \<Longrightarrow> yields (sbind (sresult r) f) w P"
  by (cases r) (auto simp: sbind_return, simp add: yields_def sbind_def sresult_def sfail_def)

lemma encoded_write_yields:
  assumes "\<And>resp v. f resp = Inr v \<Longrightarrow> resp = g v" "advances h sa w w1"
  shows "yields (sbind (client_write cl n s rq) (\<lambda>resp. sbind (sresult (f resp)) (\<lambda>v. sresult (encode_bincode bc v)))) w1
    (\<lambda>w' b. \<exists>v. encode_bincode bc v = Inr b \<and> took_effect h sa s rq (g v) w w')"
  using yields_encode [OF write_result_yields [OF assms], where bc = bc] by (simp add: sbind_assoc)

lemma commit_catalog_yields:
  "yields (commit_catalog cl n command) w
     (\<lambda>w' applied. took_effect h sa control (RqCommitAggregateCatalog command) (RsAggregateCatalogApplied applied) w w')"
  unfolding commit_catalog_def Let_def
proof (rule yields_control, rule forwarded_yields, assumption, rule yields_result, rule decoded_call_yields)
  fix w0 tp w1 payload m w2
  assume tp: "ts_control_shard_id tp = control" and w1: "advances h sa w w1"
    and e: "encode_bincode (wr_catalog_command (cl_wire cl)) command = Inr payload" and "advances h sa w1 w2"
  then have w2: "advances h sa w w2" by (meson advances_trans)
  have "bincode_laws (wr_catalog_command (cl_wire cl))" using wire by (simp add: wire_laws_def)
  from bincode_roundtrip [OF this e]
  show "yields (commit_aggregate_catalog_internal cl m (ts_control_shard_id tp) payload) w2
    (\<lambda>w' b. \<exists>v. encode_bincode (wr_catalog_apply (cl_wire cl)) v = Inr b
       \<and> took_effect h sa control (RqCommitAggregateCatalog command) (RsAggregateCatalogApplied v) w w')"
    unfolding commit_aggregate_catalog_internal_def tp
    by (simp only: sbind_return)
      (intro yields_bind [OF advances_control [OF w2]] yields_bind [OF advances_leads] encoded_write_yields catalog_applied_eq)
next
  fix w0 tp w1
  assume "ts_control_shard_id tp = control" "advances h sa w w1"
  then show "yields (sbind (client_write cl n (ts_control_shard_id tp) (RqCommitAggregateCatalog command)) (\<lambda>r. sresult (catalog_applied r))) w1
    (\<lambda>w' v. took_effect h sa control (RqCommitAggregateCatalog command) (RsAggregateCatalogApplied v) w w')"
    by (auto intro: write_result_yields catalog_applied_eq)
qed (use wire in \<open>auto simp: wire_laws_def intro: took_effect_mono [OF advances_refl]\<close>)

lemma commit_group_catalog_yields:
  "yields (commit_group_catalog cl n command) w
     (\<lambda>w' applied. took_effect h sa control (RqCommitAggregateGroupCatalog command) (RsAggregateGroupCatalogApplied applied) w w')"
  unfolding commit_group_catalog_def Let_def
proof (rule yields_control, rule forwarded_yields, assumption, rule yields_result, rule decoded_call_yields)
  fix w0 tp w1 payload m w2
  assume tp: "ts_control_shard_id tp = control" and w1: "advances h sa w w1"
    and e: "encode_bincode (wr_group_command (cl_wire cl)) command = Inr payload" and "advances h sa w1 w2"
  then have w2: "advances h sa w w2" by (meson advances_trans)
  have "bincode_laws (wr_group_command (cl_wire cl))" using wire by (simp add: wire_laws_def)
  from bincode_roundtrip [OF this e]
  show "yields (commit_aggregate_group_catalog_internal cl m (ts_control_shard_id tp) payload) w2
    (\<lambda>w' b. \<exists>v. encode_bincode (wr_group_apply (cl_wire cl)) v = Inr b
       \<and> took_effect h sa control (RqCommitAggregateGroupCatalog command) (RsAggregateGroupCatalogApplied v) w w')"
    unfolding commit_aggregate_group_catalog_internal_def tp
    by (simp only: sbind_return)
      (intro yields_bind [OF advances_control [OF w2]] yields_bind [OF advances_leads] encoded_write_yields group_catalog_applied_eq)
next
  fix w0 tp w1
  assume "ts_control_shard_id tp = control" "advances h sa w w1"
  then show "yields (sbind (client_write cl n (ts_control_shard_id tp) (RqCommitAggregateGroupCatalog command)) (\<lambda>r. sresult (group_catalog_applied r))) w1
    (\<lambda>w' v. took_effect h sa control (RqCommitAggregateGroupCatalog command) (RsAggregateGroupCatalogApplied v) w w')"
    by (auto intro: write_result_yields group_catalog_applied_eq)
qed (use wire in \<open>auto simp: wire_laws_def intro: took_effect_mono [OF advances_refl]\<close>)

lemma install_partition_fence_yields:
  "yields (install_partition_fence cl n t p s g) w
     (\<lambda>w' g'. took_effect h sa s (RqInstallAggregatePartitionFence t p g) (RsAggregatePartitionFenceInstalled g') w w')"
  unfolding install_partition_fence_def
proof (rule forwarded_yields [OF advances_refl])
  let ?P = "\<lambda>w' g'. took_effect h sa s (RqInstallAggregatePartitionFence t p g) (RsAggregatePartitionFenceInstalled g') w w'"
  fix w1
  assume w1: "advances h sa w w1"
  have "unat p < 65536" by (rule order.strict_trans2 [OF unsigned_less]) simp
  then have small: "(ucast p :: u32) < 2 ^ 16" by (simp add: word_less_nat_alt unsigned_ucast_eq take_bit_eq_mod)
  have narrow: "(ucast (ucast p :: u32) :: u16) = p" by (rule bit_word_eqI) (simp add: bit_simps)
  have "yields (install_aggregate_partition_fence_internal cl m s (Some (aggregate_type_to_proto t)) (ucast p) g) w2 ?P"
    if w2: "advances h sa w w2" for m w2
    unfolding install_aggregate_partition_fence_internal_def
  proof (rule yields_result)
    fix t'
    assume "proto_aggregate_type (Some (aggregate_type_to_proto t)) = Inr t'"
    then have [simp]: "t' = t"
      by (auto simp: proto_aggregate_type_def aggregate_type_to_proto_def ok_or_def invalid_argument_def map_err_def AggregateTypeId_new_Inr
          rbind_Inr_iff split: sum.splits)
    show "yields (if 2 ^ 16 \<le> (ucast p :: u32) then sfail (status InvalidArgument ''partition_id is out of range'')
       else sbind (local_leader cl m s) (\<lambda>_. sbind (client_write cl m s (RqInstallAggregatePartitionFence t' (ucast (ucast p :: u32)) g))
           (\<lambda>response. sresult (map_fence_response response)))) w2 ?P"
      using small unfolding narrow by (auto intro!: yields_bind [OF advances_leads [OF w2]] write_result_yields map_fence_response_eq)
  qed
  then have "yields (internal_call cl tp s (\<lambda>m. install_aggregate_partition_fence_internal cl m s (Some (aggregate_type_to_proto t)) (ucast p) g)) w2 ?P"
    if "advances h sa w w2" for tp w2
    by (rule internal_call_yields) (meson advances_trans that took_effect_mono [OF advances_refl])+
  then show "yields (sbind (sget (cl_topology cl n)) (\<lambda>tp. internal_call cl tp s (\<lambda>m.
      install_aggregate_partition_fence_internal cl m s (Some (aggregate_type_to_proto t)) (ucast p) g))) w1 ?P"
    by (rule yields_control) (blast intro: advances_trans w1)
  show "yields (sbind (client_write cl n s (RqInstallAggregatePartitionFence t p g)) (\<lambda>response. sresult (map_fence_response response))) w1 ?P"
    by (intro write_result_yields map_fence_response_eq w1)
qed

lemma require_active_yields:
  "yields (require_active_aggregate_type cl n t) w
     (\<lambda>w' d. \<exists>T. observed h sa control T w' \<and> fmlookup (cat_aggregate_types (spec_catalog T)) t = Some d \<and> def_status d = Active)"
  unfolding require_active_aggregate_type_def
  by (rule yields_bind [OF fetch_catalog_yields], rule yields_bind [where P = "\<lambda>w' d. \<exists>T. observed h sa control T w'
      \<and> fmlookup (cat_aggregate_types (spec_catalog T)) t = Some d"])
    (auto simp: yields_simps)

lemma require_group_yields:
  "yields (require_group cl n t name) w
     (\<lambda>w' g. valid_identifier name \<and> (\<exists>T. observed h sa control T w' \<and> fmlookup (gc_groups (spec_group_catalog T)) (t, name) = Some g))"
  unfolding require_group_def
proof (rule yields_result, rule yields_bind [OF fetch_group_catalog_yields])
  fix u w' c
  assume "invalid_argument (validate_aggregate_identifier ''group_name'' name) = Inr u"
    "\<exists>T. observed h sa control T w' \<and> c = spec_group_catalog T"
  then show "yields (require (status Code.NotFound ''group does not exist'') (fmlookup (gc_groups c) (t, name))) w'
     (\<lambda>w' g. valid_identifier name \<and> (\<exists>T. observed h sa control T w' \<and> fmlookup (gc_groups (spec_group_catalog T)) (t, name) = Some g))"
    by (auto simp: yields_simps invalid_argument_def map_err_def split: sum.splits)
qed

end

text \<open>
  How far behind a read can be. \<open>ap w s\<close> is a state that every node which answers reads of the shard from \<open>w\<close> on has
  applied by then; it is a committed state and only moves forward. Nothing else is assumed of a local read: a node
  that was deposed may still answer from its own store.
\<close>

definition progress ::
  "(bytes \<Rightarrow> u128) \<Rightarrow> ('w \<Rightarrow> u64 \<Rightarrow> 'm shard) \<Rightarrow> ('w \<Rightarrow> u64 \<Rightarrow> 'm shard) \<Rightarrow> 'w \<Rightarrow> 'w \<Rightarrow> bool" where
  "progress h sa ap w w' \<longleftrightarrow> advances h sa w w' \<and> advances h ap w w'"

lemma progress_order: "reflp (progress h sa ap)" "transp (progress h sa ap)"
  by (auto simp: progress_def reflp_def intro!: transpI elim: advances_trans)

lemma progress_advances [dest]: "progress h sa ap w w' \<Longrightarrow> advances h sa w w'" "progress h sa ap w w' \<Longrightarrow> advances h ap w w'"
  by (simp_all add: progress_def)

lemma progress_later: "progress h sa ap w w' \<Longrightarrow> later h (sa w s) (sa w' s)" "progress h sa ap w w' \<Longrightarrow> later h (ap w s) (ap w' s)"
  by (simp_all add: progress_def advances_def)

locale lagging = replicated cl h view sa control + replicas: progressing cl "advances h ap"
  for cl :: "('w, 'db, 'm) cluster" and h view sa control and ap :: "'w \<Rightarrow> u64 \<Rightarrow> 'm shard" +
  assumes applied_wf: "wf_shard (ap w s)"
    and store_applied: "cl_store cl n s w = (w', st) \<Longrightarrow>
      \<exists>T x. later h (ap w s) T \<and> later h T (sa w' s) \<and> rep (cl_codec cl) (es_shard_id st) (view (es_tree st)) (T(AppliedStateKey := x))"

sublocale lagging \<subseteq> both: progressing cl "progress h sa ap"
  by unfold_locales (use progress_order [of h sa ap] accesses replicas.accesses in \<open>auto simp: progress_def\<close>)

end
