(* ===== verification/Service_Types.thy ===== *)
theory Service_Types
  imports Replication
begin

text \<open>
  The AggregateStore service of \<open>es-server/src/aggregate_service.rs\<close>, first part: aggregate types, appends, aggregate
  state and the catalog of consumer groups. A handler is a definition with the same name; it runs on the node
  \<open>self\<close>. A request is the record of its protocol fields, an absent message is \<open>None\<close>, and indexing a map with a key
  it does not have is a panic, as in the source.
\<close>

section \<open>Conversions\<close>

definition uuid_from_slice :: "bytes \<Rightarrow> uuid option" where
  "uuid_from_slice b = (if length b = 16 then Some (from_be_bytes b) else None)"

datatype expected_version_kind = Kind_Any | Kind_NoAggregate | Kind_AggregateExists | Kind_Exact u64

definition proto_expected_version :: "expected_version_kind option option \<Rightarrow> ExpectedAggregateVersion" where
  "proto_expected_version v =
     (case Option.bind v (\<lambda>k. k) of
        None \<Rightarrow> Any
      | Some Kind_Any \<Rightarrow> Any
      | Some Kind_NoAggregate \<Rightarrow> NoAggregate
      | Some Kind_AggregateExists \<Rightarrow> AggregateExists
      | Some (Kind_Exact version) \<Rightarrow> Exact version)"

datatype expected_revision_kind = Kind_Absent | Kind_ExactRevision u64

definition proto_expected_state_revision :: "expected_revision_kind option option \<Rightarrow> (ExpectedStateRevision, Status) result" where
  "proto_expected_state_revision v =
     (case Option.bind v (\<lambda>k. k) of
        Some Kind_Absent \<Rightarrow> Inr Absent
      | Some (Kind_ExactRevision revision) \<Rightarrow> Inr (ExactRevision revision)
      | None \<Rightarrow> Inl (status InvalidArgument ''expected_revision is required''))"

record AggregateTypeInfo =
  ti_aggregate_type :: "string \<times> string"
  ti_partition_count :: u32
  ti_hash_algorithm :: string
  ti_status :: AggregateTypeStatus
  ti_catalog_revision :: u64

definition aggregate_type_info :: "AggregateTypeDefinition \<Rightarrow> u64 \<Rightarrow> AggregateTypeInfo" where
  "aggregate_type_info d revision =
     \<lparr>ti_aggregate_type = aggregate_type_to_proto (def_id d), ti_partition_count = ucast (def_partition_count d),
      ti_hash_algorithm = ''xxh3-v1'', ti_status = def_status d, ti_catalog_revision = revision\<rparr>"

section \<open>Aggregate types\<close>

definition round_robin :: "u64 list \<Rightarrow> (u16, u64) fmap" where
  "round_robin shards =
     fmap_of_list (map (\<lambda>p. (p, shards ! (unat p mod length shards))) (partitions EVENT_PARTITION_COUNT))"

definition register_aggregate_type ::
  "('w, 'db, 'm) cluster \<Rightarrow> u64 \<Rightarrow> (string \<times> string) option \<Rightarrow> bytes \<Rightarrow> (AggregateTypeInfo, 'w) svc" where
  "register_aggregate_type cl self ty operation =
     sbind (sresult (proto_aggregate_type ty)) (\<lambda>t.
     sbind (require (status InvalidArgument ''operation_id must be a UUID of 16 bytes'') (uuid_from_slice operation)) (\<lambda>operation_id.
     sbind (sget (cl_topology cl self)) (\<lambda>tp.
     if ts_all_shards tp = [] then spanic
     else
       sbind (commit_catalog cl self (CatalogCreate t operation_id operation_id (round_robin (ts_all_shards tp)))) (\<lambda>created.
       sbind (case ca_outcome created of
                CatalogAggregateType d _ \<Rightarrow> sreturn d
              | CatalogConflict reason \<Rightarrow> sfail (status AlreadyExists (reason_text reason))
              | CatalogInvalid reason \<Rightarrow> sfail (status InvalidArgument (reason_text reason))
              | CatalogNotFound \<Rightarrow> sfail (status Code.Internal ''registration returned NotFound'')) (\<lambda>d.
       sbind (sfor (sorted_list_of_fmap (def_placements d)) () (\<lambda>(p, pl) _.
                sbind (install_partition_fence cl self (def_id d) p (pl_shard_id pl) (pl_generation pl)) (\<lambda>_. sreturn ()))) (\<lambda>_.
       sbind (commit_catalog cl self (CatalogActivate t operation_id)) (\<lambda>activated.
       case ca_outcome activated of
         CatalogAggregateType d _ \<Rightarrow> sreturn (aggregate_type_info d (ca_revision activated))
       | CatalogConflict reason \<Rightarrow> sfail (status FailedPrecondition (reason_text reason))
       | CatalogInvalid reason \<Rightarrow> sfail (status InvalidArgument (reason_text reason))
       | CatalogNotFound \<Rightarrow> sfail (status Code.NotFound ''aggregate type does not exist''))))))))"

definition list_aggregate_types :: "('w, 'db, 'm) cluster \<Rightarrow> u64 \<Rightarrow> (AggregateTypeInfo list, 'w) svc" where
  "list_aggregate_types cl self =
     sbind (fetch_catalog cl self) (\<lambda>catalog.
       sreturn (map (\<lambda>(_, d). aggregate_type_info d (cat_revision catalog)) (sorted_list_of_fmap (cat_aggregate_types catalog))))"

definition get_aggregate_type :: "('w, 'db, 'm) cluster \<Rightarrow> u64 \<Rightarrow> (string \<times> string) option \<Rightarrow> (AggregateTypeInfo, 'w) svc" where
  "get_aggregate_type cl self ty =
     sbind (sresult (proto_aggregate_type ty)) (\<lambda>t.
     sbind (fetch_catalog cl self) (\<lambda>catalog.
     sbind (require (status Code.NotFound ''aggregate type does not exist'') (fmlookup (cat_aggregate_types catalog) t)) (\<lambda>d.
     sreturn (aggregate_type_info d (cat_revision catalog)))))"

record AggregateStoreStatus =
  ss_catalog_revision :: u64
  ss_aggregate_type_count :: u32
  ss_registering_aggregate_type_count :: u32
  ss_active_aggregate_type_count :: u32

definition get_aggregate_store_status :: "('w, 'db, 'm) cluster \<Rightarrow> u64 \<Rightarrow> (AggregateStoreStatus, 'w) svc" where
  "get_aggregate_store_status cl self =
     sbind (fetch_catalog cl self) (\<lambda>catalog.
       let types = map snd (sorted_list_of_fmap (cat_aggregate_types catalog));
           creating = length (filter (\<lambda>d. def_status d = Registering) types)
       in sreturn \<lparr>ss_catalog_revision = cat_revision catalog, ss_aggregate_type_count = word_of_nat (length types),
            ss_registering_aggregate_type_count = word_of_nat creating,
            ss_active_aggregate_type_count = word_of_nat (length types - creating)\<rparr>)"

record AggregatePartitionInfo =
  pi_partition_id :: u32
  pi_shard_id :: u64
  pi_generation :: u64
  pi_moving :: bool
  pi_target_shard_id :: u64

definition list_aggregate_partitions ::
  "('w, 'db, 'm) cluster \<Rightarrow> u64 \<Rightarrow> (string \<times> string) option \<Rightarrow> (AggregatePartitionInfo list, 'w) svc" where
  "list_aggregate_partitions cl self ty =
     sbind (sresult (proto_aggregate_type ty)) (\<lambda>t.
     sbind (fetch_catalog cl self) (\<lambda>catalog.
     sbind (require (status Code.NotFound ''aggregate type does not exist'') (fmlookup (cat_aggregate_types catalog) t)) (\<lambda>d.
     sreturn (map (\<lambda>(p, pl). \<lparr>pi_partition_id = ucast p, pi_shard_id = pl_shard_id pl, pi_generation = pl_generation pl,
         pi_moving = (pl_pending_move pl \<noteq> None),
         pi_target_shard_id = (case pl_pending_move pl of Some m \<Rightarrow> mv_target_shard m | None \<Rightarrow> 0)\<rparr>) (sorted_list_of_fmap (def_placements d))))))"

section \<open>Appending\<close>

fun map_append_response :: "EsResponse \<Rightarrow> (u64, Status) result" where
  "map_append_response (RsAggregateAppendOk aggregate_version _) = Inr aggregate_version"
| "map_append_response (RsAggregateOptimisticConflict _) = Inl (status FailedPrecondition ''aggregate version conflict: actual='')"
| "map_append_response RsAggregateIdempotencyConflict = Inl (status AlreadyExists ''event_id is bound to other content'')"
| "map_append_response (RsAggregatePartitionFenced generation) =
     Inl (status Unavailable (''partition generation advanced to '' @ decimal (unat generation)))"
| "map_append_response (RsAggregateInvalid reason) = Inl (status InvalidArgument (reason_text reason))"
| "map_append_response _ = Inl (status Code.Internal ''unexpected append result'')"

definition append_once ::
  "('w, 'db, 'm) cluster \<Rightarrow> (bytes \<Rightarrow> u64) \<Rightarrow> u64 \<Rightarrow> AggregateTypeDefinition \<Rightarrow> string \<Rightarrow> ExpectedAggregateVersion
     \<Rightarrow> NewAggregateEvent \<Rightarrow> (u64, 'w) svc" where
  "append_once cl xxh3 self d aggregate_id expected event =
     sbind (sresult (invalid_argument (partition_for xxh3 d aggregate_id))) (\<lambda>p.
     sbind (require (status Code.Internal ''aggregate type lacks a placement'') (fmlookup (def_placements d) p)) (\<lambda>pl.
     sbind (local_leader cl self (pl_shard_id pl)) (\<lambda>_.
     sbind (sget (cl_now cl)) (\<lambda>ms.
     sbind (client_write cl self (pl_shard_id pl)
              (RqAggregateAppend (def_id d) p (pl_generation pl) aggregate_id expected event (Hlc_now ms))) (\<lambda>response.
     sresult (map_append_response response))))))"

record NewEventMessage =
  nm_event_id :: bytes
  nm_event_type :: string
  nm_data :: bytes
  nm_metadata :: bytes

record AppendAggregateEventRequest =
  ar_aggregate_type :: "(string \<times> string) option"
  ar_aggregate_id :: string
  ar_expected_version :: "expected_version_kind option option"
  ar_event :: "NewEventMessage option"

definition proto_new_event :: "u64 \<Rightarrow> NewEventMessage option \<Rightarrow> (NewAggregateEvent, Status) result" where
  "proto_new_event max_event_bytes event =
     rbind (ok_or (status InvalidArgument ''event is required'') event) (\<lambda>event.
     if usize_saturating_add (length (nm_data event)) (length (nm_metadata event)) > unat max_event_bytes
     then Inl (status FailedPrecondition ''event payload above the limit'')
     else rbind (ok_or (status InvalidArgument ''event_id must be a UUID of 16 bytes'') (uuid_from_slice (nm_event_id event))) (\<lambda>event_id.
     if nm_event_type event = [] then Inl (status InvalidArgument ''event_type must not be empty'')
     else Inr \<lparr>nev_event_id = event_id, nev_event_type = nm_event_type event, nev_data = nm_data event, nev_metadata = nm_metadata event\<rparr>))"

definition append_aggregate_event ::
  "('w, 'db, 'm) cluster \<Rightarrow> (bytes \<Rightarrow> u64) \<Rightarrow> u64 \<Rightarrow> u64 \<Rightarrow> AppendAggregateEventRequest \<Rightarrow> (u64, 'w) svc" where
  "append_aggregate_event cl xxh3 max_event_bytes self request =
     sbind (sresult (proto_aggregate_type (ar_aggregate_type request))) (\<lambda>t.
     sbind (sresult (invalid_argument (validate_aggregate_identifier ''aggregate_id'' (ar_aggregate_id request)))) (\<lambda>_.
     sbind (sresult (proto_new_event max_event_bytes (ar_event request))) (\<lambda>event.
     let expected = proto_expected_version (ar_expected_version request) in
     sbind (require_active_aggregate_type cl self t) (\<lambda>d.
     scatch (append_once cl xxh3 self d (ar_aggregate_id request) expected event)
       (\<lambda>s. if st_code s = Unavailable \<and> str_contains ''partition generation advanced'' (st_message s)
            then sbind (require_active_aggregate_type cl self t) (\<lambda>refreshed.
                 append_once cl xxh3 self refreshed (ar_aggregate_id request) expected event)
            else sfail s)
       sreturn))))"

section \<open>Aggregate state\<close>

record GetAggregateStateResponse =
  gs_revision :: u64
  gs_data :: bytes
  gs_modified_unix_millis :: u64

definition get_aggregate_state ::
  "('w, 'db, 'm) cluster \<Rightarrow> (bytes \<Rightarrow> u64) \<Rightarrow> u64 \<Rightarrow> (string \<times> string) option \<Rightarrow> string \<Rightarrow> (GetAggregateStateResponse, 'w) svc" where
  "get_aggregate_state cl xxh3 self ty aggregate_id =
     sbind (sresult (proto_aggregate_type ty)) (\<lambda>t.
     sbind (require_active_aggregate_type cl self t) (\<lambda>d.
     sbind (sresult (invalid_argument (partition_for xxh3 d aggregate_id))) (\<lambda>p.
     case fmlookup (def_placements d) p of
       None \<Rightarrow> spanic
     | Some pl \<Rightarrow>
         sbind (local_leader cl self (pl_shard_id pl)) (\<lambda>_.
         sbind (read_store cl self (pl_shard_id pl) (\<lambda>kv cd st. read_aggregate_state_document kv cd st t p aggregate_id)) (\<lambda>found.
         sbind (require (status Code.NotFound ''aggregate state does not exist'') found) (\<lambda>doc.
         sreturn \<lparr>gs_revision = doc_revision doc, gs_data = doc_data doc,
           gs_modified_unix_millis = wall (doc_modified_hlc doc)\<rparr>))))))"

record PutAggregateStateRequest =
  ps_aggregate_type :: "(string \<times> string) option"
  ps_aggregate_id :: string
  ps_expected_revision :: "expected_revision_kind option option"
  ps_data :: bytes

record PutAggregateStateResponse =
  pr_revision :: u64
  pr_modified_unix_millis :: u64

fun map_put_response :: "EsResponse \<Rightarrow> (PutAggregateStateResponse, Status) result" where
  "map_put_response (RsAggregateStateStored doc) =
     Inr \<lparr>pr_revision = doc_revision doc, pr_modified_unix_millis = wall (doc_modified_hlc doc)\<rparr>"
| "map_put_response RsAggregateNotFound = Inl (status Code.NotFound ''aggregate does not exist'')"
| "map_put_response (RsAggregateStateConflict _) = Inl (status FailedPrecondition ''state revision conflict: actual='')"
| "map_put_response (RsAggregatePartitionFenced generation) =
     Inl (status Unavailable (''partition generation advanced to '' @ decimal (unat generation)))"
| "map_put_response (RsAggregateInvalid reason) = Inl (status InvalidArgument (reason_text reason))"
| "map_put_response _ = Inl (status Code.Internal ''unexpected state result'')"

definition put_aggregate_state ::
  "('w, 'db, 'm) cluster \<Rightarrow> (bytes \<Rightarrow> u64) \<Rightarrow> u64 \<Rightarrow> u64 \<Rightarrow> PutAggregateStateRequest \<Rightarrow> (PutAggregateStateResponse, 'w) svc" where
  "put_aggregate_state cl xxh3 max_event_bytes self request =
     (if length (ps_data request) > unat max_event_bytes then sfail (status FailedPrecondition ''state payload above the limit'')
      else
        sbind (sresult (proto_aggregate_type (ps_aggregate_type request))) (\<lambda>t.
        sbind (sresult (proto_expected_state_revision (ps_expected_revision request))) (\<lambda>expected.
        sbind (require_active_aggregate_type cl self t) (\<lambda>d.
        sbind (sresult (invalid_argument (partition_for xxh3 d (ps_aggregate_id request)))) (\<lambda>p.
        case fmlookup (def_placements d) p of
          None \<Rightarrow> spanic
        | Some pl \<Rightarrow>
            sbind (local_leader cl self (pl_shard_id pl)) (\<lambda>_.
            sbind (sget (cl_now cl)) (\<lambda>ms.
            sbind (client_write cl self (pl_shard_id pl)
                     (RqPutAggregateState t p (pl_generation pl) (ps_aggregate_id request) expected (ps_data request) (Hlc_now ms))) (\<lambda>response.
            sresult (map_put_response response)))))))))"

end
