(* ===== verification/Sample_Cluster.thy ===== *)
theory Sample_Cluster
  imports Replication Sample_Codec
begin

text \<open>
  A cluster that meets the laws of \<open>replicated\<close> and \<open>lagging\<close>: node 1 leads every shard and every other node forwards to it.
  The state is the log of every shard and a counter for fresh ids; a store is what \<open>sm_apply\<close> makes of the log,
  one entry per batch. A shard takes 999 entries, far from where revisions would wrap; then its writes fail.
\<close>

section \<open>Countable messages\<close>

instance reason :: countable
  by countable_datatype

instance AggregateCatalogOutcome :: countable
  by countable_datatype

instance AggregateCatalogApply_ext :: (countable) countable
  by (rule countable_classI [of "\<lambda>r. to_nat (ca_revision r, ca_outcome r, AggregateCatalogApply.more r)"])
    (auto intro: AggregateCatalogApply.equality)

instance AggregateGroupCatalogOutcome :: countable
  by countable_datatype

instance AggregateGroupCatalogApply_ext :: (countable) countable
  by (rule countable_classI [of "\<lambda>r. to_nat (ga_revision r, ga_outcome r, AggregateGroupCatalogApply.more r)"])
    (auto intro: AggregateGroupCatalogApply.equality)

instance AggregateStateDocument_ext :: (countable) countable
  by (rule countable_classI [of "\<lambda>r. to_nat (doc_revision r, doc_data r, doc_modified_hlc r, AggregateStateDocument.more r)"])
    (auto intro: AggregateStateDocument.equality)

instance AggregateSettlementResult :: countable
  by countable_datatype

instance EsResponse :: countable
  by countable_datatype

instance GroupPartitionFetchInput_ext :: (countable) countable
  by (rule countable_classI [of "\<lambda>r. to_nat (fi_aggregate_type r, fi_partition_id r, fi_partition_generation r, fi_group_name r,
      fi_group_epoch r, fi_start_position r, fi_settings r, fi_consumer_id r, fi_now_ms r, fi_max_events r, fi_max_bytes r,
      GroupPartitionFetchInput.more r)"])
    (auto intro: GroupPartitionFetchInput.equality)

instance GroupPartitionFetchOutput_ext :: (countable) countable
  by (rule countable_classI [of "\<lambda>r. to_nat (fo_deliveries r, fo_caught_up r, fo_throttled r, GroupPartitionFetchOutput.more r)"])
    (auto intro: GroupPartitionFetchOutput.equality)

instance AggregateCursor_ext :: (countable) countable
  by (rule countable_classI [of "\<lambda>r. to_nat (cur_version r, cur_aggregate_type r, cur_next_positions r, AggregateCursor.more r)"])
    (auto intro: AggregateCursor.equality)

instance StatePageToken_ext :: (countable) countable
  by (rule countable_classI [of "\<lambda>r. to_nat (pt_version r, pt_aggregate_type r, pt_after_aggregate_ids r, StatePageToken.more r)"])
    (auto intro: StatePageToken.equality)

instance AggregateDeliveryToken_ext :: (countable) countable
  by (rule countable_classI [of "\<lambda>r. to_nat (tok_version r, tok_aggregate_type r, tok_group_name r, tok_partition_id r,
      tok_group_epoch r, tok_delivery_id r, AggregateDeliveryToken.more r)"])
    (auto intro: AggregateDeliveryToken.equality)

definition counting :: "'x::countable bincode" where
  "counting = \<lparr>bc_encode = (\<lambda>v. Inr (replicate (Suc (to_nat v)) 0)), bc_decode = (\<lambda>b. Inr (from_nat (length b - 1), length b))\<rparr>"

lemma counting_laws: "bincode_laws counting"
  by (auto simp: bincode_laws_def counting_def)

definition sample_wire :: wire_formats where
  "sample_wire = \<lparr>wr_catalog = counting, wr_catalog_command = counting, wr_catalog_apply = counting, wr_group_catalog = counting,
     wr_group_command = counting, wr_group_apply = counting, wr_request = counting, wr_response = counting,
     wr_fetch_input = counting, wr_fetch_output = counting, wr_cursor = counting, wr_page_token = counting,
     wr_delivery_token = counting\<rparr>"

lemma sample_wire_laws: "wire_laws sample_wire"
  by (simp add: wire_laws_def sample_wire_def counting_laws)

section \<open>The cluster\<close>

type_synonym sample_world = "(u64 \<Rightarrow> EsRequest list) \<times> nat"

definition log_entry :: "EsRequest \<Rightarrow> unit Entry" where
  "log_entry rq = \<lparr>en_log_id = \<lparr>li_term = 1, li_node = 1, li_index = 1\<rparr>, en_payload = EntryPayload.Normal rq\<rparr>"

definition log_entries :: "sample_world \<Rightarrow> u64 \<Rightarrow> unit Entry list" where
  "log_entries w s = map log_entry (take 999 (fst w s))"

definition log_store :: "sample_world \<Rightarrow> u64 \<Rightarrow> ((bytes, bytes) fmap, unit) EsStorage" where
  "log_store w s =
     (case apply_all (\<lambda>_. 7) map_kv sample_codec sample_storage (map (\<lambda>e. [e]) (log_entries w s)) of
        Inr (st, _) \<Rightarrow> st
      | Inl _ \<Rightarrow> sample_storage)"

definition log_shard :: "sample_world \<Rightarrow> u64 \<Rightarrow> unit shard" where
  "log_shard w s = spec_run (\<lambda>_. 7) empty_shard (log_entries w s)"

definition sample_topology :: "u64 \<Rightarrow> u64 list \<Rightarrow> RuntimeTopologySnapshot" where
  "sample_topology self shards = \<lparr>ts_self_id = self, ts_addrs = fmap_of_list [(1, ''one''), (2, ''two'')],
     ts_internal_addrs = fmap_of_list [(1, ''one'')], ts_all_shards = shards, ts_control_shard_id = 0\<rparr>"

definition sample_write :: "u64 \<Rightarrow> EsRequest \<Rightarrow> sample_world \<Rightarrow> sample_world \<times> (EsResponse, write_error) result" where
  "sample_write s rq w =
     (if length (fst w s) \<ge> 999 then (w, Inl (Fatal ''full''))
      else (((fst w)(s := fst w s @ [rq]), snd w), Inr (snd (spec_request (\<lambda>_. 7) (log_shard w s) rq))))"

definition sample_cluster :: "u64 list \<Rightarrow> (sample_world, (bytes, bytes) fmap, unit) cluster" where
  "sample_cluster shards = \<lparr>cl_kv = map_kv, cl_codec = sample_codec, cl_wire = sample_wire,
     cl_topology = (\<lambda>n w. (w, sample_topology n shards)),
     cl_leads = (\<lambda>n s w. (w, n = 1)),
     cl_store = (\<lambda>n s w. (w, log_store w s)),
     cl_write = (\<lambda>n s rq w. if n = 1 then sample_write s rq w else (w, Inl (ForwardToLeader (Some 1) None))),
     cl_probe = (\<lambda>n s w. (w, \<lambda>i. if i = 1 then Some True else None)),
     cl_connect = (\<lambda>addr w. (w, Some 1)),
     cl_send = (\<lambda>w. (w, None)),
     cl_now = (\<lambda>w. (w, 1000)),
     cl_uuid = (\<lambda>w. ((fst w, Suc (snd w)), word_of_nat (snd w)))\<rparr>"

lemma log_store_rep:
  "\<exists>x. rep sample_codec (es_shard_id (log_store w s)) (es_tree (log_store w s)) ((log_shard w s)(AppliedStateKey := x))"
proof -
  let ?bs = "map (\<lambda>e. [e]) (log_entries w s)"
  have c: "concat ?bs = log_entries w s" using concat_map_singleton [of "\<lambda>e. e" "log_entries w s"] by simp
  then have n: "length (concat ?bs) < 1000" by (simp add: log_entries_def)
  obtain st rs where run: "apply_all (\<lambda>_. 7) map_kv sample_codec sample_storage ?bs = Inr (st, rs)" by (rule sample_runs [OF n])
  from node_refines [OF map_kv_laws sample_codec_laws sample_fresh _ run] n obtain x where
    "rep sample_codec (es_shard_id st) (es_tree st) ((spec_run (\<lambda>_. 7) empty_shard (concat ?bs))(AppliedStateKey := x))" by auto
  then show ?thesis by (auto simp: log_store_def log_shard_def run c)
qed

lemma log_shard_write:
  assumes "length (fst w s) < 999"
  shows "log_shard ((fst w)(s := fst w s @ [rq]), n) s = fst (spec_request (\<lambda>_. 7) (log_shard w s) rq)"
    and "t \<noteq> s \<Longrightarrow> log_shard ((fst w)(s := fst w s @ [rq]), n) t = log_shard w t"
  using assms by (simp_all add: log_shard_def log_entries_def log_entry_def)

lemma log_shard_counter: "log_shard (fst w, n) = log_shard w"
  by (simp add: fun_eq_iff log_shard_def log_entries_def)

lemma sample_write_effect:
  assumes "sample_write s rq w = (w', r)"
  shows "advances (\<lambda>_. 7) log_shard w w' \<and> (\<forall>resp. r = Inr resp \<longrightarrow> took_effect (\<lambda>_. 7) log_shard s rq resp w w')"
proof (cases "length (fst w s) \<ge> 999")
  case True
  then show ?thesis using assms by (auto simp: sample_write_def)
next
  case False
  then have w': "w' = ((fst w)(s := fst w s @ [rq]), snd w)" "r = Inr (snd (spec_request (\<lambda>_. 7) (log_shard w s) rq))"
    using assms by (simp_all add: sample_write_def)
  have "later (\<lambda>_. 7) (log_shard w t) (log_shard w' t)" for t
    using False log_shard_write [where w = w and s = s and rq = rq and n = "snd w"] by (cases "t = s") (simp_all add: w')
  moreover have "took_effect (\<lambda>_. 7) log_shard s rq (snd (spec_request (\<lambda>_. 7) (log_shard w s) rq)) w w'"
    unfolding took_effect_def using False log_shard_write(1) [where w = w and s = s and rq = rq and n = "snd w"]
    by (intro exI [of _ "log_shard w s"]) (simp add: w')
  ultimately show ?thesis by (simp add: advances_def w')
qed

interpretation sample: replicated "sample_cluster shards" "\<lambda>_. 7" "\<lambda>m. m" log_shard 0
proof (unfold_locales, goal_cases)
  case 4
  show ?case unfolding log_shard_def by (rule shard.run_wf [OF empty_shard_wf])
next
  case (12 n s w w' st)
  then have w': "w' = w" "st = log_store w s" by (auto simp: sample_cluster_def)
  have "wf_shard (log_shard w s)" unfolding log_shard_def by (rule shard.run_wf [OF empty_shard_wf])
  then show ?case using log_store_rep [of w s] by (auto simp: w' sample_cluster_def observed_def)
qed (auto simp: sample_cluster_def map_kv_laws sample_codec_laws sample_wire_laws sample_topology_def log_shard_counter advances_def
      dest: sample_write_effect split: if_splits)

text \<open>The one store of a shard is always current, so that is what every node that answers has applied.\<close>

interpretation sample: lagging "sample_cluster shards" "\<lambda>_. 7" "\<lambda>m. m" log_shard 0 log_shard
proof (unfold_locales, goal_cases)
  case 1
  show ?case by (rule sample.shards_wf)
next
  case (2 n s w w' st)
  then have w': "w' = w" "st = log_store w s" by (auto simp: sample_cluster_def)
  from log_store_rep [of w s] show ?case unfolding w' by (intro exI [of _ "log_shard w s"]) (simp add: sample_cluster_def)
qed

end
