(* ===== verification/Sample_World.thy ===== *)
theory Sample_World
  imports Service_Types Sample_Cluster
begin

text \<open>
  Calls of the service on the cluster of \<open>Sample_Cluster\<close>, computed: one aggregate type is active, its partitions are
  on shard 1, and partition 0 is fenced at generation 1.
\<close>

lemma sample_typed_read:
  assumes "valid_key k" "k \<noteq> AppliedStateKey" "projects proj (key_kind k)"
  shows "read_typed map_kv sample_codec (log_store w s) k proj = Inr (at (log_shard w s) k proj)"
proof -
  obtain x where x: "rep sample_codec (es_shard_id (log_store w s)) (es_tree (log_store w s)) ((log_shard w s)(AppliedStateKey := x))"
    using log_store_rep by blast
  then have r: "rep_at sample_codec (es_shard_id (log_store w s)) (es_tree (log_store w s)) ((log_shard w s)(AppliedStateKey := x)) k"
    using assms(1) by (simp add: rep_def)
  from read_typed_ok [OF map_kv_reliable map_kv_laws sample_codec_laws r assms(3)] obtain y where
    y: "read_typed map_kv sample_codec (log_store w s) k proj = Inr y" by (auto simp: is_err_iff) (metis obj_sumE)
  from read_typed_rep [OF map_kv_laws r this] y assms(2) show ?thesis by (simp add: at_def)
qed

lemma sample_read_catalog: "read_aggregate_catalog map_kv sample_codec (log_store w s) = Inr (spec_catalog (log_shard w s))"
  by (auto simp: read_aggregate_catalog_def sample_typed_read unwrap_or_def spec_catalog_def or_default_def split: option.splits)

lemma sample_read_group_catalog:
  "read_aggregate_group_catalog map_kv sample_codec (log_store w s) = Inr (spec_group_catalog (log_shard w s))"
  by (auto simp: read_aggregate_group_catalog_def sample_typed_read unwrap_or_def spec_group_catalog_def or_default_def split: option.splits)

named_theorems sample_runs_simps \<open>calls on the sample cluster\<close>

lemma sample_combinators [sample_runs_simps]:
  "sbind (sresult (Inr v)) f = f v" "sbind (sreturn v) f = f v" "sbind (sfail st) f = sfail st"
  by (simp_all add: fun_eq_iff sbind_def sresult_def sreturn_def sfail_def)

lemma sample_step [sample_runs_simps]: "m w = (w', Returns v) \<Longrightarrow> sbind m f w = f v w'"
  by (simp add: sbind_def)

lemma sample_fields [simp]:
  "cl_topology (sample_cluster sh) n w = (w, sample_topology n sh)" "cl_leads (sample_cluster sh) n s w = (w, n = 1)"
  "cl_store (sample_cluster sh) n s w = (w, log_store w s)" "cl_kv (sample_cluster sh) = map_kv" "cl_codec (sample_cluster sh) = sample_codec"
  "cl_wire (sample_cluster sh) = sample_wire" "cl_now (sample_cluster sh) w = (w, 1000)"
  "cl_uuid (sample_cluster sh) w = ((fst w, Suc (snd w)), word_of_nat (snd w))" "cl_write (sample_cluster sh) 1 s rq w = sample_write s rq w"
  "ts_control_shard_id (sample_topology n sh) = 0" "ts_all_shards (sample_topology n sh) = sh"
  by (simp_all add: sample_cluster_def sample_topology_def)

lemma sample_local_leader [sample_runs_simps]: "local_leader (sample_cluster sh) 1 s w = (w, Returns ())"
  by (simp add: local_leader_def sbind_def sget_def sreturn_def)

lemma sample_read_store [sample_runs_simps]:
  "rd map_kv sample_codec (log_store w s) = Inr v \<Longrightarrow> read_store (sample_cluster sh) n s rd w = (w, Returns v)"
  by (simp add: read_store_def sbind_def sget_def internal_error_def sresult_def sreturn_def map_err_def)

lemma sample_fetch_catalog [sample_runs_simps]:
  "fetch_catalog (sample_cluster sh) 1 w = (w, Returns (spec_catalog (log_shard w 0)))"
  by (simp add: fetch_catalog_def sbind_def sget_def scatch_def sample_local_leader Let_def sample_read_store sample_read_catalog)

lemma sample_fetch_group_catalog [sample_runs_simps]:
  "fetch_group_catalog (sample_cluster sh) 1 w = (w, Returns (spec_group_catalog (log_shard w 0)))"
  by (simp add: fetch_group_catalog_def sbind_def sget_def scatch_def sample_local_leader Let_def sample_read_store sample_read_group_catalog)

lemma sample_client_write [sample_runs_simps]:
  "length (fst w s) < 999 \<Longrightarrow> client_write (sample_cluster sh) 1 s rq w =
     (((fst w)(s := fst w s @ [rq]), snd w), Returns (snd (spec_request (\<lambda>_. 7) (log_shard w s) rq)))"
  by (simp add: client_write_def sbind_def sget_def sample_write_def sresult_def sreturn_def)

lemma sample_commit_catalog [sample_runs_simps]:
  "length (fst w 0) < 999 \<Longrightarrow> commit_catalog (sample_cluster sh) 1 cmd w =
     (((fst w)(0 := fst w 0 @ [RqCommitAggregateCatalog cmd]), snd w), Returns (snd (AggregateCatalog_apply (\<lambda>_. 7) (spec_catalog (log_shard w 0)) cmd)))"
  by (simp add: commit_catalog_def sbind_def sget_def Let_def scatch_def sample_local_leader sample_client_write spec_catalog_command_def split_beta
      sresult_def sreturn_def)

definition sample_ready :: sample_world where
  "sample_ready = ((\<lambda>s. if s = 0 then map RqCommitAggregateCatalog sample_create
     else if s = 1 then [RqInstallAggregatePartitionFence sample_type 0 1] else []), 0)"

definition sample_definition :: AggregateTypeDefinition where
  "sample_definition = \<lparr>def_id = sample_type, def_create_operation_id = 7, def_create_plan_fingerprint = 7, def_seed = 9,
     def_partition_count = EVENT_PARTITION_COUNT, def_hash_algorithm = Xxh3V1, def_status = Active,
     def_placements = fmmap (\<lambda>s. \<lparr>pl_shard_id = s, pl_generation = 1, pl_pending_move = None, pl_last_completed_operation = None\<rparr>)
       sample_placements\<rparr>"

lemma sample_ready_length [simp]: "length (fst sample_ready 0) = 2" "length (fst sample_ready 1) = 1" "snd sample_ready = 0"
  by (simp_all add: sample_ready_def sample_create_def)

lemma log_shard_cong: "fst w s = fst v s \<Longrightarrow> log_shard w s = log_shard v s"
  by (simp add: log_shard_def log_entries_def)

lemma sample_ready_catalog:
  "fmlookup (cat_aggregate_types (spec_catalog (log_shard sample_ready 0))) sample_type = Some sample_definition"
  by (simp add: log_shard_def log_entries_def sample_ready_def log_entry_def spec_catalog_command_def sample_simps spec_catalog_def at_def
      or_default_def empty_shard_def catalog_put_def catalog_activate_def Let_def sample_definition_def)

lemma sample_require_active [sample_runs_simps]:
  "require_active_aggregate_type (sample_cluster sh) 1 sample_type sample_ready = (sample_ready, Returns sample_definition)"
proof -
  have "def_status sample_definition = Active" by (simp add: sample_definition_def)
  then show ?thesis
    by (simp add: require_active_aggregate_type_def sbind_def sample_fetch_catalog sample_ready_catalog require_def ok_or_def sresult_def sreturn_def)
qed

lemma sample_fence: "spec_fence (log_shard sample_ready 1) sample_type 0 = 1" "spec_head (log_shard sample_ready 1) sample_type 0 = 0"
  "spec_idempotency (log_shard sample_ready 1) sample_type 0 u = None" "spec_version (log_shard sample_ready 1) sample_type 0 a = None"
  by (simp_all add: log_shard_def log_entries_def sample_ready_def log_entry_def spec_install_fence_def Let_def spec_fence_def spec_head_def
      spec_idempotency_def spec_version_def at_def or_default_def empty_shard_def)

end
