(* ===== verification/Service_Guarantees.thy ===== *)
theory Service_Guarantees
  imports Sample_World
begin

text \<open>
  What a client of the service can rely on: an acknowledged append is stored and is acknowledged the same way
  whenever it is repeated, a stored state is the revision the reply names, and a registered type is active with
  the fence of every partition in place. The statements are about the shards (\<open>sa\<close>) of any cluster that meets
  \<open>replicated\<close>, whatever the other nodes and clients do meanwhile.
\<close>

section \<open>Appends\<close>

definition acknowledged ::
  "(bytes \<Rightarrow> u128) \<Rightarrow> 'm shard \<Rightarrow> AggregateTypeId \<Rightarrow> u16 \<Rightarrow> string \<Rightarrow> ExpectedAggregateVersion \<Rightarrow> NewAggregateEvent \<Rightarrow> u64 \<Rightarrow> bool" where
  "acknowledged h T t p a expected ev v \<longleftrightarrow>
     (\<exists>pos. (\<exists>a' e. spec_event T t p a' v = Some e \<and> ev_event_id e = nev_event_id ev)
        \<and> (\<forall>T'. later h T T' \<longrightarrow> (\<forall>g hlc. snd (spec_append h T' t p g a expected ev hlc) = RsAggregateAppendOk v pos)))"

lemma append_recorded:
  assumes "spec_append h T t p g a expected ev hlc = (T', RsAggregateAppendOk v pos)" "wf_shard T"
  obtains r where "spec_idempotency T' t p (nev_event_id ev) = Some r" "res_aggregate_version (idm_result r) = v"
proof (cases rule: spec_append_cases [of h T t p g a expected ev hlc])
  case same
  with assms(1) that show ?thesis by fastforce
next
  case (new v' pos')
  from new(1) assms(1) have T': "T' = spec_append_event T (stored_event t p a v' pos' ev hlc)
      (aggregate_append_fingerprint h t a expected ev) (pos' + 1)" by (auto elim: acceptedE)
  have "spec_idempotency T' t p (nev_event_id ev) = Some \<lparr>idm_fingerprint = aggregate_append_fingerprint h t a expected ev,
      idm_result = \<lparr>res_aggregate_version = v', res_partition_position = pos'\<rparr>\<rparr>"
    by (simp add: spec_append_event_obs(4) [OF refl T'])
  then show ?thesis by (rule that) (use new(2) assms(1) in simp)
qed

lemma took_effect_append:
  assumes "took_effect h sa s (RqAggregateAppend t p g a expected ev hlc) (RsAggregateAppendOk v pos) w w'" "wf_shard (sa w s)"
  shows "acknowledged h (sa w' s) t p a expected ev v"
proof -
  from assms(1) obtain T where T: "later h (sa w s) T" "snd (spec_append h T t p g a expected ev hlc) = RsAggregateAppendOk v pos"
    "later h (fst (spec_append h T t p g a expected ev hlc)) (sa w' s)" by (auto simp: took_effect_def)
  let ?T' = "fst (spec_append h T t p g a expected ev hlc)"
  have wf: "wf_shard T" using later_wf [OF assms(2) T(1)] .
  have eq: "spec_append h T t p g a expected ev hlc = (?T', RsAggregateAppendOk v pos)" using T(2) by (simp add: prod_eq_iff)
  have wf': "wf_shard ?T'" using append_step [OF wf] by blast
  obtain r where r: "spec_idempotency ?T' t p (nev_event_id ev) = Some r" "res_aggregate_version (idm_result r) = v"
    by (rule append_recorded [OF eq wf])
  have "spec_idempotency (sa w' s) t p (nev_event_id ev) = Some r"
    using shard_growsD(3) [OF later_grows [OF wf' T(3)] r(1)] .
  moreover have "wf_stream (sa w' s) t p" using later_wf [OF wf' T(3)] by (simp add: wf_shard_def)
  ultimately have "\<exists>a' e. spec_event (sa w' s) t p a' v = Some e \<and> ev_event_id e = nev_event_id ev"
    using wf_streamD(6) r(2) by metis
  moreover have "snd (spec_append h T'' t p g' a expected ev hlc') = RsAggregateAppendOk v pos" if "later h (sa w' s) T''" for T'' g' hlc'
  proof -
    from later_trans [OF T(3) that] obtain cs where "T'' = run_commands (spec_payload h) ?T' cs" by (auto simp: later_def)
    then show ?thesis using append_exactly_once [OF eq wf, of cs g' hlc'] by (simp add: Let_def)
  qed
  ultimately show ?thesis by (auto simp: acknowledged_def)
qed

context replicated
begin

lemma client_write_after:
  assumes "advances h sa w w1" "\<And>w2 resp. took_effect h sa s rq resp w w2 \<Longrightarrow> yields (f resp) w2 P"
  shows "yields (sbind (client_write cl n s rq) f) w1 P"
  by (rule yields_bind [OF client_write_yields]) (blast intro: assms(2) took_effect_mono [OF assms(1) _ advances_refl])

lemma append_once_yields:
  "yields (append_once cl xxh3 n d a expected ev) w (\<lambda>w' v. \<exists>p pl. partition_for xxh3 d a = Inr p
     \<and> fmlookup (def_placements d) p = Some pl \<and> acknowledged h (sa w' (pl_shard_id pl)) (def_id d) p a expected ev v)"
  unfolding append_once_def
proof (rule yields_result, rule yields_bind [where P = "\<lambda>w' pl. w' = w \<and> fmlookup (def_placements d) _ = Some pl"])
  fix p
  show "yields (require (status Code.Internal ''aggregate type lacks a placement'') (fmlookup (def_placements d) p)) w
     (\<lambda>w' pl. w' = w \<and> fmlookup (def_placements d) p = Some pl)" by (simp add: yields_simps)
next
  fix p w1 pl
  assume p: "invalid_argument (partition_for xxh3 d a) = Inr p" and pl: "w1 = w \<and> fmlookup (def_placements d) p = Some pl"
  have clock: "yields (sget (cl_now cl)) w2 (\<lambda>w' _. advances h sa w w')" if "advances h sa w w2" for w2
    by (rule yields_mono [OF keeps_yields [OF keeps_accesses(6)]]) (blast intro: advances_trans that)
  have "partition_for xxh3 d a = Inr p" using p by (auto simp: invalid_argument_def map_err_def split: sum.splits)
  with pl show "yields (sbind (local_leader cl n (pl_shard_id pl)) (\<lambda>_. sbind (sget (cl_now cl)) (\<lambda>ms.
      sbind (client_write cl n (pl_shard_id pl) (RqAggregateAppend (def_id d) p (pl_generation pl) a expected ev (Hlc_now ms)))
        (\<lambda>response. sresult (map_append_response response))))) w1
      (\<lambda>w' v. \<exists>p pl. partition_for xxh3 d a = Inr p \<and> fmlookup (def_placements d) p = Some pl
         \<and> acknowledged h (sa w' (pl_shard_id pl)) (def_id d) p a expected ev v)"
    by (intro yields_bind [OF advances_leads [of w]] yields_bind [OF clock] client_write_after)
      (auto simp: yields_simps elim!: map_append_response.elims intro: took_effect_append [OF _ shards_wf])
qed

lemma append_aggregate_event_yields:
  "yields (append_aggregate_event cl xxh3 max_bytes n rq) w (\<lambda>w' v.
     \<exists>t ev T d p pl. proto_aggregate_type (ar_aggregate_type rq) = Inr t \<and> proto_new_event max_bytes (ar_event rq) = Inr ev
       \<and> observed h sa control T w' \<and> fmlookup (cat_aggregate_types (spec_catalog T)) t = Some d
       \<and> partition_for xxh3 d (ar_aggregate_id rq) = Inr p \<and> fmlookup (def_placements d) p = Some pl
       \<and> acknowledged h (sa w' (pl_shard_id pl)) t p (ar_aggregate_id rq) (proto_expected_version (ar_expected_version rq)) ev v)"
  (is "yields _ _ ?P")
  unfolding append_aggregate_event_def Let_def
proof (intro yields_result)
  fix t u ev
  assume t: "proto_aggregate_type (ar_aggregate_type rq) = Inr t" and ev: "proto_new_event max_bytes (ar_event rq) = Inr ev"
  let ?once = "\<lambda>d. append_once cl xxh3 n d (ar_aggregate_id rq) (proto_expected_version (ar_expected_version rq)) ev"
  let ?active = "\<lambda>w' d. \<exists>T. observed h sa control T w' \<and> fmlookup (cat_aggregate_types (spec_catalog T)) t = Some d \<and> def_status d = Active"
  have once: "yields (?once d) w1 ?P" if active: "?active w1 d" for w1 d
  proof -
    from active obtain T where T: "observed h sa control T w1" "fmlookup (cat_aggregate_types (spec_catalog T)) t = Some d" by blast
    then have id: "def_id d = t" by (auto simp: observed_def wf_shard_def wf_catalog_def wf_definition_def)
    have "yields (?once d) w1 (\<lambda>w' _. advances h sa w1 w')"
      unfolding append_once_def by (intro keeps_yields keeps_intros)
    from yields_conj [OF this append_once_yields] show ?thesis
      by (rule yields_mono) (use T t ev id in \<open>auto intro: observed_mono\<close>)
  qed
  show "yields (sbind (require_active_aggregate_type cl n t) (\<lambda>d. scatch (?once d)
       (\<lambda>s. if st_code s = Unavailable \<and> str_contains ''partition generation advanced'' (st_message s)
            then sbind (require_active_aggregate_type cl n t) ?once else sfail s) sreturn)) w ?P"
  proof (rule yields_bind [OF require_active_yields])
    fix w1 d
    assume "?active w1 d"
    note first = once [OF this]
    have again: "yields (sbind (require_active_aggregate_type cl n t) ?once) w2 ?P" for w2
      by (rule yields_bind [OF require_active_yields once])
    show "yields (scatch (?once d) (\<lambda>s. if st_code s = Unavailable \<and> str_contains ''partition generation advanced'' (st_message s)
            then sbind (require_active_aggregate_type cl n t) ?once else sfail s) sreturn) w1 ?P"
      unfolding yields_def scatch_def
      using first again
      by (auto simp: yields_def sreturn_def sfail_def split: prod.splits outcome.splits if_splits)
  qed
qed

end

text \<open>C13: an acknowledged append is stored, once. If the service answers an append with a version, then the event
  id is stored at that version in the shard where the catalog placed the aggregate's partition, and from then on,
  whatever else is committed, every repetition of the append to that partition is answered with the same version
  and position, under any generation.\<close>

theorem append_acknowledged:
  assumes "replicated cl h view sa control" "append_aggregate_event cl xxh3 max_bytes self rq w = (w', Returns v)"
  shows "\<exists>t ev T d p pl. proto_aggregate_type (ar_aggregate_type rq) = Inr t \<and> proto_new_event max_bytes (ar_event rq) = Inr ev
       \<and> observed h sa control T w' \<and> fmlookup (cat_aggregate_types (spec_catalog T)) t = Some d
       \<and> partition_for xxh3 d (ar_aggregate_id rq) = Inr p \<and> fmlookup (def_placements d) p = Some pl
       \<and> acknowledged h (sa w' (pl_shard_id pl)) t p (ar_aggregate_id rq) (proto_expected_version (ar_expected_version rq)) ev v"
  by (rule yieldsD [OF replicated.append_aggregate_event_yields [OF assms(1)] assms(2)])

definition sample_append :: AppendAggregateEventRequest where
  "sample_append = \<lparr>ar_aggregate_type = Some (''shop'', ''order''), ar_aggregate_id = ''x'', ar_expected_version = None,
     ar_event = Some \<lparr>nm_event_id = replicate 16 0, nm_event_type = ''t'', nm_data = [1], nm_metadata = []\<rparr>\<rparr>"

lemma sample_placement:
  "valid_identifier a \<Longrightarrow> partition_for (\<lambda>_. 0) sample_definition a = Inr 0"
  "fmlookup (def_placements sample_definition) 0
     = Some \<lparr>pl_shard_id = 1, pl_generation = 1, pl_pending_move = None, pl_last_completed_operation = None\<rparr>"
  by (simp_all add: partition_for_def sample_definition_def EventPartitionHash_partition_def EVENT_PARTITION_COUNT_def fmlookup_sample_placements)

lemma sample_append_answer:
  "\<exists>w'. append_aggregate_event (sample_cluster [1]) (\<lambda>_. 0) 10 1 sample_append sample_ready = (w', Returns 0)"
proof -
  have t: "proto_aggregate_type (ar_aggregate_type sample_append) = Inr sample_type" by code_simp
  have a: "validate_aggregate_identifier ''aggregate_id'' (ar_aggregate_id sample_append) = Inr ()" by code_simp
  then have x: "valid_identifier ''x''" by (simp add: sample_append_def)
  then have a: "validate_aggregate_identifier ''aggregate_id'' ''x'' = Inr ()" by simp
  obtain ev where ev: "proto_new_event 10 (ar_event sample_append) = Inr ev" "nev_event_type ev \<noteq> []"
    by (auto simp: proto_new_event_def sample_append_def ok_or_def uuid_from_slice_def usize_saturating_add_def)
  have id: "ar_aggregate_id sample_append = ''x''" "def_id sample_definition = sample_type"
    "proto_expected_version (ar_expected_version sample_append) = Any" by (simp_all add: sample_append_def sample_definition_def proto_expected_version_def)
  have "length (fst sample_ready 1) < 999" by (simp add: sample_ready_def)
  moreover have "snd (spec_append (\<lambda>_. 7) (log_shard sample_ready 1) sample_type 0 1 ''x'' Any ev hlc) = RsAggregateAppendOk 0 0" for hlc
    using ev(2) x by (simp add: spec_append_def sample_fence next_version_def checked_add_def)
  ultimately show ?thesis
    by (auto simp: append_aggregate_event_def append_once_def t a ev(1) id sample_placement x sample_combinators invalid_argument_def map_err_def require_def
        ok_or_def scatch_def sample_require_active sbind_def sget_def sample_local_leader sample_client_write sresult_def sreturn_def)
qed

theorem append_acknowledged_witness:
  "\<exists>w' t ev T d p pl. append_aggregate_event (sample_cluster [1]) (\<lambda>_. 0) 10 1 sample_append sample_ready = (w', Returns 0)
     \<and> observed (\<lambda>_. 7) log_shard 0 T w' \<and> fmlookup (cat_aggregate_types (spec_catalog T)) t = Some d
     \<and> fmlookup (def_placements d) p = Some pl \<and> acknowledged (\<lambda>_. 7) (log_shard w' (pl_shard_id pl)) t p ''x'' Any ev 0"
proof -
  obtain w' where w': "append_aggregate_event (sample_cluster [1]) (\<lambda>_. 0) 10 1 sample_append sample_ready = (w', Returns 0)"
    using sample_append_answer by blast
  have "ar_aggregate_id sample_append = ''x''" "proto_expected_version (ar_expected_version sample_append) = Any"
    by (simp_all add: sample_append_def proto_expected_version_def)
  with append_acknowledged [OF sample.replicated_axioms w'] w' show ?thesis by metis
qed

section \<open>Registration\<close>

lemma took_effect_fence:
  assumes "took_effect h sa s (RqInstallAggregatePartitionFence t p g) (RsAggregatePartitionFenceInstalled g') w w'" "wf_shard (sa w s)"
  shows "g \<le> spec_fence (sa w' s) t p"
proof -
  from assms(1) obtain T where T: "later h (sa w s) T" "snd (spec_install_fence T t p g) = RsAggregatePartitionFenceInstalled g'"
    "later h (fst (spec_install_fence T t p g)) (sa w' s)" by (auto simp: took_effect_def)
  let ?T = "fst (spec_install_fence T t p g)"
  have wf: "wf_shard ?T" using fence_step [OF later_wf [OF assms(2) T(1)], of t p g] by simp
  have "valid_type_id t" using T(2) by (auto simp: spec_install_fence_def invalid_of_def split: sum.splits)
  then have "g \<le> spec_fence ?T t p" using T(2)
    by (auto simp: spec_install_fence_def Let_def max_def split: if_splits)
  with shard_growsD(7) [OF later_grows [OF wf T(3)], of t p] show ?thesis by simp
qed

lemma catalog_outcome:
  assumes "AggregateCatalog_apply f c cmd = (c', ap)" "ca_outcome ap = CatalogAggregateType d b"
    and "cmd = CatalogCreate t op sd pls \<or> cmd = CatalogActivate t op"
  shows "fmlookup (cat_aggregate_types c') t = Some d \<and> def_create_operation_id d = op \<and> (cmd = CatalogActivate t op \<longrightarrow> def_status d = Active)"
  using assms
  by (elim disjE) (auto simp: AggregateCatalog_apply_def catalog_create_def catalog_activate_def catalog_put_def Let_def
      AggregateTypeDefinition_create_def split: sum.splits option.splits if_splits)

lemma spec_catalog_after: "spec_catalog (fst (spec_catalog_command h T cmd)) = fst (AggregateCatalog_apply h (spec_catalog T) cmd)"
proof (cases "outcome_changed (ca_outcome (snd (AggregateCatalog_apply h (spec_catalog T) cmd)))")
  case True
  then show ?thesis by (simp add: spec_catalog_command_def split_beta spec_catalog_def at_def or_default_def)
next
  case False
  then show ?thesis using catalog_rev.unchanged by (simp add: spec_catalog_command_def split_beta)
qed

lemma took_effect_catalog:
  assumes "took_effect h sa s (RqCommitAggregateCatalog cmd) (RsAggregateCatalogApplied ap) w w'" "wf_shard (sa w s)"
    and "ca_outcome ap = CatalogAggregateType d b" "cmd = CatalogCreate t op sd pls \<or> cmd = CatalogActivate t op"
  shows "\<exists>e. fmlookup (cat_aggregate_types (spec_catalog (sa w' s))) t = Some e \<and> definition_below d e \<and> wf_definition t d
    \<and> def_create_operation_id d = op \<and> (cmd = CatalogActivate t op \<longrightarrow> def_status d = Active)"
proof -
  from assms(1) obtain T where T: "later h (sa w s) T" "snd (spec_catalog_command h T cmd) = RsAggregateCatalogApplied ap"
    "later h (fst (spec_catalog_command h T cmd)) (sa w' s)" by (auto simp: took_effect_def)
  let ?T = "fst (spec_catalog_command h T cmd)"
  have wf: "wf_shard ?T" using later_wf [OF later_wf [OF assms(2) T(1)] later_request [of h T "RqCommitAggregateCatalog cmd"]] by simp
  have "AggregateCatalog_apply h (spec_catalog T) cmd = (spec_catalog ?T, ap)"
    using T(2) by (simp add: spec_catalog_after prod_eq_iff) (simp add: spec_catalog_command_def split_beta)
  note C = catalog_outcome [OF this assms(3,4)]
  with wf have "wf_definition t d" by (auto simp: wf_shard_def wf_catalog_def)
  with C shard_growsD(9) [OF later_grows [OF wf T(3)]] show ?thesis by (auto simp: catalog_below_def)
qed

lemma yields_sfor_each:
  assumes "\<And>w x a. x \<in> set xs \<Longrightarrow> yields (f x a) w (\<lambda>w' _. Q x w')"
    and "\<And>x a. keeps R (f x a)" "\<And>x w w'. Q x w \<Longrightarrow> R w w' \<Longrightarrow> Q x w'" "reflp R" "transp R"
  shows "yields (sfor xs a f) w (\<lambda>w' _. \<forall>x \<in> set xs. Q x w')"
  using assms(1)
proof (induction xs arbitrary: w a)
  case (Cons x xs)
  show ?case unfolding sfor.simps
  proof (rule yields_bind [OF Cons.prems])
    fix w1 b
    assume "Q x w1"
    then have "yields (sfor xs b f) w1 (\<lambda>w' _. Q x w')"
      by (intro yields_mono [OF keeps_yields [OF keeps_sfor [OF assms(4,5,2)]]]) (blast intro: assms(3))
    from yields_conj [OF this Cons.IH] Cons.prems show "yields (sfor xs b f) w1 (\<lambda>w' _. \<forall>x \<in> set (x # xs). Q x w')" by simp
  qed simp
qed (simp add: yields_simps)

definition registered_as :: "('w \<Rightarrow> u64 \<Rightarrow> 'm shard) \<Rightarrow> u64 \<Rightarrow> AggregateTypeId \<Rightarrow> uuid \<Rightarrow> AggregateTypeDefinition \<Rightarrow> 'w \<Rightarrow> bool" where
  "registered_as sa control t op d w \<longleftrightarrow> wf_definition t d \<and> def_create_operation_id d = op
     \<and> (\<exists>e. fmlookup (cat_aggregate_types (spec_catalog (sa w control))) t = Some e \<and> definition_below d e)"

definition fenced :: "('w \<Rightarrow> u64 \<Rightarrow> 'm shard) \<Rightarrow> AggregateTypeDefinition \<Rightarrow> 'w \<Rightarrow> bool" where
  "fenced sa d w \<longleftrightarrow> (\<forall>p pl. fmlookup (def_placements d) p = Some pl \<longrightarrow>
     pl_generation pl \<le> spec_fence (sa w (pl_shard_id pl)) (def_id d) p)"

context replicated
begin

lemma install_fences_yields:
  "yields (sfor (sorted_list_of_fmap (def_placements d)) () (\<lambda>(p, pl) _.
       sbind (install_partition_fence cl n (def_id d) p (pl_shard_id pl) (pl_generation pl)) (\<lambda>_. sreturn ()))) w (\<lambda>w' _. fenced sa d w')"
proof -
  let ?Q = "\<lambda>(p, pl) w'. pl_generation pl \<le> spec_fence (sa w' (pl_shard_id pl)) (def_id d) p"
  have "yields (sfor (sorted_list_of_fmap (def_placements d)) () (\<lambda>(p, pl) _.
       sbind (install_partition_fence cl n (def_id d) p (pl_shard_id pl) (pl_generation pl)) (\<lambda>_. sreturn ()))) w
       (\<lambda>w' _. \<forall>x \<in> set (sorted_list_of_fmap (def_placements d)). ?Q x w')"
  proof (rule yields_sfor_each [where R = "advances h sa"])
    fix w x a
    show "yields ((case x of (p, pl) \<Rightarrow> \<lambda>_. sbind (install_partition_fence cl n (def_id d) p (pl_shard_id pl) (pl_generation pl))
        (\<lambda>_. sreturn ())) a) w (\<lambda>w' _. ?Q x w')"
      by (cases x) (auto intro!: yields_bind [OF install_partition_fence_yields] simp: yields_simps intro: took_effect_fence [OF _ shards_wf])
  next
    fix x :: "u16 \<times> PartitionPlacement" and w w'
    assume "?Q x w" "advances h sa w w'"
    then show "?Q x w'"
      using shard_growsD(7) [OF later_grows [OF shards_wf]] unfolding advances_def split_beta by (meson order_trans)
  qed (auto intro: keeps_intros split: prod.split)
  then show ?thesis by (rule yields_mono) (fastforce simp: fenced_def)
qed

lemma fenced_mono: "fenced sa d w \<Longrightarrow> advances h sa w w' \<Longrightarrow> fenced sa d w'"
  using shard_growsD(7) [OF later_grows [OF shards_wf]] unfolding fenced_def advances_def by (meson order_trans)

lemma registered_mono: "registered_as sa control t op d w \<Longrightarrow> advances h sa w w' \<Longrightarrow> registered_as sa control t op d w'"
proof -
  assume R: "registered_as sa control t op d w" "advances h sa w w'"
  have "catalog_below (spec_catalog (sa w control)) (spec_catalog (sa w' control))"
    using R(2) by (auto simp: advances_def intro!: shard_growsD(9) later_grows [OF shards_wf])
  with R(1) show ?thesis unfolding registered_as_def catalog_below_def by (metis definition_below_trans)
qed

lemma activate_yields:
  assumes "registered_as sa control t op d w" "fenced sa d w"
  shows "yields (sbind (commit_catalog cl n (CatalogActivate t op)) (\<lambda>activated.
       case ca_outcome activated of
         CatalogAggregateType d _ \<Rightarrow> sreturn (aggregate_type_info d (ca_revision activated))
       | CatalogConflict reason \<Rightarrow> sfail (status FailedPrecondition (reason_text reason))
       | CatalogInvalid reason \<Rightarrow> sfail (status InvalidArgument (reason_text reason))
       | CatalogNotFound \<Rightarrow> sfail (status Code.NotFound ''aggregate type does not exist''))) w (\<lambda>w' info.
     \<exists>e. wf_definition t d \<and> fenced sa d w' \<and> definition_below d e \<and> def_status e = Active \<and> def_create_operation_id e = op
       \<and> fmlookup (cat_aggregate_types (spec_catalog (sa w' control))) t = Some e
       \<and> ti_status info = Active \<and> ti_aggregate_type info = aggregate_type_to_proto t)"
proof (rule yields_bind [OF yields_conj [OF keeps_yields [OF keeps_catalogs(2)] commit_catalog_yields]], elim conjE)
  fix w' applied
  assume adv: "advances h sa w w'"
    and eff: "took_effect h sa control (RqCommitAggregateCatalog (CatalogActivate t op)) (RsAggregateCatalogApplied applied) w w'"
  have R: "registered_as sa control t op d w'" "fenced sa d w'" using assms adv by (blast intro: registered_mono fenced_mono)+
  show "yields (case ca_outcome applied of
         CatalogAggregateType d _ \<Rightarrow> sreturn (aggregate_type_info d (ca_revision applied))
       | CatalogConflict reason \<Rightarrow> sfail (status FailedPrecondition (reason_text reason))
       | CatalogInvalid reason \<Rightarrow> sfail (status InvalidArgument (reason_text reason))
       | CatalogNotFound \<Rightarrow> sfail (status Code.NotFound ''aggregate type does not exist'')) w' (\<lambda>w' info.
     \<exists>e. wf_definition t d \<and> fenced sa d w' \<and> definition_below d e \<and> def_status e = Active \<and> def_create_operation_id e = op
       \<and> fmlookup (cat_aggregate_types (spec_catalog (sa w' control))) t = Some e
       \<and> ti_status info = Active \<and> ti_aggregate_type info = aggregate_type_to_proto t)"
  proof (cases "ca_outcome applied")
    case (CatalogAggregateType d' b)
    from took_effect_catalog [OF eff shards_wf this, of t op] obtain e where e: "definition_below d' e" "wf_definition t d'"
      "fmlookup (cat_aggregate_types (spec_catalog (sa w' control))) t = Some e" "def_create_operation_id d' = op" "def_status d' = Active" by auto
    with R CatalogAggregateType show ?thesis
      by (auto simp: yields_simps registered_as_def aggregate_type_info_def wf_definition_def definition_below_def)
  qed (simp_all add: yields_simps)
qed

lemma register_yields:
  "yields (register_aggregate_type cl n ty operation) w (\<lambda>w' info.
     \<exists>t op d e. proto_aggregate_type ty = Inr t \<and> uuid_from_slice operation = Some op
       \<and> wf_definition t d \<and> fenced sa d w' \<and> definition_below d e \<and> def_status e = Active \<and> def_create_operation_id e = op
       \<and> fmlookup (cat_aggregate_types (spec_catalog (sa w' control))) t = Some e
       \<and> ti_status info = Active \<and> ti_aggregate_type info = aggregate_type_to_proto t)"
  (is "yields _ _ ?P")
  unfolding register_aggregate_type_def
proof (rule yields_result, rule yields_bind [where P = "\<lambda>_ op. uuid_from_slice operation = Some op"], simp add: yields_simps,
    rule yields_bind [OF keeps_yields [OF keeps_accesses(1)]], rule yields_if, simp add: yields_simps, rule yields_bind [OF commit_catalog_yields])
  fix t w0 op w1 tp w2 created
  assume t: "proto_aggregate_type ty = Inr t" and op: "uuid_from_slice operation = Some op"
    and eff: "took_effect h sa control (RqCommitAggregateCatalog (CatalogCreate t op op (round_robin (ts_all_shards tp))))
      (RsAggregateCatalogApplied created) w1 w2"
  have new: "yields (case ca_outcome created of CatalogAggregateType d _ \<Rightarrow> sreturn d
      | CatalogConflict reason \<Rightarrow> sfail (status AlreadyExists (reason_text reason))
      | CatalogInvalid reason \<Rightarrow> sfail (status InvalidArgument (reason_text reason))
      | CatalogNotFound \<Rightarrow> sfail (status Code.Internal ''registration returned NotFound'')) w2 (\<lambda>w' d. registered_as sa control t op d w')"
  proof (cases "ca_outcome created")
    case (CatalogAggregateType d b)
    from took_effect_catalog [OF eff shards_wf this, of t op op] have "registered_as sa control t op d w2"
      by (auto simp: registered_as_def)
    with CatalogAggregateType show ?thesis by (simp add: yields_simps)
  qed (simp_all add: yields_simps)
  have tail: "yields (sbind (sfor (sorted_list_of_fmap (def_placements d)) () (\<lambda>(p, pl) _.
        sbind (install_partition_fence cl n (def_id d) p (pl_shard_id pl) (pl_generation pl)) (\<lambda>_. sreturn ()))) (\<lambda>_. rest)) w3 ?P"
    if "registered_as sa control t op d w3" "\<And>w4. registered_as sa control t op d w4 \<Longrightarrow> fenced sa d w4 \<Longrightarrow> yields rest w4 ?P" for d w3 rest
  proof (rule yields_bind)
    have "yields (sfor (sorted_list_of_fmap (def_placements d)) () (\<lambda>(p, pl) _.
        sbind (install_partition_fence cl n (def_id d) p (pl_shard_id pl) (pl_generation pl)) (\<lambda>_. sreturn ()))) w3 (\<lambda>w' _. advances h sa w3 w')"
      by (intro keeps_yields keeps_sfor advances_order) (auto intro: keeps_intros split: prod.split)
    from yields_conj [OF this install_fences_yields]
    show "yields (sfor (sorted_list_of_fmap (def_placements d)) () (\<lambda>(p, pl) _.
        sbind (install_partition_fence cl n (def_id d) p (pl_shard_id pl) (pl_generation pl)) (\<lambda>_. sreturn ()))) w3
        (\<lambda>w' _. registered_as sa control t op d w' \<and> fenced sa d w')"
      by (rule yields_mono) (use that(1) in \<open>blast intro: registered_mono\<close>)
  qed (use that(2) in blast)
  show "yields (sbind (case ca_outcome created of CatalogAggregateType d _ \<Rightarrow> sreturn d
      | CatalogNotFound \<Rightarrow> sfail (status Code.Internal ''registration returned NotFound'')
      | CatalogConflict reason \<Rightarrow> sfail (status AlreadyExists (reason_text reason))
      | CatalogInvalid reason \<Rightarrow> sfail (status InvalidArgument (reason_text reason))) (\<lambda>d.
      sbind (sfor (sorted_list_of_fmap (def_placements d)) () (\<lambda>(p, pl) _.
        sbind (install_partition_fence cl n (def_id d) p (pl_shard_id pl) (pl_generation pl)) (\<lambda>_. sreturn ()))) (\<lambda>_.
      sbind (commit_catalog cl n (CatalogActivate t op)) (\<lambda>activated.
       case ca_outcome activated of
         CatalogAggregateType d _ \<Rightarrow> sreturn (aggregate_type_info d (ca_revision activated))
       | CatalogConflict reason \<Rightarrow> sfail (status FailedPrecondition (reason_text reason))
       | CatalogInvalid reason \<Rightarrow> sfail (status InvalidArgument (reason_text reason))
       | CatalogNotFound \<Rightarrow> sfail (status Code.NotFound ''aggregate type does not exist''))))) w2 ?P"
    by (rule yields_bind [OF new], erule tail, rule yields_mono, erule (1) activate_yields) (use t op in blast)
qed

end

text \<open>C14: a registered type is ready. If the service answers a registration, then the type is active in the catalog of
  the control shard, under the operation id of the request, and the definition it was created with has a fence
  installed for each of its 256 partitions on the shard that owns it, so that no write of an unfenced owner is accepted.\<close>

theorem registered_type_ready:
  assumes "replicated cl h view sa control" "register_aggregate_type cl self ty operation w = (w', Returns info)"
  shows "\<exists>t op d e. proto_aggregate_type ty = Inr t \<and> uuid_from_slice operation = Some op
       \<and> wf_definition t d \<and> fenced sa d w' \<and> definition_below d e \<and> def_status e = Active \<and> def_create_operation_id e = op
       \<and> fmlookup (cat_aggregate_types (spec_catalog (sa w' control))) t = Some e
       \<and> ti_status info = Active \<and> ti_aggregate_type info = aggregate_type_to_proto t"
  by (rule yieldsD [OF replicated.register_yields [OF assms(1)] assms(2)])

lemma sample_install:
  assumes "length (fst w s) < 999" "valid_type_id t" "g \<noteq> 0"
  shows "\<exists>g'. install_partition_fence (sample_cluster sh) 1 t p s g w = (((fst w)(s := fst w s @ [RqInstallAggregatePartitionFence t p g]), snd w), Returns g')"
  using assms by (simp add: install_partition_fence_def scatch_def sample_local_leader sbind_def sample_client_write spec_install_fence_def Let_def
      sresult_def sreturn_def)

lemma sample_installs:
  assumes "length (fst w 1) + length xs < 999" "valid_type_id t" "\<forall>(p, pl) \<in> set xs. pl_shard_id pl = 1 \<and> pl_generation pl \<noteq> 0"
  shows "\<exists>w'. sfor xs () (\<lambda>(p, pl) _. sbind (install_partition_fence (sample_cluster sh) 1 t p (pl_shard_id pl) (pl_generation pl)) (\<lambda>_. sreturn ())) w
      = (w', Returns ()) \<and> fst w' 0 = fst w 0"
  using assms
proof (induction xs arbitrary: w)
  case (Cons x xs)
  obtain p pl where x: "x = (p, pl)" by fastforce
  let ?w = "((fst w)(1 := fst w 1 @ [RqInstallAggregatePartitionFence t p (pl_generation pl)]), snd w)"
  have "\<exists>g'. install_partition_fence (sample_cluster sh) 1 t p 1 (pl_generation pl) w = (?w, Returns g')"
    by (rule sample_install) (use Cons.prems in \<open>auto simp: x\<close>)
  then have "sbind (install_partition_fence (sample_cluster sh) 1 t p 1 (pl_generation pl)) (\<lambda>_. sreturn ()) w = (?w, Returns ())"
    by (auto simp: sample_step sreturn_def)
  moreover have "\<exists>w'. sfor xs () (\<lambda>(p, pl) _. sbind (install_partition_fence (sample_cluster sh) 1 t p (pl_shard_id pl) (pl_generation pl))
      (\<lambda>_. sreturn ())) ?w = (w', Returns ()) \<and> fst w' 0 = fst ?w 0"
    by (rule Cons.IH) (use Cons.prems in auto)
  moreover have "pl_shard_id pl = 1" using Cons.prems(3) by (simp add: x)
  ultimately show ?case by (auto simp: x sample_step sample_combinators)
qed (simp add: sreturn_def)

lemma sample_register_answer:
  "\<exists>w' info. register_aggregate_type (sample_cluster [1]) 1 (Some (''shop'', ''order'')) (to_be_bytes (7 :: uuid)) sample_ready = (w', Returns info)"
proof -
  have t: "proto_aggregate_type (Some (''shop'', ''order'')) = Inr sample_type" by code_simp
  have u: "uuid_from_slice (to_be_bytes (7 :: uuid)) = Some 7" by (simp add: uuid_from_slice_def)
  let ?create = "CatalogCreate sample_type 7 7 (round_robin [1])" and ?c = "spec_catalog (log_shard sample_ready 0)"
  have d: "def_status sample_definition = Active" "def_create_operation_id sample_definition = 7" "def_id sample_definition = sample_type"
    "def_create_plan_fingerprint sample_definition = 7" by (simp_all add: sample_definition_def)
  have create: "AggregateCatalog_apply (\<lambda>_. 7) ?c ?create
      = (?c, \<lparr>ca_revision = cat_revision ?c, ca_outcome = CatalogAggregateType sample_definition False\<rparr>)"
    by (simp add: AggregateCatalog_apply_def catalog_create_def sample_ready_catalog d create_plan_fingerprint_def)
  have activate: "AggregateCatalog_apply (\<lambda>_. 7) ?c (CatalogActivate sample_type 7)
      = (?c, \<lparr>ca_revision = cat_revision ?c, ca_outcome = CatalogAggregateType sample_definition False\<rparr>)"
    by (simp add: AggregateCatalog_apply_def catalog_activate_def sample_ready_catalog d)
  let ?w1 = "((fst sample_ready)(0 := fst sample_ready 0 @ [RqCommitAggregateCatalog ?create]), 0 :: nat)"
  have c1: "spec_catalog (log_shard ?w1 0) = ?c"
    using log_shard_write(1) [of sample_ready 0 "RqCommitAggregateCatalog ?create" 0] by (simp add: spec_catalog_after create)
  let ?loop = "sfor (sorted_list_of_fmap (def_placements sample_definition)) () (\<lambda>(p, pl) _.
      sbind (install_partition_fence (sample_cluster [1]) 1 sample_type p (pl_shard_id pl) (pl_generation pl)) (\<lambda>_. sreturn ()))"
  have "length (sorted_list_of_fmap (def_placements sample_definition)) = 256"
    using sample_complete by (simp add: sorted_list_of_fmap_def sample_definition_def complete_partition_map_def fm_len_def EVENT_PARTITION_COUNT_def
        sorted_list_of_fset.rep_eq fcard.rep_eq)
  moreover have "\<forall>(p, pl) \<in> set (sorted_list_of_fmap (def_placements sample_definition)). pl_shard_id pl = 1 \<and> pl_generation pl \<noteq> 0"
    by (auto simp: in_set_sorted_list_of_fmap sample_definition_def fmlookup_sample_placements split: if_splits)
  ultimately obtain w2 where w2: "?loop ?w1 = (w2, Returns ())" "fst w2 0 = fst ?w1 0"
    using sample_installs [of ?w1 "sorted_list_of_fmap (def_placements sample_definition)" sample_type "[1]"] by auto
  have c2: "spec_catalog (log_shard w2 0) = ?c" "length (fst w2 0) < 999"
    using log_shard_cong [of w2 0 ?w1] w2(2) by (simp_all add: c1)
  show ?thesis
    by (simp add: register_aggregate_type_def t u sample_combinators require_def ok_or_def)
      (simp add: sample_step sget_def sample_commit_catalog create sample_combinators d(3) w2(1) c2 activate sreturn_def)
qed

theorem registered_type_ready_witness:
  "\<exists>w' info d. register_aggregate_type (sample_cluster [1]) 1 (Some (''shop'', ''order'')) (to_be_bytes (7 :: uuid)) sample_ready
      = (w', Returns info) \<and> ti_status info = Active \<and> wf_definition sample_type d \<and> fenced log_shard d w'"
proof -
  obtain w' info where w': "register_aggregate_type (sample_cluster [1]) 1 (Some (''shop'', ''order'')) (to_be_bytes (7 :: uuid)) sample_ready
    = (w', Returns info)" using sample_register_answer by blast
  have "proto_aggregate_type (Some (''shop'', ''order'')) = Inr sample_type" by code_simp
  with registered_type_ready [OF sample.replicated_axioms w'] w' show ?thesis by auto
qed

end
