(* ===== verification/Service_Loops.thy ===== *)
theory Service_Loops
  imports Replication
begin

text \<open>
  Loops of the service: a loop that concatenates the answers of its calls, and requests grouped by a key in a
  \<open>BTreeMap\<close> of vectors. Grouping neither loses nor repeats a request, and the answers of the groups are one
  answer per request.
\<close>

section \<open>Partition ids on the wire\<close>

lemma widen_narrow: "x < 2 ^ 16 \<Longrightarrow> (ucast (ucast x :: u16) :: u32) = x"
proof (rule word_unat_eq_iff [THEN iffD2])
  assume "x < 2 ^ 16"
  then have "unat x < 2 ^ 16" by (simp add: word_less_nat_alt)
  then show "unat (ucast (ucast x :: u16) :: u32) = unat x" by (simp add: unsigned_ucast_eq unsigned_take_bit_eq take_bit_nat_eq_self)
qed

lemma narrow_widen: "(ucast (ucast p :: u32) :: u16) = p"
  by (rule bit_word_eqI) (simp add: bit_simps)

lemma widened_small: "(ucast (p :: u16) :: u32) < 2 ^ 16" "unat (ucast p :: u32) = unat p"
proof -
  have p: "unat p < 65536" by (rule order.strict_trans2 [OF unsigned_less]) simp
  then show "unat (ucast p :: u32) = unat p" by (simp add: unsigned_ucast_eq take_bit_eq_mod)
  with p show "(ucast p :: u32) < 2 ^ 16" by (simp add: word_less_nat_alt)
qed

section \<open>Answers of a loop\<close>

lemma yields_scatch_value:
  assumes "keeps R m" "yields m w P" "\<And>s w'. R w w' \<Longrightarrow> yields (e s) w' Q" "\<And>a w'. P w' a \<Longrightarrow> yields (f a) w' Q"
  shows "yields (scatch m e f) w Q"
  using assms unfolding yields_def scatch_def keeps_def by (auto split: prod.splits outcome.splits) (metis fst_conv)+


lemma sbind_simps: "sbind (sreturn v) f = f v" "sbind (sfail s) g = sfail s" "sbind (if c then m1 else m2) f = (if c then sbind m1 f else sbind m2 f)"
  by (auto simp: fun_eq_iff sbind_def sreturn_def sfail_def)

lemma invalid_argument_Inr [simp]: "invalid_argument r = Inr v \<longleftrightarrow> r = Inr v"
  by (cases r) (auto simp: invalid_argument_def map_err_def)

lemma proto_valid: "proto_aggregate_type ty = Inr t \<Longrightarrow> valid_type_id t"
  by (auto simp: proto_aggregate_type_def rbind_Inr_iff AggregateTypeId_new_Inr)

lemma proto_of_valid: "valid_type_id t \<Longrightarrow> proto_aggregate_type (Some (aggregate_type_to_proto t)) = Inr t"
  using AggregateTypeId_new_Inr [of "business_space t" "aggregate_type t" t]
  by (cases t) (simp add: proto_aggregate_type_def aggregate_type_to_proto_def ok_or_def)

lemma yields_sfor_concat:
  assumes call: "\<And>x w1. x \<in> set xs \<Longrightarrow> R w w1 \<Longrightarrow> yields (f x) w1 (\<lambda>w' ys. R w w' \<and> Q w' x ys)"
    and mono: "\<And>x ys w1 w2. Q w1 x ys \<Longrightarrow> R w1 w2 \<Longrightarrow> Q w2 x ys"
    and keeps: "\<And>x. keeps R (f x)" and order: "reflp R" "transp R"
    and start: "R w w0"
  shows "yields (sfor xs acc (\<lambda>x acc. sbind (f x) (\<lambda>ys. sreturn (acc @ ys)))) w0
    (\<lambda>w' r. R w w' \<and> (\<exists>yss. r = acc @ concat yss \<and> list_all2 (Q w') xs yss))"
  using call start
proof (induction xs arbitrary: w0 acc)
  case Nil
  then show ?case by (simp add: yields_simps)
next
  case (Cons x xs)
  let ?loop = "\<lambda>acc. sfor xs acc (\<lambda>x acc. sbind (f x) (\<lambda>ys. sreturn (acc @ ys)))"
  have IH: "yields (?loop acc) w1 (\<lambda>w' r. R w w' \<and> (\<exists>yss. r = acc @ concat yss \<and> list_all2 (Q w') xs yss))"
    if "R w w1" for acc w1
    by (rule Cons.IH [OF Cons.prems(1)]) (use that in simp_all)
  have step: "yields (sbind (f x) (\<lambda>ys. sreturn (acc @ ys))) w0 (\<lambda>w' a. R w w' \<and> (\<exists>ys. a = acc @ ys \<and> Q w' x ys))"
    by (rule yields_bind [OF Cons.prems(1)]) (use Cons.prems(2) in \<open>auto simp: yields_simps\<close>)
  show ?case unfolding sfor.simps
  proof (rule yields_bind [OF step])
    fix w1 a
    assume "R w w1 \<and> (\<exists>ys. a = acc @ ys \<and> Q w1 x ys)"
    then obtain ys where ys: "R w w1" "a = acc @ ys" "Q w1 x ys" by blast
    have "keeps R (?loop a)" by (intro keeps_intros order keeps) 
    from yields_conj [OF keeps_yields [OF this] IH [OF ys(1)]]
    show "yields (?loop a) w1 (\<lambda>w' r. R w w' \<and> (\<exists>yss. r = acc @ concat yss \<and> list_all2 (Q w') (x # xs) yss))"
    proof (rule yields_mono)
      fix w' r
      assume "R w1 w' \<and> R w w' \<and> (\<exists>yss. r = a @ concat yss \<and> list_all2 (Q w') xs yss)"
      then obtain yss where yss: "R w1 w'" "R w w'" "r = a @ concat yss" "list_all2 (Q w') xs yss" by blast
      have "Q w' x ys" using mono [OF ys(3) yss(1)] .
      with yss ys(2) show "R w w' \<and> (\<exists>yss. r = acc @ concat yss \<and> list_all2 (Q w') (x # xs) yss)"
        by (intro conjI exI [of _ "ys # yss"]) simp_all
    qed
  qed
qed

lemma list_all2_flatten:
  assumes "list_all2 (\<lambda>x y. \<exists>ys. y = concat ys \<and> list_all2 (P x) (g x) ys) xs Y"
  shows "\<exists>Ys. concat Y = concat Ys \<and> list_all2 (\<lambda>(x, c). P x c) (concat (map (\<lambda>x. map (Pair x) (g x)) xs)) Ys"
  using assms
proof (induction rule: list_all2_induct)
  case (Cons x xs y Y)
  then obtain ys Ys where "y = concat ys" "list_all2 (P x) (g x) ys" "concat Y = concat Ys"
    "list_all2 (\<lambda>(x, c). P x c) (concat (map (\<lambda>x. map (Pair x) (g x)) xs)) Ys" by blast
  then show ?case
    by (intro exI [of _ "ys @ Ys"]) (auto simp: list_all2_map1 intro!: list_all2_appendI)
qed simp

text \<open>Answers that name their request: the answers of one request are found by that name.\<close>

lemma list_all2_block:
  assumes "list_all2 P cs yss" "distinct (map k cs)" "\<And>c ys. P c ys \<Longrightarrow> \<forall>i \<in> set ys. g i = k c" "c \<in> set cs"
  shows "P c (filter (\<lambda>i. g i = k c) (concat yss))"
  using assms(1,2,4)
proof (induction rule: list_all2_induct)
  case (Cons x xs y ys)
  have gy: "\<forall>i \<in> set y. g i = k x" using assms(3) [OF Cons.hyps(1)] .
  have rest: "\<exists>z \<in> set xs. g i = k z" if "i \<in> set (concat ys)" for i
    using Cons.hyps(2) that
  proof (induction rule: list_all2_induct)
    case (Cons z zs v vs)
    then show ?case using assms(3) [of z v] by auto
  qed simp
  show ?case
  proof (cases "c = x")
    case True
    have "g i \<noteq> k c" if "i \<in> set (concat ys)" for i using rest [OF that] Cons.prems(1) True by force
    then have "filter (\<lambda>i. g i = k c) (concat ys) = []" unfolding filter_empty_conv by blast
    moreover have "filter (\<lambda>i. g i = k c) y = y" using gy True by (simp add: filter_id_conv)
    ultimately show ?thesis using Cons.hyps(1) True by simp
  next
    case False
    then have c: "c \<in> set xs" using Cons.prems(2) by simp
    then have "filter (\<lambda>i. g i = k c) y = []" using gy Cons.prems(1) by (force simp: filter_empty_conv)
    then show ?thesis using Cons.IH Cons.prems(1) c by simp
  qed
qed simp

section \<open>Grouping\<close>

definition group_pairs :: "('k::linorder \<times> 'v) list \<Rightarrow> ('k \<times> 'v list) list" where
  "group_pairs kvs = sorted_list_of_fmap (fold (\<lambda>(k, v). fm_push k v) kvs fmempty)"

definition ungroup :: "('k \<times> 'v list) list \<Rightarrow> ('k \<times> 'v) list" where
  "ungroup g = concat (map (\<lambda>(k, vs). map (Pair k) vs) g)"

text \<open>The cursors of every shard, in the order of the partitions; the shards in the order of their ids.\<close>

definition group_by_shard :: "(u16 \<Rightarrow> 'c) \<Rightarrow> (u16, PartitionPlacement) fmap \<Rightarrow> (u64 \<times> 'c list) list" where
  "group_by_shard f placements = group_pairs (map (\<lambda>(p, pl). (pl_shard_id pl, f p)) (sorted_list_of_fmap placements))"

lemma fmlookup_fold_push:
  "fmlookup (fold (\<lambda>(k, v). fm_push k v) kvs m) k =
     (let vs = map snd (filter (\<lambda>kv. fst kv = k) kvs) in
      case fmlookup m k of None \<Rightarrow> if vs = [] then None else Some vs | Some us \<Rightarrow> Some (us @ vs))"
  by (induction kvs arbitrary: m) (auto simp: fmlookup_fm_push Let_def split: option.splits if_splits)

lemma in_group_pairs:
  "(k, vs) \<in> set (group_pairs kvs) \<longleftrightarrow> vs = map snd (filter (\<lambda>kv. fst kv = k) kvs) \<and> k \<in> fst ` set kvs"
  by (force simp: group_pairs_def fmlookup_fold_push Let_def filter_empty_conv)

lemma group_pairs_eq:
  fixes kvs :: "('k::linorder \<times> 'v) list"
  obtains ks where "distinct ks" "set ks = fst ` set kvs"
    "group_pairs kvs = map (\<lambda>k. (k, map snd (filter (\<lambda>kv. fst kv = k) kvs))) ks"
proof (rule that [of "map fst (group_pairs kvs)"])
  have dom_eq: "fst ` A = B" if "\<And>k vs. (k, vs) \<in> A \<longleftrightarrow> vs = f k \<and> k \<in> B" for A :: "('k \<times> 'w) set" and B f
    using that by force
  show "distinct (map fst (group_pairs kvs))" by (simp add: group_pairs_def sorted_list_of_fset.rep_eq)
  show "set (map fst (group_pairs kvs)) = fst ` set kvs"
    unfolding set_map by (rule dom_eq) (simp add: in_group_pairs)
  have "group_pairs kvs = map (\<lambda>kvs. kvs) (group_pairs kvs)" by simp
  also have "\<dots> = map ((\<lambda>k. (k, map snd (filter (\<lambda>kv. fst kv = k) kvs))) \<circ> fst) (group_pairs kvs)"
    by (rule map_cong) (auto simp: in_group_pairs)
  finally show "group_pairs kvs = map (\<lambda>k. (k, map snd (filter (\<lambda>kv. fst kv = k) kvs))) (map fst (group_pairs kvs))" by simp
qed

lemma set_ungroup_group [simp]: "set (ungroup (group_pairs kvs)) = set kvs"
  by (force simp: ungroup_def in_group_pairs)

lemma distinct_filters:
  "distinct ks \<Longrightarrow> distinct (map f kvs) \<Longrightarrow> distinct (map f (concat (map (\<lambda>k. filter (\<lambda>kv. fst kv = k) kvs) ks)))"
proof (induction ks)
  case (Cons k ks)
  have inj: "inj_on f (set kvs)" using Cons.prems(2) by (simp add: distinct_map)
  have "f x \<noteq> f y" if "x \<in> set kvs" "fst x = k" "y \<in> set kvs" "fst y \<in> set ks" for x y
    using that inj_onD [OF inj, of x y] Cons.prems(1) by auto
  then have "f ` set (filter (\<lambda>kv. fst kv = k) kvs) \<inter> f ` set (concat (map (\<lambda>k. filter (\<lambda>kv. fst kv = k) kvs) ks)) = {}"
    by fastforce
  with Cons show ?case by (simp add: distinct_map_filter)
qed simp

lemma distinct_ungroup_group:
  assumes "distinct (map f kvs)"
  shows "distinct (map f (ungroup (group_pairs kvs)))"
proof -
  obtain ks where ks: "distinct ks" "group_pairs kvs = map (\<lambda>k. (k, map snd (filter (\<lambda>kv. fst kv = k) kvs))) ks"
    by (rule group_pairs_eq)
  have "map (Pair k \<circ> snd) (filter (\<lambda>kv. fst kv = k) kvs) = filter (\<lambda>kv. fst kv = k) kvs" for k
    by (rule map_idI) auto
  then have "ungroup (group_pairs kvs) = concat (map (\<lambda>k. filter (\<lambda>kv. fst kv = k) kvs) ks)"
    by (simp add: ungroup_def ks(2) comp_def)
  with distinct_filters [OF ks(1) assms] show ?thesis by simp
qed

section \<open>Reads\<close>

context lagging
begin

lemma read_applied_yields:
  assumes "\<And>st T v. rep (cl_codec cl) (es_shard_id st) (view (es_tree st)) T \<Longrightarrow> wf_shard T \<Longrightarrow> rd (cl_kv cl) (cl_codec cl) st = Inr v \<Longrightarrow> Q T v"
    and "\<And>T x v. Q (T(AppliedStateKey := x)) v \<Longrightarrow> Q T v"
  shows "yields (read_store cl n s rd) w (\<lambda>w' v. progress h sa ap w w' \<and> (\<exists>T. later h (ap w s) T \<and> later h T (sa w' s) \<and> Q T v))"
  unfolding read_store_def
proof (rule yields_bind [where P = "\<lambda>w' st. progress h sa ap w w' \<and> (\<exists>T x. later h (ap w s) T \<and> later h T (sa w' s)
    \<and> rep (cl_codec cl) (es_shard_id st) (view (es_tree st)) (T(AppliedStateKey := x)))"])
  fix w' and st :: "('db, 'm) EsStorage"
  assume "progress h sa ap w w' \<and> (\<exists>T x. later h (ap w s) T \<and> later h T (sa w' s)
    \<and> rep (cl_codec cl) (es_shard_id st) (view (es_tree st)) (T(AppliedStateKey := x)))"
  then obtain T x where T: "progress h sa ap w w'" "later h (ap w s) T" "later h T (sa w' s)"
    "rep (cl_codec cl) (es_shard_id st) (view (es_tree st)) (T(AppliedStateKey := x))" by blast
  have "wf_shard (T(AppliedStateKey := x))" using later_wf [OF applied_wf T(2)] by simp
  from assms(1) [OF T(4) this] assms(2) T(1-3) show "yields (sresult (internal_error (rd (cl_kv cl) (cl_codec cl) st))) w'
      (\<lambda>w' v. progress h sa ap w w' \<and> (\<exists>T. later h (ap w s) T \<and> later h T (sa w' s) \<and> Q T v))"
    by (auto simp: yields_simps internal_error_def map_err_def split: sum.splits)
qed (use both.accesses(8) store_applied in \<open>auto simp: yields_simps\<close>)

end

end
