(* ===== verification/State_Paging.thy ===== *)
theory State_Paging
  imports Sample_World Service_Loops
begin

text \<open>
  Listing the states of an aggregate type page by page (\<open>list_aggregate_states\<close> of \<open>aggregate_service.rs\<close>). A page is
  merged from the partitions, which are on several shards; the page token carries, for every partition, the last id
  the client has seen. Other clients may write states while a client pages.
\<close>

section \<open>Definitions\<close>

definition STATE_PAGE_TOKEN_VERSION :: u8 where
  "STATE_PAGE_TOKEN_VERSION = 1"

definition DEFAULT_STATE_PAGE_SIZE :: u32 where
  "DEFAULT_STATE_PAGE_SIZE = 100"

definition MAX_STATE_PAGE_SIZE :: u32 where
  "MAX_STATE_PAGE_SIZE = 1000"

definition decode_state_page_token ::
  "StatePageToken bincode \<Rightarrow> bytes \<Rightarrow> AggregateTypeId \<Rightarrow> u16 \<Rightarrow> (StatePageToken, Status) result" where
  "decode_state_page_token bc bs t partition_count =
     (if bs = []
      then Inr \<lparr>pt_version = STATE_PAGE_TOKEN_VERSION, pt_aggregate_type = t, pt_after_aggregate_ids = replicate (unat partition_count) []\<rparr>
      else rbind (decode_bincode bc bs) (\<lambda>token.
        if pt_version token \<noteq> STATE_PAGE_TOKEN_VERSION \<or> pt_aggregate_type token \<noteq> t
           \<or> length (pt_after_aggregate_ids token) \<noteq> unat partition_count
        then Inl (status InvalidArgument ''page_token does not match'')
        else Inr token))"

record AggregateStatePartitionCursor =
  sc_partition_id :: u32
  sc_after_aggregate_id :: string

record InternalAggregateStateInfo =
  is_partition_id :: u32
  is_aggregate_id :: string
  is_revision :: u64
  is_modified_unix_millis :: u64

definition list_local_partition_states ::
  "('w, 'db, 'm) cluster \<Rightarrow> u64 \<Rightarrow> u64 \<Rightarrow> (string \<times> string) option \<Rightarrow> AggregateStatePartitionCursor list \<Rightarrow> u32
     \<Rightarrow> (InternalAggregateStateInfo list, 'w) svc" where
  "list_local_partition_states cl node shard ty cursors limit_per_partition =
     sbind (sresult (proto_aggregate_type ty)) (\<lambda>t.
     sfor cursors [] (\<lambda>cursor states.
       if sc_partition_id cursor \<ge> 2 ^ 16 then sfail (status InvalidArgument ''partition_id is out of range'')
       else
         let p = ucast (sc_partition_id cursor) :: u16;
             after = (if sc_after_aggregate_id cursor = [] then None else Some (sc_after_aggregate_id cursor))
         in sbind (read_store cl node shard (\<lambda>kv cd st. list_aggregate_partition_states kv cd st t p after (ucast limit_per_partition))) (\<lambda>found.
            sreturn (states @ map (\<lambda>(aggregate_id, doc). \<lparr>is_partition_id = ucast p, is_aggregate_id = aggregate_id,
              is_revision = doc_revision doc, is_modified_unix_millis = wall (doc_modified_hlc doc)\<rparr>) found))))"

definition list_aggregate_partition_states_internal ::
  "('w, 'db, 'm) cluster \<Rightarrow> u64 \<Rightarrow> u64 \<Rightarrow> (string \<times> string) option \<Rightarrow> AggregateStatePartitionCursor list \<Rightarrow> u32
     \<Rightarrow> (InternalAggregateStateInfo list, 'w) svc" where
  "list_aggregate_partition_states_internal cl self shard ty cursors limit_per_partition =
     sbind (local_leader cl self shard) (\<lambda>_. list_local_partition_states cl self shard ty cursors limit_per_partition)"

definition list_states_from_shard ::
  "('w, 'db, 'm) cluster \<Rightarrow> u64 \<Rightarrow> u64 \<Rightarrow> AggregateTypeId \<Rightarrow> AggregateStatePartitionCursor list \<Rightarrow> u32
     \<Rightarrow> (InternalAggregateStateInfo list, 'w) svc" where
  "list_states_from_shard cl self shard t cursors limit_per_partition =
     (let ty = Some (aggregate_type_to_proto t) in
      scatch (local_leader cl self shard)
        (\<lambda>_. sbind (sget (cl_topology cl self)) (\<lambda>tp.
             internal_call cl tp shard (\<lambda>n. list_aggregate_partition_states_internal cl n shard ty cursors limit_per_partition)))
        (\<lambda>_. list_local_partition_states cl self shard ty cursors limit_per_partition))"

record AggregateStateInfo =
  si_aggregate_id :: string
  si_revision :: u64
  si_modified_unix_millis :: u64

text \<open>The loop over the items of a page: it moves the token forward and strips the partition.\<close>

fun take_items ::
  "string list \<Rightarrow> InternalAggregateStateInfo list \<Rightarrow> (string list \<times> AggregateStateInfo list) outcome" where
  "take_items after [] = Returns (after, [])"
| "take_items after (item # items) =
     (if is_partition_id item \<ge> 2 ^ 16 then Fails (status Code.Internal ''partition_id is out of range'')
      else if unat (is_partition_id item) \<ge> length after then Panics
      else case take_items (after[unat (is_partition_id item) := is_aggregate_id item]) items of
             Returns (after, states) \<Rightarrow>
               Returns (after, \<lparr>si_aggregate_id = is_aggregate_id item, si_revision = is_revision item,
                 si_modified_unix_millis = is_modified_unix_millis item\<rparr> # states)
           | Fails s \<Rightarrow> Fails s
           | Panics \<Rightarrow> Panics)"

definition effective_page_size :: "u32 \<Rightarrow> u32" where
  "effective_page_size requested = (if requested = 0 then DEFAULT_STATE_PAGE_SIZE else min requested MAX_STATE_PAGE_SIZE)"

definition list_aggregate_states ::
  "('w, 'db, 'm) cluster \<Rightarrow> u64 \<Rightarrow> (string \<times> string) option \<Rightarrow> u32 \<Rightarrow> bytes \<Rightarrow> (AggregateStateInfo list \<times> bytes, 'w) svc" where
  "list_aggregate_states cl self ty requested page_token =
     sbind (sresult (proto_aggregate_type ty)) (\<lambda>t.
     sbind (require_active_aggregate_type cl self t) (\<lambda>d.
     let page_size = effective_page_size requested in
     sbind (sresult (decode_state_page_token (wr_page_token (cl_wire cl)) page_token t (def_partition_count d))) (\<lambda>token.
     if \<not> list_all (\<lambda>(p, _). unat p < length (pt_after_aggregate_ids token)) (sorted_list_of_fmap (def_placements d)) then spanic
     else
       let grouped = group_by_shard (\<lambda>p. \<lparr>sc_partition_id = ucast p, sc_after_aggregate_id = pt_after_aggregate_ids token ! unat p\<rparr>)
             (def_placements d) in
       sbind (sfor grouped [] (\<lambda>(shard, cursors) all.
                sbind (list_states_from_shard cl self shard t cursors (saturating_add page_size 1)) (\<lambda>states. sreturn (all @ states)))) (\<lambda>all.
       let all = sort_key is_aggregate_id all; has_more = length all > unat page_size in
       sbind (\<lambda>w. (w, take_items (pt_after_aggregate_ids token) (take (unat page_size) all))) (\<lambda>(after, states).
       if has_more
       then sbind (sresult (encode_bincode (wr_page_token (cl_wire cl)) (token\<lparr>pt_after_aggregate_ids := after\<rparr>))) (\<lambda>next_token.
              sreturn (states, next_token))
       else sreturn (states, []))))))"

section \<open>One page\<close>

text \<open>The ids with a state, and what a limited listing after \<open>c\<close> finds of them.\<close>

definition state_ids :: "'m shard \<Rightarrow> AggregateTypeId \<Rightarrow> u16 \<Rightarrow> string set" where
  "state_ids T t p = {a. listed T t p None a}"

definition found :: "string set \<Rightarrow> string \<Rightarrow> nat \<Rightarrow> string list \<Rightarrow> bool" where
  "found A c limit ids \<longleftrightarrow> sorted_wrt (<) ids \<and> set ids \<subseteq> {a \<in> A. c < a}
     \<and> (\<forall>a \<in> A. c < a \<and> a \<notin> set ids \<longrightarrow> length ids = limit \<and> (\<forall>b \<in> set ids. b < a))"

lemma listed_after: "listed T t p (if c = [] then None else Some c) a \<longleftrightarrow> a \<in> state_ids T t p \<and> c < a"
  by (auto simp: state_ids_def listed_def valid_identifier_def)

lemma state_ids_mono: "shard_grows T U \<Longrightarrow> state_ids T t p \<subseteq> state_ids U t p"
  by (auto simp: state_ids_def listed_def dest: shard_growsD(5))

abbreviation item_key :: "InternalAggregateStateInfo \<Rightarrow> u32 \<times> string" where
  "item_key i \<equiv> (is_partition_id i, is_aggregate_id i)"

abbreviation ids_of :: "InternalAggregateStateInfo list \<Rightarrow> u32 \<Rightarrow> string list" where
  "ids_of items q \<equiv> map is_aggregate_id (filter (\<lambda>i. is_partition_id i = q) items)"

text \<open>The token after a page: in every partition the last id taken, if any.\<close>

lemma take_items_returns:
  assumes "take_items after items = Returns (after', states)"
  shows "length after' = length after \<and> map si_aggregate_id states = map is_aggregate_id items
    \<and> (\<forall>i \<in> set items. unat (is_partition_id i) < length after)
    \<and> (\<forall>q. unat q < length after \<longrightarrow> after' ! unat q = (if ids_of items q = [] then after ! unat q else last (ids_of items q)))"
  using assms
proof (induction after items arbitrary: after' states rule: take_items.induct)
  case (2 after item items)
  let ?q = "is_partition_id item" and ?after = "after[unat (is_partition_id item) := is_aggregate_id item]"
  from 2(2) obtain rest where rest: "take_items ?after items = Returns (after', rest)" "unat ?q < length after" "\<not> ?q \<ge> 2 ^ 16"
    "states = \<lparr>si_aggregate_id = is_aggregate_id item, si_revision = is_revision item,
      si_modified_unix_millis = is_modified_unix_millis item\<rparr> # rest"
    by (auto split: if_splits outcome.splits)
  from 2(1) [OF rest(3) _ rest(1)] rest show ?case
    by (auto simp: nth_list_update word_unat_eq_iff)
qed simp

lemma sorted_last: "sorted_wrt (<) xs \<Longrightarrow> x \<in> set xs \<Longrightarrow> x \<le> last xs" for xs :: "'a::linorder list"
  by (induction xs) (auto, meson last_in_set less_imp_le)

lemma page_taken:
  fixes all :: "InternalAggregateStateInfo list"
  assumes f: "found A c (Suc n) (ids_of all q)" and c': "c' = (if ids_of page q = [] then c else last (ids_of page q))"
    and page: "page = take n (sort_key is_aggregate_id all)"
  shows "sorted_wrt (<) (ids_of page q)" "c \<le> c'" "set (ids_of page q) \<subseteq> {a \<in> A. c < a \<and> a \<le> c'}"
    "\<And>a. a \<in> A \<Longrightarrow> c < a \<Longrightarrow> a \<le> c' \<or> length all \<le> n \<Longrightarrow> a \<in> set (ids_of page q)"
proof -
  let ?P = "\<lambda>i. is_partition_id i = q"
  define rest where "rest = ids_of (drop n (sort_key is_aggregate_id all)) q"
  from f have sorted: "sorted_wrt (<) (ids_of all q)" and new: "set (ids_of all q) \<subseteq> {a \<in> A. c < a}"
    and full: "\<And>a. a \<in> A \<Longrightarrow> c < a \<Longrightarrow> a \<notin> set (ids_of all q) \<Longrightarrow> length (ids_of all q) = Suc n \<and> (\<forall>b \<in> set (ids_of all q). b < a)"
    unfolding found_def by blast+
  have "filter ?P (sort_key is_aggregate_id all) = filter ?P all"
    unfolding filter_sort by (rule sort_key_id_if_sorted) (use sorted in \<open>simp add: strict_sorted_iff\<close>)
  then have all: "ids_of all q = ids_of page q @ rest"
    unfolding rest_def page by (metis append_take_drop_id filter_append map_append)
  show page_sorted: "sorted_wrt (<) (ids_of page q)" using sorted by (simp add: all sorted_wrt_append)
  note last = sorted_last [OF page_sorted]
  have "last (ids_of page q) \<in> set (ids_of all q)" if "ids_of page q \<noteq> []" using last_in_set [OF that] by (simp add: all)
  then have "last (ids_of page q) \<in> {a \<in> A. c < a}" if "ids_of page q \<noteq> []" using new that by blast
  then show "c \<le> c'" by (simp add: c' less_imp_le)
  show "set (ids_of page q) \<subseteq> {a \<in> A. c < a \<and> a \<le> c'}"
  proof
    fix a
    assume a: "a \<in> set (ids_of page q)"
    then have "ids_of page q \<noteq> []" by (metis empty_iff list.set(1))
    with last [OF a] have "a \<le> c'" by (simp only: c' if_False)
    with a new show "a \<in> {a \<in> A. c < a \<and> a \<le> c'}" unfolding all set_append by blast
  qed
  fix a
  assume a: "a \<in> A" "c < a" "a \<le> c' \<or> length all \<le> n"
  show "a \<in> set (ids_of page q)"
  proof (cases "length all \<le> n")
    case True
    then have "rest = []" by (simp add: rest_def)
    moreover have "length (ids_of all q) \<le> n" using order_trans [OF length_filter_le True] by simp
    ultimately show ?thesis using full [OF a(1,2)] unfolding all by auto
  next
    case False
    with a have some: "ids_of page q \<noteq> []" and le: "a \<le> last (ids_of page q)" by (auto simp: c' split: if_splits)
    have "last (ids_of page q) \<in> set (ids_of all q)" using last_in_set [OF some] by (simp add: all)
    with full [OF a(1,2)] le have "a \<in> set (ids_of page q) \<or> a \<in> set rest" unfolding all by fastforce
    moreover have "a \<notin> set rest" using sorted some le unfolding all sorted_wrt_append by (meson last_in_set leD)
    ultimately show ?thesis by blast
  qed
qed

lemma distinct_by_partition:
  assumes "\<And>q. distinct (ids_of items q)"
    and "\<And>i j. i \<in> set items \<Longrightarrow> j \<in> set items \<Longrightarrow> is_aggregate_id i = is_aggregate_id j \<Longrightarrow> is_partition_id i = is_partition_id j"
  shows "distinct (map is_aggregate_id items)"
  using assms
proof (induction items)
  case (Cons x items)
  have "distinct (ids_of items q)" for q using Cons.prems(1) [of q] by (simp split: if_splits)
  then have "distinct (map is_aggregate_id items)" by (rule Cons.IH) (rule Cons.prems(2), simp_all)
  moreover have "is_aggregate_id x \<noteq> is_aggregate_id j" if "j \<in> set items" for j
  proof
    assume same: "is_aggregate_id x = is_aggregate_id j"
    with Cons.prems(2) [of x j] that have "is_partition_id x = is_partition_id j" by simp
    with same that have "is_aggregate_id x \<in> set (ids_of items (is_partition_id x))" by simp
    with Cons.prems(1) [of "is_partition_id x"] show False by simp
  qed
  ultimately show ?case by auto
qed simp

section \<open>Pages of a cluster\<close>

text \<open>What a page takes of every partition, between the token before and the token after.\<close>

definition page_step ::
  "(bytes \<Rightarrow> u128) \<Rightarrow> ('w \<Rightarrow> u64 \<Rightarrow> 'm shard) \<Rightarrow> ('w \<Rightarrow> u64 \<Rightarrow> 'm shard) \<Rightarrow> AggregateTypeId \<Rightarrow> (u16, u64) fmap \<Rightarrow> 'w \<Rightarrow> 'w
     \<Rightarrow> string list \<Rightarrow> string list \<Rightarrow> InternalAggregateStateInfo list \<Rightarrow> bool \<Rightarrow> bool" where
  "page_step h sa ap t shards w w' after after' items complete \<longleftrightarrow>
     (\<forall>i \<in> set items. \<exists>p s. fmlookup shards p = Some s \<and> is_partition_id i = ucast p)
     \<and> (\<forall>p s. fmlookup shards p = Some s \<longrightarrow>
          (\<exists>T. later h (ap w s) T \<and> later h T (sa w' s)
             \<and> sorted_wrt (<) (ids_of items (ucast p)) \<and> after ! unat p \<le> after' ! unat p
             \<and> set (ids_of items (ucast p)) \<subseteq> {a \<in> state_ids T t p. after ! unat p < a \<and> a \<le> after' ! unat p}
             \<and> (\<forall>a \<in> state_ids T t p. after ! unat p < a \<and> (a \<le> after' ! unat p \<or> complete) \<longrightarrow> a \<in> set (ids_of items (ucast p)))))"

definition page_answer ::
  "('w, 'db, 'm) cluster \<Rightarrow> (bytes \<Rightarrow> u128) \<Rightarrow> ('w \<Rightarrow> u64 \<Rightarrow> 'm shard) \<Rightarrow> ('w \<Rightarrow> u64 \<Rightarrow> 'm shard) \<Rightarrow> u64 \<Rightarrow> AggregateTypeId \<Rightarrow> bytes \<Rightarrow> 'w \<Rightarrow> 'w
     \<Rightarrow> AggregateStateInfo list \<Rightarrow> bytes \<Rightarrow> bool" where
  "page_answer cl h sa ap control t bs w w' states bs' \<longleftrightarrow>
     (\<exists>T d token items after'. observed h sa control T w' \<and> fmlookup (cat_aggregate_types (spec_catalog T)) t = Some d \<and> def_status d = Active
        \<and> decode_state_page_token (wr_page_token (cl_wire cl)) bs t (def_partition_count d) = Inr token
        \<and> map si_aggregate_id states = map is_aggregate_id items
        \<and> length after' = length (pt_after_aggregate_ids token)
        \<and> page_step h sa ap t (fmmap pl_shard_id (def_placements d)) w w' (pt_after_aggregate_ids token) after' items (bs' = [])
        \<and> (bs' = [] \<or> encode_bincode (wr_page_token (cl_wire cl)) (token\<lparr>pt_after_aggregate_ids := after'\<rparr>) = Inr bs' \<and> states \<noteq> []))"

definition partition_page ::
  "(bytes \<Rightarrow> u128) \<Rightarrow> 'm shard \<Rightarrow> 'm shard \<Rightarrow> AggregateTypeId \<Rightarrow> nat \<Rightarrow> AggregateStatePartitionCursor \<Rightarrow> InternalAggregateStateInfo list \<Rightarrow> bool" where
  "partition_page h S S' t limit cursor items \<longleftrightarrow>
     (\<forall>i \<in> set items. is_partition_id i = sc_partition_id cursor)
     \<and> (\<exists>T. later h S T \<and> later h T S'
        \<and> found (state_ids T t (ucast (sc_partition_id cursor))) (sc_after_aggregate_id cursor) limit (map is_aggregate_id items))"

definition shard_page ::
  "(bytes \<Rightarrow> u128) \<Rightarrow> ('w \<Rightarrow> u64 \<Rightarrow> 'm shard) \<Rightarrow> ('w \<Rightarrow> u64 \<Rightarrow> 'm shard) \<Rightarrow> 'w \<Rightarrow> 'w \<Rightarrow> AggregateTypeId \<Rightarrow> u32
     \<Rightarrow> u64 \<times> AggregateStatePartitionCursor list \<Rightarrow> InternalAggregateStateInfo list \<Rightarrow> bool" where
  "shard_page h sa ap w w' t limit x items \<longleftrightarrow>
     (\<exists>yss. items = concat yss \<and> list_all2 (partition_page h (ap w (fst x)) (sa w' (fst x)) t (unat limit)) (snd x) yss)"

lemma page_size: "effective_page_size r \<noteq> 0" "unat (saturating_add (effective_page_size r) 1) = Suc (unat (effective_page_size r))"
  "saturating_add (effective_page_size r) 1 \<noteq> 0"
proof -
  have n: "effective_page_size r \<noteq> 0 \<and> unat (effective_page_size r) \<le> 1000"
    by (auto simp: effective_page_size_def DEFAULT_STATE_PAGE_SIZE_def MAX_STATE_PAGE_SIZE_def min_def word_le_nat_alt)
  then show "effective_page_size r \<noteq> 0" by blast
  show s: "unat (saturating_add (effective_page_size r) 1) = Suc (unat (effective_page_size r))"
    using n by (simp add: unat_saturating_add)
  then show "saturating_add (effective_page_size r) 1 \<noteq> 0" by (metis nat.discI unat_0)
qed

text \<open>
  A client that follows the tokens until there is none, with any page sizes, through any nodes, while other
  requests are committed between and during its calls.
\<close>

inductive paging ::
  "('w, 'db, 'm) cluster \<Rightarrow> (bytes \<Rightarrow> u128) \<Rightarrow> ('w \<Rightarrow> u64 \<Rightarrow> 'm shard) \<Rightarrow> ('w \<Rightarrow> u64 \<Rightarrow> 'm shard) \<Rightarrow> (string \<times> string) option
     \<Rightarrow> bytes \<Rightarrow> 'w \<Rightarrow> AggregateStateInfo list list \<Rightarrow> 'w \<Rightarrow> bool"
  for cl h sa ap ty where
  last_page: "list_aggregate_states cl n ty requested bs w = (w', Returns (states, [])) \<Longrightarrow> paging cl h sa ap ty bs w [states] w'"
| next_page: "list_aggregate_states cl n ty requested bs w = (w1, Returns (states, bs')) \<Longrightarrow> bs' \<noteq> [] \<Longrightarrow> progress h sa ap w1 w2 \<Longrightarrow>
     paging cl h sa ap ty bs' w2 pages w' \<Longrightarrow> paging cl h sa ap ty bs w (states # pages) w'"

definition pages_listed ::
  "('w \<Rightarrow> u64 \<Rightarrow> 'm shard) \<Rightarrow> ('w \<Rightarrow> u64 \<Rightarrow> 'm shard) \<Rightarrow> AggregateTypeId \<Rightarrow> (u16, u64) fmap \<Rightarrow> string list \<Rightarrow> 'w \<Rightarrow> 'w
     \<Rightarrow> InternalAggregateStateInfo list \<Rightarrow> bool" where
  "pages_listed sa ap t shards after w w' items \<longleftrightarrow>
     (\<forall>i \<in> set items. \<exists>p s. fmlookup shards p = Some s \<and> is_partition_id i = ucast p)
     \<and> (\<forall>p s. fmlookup shards p = Some s \<longrightarrow> sorted_wrt (<) (ids_of items (ucast p))
          \<and> set (ids_of items (ucast p)) \<subseteq> {a \<in> state_ids (sa w' s) t p. after ! unat p < a}
          \<and> {a \<in> state_ids (ap w s) t p. after ! unat p < a} \<subseteq> set (ids_of items (ucast p)))"

lemma decode_next_token:
  assumes "bincode_laws bc" "decode_state_page_token bc bs t count = Inr token" "length after = length (pt_after_aggregate_ids token)"
    and "encode_bincode bc (token\<lparr>pt_after_aggregate_ids := after\<rparr>) = Inr bs'" "bs' \<noteq> []"
  shows "decode_state_page_token bc bs' t count = Inr (token\<lparr>pt_after_aggregate_ids := after\<rparr>)"
  using assms(2,3,5) bincode_roundtrip [OF assms(1,4)]
  by (auto simp: decode_state_page_token_def rbind_Inr_iff split: if_splits)

context lagging
begin

lemma state_ids_later: "later h (ap w s) T \<Longrightarrow> state_ids (ap w s) t p \<subseteq> state_ids T t p"
  "later h T U \<Longrightarrow> later h (ap w s) T \<Longrightarrow> state_ids T t p \<subseteq> state_ids U t p"
  by (blast intro: state_ids_mono [THEN subsetD] later_grows applied_wf later_wf)+

lemma page_step_listed: "page_step h sa ap t shards w w' after after' items True \<Longrightarrow> pages_listed sa ap t shards after w w' items"
  unfolding pages_listed_def
proof (intro conjI allI impI)
  assume step: "page_step h sa ap t shards w w' after after' items True"
  then show "\<forall>i \<in> set items. \<exists>p s. fmlookup shards p = Some s \<and> is_partition_id i = ucast p" by (simp add: page_step_def)
  fix p s
  assume "fmlookup shards p = Some s"
  with step obtain T where T: "later h (ap w s) T" "later h T (sa w' s)" "sorted_wrt (<) (ids_of items (ucast p))"
    "set (ids_of items (ucast p)) \<subseteq> {a \<in> state_ids T t p. after ! unat p < a}"
    "{a \<in> state_ids T t p. after ! unat p < a} \<subseteq> set (ids_of items (ucast p))" unfolding page_step_def by blast
  note grow = state_ids_later(1) [OF T(1), of t p] state_ids_later(2) [OF T(2,1), of t p]
  show "sorted_wrt (<) (ids_of items (ucast p))" by (fact T(3))
  show "set (ids_of items (ucast p)) \<subseteq> {a \<in> state_ids (sa w' s) t p. after ! unat p < a}" using T(4) grow by blast
  show "{a \<in> state_ids (ap w s) t p. after ! unat p < a} \<subseteq> set (ids_of items (ucast p))" using T(5) grow by blast
qed

lemma partition_page_mono: "partition_page h (ap w s) (sa w1 s) t limit c items \<Longrightarrow> progress h sa ap w1 w2 \<Longrightarrow>
    partition_page h (ap w s) (sa w2 s) t limit c items"
  unfolding partition_page_def by (meson later_trans progress_later(1))

lemma partition_read_yields:
  fixes limit :: u32
  assumes t: "valid_type_id t" and limit: "limit \<noteq> 0" and c: "\<not> sc_partition_id c \<ge> 2 ^ 16" and adv: "progress h sa ap w w1"
  defines "after \<equiv> (if sc_after_aggregate_id c = [] then None else Some (sc_after_aggregate_id c))"
  shows "yields (sbind (read_store cl n s (\<lambda>kv cd st. list_aggregate_partition_states kv cd st t (ucast (sc_partition_id c)) after (ucast limit)))
      (\<lambda>found. sreturn (map (\<lambda>(aggregate_id, doc). \<lparr>is_partition_id = ucast (ucast (sc_partition_id c) :: u16), is_aggregate_id = aggregate_id,
              is_revision = doc_revision doc, is_modified_unix_millis = wall (doc_modified_hlc doc)\<rparr>) found))) w1
    (\<lambda>w' items. progress h sa ap w w' \<and> partition_page h (ap w s) (sa w' s) t (unat limit) c items)"
proof (rule yields_bind [OF read_applied_yields [where Q = "\<lambda>T es. found (state_ids T t (ucast (sc_partition_id c)))
    (sc_after_aggregate_id c) (unat limit) (map fst es)"]])
  let ?p = "ucast (sc_partition_id c) :: u16"
  fix st T es
  assume rep: "rep (cl_codec cl) (es_shard_id st) (view (es_tree st)) T"
    and es: "list_aggregate_partition_states (cl_kv cl) (cl_codec cl) st t ?p after (ucast limit) = Inr es"
  show "found (state_ids T t ?p) (sc_after_aggregate_id c) (unat limit) (map fst es)"
  proof -
    have wide: "unat (ucast limit :: u64) = unat limit"
      unfolding unsigned_ucast_eq by (rule take_bit_nat_eq_self) (rule order.strict_trans2 [OF unsigned_less], simp)
    have "(ucast limit :: u64) \<noteq> 0" using limit wide by (metis unat_0 unat_eq_zero)
    with states_listing_complete [OF kv codec rep t, where p = ?p and after = after and limit = "ucast limit"] es show ?thesis
      by (auto simp: found_def after_def listed_after wide)
  qed
next
  fix T x es
  assume "found (state_ids (T(AppliedStateKey := x)) t (ucast (sc_partition_id c))) (sc_after_aggregate_id c) (unat limit) (map fst es)"
  then show "found (state_ids T t (ucast (sc_partition_id c))) (sc_after_aggregate_id c) (unat limit) (map fst es)"
    by (simp add: state_ids_def listed_def spec_state_def at_def)
next
  fix w' and es :: "(string \<times> AggregateStateDocument) list"
  let ?p = "ucast (sc_partition_id c) :: u16"
  have eq: "ucast ?p = sc_partition_id c" using c by (simp add: widen_narrow not_le)
  assume "progress h sa ap w1 w' \<and> (\<exists>T. later h (ap w1 s) T \<and> later h T (sa w' s)
    \<and> found (state_ids T t ?p) (sc_after_aggregate_id c) (unat limit) (map fst es))"
  then show "yields (sreturn (map (\<lambda>(aggregate_id, doc). \<lparr>is_partition_id = ucast ?p, is_aggregate_id = aggregate_id,
              is_revision = doc_revision doc, is_modified_unix_millis = wall (doc_modified_hlc doc)\<rparr>) es)) w'
    (\<lambda>w' items. progress h sa ap w w' \<and> partition_page h (ap w s) (sa w' s) t (unat limit) c items)"
    using eq both.passes_trans [OF adv] later_trans [OF progress_later(2) [OF adv]]
    unfolding partition_page_def by (simp add: yields_simps comp_def split_beta) blast
qed

lemma local_states_yields:
  fixes limit :: u32
  assumes t: "valid_type_id t" and limit: "limit \<noteq> 0" and adv: "progress h sa ap w w1"
  shows "yields (list_local_partition_states cl n s (Some (aggregate_type_to_proto t)) cursors limit) w1
    (\<lambda>w' items. progress h sa ap w w' \<and> (\<exists>yss. items = concat yss \<and> list_all2 (partition_page h (ap w s) (sa w' s) t (unat limit)) cursors yss))"
proof -
  let ?f = "\<lambda>cursor. if sc_partition_id cursor \<ge> 2 ^ 16 then sfail (status InvalidArgument ''partition_id is out of range'')
    else sbind (read_store cl n s (\<lambda>kv cd st. list_aggregate_partition_states kv cd st t (ucast (sc_partition_id cursor))
        (if sc_after_aggregate_id cursor = [] then None else Some (sc_after_aggregate_id cursor)) (ucast limit)))
      (\<lambda>found. sreturn (map (\<lambda>(aggregate_id, doc). \<lparr>is_partition_id = ucast (ucast (sc_partition_id cursor) :: u16), is_aggregate_id = aggregate_id,
              is_revision = doc_revision doc, is_modified_unix_millis = wall (doc_modified_hlc doc)\<rparr>) found))"
  have loop: "list_local_partition_states cl n s (Some (aggregate_type_to_proto t)) cursors limit =
      sfor cursors [] (\<lambda>cursor states. sbind (?f cursor) (\<lambda>ys. sreturn (states @ ys)))"
    unfolding list_local_partition_states_def proto_of_valid [OF t] sbind_return Let_def by (simp only: sbind_simps sbind_assoc)
  have "yields (sfor cursors [] (\<lambda>cursor states. sbind (?f cursor) (\<lambda>ys. sreturn (states @ ys)))) w1
    (\<lambda>w' items. progress h sa ap w w' \<and> (\<exists>yss. items = [] @ concat yss \<and> list_all2 (partition_page h (ap w s) (sa w' s) t (unat limit)) cursors yss))"
  proof (rule yields_sfor_concat [OF _ partition_page_mono])
    fix c w1
    assume "progress h sa ap w w1"
    then show "yields (?f c) w1 (\<lambda>w' ys. progress h sa ap w w' \<and> partition_page h (ap w s) (sa w' s) t (unat limit) c ys)"
      by (intro yields_if partition_read_yields [OF t limit]) (simp_all add: yields_simps)
  qed (use adv in \<open>auto intro: keeps_intros\<close>)
  then show ?thesis unfolding loop by simp
qed

lemma shard_page_mono: "shard_page h sa ap w w1 t limit x items \<Longrightarrow> progress h sa ap w1 w2 \<Longrightarrow> shard_page h sa ap w w2 t limit x items"
  unfolding shard_page_def by (blast intro: list_all2_mono partition_page_mono)

lemma keeps_local_states [keeps_intros]: "keeps (progress h sa ap) (list_local_partition_states cl n s ty cursors limit)"
  unfolding list_local_partition_states_def Let_def by (intro keeps_intros)

lemma keeps_shard_states [keeps_intros]: "keeps (progress h sa ap) (list_states_from_shard cl n s t cursors limit)"
  unfolding list_states_from_shard_def list_aggregate_partition_states_internal_def Let_def by (intro keeps_intros)

lemma shard_states_yields:
  fixes limit :: u32
  assumes t: "valid_type_id t" and limit: "limit \<noteq> 0" and adv: "progress h sa ap w w1"
  shows "yields (list_states_from_shard cl n s t cursors limit) w1 (\<lambda>w' items. progress h sa ap w w' \<and> shard_page h sa ap w w' t limit (s, cursors) items)"
  unfolding list_states_from_shard_def Let_def list_aggregate_partition_states_internal_def
proof (rule both.forwarded_yields [OF adv])
  have here: "yields (list_local_partition_states cl m s (Some (aggregate_type_to_proto t)) cursors limit) w2
      (\<lambda>w' items. progress h sa ap w w' \<and> shard_page h sa ap w w' t limit (s, cursors) items)" if "progress h sa ap w w2" for m w2
    using local_states_yields [OF t limit that] by (simp add: shard_page_def)
  fix w2
  assume w2: "progress h sa ap w w2"
  then show "yields (list_local_partition_states cl n s (Some (aggregate_type_to_proto t)) cursors limit) w2
      (\<lambda>w' items. progress h sa ap w w' \<and> shard_page h sa ap w w' t limit (s, cursors) items)" by (rule here)
  have "yields (internal_call cl tp s (\<lambda>m. sbind (local_leader cl m s) (\<lambda>_.
      list_local_partition_states cl m s (Some (aggregate_type_to_proto t)) cursors limit))) w3
      (\<lambda>w' items. progress h sa ap w w' \<and> shard_page h sa ap w w' t limit (s, cursors) items)" if "progress h sa ap w w3" for tp w3
    by (rule both.internal_call_yields)
      (blast intro: yields_bind [OF both.passes_leads] here both.passes_trans that shard_page_mono)+
  then show "yields (sbind (sget (cl_topology cl n)) (\<lambda>tp. internal_call cl tp s (\<lambda>m. sbind (local_leader cl m s) (\<lambda>_.
      list_local_partition_states cl m s (Some (aggregate_type_to_proto t)) cursors limit)))) w2
      (\<lambda>w' items. progress h sa ap w w' \<and> shard_page h sa ap w w' t limit (s, cursors) items)"
    by (rule both.yields_topology) (blast intro: both.passes_trans w2)
qed

lemma keeps_all_states: "keeps (progress h sa ap) (sfor grouped [] (\<lambda>(shard, cursors) all.
    sbind (list_states_from_shard cl n shard t cursors limit) (\<lambda>states. sreturn (all @ states))))"
  by (intro keeps_sfor progress_order) (auto intro: keeps_intros split: prod.split)

lemma all_states_yields:
  fixes limit :: u32
  assumes t: "valid_type_id t" and limit: "limit \<noteq> 0" and adv: "progress h sa ap w w1"
  shows "yields (sfor grouped [] (\<lambda>(shard, cursors) all.
        sbind (list_states_from_shard cl n shard t cursors limit) (\<lambda>states. sreturn (all @ states)))) w1
    (\<lambda>w' all. progress h sa ap w w' \<and> (\<exists>yss. all = concat yss
       \<and> list_all2 (\<lambda>(s, c). partition_page h (ap w s) (sa w' s) t (unat limit) c) (ungroup grouped) yss))"
proof -
  have "yields (sfor grouped [] (\<lambda>x all. sbind (list_states_from_shard cl n (fst x) t (snd x) limit) (\<lambda>states. sreturn (all @ states)))) w1
    (\<lambda>w' all. progress h sa ap w w' \<and> (\<exists>yss. all = [] @ concat yss \<and> list_all2 (shard_page h sa ap w w' t limit) grouped yss))"
  proof (rule yields_sfor_concat)
    fix x w2
    assume "progress h sa ap w w2"
    then show "yields (list_states_from_shard cl n (fst x) t (snd x) limit) w2 (\<lambda>w' ys. progress h sa ap w w' \<and> shard_page h sa ap w w' t limit x ys)"
      using shard_states_yields [OF t limit, of w w2 n "fst x" "snd x"] by simp
  qed (use adv shard_page_mono in \<open>auto intro: keeps_intros\<close>)
  then show ?thesis unfolding split_beta
  proof (rule yields_mono)
    fix w' all
    assume "progress h sa ap w w' \<and> (\<exists>yss. all = [] @ concat yss \<and> list_all2 (shard_page h sa ap w w' t limit) grouped yss)"
    then obtain yss where adv': "progress h sa ap w w'" and "list_all2 (shard_page h sa ap w w' t limit) grouped yss" "all = concat yss" by auto
    then have "\<exists>Ys. all = concat Ys \<and> list_all2 (\<lambda>(x, c). partition_page h (ap w (fst x)) (sa w' (fst x)) t (unat limit) c)
        (concat (map (\<lambda>x. map (Pair x) (snd x)) grouped)) Ys"
      using list_all2_flatten [of "\<lambda>x. partition_page h (ap w (fst x)) (sa w' (fst x)) t (unat limit)" snd grouped yss]
      by (simp add: shard_page_def [abs_def])
    then obtain Ys where Ys: "all = concat Ys" "list_all2 (\<lambda>(x, c). partition_page h (ap w (fst x)) (sa w' (fst x)) t (unat limit) c)
        (concat (map (\<lambda>x. map (Pair x) (snd x)) grouped)) Ys" by blast
    have "ungroup grouped = map (\<lambda>(x, c). (fst x, c)) (concat (map (\<lambda>x. map (Pair x) (snd x)) grouped))"
      by (simp add: ungroup_def map_concat case_prod_unfold comp_def)
    with Ys adv' show "progress h sa ap w w' \<and> (\<exists>yss. all = concat yss
       \<and> list_all2 (\<lambda>x. partition_page h (ap w (fst x)) (sa w' (fst x)) t (unat limit) (snd x)) (ungroup grouped) yss)"
      by (auto simp: list_all2_map1 case_prod_unfold)
  qed
qed

lemma page_of_partitions:
  fixes placements :: "(u16, PartitionPlacement) fmap"
  assumes pages: "list_all2 (\<lambda>(s, c). partition_page h (ap w s) (sa w' s) t limit c)
      (ungroup (group_by_shard (\<lambda>p. \<lparr>sc_partition_id = ucast p, sc_after_aggregate_id = after p\<rparr>) placements)) yss"
    and pl: "fmlookup placements p = Some pl"
  shows "\<exists>T. later h (ap w (pl_shard_id pl)) T \<and> later h T (sa w' (pl_shard_id pl))
    \<and> found (state_ids T t p) (after p) limit (ids_of (concat yss) (ucast p))"
proof -
  let ?f = "\<lambda>p. \<lparr>sc_partition_id = ucast p, sc_after_aggregate_id = after p\<rparr> :: AggregateStatePartitionCursor"
  let ?kvs = "map (\<lambda>(p, pl). (pl_shard_id pl, ?f p)) (sorted_list_of_fmap placements)"
  have "inj (ucast :: u16 \<Rightarrow> u32)" by (rule injI) (metis narrow_widen)
  then have "distinct (map (ucast :: u16 \<Rightarrow> u32) (map fst (sorted_list_of_fmap placements)))"
    by (subst distinct_map) (simp add: sorted_list_of_fset.rep_eq inj_on_subset [OF _ subset_UNIV])
  then have "distinct (map (\<lambda>kv. sc_partition_id (snd kv)) ?kvs)"
    by (simp add: comp_def case_prod_unfold del: map_fst_sorted_list_of_fmap)
  then have dist: "distinct (map (\<lambda>kv. sc_partition_id (snd kv)) (ungroup (group_pairs ?kvs)))" by (rule distinct_ungroup_group)
  have "(pl_shard_id pl, ?f p) \<in> set (ungroup (group_pairs ?kvs))" unfolding set_ungroup_group using pl by force
  from list_all2_block [OF pages [unfolded group_by_shard_def] dist _ this, of is_partition_id]
  have "partition_page h (ap w (pl_shard_id pl)) (sa w' (pl_shard_id pl)) t limit (?f p) (filter (\<lambda>i. is_partition_id i = ucast p) (concat yss))"
    by (auto simp: partition_page_def)
  then show ?thesis by (simp add: partition_page_def narrow_widen)
qed

lemma keeps_page: "keeps (progress h sa ap) (list_aggregate_states cl n ty requested bs)"
proof -
  have "keeps (progress h sa ap) (\<lambda>w. (w, r))" for r by (simp add: keeps_def)
  then show ?thesis unfolding list_aggregate_states_def Let_def by (intro keeps_intros keeps_all_states)
qed

lemma page_taken_step:
  fixes placements :: "(u16, PartitionPlacement) fmap" and size :: nat
  assumes pages: "list_all2 (\<lambda>(s, c). partition_page h (ap w s) (sa w' s) t (Suc size) c)
      (ungroup (group_by_shard (\<lambda>p. \<lparr>sc_partition_id = ucast p, sc_after_aggregate_id = after ! unat p\<rparr>) placements)) yss"
    and bounds: "\<forall>p pl. fmlookup placements p = Some pl \<longrightarrow> unat p < length after"
    and items: "items = take size (sort_key is_aggregate_id (concat yss))" and taken: "take_items after items = Returns (after', states)"
  shows "page_step h sa ap t (fmmap pl_shard_id placements) w w' after after' items (length (concat yss) \<le> size)"
  unfolding page_step_def
proof (intro conjI ballI allI impI)
  let ?f = "\<lambda>p. \<lparr>sc_partition_id = ucast p, sc_after_aggregate_id = after ! unat p\<rparr> :: AggregateStatePartitionCursor"
  fix i
  assume "i \<in> set items"
  then have "i \<in> set (concat yss)" unfolding items by (metis in_set_takeD set_sort)
  then obtain k where k: "k < length yss" "i \<in> set (yss ! k)" unfolding set_concat by (metis UN_E in_set_conv_nth)
  obtain s c where c: "ungroup (group_by_shard ?f placements) ! k = (s, c)" by fastforce
  from k pages have "partition_page h (ap w s) (sa w' s) t (Suc size) c (yss ! k)" "(s, c) \<in> set (ungroup (group_by_shard ?f placements))"
    using c unfolding list_all2_conv_all_nth by (auto simp: in_set_conv_nth)
  with k(2) show "\<exists>p s. fmlookup (fmmap pl_shard_id placements) p = Some s \<and> is_partition_id i = ucast p"
    by (auto simp: group_by_shard_def partition_page_def) blast
next
  fix p s
  assume "fmlookup (fmmap pl_shard_id placements) p = Some s"
  then obtain pl where pl: "fmlookup placements p = Some pl" and s: "s = pl_shard_id pl" by auto
  from page_of_partitions [where after = "\<lambda>p. after ! unat p", OF pages pl] obtain T
    where T: "later h (ap w (pl_shard_id pl)) T" "later h T (sa w' (pl_shard_id pl))"
      "found (state_ids T t p) (after ! unat p) (Suc size) (ids_of (concat yss) (ucast p))" by blast
  have "unat (ucast p :: u32) < length after" using bounds pl by (simp add: widened_small)
  with take_items_returns [OF taken] have "after' ! unat p = (if ids_of items (ucast p) = [] then after ! unat p else last (ids_of items (ucast p)))"
    by (metis widened_small(2))
  note P = page_taken [OF T(3) this items]
  show "\<exists>T. later h (ap w s) T \<and> later h T (sa w' s)
             \<and> sorted_wrt (<) (ids_of items (ucast p)) \<and> after ! unat p \<le> after' ! unat p
             \<and> set (ids_of items (ucast p)) \<subseteq> {a \<in> state_ids T t p. after ! unat p < a \<and> a \<le> after' ! unat p}
             \<and> (\<forall>a \<in> state_ids T t p. after ! unat p < a \<and> (a \<le> after' ! unat p \<or> length (concat yss) \<le> size)
                  \<longrightarrow> a \<in> set (ids_of items (ucast p)))"
    using T(1,2) P unfolding s by blast
qed

lemma page_yields:
  assumes nonempty: "\<And>v. bc_encode (wr_page_token (cl_wire cl)) v \<noteq> Inr []"
  shows "yields (list_aggregate_states cl n ty requested bs) w (\<lambda>w' (states, bs').
     progress h sa ap w w' \<and> (\<exists>t. proto_aggregate_type ty = Inr t \<and> page_answer cl h sa ap control t bs w w' states bs'))"
  (is "yields _ _ ?P")
  unfolding list_aggregate_states_def Let_def
proof (rule yields_result, rule yields_bind [OF yields_conj [OF keeps_yields [OF both.keeps_catalogs(6)] require_active_yields]],
    rule yields_result, rule yields_if, simp add: yields_simps)
  fix t w1 d token
  assume t: "proto_aggregate_type ty = Inr t"
    and d: "progress h sa ap w w1 \<and> (\<exists>T. observed h sa control T w1 \<and> fmlookup (cat_aggregate_types (spec_catalog T)) t = Some d \<and> def_status d = Active)"
    and token: "decode_state_page_token (wr_page_token (cl_wire cl)) bs t (def_partition_count d) = Inr token"
    and bounds: "\<not> \<not> list_all (\<lambda>(p, _). unat p < length (pt_after_aggregate_ids token)) (sorted_list_of_fmap (def_placements d))"
  let ?after = "pt_after_aggregate_ids token" and ?n = "unat (effective_page_size requested)"
  let ?grouped = "group_by_shard (\<lambda>p. \<lparr>sc_partition_id = ucast p, sc_after_aggregate_id = ?after ! unat p\<rparr>) (def_placements d)"
  have valid: "valid_type_id t" by (rule proto_valid [OF t])
  have small: "\<forall>p pl. fmlookup (def_placements d) p = Some pl \<longrightarrow> unat p < length ?after" using bounds by (auto simp: list_all_iff)
  show "yields (sbind (sfor ?grouped [] (\<lambda>(shard, cursors) all. sbind (list_states_from_shard cl n shard t cursors
        (saturating_add (effective_page_size requested) 1)) (\<lambda>states. sreturn (all @ states)))) (\<lambda>all.
      sbind (\<lambda>w. (w, take_items ?after (take ?n (sort_key is_aggregate_id all)))) (\<lambda>(after, states).
       if ?n < length (sort_key is_aggregate_id all)
       then sbind (sresult (encode_bincode (wr_page_token (cl_wire cl)) (token\<lparr>pt_after_aggregate_ids := after\<rparr>))) (\<lambda>next_token.
              sreturn (states, next_token))
       else sreturn (states, [])))) w1 ?P"
  proof (rule yields_bind [OF yields_conj [OF keeps_yields [OF keeps_all_states] all_states_yields [OF valid page_size(3) d [THEN conjunct1]]]],
      elim conjE exE)
    fix w2 all yss
    assume adv1: "progress h sa ap w1 w2" and adv: "progress h sa ap w w2" and all: "all = concat yss"
      and pages: "list_all2 (\<lambda>(s, c). partition_page h (ap w s) (sa w2 s) t (unat (saturating_add (effective_page_size requested) 1)) c)
        (ungroup ?grouped) yss"
    show "yields (sbind (\<lambda>w. (w, take_items ?after (take ?n (sort_key is_aggregate_id all)))) (\<lambda>(after, states).
       if ?n < length (sort_key is_aggregate_id all)
       then sbind (sresult (encode_bincode (wr_page_token (cl_wire cl)) (token\<lparr>pt_after_aggregate_ids := after\<rparr>))) (\<lambda>next_token.
              sreturn (states, next_token))
       else sreturn (states, []))) w2 ?P"
    proof (rule yields_bind [where P = "\<lambda>w' v. w' = w2 \<and> take_items ?after (take ?n (sort_key is_aggregate_id all)) = Returns v"])
      fix w3 v
      assume v: "w3 = w2 \<and> take_items ?after (take ?n (sort_key is_aggregate_id all)) = Returns v"
      obtain after' states where v': "v = (after', states)" by fastforce
      define items where "items = take ?n (sort_key is_aggregate_id (concat yss))"
      have taken: "take_items ?after items = Returns (after', states)" using v by (simp add: v' items_def all)
      note step = page_taken_step [OF pages [unfolded page_size] small items_def taken]
      have ids: "map si_aggregate_id states = map is_aggregate_id items" "length after' = length ?after"
        using take_items_returns [OF taken] by blast+
      have some: "states \<noteq> []" if "?n < length all"
        using that page_size(1) [of requested] arg_cong [OF ids(1), of length] by (auto simp: items_def all unat_eq_zero)
      from d obtain T where T: "observed h sa control T w2" "fmlookup (cat_aggregate_types (spec_catalog T)) t = Some d" "def_status d = Active"
        using observed_mono [OF _ progress_advances(1) [OF adv1]] by blast
      have answer: "page_answer cl h sa ap control t bs w w2 states bs'"
        if "bs' = [] \<longleftrightarrow> length (concat yss) \<le> ?n"
          "bs' = [] \<or> encode_bincode (wr_page_token (cl_wire cl)) (token\<lparr>pt_after_aggregate_ids := after'\<rparr>) = Inr bs'" for bs'
        unfolding page_answer_def using T token ids step that some unfolding all by (intro exI conjI) auto
      have "bs' \<noteq> []" if "encode_bincode (wr_page_token (cl_wire cl)) x = Inr bs'" for x bs'
        using that nonempty [of x] by (auto simp: encode_bincode_def map_err_def split: sum.splits)
      with answer adv t v show "yields (case v of (after, states) \<Rightarrow>
         if ?n < length (sort_key is_aggregate_id all)
         then sbind (sresult (encode_bincode (wr_page_token (cl_wire cl)) (token\<lparr>pt_after_aggregate_ids := after\<rparr>))) (\<lambda>next_token.
              sreturn (states, next_token))
         else sreturn (states, [])) w3 ?P"
        by (auto simp: v' all yields_simps intro!: yields_result)
    qed (simp add: yields_def)
  qed
qed

lemma paging_advances: "paging cl h sa ap ty bs w pages w' \<Longrightarrow> progress h sa ap w w'"
proof (induction rule: paging.induct)
  case (last_page n r bs w w' states)
  then show ?case using keeps_page by (metis fst_conv keeps_def)
next
  case (next_page n r bs w w1 states bs' w2 pages w')
  moreover have "progress h sa ap w w1" using next_page(1) keeps_page by (metis fst_conv keeps_def)
  ultimately show ?case by (blast intro: both.passes_trans)
qed

lemma pages_joined:
  assumes step: "page_step h sa ap t shards w w1 after after' items False" and rest: "pages_listed sa ap t shards after' w2 w' rest"
    and adv: "progress h sa ap w1 w2" "progress h sa ap w2 w'" "progress h sa ap w w1"
  shows "pages_listed sa ap t shards after w w' (items @ rest)"
  unfolding pages_listed_def
proof (intro conjI allI impI)
  show "\<forall>i \<in> set (items @ rest). \<exists>p s. fmlookup shards p = Some s \<and> is_partition_id i = ucast p"
    using step rest by (auto simp: page_step_def pages_listed_def)
  fix p :: u16 and s
  let ?c = "after ! unat p" and ?c' = "after' ! unat p"
  assume s: "fmlookup shards p = Some s"
  from step s obtain T where T: "later h (ap w s) T" "later h T (sa w1 s)" "sorted_wrt (<) (ids_of items (ucast p))" "?c \<le> ?c'"
    "set (ids_of items (ucast p)) \<subseteq> {a \<in> state_ids T t p. ?c < a \<and> a \<le> ?c'}"
    "\<forall>a \<in> state_ids T t p. ?c < a \<and> a \<le> ?c' \<longrightarrow> a \<in> set (ids_of items (ucast p))" unfolding page_step_def by blast
  from rest s have R: "sorted_wrt (<) (ids_of rest (ucast p))" "set (ids_of rest (ucast p)) \<subseteq> {a \<in> state_ids (sa w' s) t p. ?c' < a}"
    "{a \<in> state_ids (ap w2 s) t p. ?c' < a} \<subseteq> set (ids_of rest (ucast p))" by (auto simp: pages_listed_def)
  have "a < b" if "a \<in> set (ids_of items (ucast p))" "b \<in> set (ids_of rest (ucast p))" for a b
    using that T(5) R(2) by (metis (no_types, lifting) mem_Collect_eq order.strict_trans1 subsetD)
  with T(3) R(1) show "sorted_wrt (<) (ids_of (items @ rest) (ucast p))" unfolding filter_append map_append sorted_wrt_append by blast
  have later: "later h (ap w s) (ap w2 s)" "later h (sa w1 s) (sa w' s)"
    using adv by (blast intro: later_trans progress_later)+
  have grow: "state_ids (ap w s) t p \<subseteq> state_ids T t p" "state_ids (ap w s) t p \<subseteq> state_ids (ap w2 s) t p"
    "state_ids T t p \<subseteq> state_ids (sa w' s) t p"
    by (rule state_ids_later(1) [OF T(1)], rule state_ids_later(1) [OF later(1)],
      rule state_ids_later(2) [OF later_trans [OF T(2) later(2)] T(1)])
  have above: "?c < a" if "?c' < a" for a using T(4) that by (rule order.strict_trans1)
  show "set (ids_of (items @ rest) (ucast p)) \<subseteq> {a \<in> state_ids (sa w' s) t p. ?c < a}"
    using above T(5) R(2) grow(3) unfolding filter_append map_append set_append by blast
  show "{a \<in> state_ids (ap w s) t p. ?c < a} \<subseteq> set (ids_of (items @ rest) (ucast p))"
  proof
    fix a
    assume "a \<in> {a \<in> state_ids (ap w s) t p. ?c < a}"
    with grow have a: "a \<in> state_ids T t p" "a \<in> state_ids (ap w2 s) t p" "?c < a" by auto
    show "a \<in> set (ids_of (items @ rest) (ucast p))" unfolding filter_append map_append set_append
      using T(6) R(3) a not_le [of a ?c'] by blast
  qed
qed

lemma paging_lists:
  assumes "paging cl h sa ap ty bs w pages w'" and t: "proto_aggregate_type ty = Inr t"
    and nonempty: "\<And>v. bc_encode (wr_page_token (cl_wire cl)) v \<noteq> Inr []"
    and settled: "\<forall>T d. observed h sa control T w' \<and> fmlookup (cat_aggregate_types (spec_catalog T)) t = Some d
      \<longrightarrow> fmmap pl_shard_id (def_placements d) = shards \<and> def_partition_count d = count"
    and "decode_state_page_token (wr_page_token (cl_wire cl)) bs t count = Inr token"
  shows "progress h sa ap w w' \<and> (\<forall>page \<in> set (butlast pages). page \<noteq> []) \<and> (\<exists>items. pages_listed sa ap t shards (pt_after_aggregate_ids token) w w' items
    \<and> map si_aggregate_id (concat pages) = map is_aggregate_id items)"
  using assms(1,4,5)
proof (induction arbitrary: token rule: paging.induct)
  case (last_page n r bs w w' states)
  from yieldsD [OF page_yields [OF nonempty] last_page(1)] t
  have A: "progress h sa ap w w'" "page_answer cl h sa ap control t bs w w' states []" by auto
  from A(2) obtain T d token' items after' where P: "observed h sa control T w'" "fmlookup (cat_aggregate_types (spec_catalog T)) t = Some d"
    "def_status d = Active" "decode_state_page_token (wr_page_token (cl_wire cl)) bs t (def_partition_count d) = Inr token'"
    "map si_aggregate_id states = map is_aggregate_id items"
    "page_step h sa ap t (fmmap pl_shard_id (def_placements d)) w w' (pt_after_aggregate_ids token') after' items True"
    by (auto simp: page_answer_def)
  have "fmmap pl_shard_id (def_placements d) = shards" "token' = token" using last_page(2) P(1,2,4) last_page(3) by auto
  with P(6) have "pages_listed sa ap t shards (pt_after_aggregate_ids token) w w' items" by (auto intro: page_step_listed )
  with A(1) P(5) show ?case by auto
next
  case (next_page n r bs w w1 states bs' w2 pages w')
  from yieldsD [OF page_yields [OF nonempty] next_page(1)] t
  have A: "progress h sa ap w w1" "page_answer cl h sa ap control t bs w w1 states bs'" by auto
  from A(2) next_page(2) obtain T d token' items after' where P: "observed h sa control T w1"
    "fmlookup (cat_aggregate_types (spec_catalog T)) t = Some d" "def_status d = Active"
    "decode_state_page_token (wr_page_token (cl_wire cl)) bs t (def_partition_count d) = Inr token'"
    "map si_aggregate_id states = map is_aggregate_id items" "length after' = length (pt_after_aggregate_ids token')"
    "page_step h sa ap t (fmmap pl_shard_id (def_placements d)) w w1 (pt_after_aggregate_ids token') after' items False"
    "encode_bincode (wr_page_token (cl_wire cl)) (token'\<lparr>pt_after_aggregate_ids := after'\<rparr>) = Inr bs'" "states \<noteq> []"
    by (auto simp: page_answer_def)
  have adv: "progress h sa ap w2 w'" by (rule paging_advances [OF next_page(4)])
  have "observed h sa control T w'" using P(1) next_page(3) adv by (blast intro: observed_mono progress_advances(1))
  with next_page(6) P(2-4) next_page(7) have eq: "fmmap pl_shard_id (def_placements d) = shards" "token' = token" by auto
  have "bincode_laws (wr_page_token (cl_wire cl))" using wire by (simp add: wire_laws_def)
  from decode_next_token [OF this next_page(7) P(6,8) [unfolded eq] next_page(2)] next_page(5,6) obtain rest
    where R: "\<forall>page \<in> set (butlast pages). page \<noteq> []" "pages_listed sa ap t shards after' w2 w' rest"
      "map si_aggregate_id (concat pages) = map is_aggregate_id rest" by force
  have "pages_listed sa ap t shards (pt_after_aggregate_ids token) w w' (items @ rest)"
    by (rule pages_joined [OF P(7) [unfolded eq] R(2) next_page(3) adv A(1)])
  moreover have "progress h sa ap w w'" using A(1) next_page(3) adv by (blast intro: both.passes_trans)
  ultimately show ?case using R P(5,9) by (intro conjI exI [of _ "items @ rest"]) auto
qed

lemma unmoved:
  assumes "observed h sa control T w" "fmlookup (cat_aggregate_types (spec_catalog T)) t = Some d"
    and e: "fmlookup (cat_aggregate_types (spec_catalog (sa w control))) t = Some e"
    and gen: "\<forall>p pl. fmlookup (def_placements e) p = Some pl \<longrightarrow> pl_generation pl = 1"
  shows "fmmap pl_shard_id (def_placements d) = fmmap pl_shard_id (def_placements e)" "def_partition_count d = EVENT_PARTITION_COUNT"
proof -
  have T: "wf_shard T" "later h T (sa w control)" using assms(1) by (auto simp: observed_def)
  have wf: "wf_definition t d" "wf_definition t e"
    using T(1) shards_wf assms(2) e by (auto simp: wf_shard_def wf_catalog_def)
  then show "def_partition_count d = EVENT_PARTITION_COUNT" by (simp add: wf_definition_def)
  have below: "placements_below (def_placements d) (def_placements e)"
    using shard_growsD(9) [OF later_grows [OF T]] assms(2) e
    unfolding catalog_below_def definition_below_def by (metis option.inject)
  show "fmmap pl_shard_id (def_placements d) = fmmap pl_shard_id (def_placements e)"
  proof (rule fmap_ext)
    fix p
    show "fmlookup (fmmap pl_shard_id (def_placements d)) p = fmlookup (fmmap pl_shard_id (def_placements e)) p"
    proof (cases "fmlookup (def_placements d) p")
      case None
      moreover have "fmdom (def_placements d) = fmdom (def_placements e)" using wf by (simp add: wf_definition_def)
      ultimately have "fmlookup (def_placements e) p = None" by (metis fmdom_notD fmdom_notI)
      with None show ?thesis by simp
    next
      case (Some pl)
      with below obtain ql where ql: "fmlookup (def_placements e) p = Some ql" "placement_below pl ql" by (auto simp: placements_below_def)
      have "wf_placement pl" using wf(1) Some by (simp add: wf_definition_def)
      with gen ql have "pl_generation pl = pl_generation ql" by (metis placement_below_def wf_placement_def order.antisym)
      with ql Some show ?thesis by (simp add: placement_below_def)
    qed
  qed
qed

lemma paging_lists_all:
  assumes run: "paging cl h sa ap ty [] w pages w'" and t: "proto_aggregate_type ty = Inr t"
    and tokens: "\<And>v. bc_encode (wr_page_token (cl_wire cl)) v \<noteq> Inr []"
    and e: "fmlookup (cat_aggregate_types (spec_catalog (sa w' control))) t = Some e"
    and gen: "\<forall>p pl. fmlookup (def_placements e) p = Some pl \<longrightarrow> pl_generation pl = 1"
  shows "(\<forall>page \<in> set (butlast pages). page \<noteq> []) \<and> (\<exists>items. map si_aggregate_id (concat pages) = map is_aggregate_id items
    \<and> (\<forall>i \<in> set items. \<exists>p pl. fmlookup (def_placements e) p = Some pl \<and> is_partition_id i = ucast p)
    \<and> (\<forall>p pl. fmlookup (def_placements e) p = Some pl \<longrightarrow> distinct (ids_of items (ucast p))
         \<and> set (ids_of items (ucast p)) \<subseteq> state_ids (sa w' (pl_shard_id pl)) t p
         \<and> state_ids (ap w (pl_shard_id pl)) t p \<subseteq> set (ids_of items (ucast p))))"
proof -
  let ?after = "replicate (unat EVENT_PARTITION_COUNT) []" and ?shards = "fmmap pl_shard_id (def_placements e)"
  have token: "decode_state_page_token (wr_page_token (cl_wire cl)) [] t EVENT_PARTITION_COUNT
      = Inr \<lparr>pt_version = STATE_PAGE_TOKEN_VERSION, pt_aggregate_type = t, pt_after_aggregate_ids = ?after\<rparr>"
    by (simp add: decode_state_page_token_def)
  have settled: "\<forall>T d. observed h sa control T w' \<and> fmlookup (cat_aggregate_types (spec_catalog T)) t = Some d
      \<longrightarrow> fmmap pl_shard_id (def_placements d) = ?shards \<and> def_partition_count d = EVENT_PARTITION_COUNT"
    using unmoved [OF _ _ e gen] by blast
  from paging_lists [OF run t tokens settled token] obtain items where I: "\<forall>page \<in> set (butlast pages). page \<noteq> []"
    "pages_listed sa ap t ?shards ?after w w' items" "map si_aggregate_id (concat pages) = map is_aggregate_id items" by auto
  have wf: "wf_definition t e" using shards_wf e by (auto simp: wf_shard_def wf_catalog_def)
  have "?after ! unat p < a" if "fmlookup (def_placements e) p = Some pl" "a \<in> state_ids T t p" for p pl a and T :: "'m shard"
  proof -
    have "p |\<in>| fset_of_list (partitions EVENT_PARTITION_COUNT)" using that(1) wf by (metis fmdomI wf_definition_def)
    then have "unat p < unat EVENT_PARTITION_COUNT" by (auto simp: fset_of_list_elem partitions_def EVENT_PARTITION_COUNT_def unsigned_of_nat take_bit_nat_eq_self)
    with that(2) show ?thesis by (auto simp: state_ids_def listed_def valid_identifier_def)
  qed
  with I(2) have "distinct (ids_of items (ucast p)) \<and> set (ids_of items (ucast p)) \<subseteq> state_ids (sa w' (pl_shard_id pl)) t p
      \<and> state_ids (ap w (pl_shard_id pl)) t p \<subseteq> set (ids_of items (ucast p))" if "fmlookup (def_placements e) p = Some pl" for p pl
    using that unfolding pages_listed_def
  proof (elim conjE, intro conjI)
    assume above: "\<And>p pl a T. fmlookup (def_placements e) p = Some pl \<Longrightarrow> a \<in> state_ids (T :: 'm shard) t p \<Longrightarrow> ?after ! unat p < a"
      and L: "\<forall>p s. fmlookup ?shards p = Some s \<longrightarrow> sorted_wrt (<) (ids_of items (ucast p))
          \<and> set (ids_of items (ucast p)) \<subseteq> {a \<in> state_ids (sa w' s) t p. ?after ! unat p < a}
          \<and> {a \<in> state_ids (ap w s) t p. ?after ! unat p < a} \<subseteq> set (ids_of items (ucast p))"
    from L [rule_format, of p "pl_shard_id pl"] that have P: "sorted_wrt (<) (ids_of items (ucast p))"
      "set (ids_of items (ucast p)) \<subseteq> {a \<in> state_ids (sa w' (pl_shard_id pl)) t p. ?after ! unat p < a}"
      "{a \<in> state_ids (ap w (pl_shard_id pl)) t p. ?after ! unat p < a} \<subseteq> set (ids_of items (ucast p))" by simp_all
    show "distinct (ids_of items (ucast p))" using P(1) by (simp only: strict_sorted_iff)
    show "set (ids_of items (ucast p)) \<subseteq> state_ids (sa w' (pl_shard_id pl)) t p" using P(2) by blast
    show "state_ids (ap w (pl_shard_id pl)) t p \<subseteq> set (ids_of items (ucast p))" using P(3) above [OF that] by blast
  qed
  with I show ?thesis by (intro conjI exI [of _ items]) (auto simp: pages_listed_def)
qed

end

text \<open>C15: paging through the states of a type repeats nothing and misses nothing that the replicas have. A client follows
  the page tokens from the empty token until it gets an empty one, through any nodes and with any page sizes, while
  other requests are committed. A node answers from its own store if it believes to lead, so a page may be stale:
  \<open>ap w s\<close> is what every node that answers for shard \<open>s\<close> from \<open>w\<close> on has applied by then. If at the end every
  partition of the type is still where it was created (generation 1) and no id has a state in two partitions, then
  every id whose state was in \<open>ap\<close> when the client started is listed, no id is listed twice, every listed id has a
  state at the end, and only the last page can be empty.\<close>

theorem paging_complete:
  assumes cluster: "lagging cl h view sa control ap"
    and run: "paging cl h sa ap ty [] w pages w'" "proto_aggregate_type ty = Inr t"
    and tokens: "\<And>v. bc_encode (wr_page_token (cl_wire cl)) v \<noteq> Inr []"
    and e: "fmlookup (cat_aggregate_types (spec_catalog (sa w' control))) t = Some e"
    and gen: "\<forall>p pl. fmlookup (def_placements e) p = Some pl \<longrightarrow> pl_generation pl = 1"
  defines "with_state \<equiv> \<lambda>shard p. state_ids (shard (pl_shard_id (the (fmlookup (def_placements e) p)))) t p"
    and "ids \<equiv> map si_aggregate_id (concat pages)" and "ps \<equiv> fset (fmdom (def_placements e))"
  assumes routed: "\<forall>p \<in> ps. \<forall>q \<in> ps. p \<noteq> q \<longrightarrow> with_state (sa w') p \<inter> with_state (sa w') q = {}"
  shows "distinct ids \<and> (\<Union>p \<in> ps. with_state (ap w) p) \<subseteq> set ids \<and> set ids \<subseteq> (\<Union>p \<in> ps. with_state (sa w') p)
    \<and> (\<forall>page \<in> set (butlast pages). page \<noteq> [])"
proof -
  from lagging.paging_lists_all [OF cluster run tokens e gen] obtain items where
    pages: "\<forall>page \<in> set (butlast pages). page \<noteq> []" and ids: "ids = map is_aggregate_id items"
    and tag: "\<And>i. i \<in> set items \<Longrightarrow> \<exists>p pl. fmlookup (def_placements e) p = Some pl \<and> is_partition_id i = ucast p"
    and P: "\<And>p pl. fmlookup (def_placements e) p = Some pl \<Longrightarrow> distinct (ids_of items (ucast p))
         \<and> set (ids_of items (ucast p)) \<subseteq> state_ids (sa w' (pl_shard_id pl)) t p
         \<and> state_ids (ap w (pl_shard_id pl)) t p \<subseteq> set (ids_of items (ucast p))" unfolding ids_def by blast
  have here: "\<exists>p \<in> ps. is_partition_id i = ucast p \<and> is_aggregate_id i \<in> with_state (sa w') p" if i: "i \<in> set items" for i
  proof -
    from tag [OF i] obtain p pl where p: "fmlookup (def_placements e) p = Some pl" "is_partition_id i = ucast p" by blast
    then have "is_aggregate_id i \<in> set (ids_of items (ucast p))" using i by simp
    with P [OF p(1)] p show ?thesis by (intro bexI [of _ p]) (auto simp: with_state_def ps_def intro: fmdomI)
  qed
  have "distinct (map is_aggregate_id items)"
  proof (rule distinct_by_partition)
    fix q
    show "distinct (ids_of items q)"
    proof (cases "filter (\<lambda>i. is_partition_id i = q) items")
      case (Cons i rest)
      then have "i \<in> set items" "is_partition_id i = q" by (metis (mono_tags) filter_eq_Cons_iff in_set_conv_decomp)+
      with tag P show ?thesis by metis
    qed simp
  next
    fix i j
    assume "i \<in> set items" "j \<in> set items" "is_aggregate_id i = is_aggregate_id j"
    with here [of i] here [of j] obtain p q where "p \<in> ps" "q \<in> ps" "is_partition_id i = ucast p" "is_partition_id j = ucast q"
      "is_aggregate_id i \<in> with_state (sa w') p \<inter> with_state (sa w') q" by auto
    with routed show "is_partition_id i = is_partition_id j" by (metis empty_iff)
  qed
  moreover have "(\<Union>p \<in> ps. with_state (ap w) p) \<subseteq> set ids"
  proof
    fix a
    assume "a \<in> (\<Union>p \<in> ps. with_state (ap w) p)"
    then obtain p pl where p: "fmlookup (def_placements e) p = Some pl" "a \<in> state_ids (ap w (pl_shard_id pl)) t p"
      by (auto simp: ps_def with_state_def fmlookup_dom_iff)
    with P [OF p(1)] show "a \<in> set ids" by (auto simp: ids)
  qed
  moreover have "set ids \<subseteq> (\<Union>p \<in> ps. with_state (sa w') p)" using here by (auto simp: ids)
  ultimately show ?thesis using pages by (simp add: ids)
qed

section \<open>A run\<close>

definition sample_event :: NewAggregateEvent where
  "sample_event = \<lparr>nev_event_id = 3, nev_event_type = ''t'', nev_data = [1], nev_metadata = []\<rparr>"

definition sample_stated :: sample_world where
  "sample_stated = ((fst sample_ready)(1 := fst sample_ready 1 @ [RqAggregateAppend sample_type 0 1 ''x'' Any sample_event (Hlc 0 0)]
     @ [RqPutAggregateState sample_type 0 1 ''x'' Absent [5] (Hlc 0 0)]), 0)"

lemma sample_valid: "valid_type_id sample_type" "valid_identifier ''x''"
proof -
  have "\<not> is_err (AggregateTypeId_validate sample_type)" by code_simp
  then show "valid_type_id sample_type" using AggregateTypeId_validate_cases [of sample_type] by fastforce
  have "validate_aggregate_identifier ''aggregate_id'' ''x'' = Inr ()" by code_simp
  then show "valid_identifier ''x''" by simp
qed

lemma sample_state_ids: "state_ids (log_shard sample_stated 1) sample_type p = (if p = 0 then {''x''} else {})"
proof -
  let ?ap = "RqAggregateAppend sample_type 0 1 ''x'' Any sample_event (Hlc 0 0)"
  let ?w = "((fst sample_ready)(1 := fst sample_ready 1 @ [?ap]), 0)" and ?T = "log_shard sample_ready 1"
  let ?U = "fst (spec_append (\<lambda>_. 7) ?T sample_type 0 1 ''x'' Any sample_event (Hlc 0 0))"
  have U: "log_shard ?w 1 = ?U" using log_shard_write(1) [of sample_ready 1 ?ap 0] by simp
  have "sample_stated = ((fst ?w)(1 := fst ?w 1 @ [RqPutAggregateState sample_type 0 1 ''x'' Absent [5] (Hlc 0 0)]), 0)"
    by (simp add: sample_stated_def)
  then have S: "log_shard sample_stated 1 = fst (spec_put_state ?U sample_type 0 1 ''x'' Absent [5] (Hlc 0 0))"
    using log_shard_write(1) [of ?w 1 "RqPutAggregateState sample_type 0 1 ''x'' Absent [5] (Hlc 0 0)" 0] by (simp add: U)
  have T: "spec_state ?T t q a = None" for t q a
    by (simp add: log_shard_def log_entries_def sample_ready_def log_entry_def spec_install_fence_def Let_def spec_state_def at_def
      empty_shard_def sample_valid)
  have "?U = spec_append_event ?T (stored_event sample_type 0 ''x'' 0 0 sample_event (Hlc 0 0))
      (aggregate_append_fingerprint (\<lambda>_. 7) sample_type ''x'' Any sample_event) 1"
    by (simp add: spec_append_def sample_valid sample_event_def sample_fence next_version_def checked_add_def)
  note obs = spec_append_event_obs [OF refl this]
  have "spec_state (fst (spec_put_state ?U sample_type 0 1 ''x'' Absent [5] (Hlc 0 0))) sample_type p a
      = (if p = 0 \<and> a = ''x'' then Some \<lparr>st_revision = 0, st_data = [5]\<rparr> else None)" for a
    by (simp add: spec_put_state_def sample_valid obs sample_fence T next_version_def state_matches_def)
  then show ?thesis unfolding S state_ids_def listed_def using sample_valid(2) by auto
qed

lemma sample_partition_listing:
  "\<exists>es. list_aggregate_partition_states map_kv sample_codec (log_store sample_stated 1) sample_type p None limit = Inr es
     \<and> length es \<le> (if p = 0 then 1 else 0)"
proof -
  let ?st = "log_store sample_stated 1"
  obtain x where x: "rep sample_codec (es_shard_id ?st) (es_tree ?st) ((log_shard sample_stated 1)(AppliedStateKey := x))"
    using log_store_rep by blast
  note P = states_listing_complete [OF map_kv_laws sample_codec_laws x sample_valid(1), of p None limit]
  from P map_kv_reliable obtain es where es: "list_aggregate_partition_states map_kv sample_codec ?st sample_type p None limit = Inr es" by blast
  have sub: "set (map fst es) \<subseteq> state_ids (log_shard sample_stated 1) sample_type p"
  proof
    fix a
    assume "a \<in> set (map fst es)"
    then obtain d where "(a, d) \<in> set es" by auto
    with P es have "listed ((log_shard sample_stated 1)(AppliedStateKey := x)) sample_type p None a" by blast
    then show "a \<in> state_ids (log_shard sample_stated 1) sample_type p" by (simp add: state_ids_def listed_def spec_state_def at_def)
  qed
  from P es have "sorted_wrt (<) (map fst es)" by blast
  then have "distinct (map fst es)" unfolding strict_sorted_iff by blast
  with sub [unfolded sample_state_ids]
  have "length (map fst es) \<le> card (if p = 0 then {''x''} else {})"
    using card_mono [of "if p = 0 then {''x''} else {}" "set (map fst es)"] distinct_card [of "map fst es"] by simp
  with es show ?thesis by (cases "p = 0") simp_all
qed

lemma sample_local_states:
  assumes "distinct (map sc_partition_id cursors)" "\<forall>c \<in> set cursors. sc_partition_id c < 2 ^ 16 \<and> sc_after_aggregate_id c = []"
  shows "\<exists>items. list_local_partition_states (sample_cluster [1]) 1 1 (Some (''shop'', ''order'')) cursors limit sample_stated
      = (sample_stated, Returns items) \<and> length items \<le> 1 \<and> (\<forall>i \<in> set items. is_partition_id i = 0)"
proof -
  let ?f = "\<lambda>cursor states. if sc_partition_id cursor \<ge> 2 ^ 16 then sfail (status InvalidArgument ''partition_id is out of range'')
       else sbind (read_store (sample_cluster [1]) 1 1 (\<lambda>kv cd st. list_aggregate_partition_states kv cd st sample_type (ucast (sc_partition_id cursor))
              (if sc_after_aggregate_id cursor = [] then None else Some (sc_after_aggregate_id cursor)) (ucast limit))) (\<lambda>found.
            sreturn (states @ map (\<lambda>(aggregate_id, doc). \<lparr>is_partition_id = ucast (ucast (sc_partition_id cursor) :: u16), is_aggregate_id = aggregate_id,
              is_revision = doc_revision doc, is_modified_unix_millis = wall (doc_modified_hlc doc)\<rparr>) found))"
  have t: "proto_aggregate_type (Some (''shop'', ''order'')) = Inr sample_type" by code_simp
  have "\<exists>items. sfor cs acc ?f sample_stated = (sample_stated, Returns (acc @ items))
      \<and> length items \<le> length (filter (\<lambda>q. q = 0) (map sc_partition_id cs)) \<and> (\<forall>i \<in> set items. is_partition_id i = 0)"
    if "\<forall>c \<in> set cs. sc_partition_id c < 2 ^ 16 \<and> sc_after_aggregate_id c = []" for cs acc
    using that
  proof (induction cs arbitrary: acc)
    case (Cons c cs)
    let ?p = "ucast (sc_partition_id c) :: u16"
    from sample_partition_listing [of ?p "ucast limit"] obtain es where es: "list_aggregate_partition_states map_kv sample_codec
      (log_store sample_stated 1) sample_type ?p None (ucast limit) = Inr es" "length es \<le> (if ?p = 0 then 1 else 0)" by blast
    have p: "ucast ?p = sc_partition_id c" using Cons.prems by (simp add: widen_narrow)
    then have zero: "?p = 0 \<longleftrightarrow> sc_partition_id c = 0" by (metis ucast_0)
    let ?new = "map (\<lambda>(aggregate_id, doc). \<lparr>is_partition_id = ucast ?p, is_aggregate_id = aggregate_id,
              is_revision = doc_revision doc, is_modified_unix_millis = wall (doc_modified_hlc doc)\<rparr>) es"
    have small: "\<not> 2 ^ 16 \<le> sc_partition_id c" using Cons.prems by (simp add: not_le)
    have "?f c acc sample_stated = (sample_stated, Returns (acc @ ?new))"
      using Cons.prems small by (simp add: sbind_def read_store_def sget_def internal_error_def map_err_def sresult_def sreturn_def es(1))
    moreover from Cons.IH [of "acc @ ?new"] Cons.prems obtain items where "sfor cs (acc @ ?new) ?f sample_stated
        = (sample_stated, Returns ((acc @ ?new) @ items))" "length items \<le> length (filter (\<lambda>q. q = 0) (map sc_partition_id cs))"
      "\<forall>i \<in> set items. is_partition_id i = 0" by auto
    ultimately show ?case
      using es(2) p zero by (intro exI [of _ "?new @ items"]) (auto simp: sample_step split: if_splits)
  qed (simp add: sreturn_def)
  note loop = this
  have le: "length (filter (\<lambda>q. q = 0) (map sc_partition_id cursors)) \<le> 1"
  proof -
    have "length (filter (\<lambda>q. q = 0) (map sc_partition_id cursors)) = card (set (filter (\<lambda>q. q = 0) (map sc_partition_id cursors)))"
      by (rule distinct_card [OF distinct_filter [OF assms(1)], symmetric])
    also have "\<dots> \<le> card {0 :: u32}" by (rule card_mono) auto
    finally show ?thesis by simp
  qed
  from loop [OF assms(2), of "[]"] obtain items where "sfor cursors [] ?f sample_stated = (sample_stated, Returns items)"
    "length items \<le> 1" "\<forall>i \<in> set items. is_partition_id i = 0" using order_trans [OF _ le] by auto
  then show ?thesis unfolding list_local_partition_states_def t sample_combinators Let_def by blast
qed

lemma single_list: "distinct xs \<Longrightarrow> set xs = {x} \<Longrightarrow> xs = [x]"
  by (cases xs) (auto simp: subset_singleton_iff)

lemma image_single: "x \<in> A \<Longrightarrow> (\<And>y. y \<in> A \<Longrightarrow> f y = c) \<Longrightarrow> f ` A = {c}"
  by auto

lemma take_items_first:
  "\<forall>i \<in> set items. is_partition_id i = 0 \<Longrightarrow> after \<noteq> [] \<Longrightarrow> \<exists>r. take_items after items = Returns r"
proof (induction items arbitrary: after)
  case (Cons i items)
  from Cons.IH [of "after[0 := is_aggregate_id i]"] Cons.prems obtain r where "take_items (after[0 := is_aggregate_id i]) items = Returns r" by auto
  then show ?case using Cons.prems by (cases r) auto
qed simp

lemma sample_page: "\<exists>states. list_aggregate_states (sample_cluster [1]) 1 (Some (''shop'', ''order'')) 0 [] sample_stated
    = (sample_stated, Returns (states, []))"
proof -
  let ?d = sample_definition and ?after = "replicate (unat EVENT_PARTITION_COUNT) [] :: string list"
  let ?f = "\<lambda>p :: u16. \<lparr>sc_partition_id = ucast p, sc_after_aggregate_id = ?after ! unat p\<rparr> :: AggregateStatePartitionCursor"
  let ?kvs = "map (\<lambda>(p, pl). (pl_shard_id pl, ?f p)) (sorted_list_of_fmap (def_placements ?d))"
  have t: "proto_aggregate_type (Some (''shop'', ''order'')) = Inr sample_type" by code_simp
  have c: "log_shard sample_stated 0 = log_shard sample_ready 0" by (rule log_shard_cong) (simp add: sample_stated_def)
  have "def_status ?d = Active" by (simp add: sample_definition_def)
  then have active: "require_active_aggregate_type (sample_cluster [1]) 1 sample_type sample_stated = (sample_stated, Returns ?d)"
    by (simp add: require_active_aggregate_type_def sbind_def sample_fetch_catalog c sample_ready_catalog require_def ok_or_def sresult_def sreturn_def)
  have pl: "pl_shard_id pl = 1 \<and> unat p < unat EVENT_PARTITION_COUNT" if "fmlookup (def_placements ?d) p = Some pl" for p pl
    using that by (auto simp: sample_definition_def fmlookup_sample_placements EVENT_PARTITION_COUNT_def split: if_splits)
  obtain ks where ks: "distinct ks" "set ks = fst ` set ?kvs" "group_pairs ?kvs = map (\<lambda>k. (k, map snd (filter (\<lambda>kv. fst kv = k) ?kvs))) ks"
    by (rule group_pairs_eq)
  have one: "fst kv = 1 \<and> sc_partition_id (snd kv) < 2 ^ 16 \<and> sc_after_aggregate_id (snd kv) = []" if "kv \<in> set ?kvs" for kv
    using that pl widened_small(1) [simplified] by auto
  obtain pl0 where "fmlookup (def_placements ?d) 0 = Some pl0" by (simp add: sample_definition_def fmlookup_sample_placements)
  then have "(0, pl0) \<in> set (sorted_list_of_fmap (def_placements ?d))" by simp
  from imageI [OF this, of "\<lambda>(p, pl). (pl_shard_id pl, ?f p)"] have "(pl_shard_id pl0, ?f 0) \<in> set ?kvs"
    unfolding set_map by (simp only: prod.case)
  with one have "set ks = {1}" unfolding ks(2) by (intro image_single) blast+
  then have "ks = [1]" by (rule single_list [OF ks(1)])
  moreover have "filter (\<lambda>kv. fst kv = 1) ?kvs = ?kvs" using one by (simp only: filter_id_conv ball_simps) blast
  ultimately have grouped: "group_by_shard ?f (def_placements ?d) = [(1, map snd ?kvs)]" unfolding group_by_shard_def ks(3) by simp
  have "inj (ucast :: u16 \<Rightarrow> u32)" by (rule injI) (metis narrow_widen)
  then have "distinct (map (ucast :: u16 \<Rightarrow> u32) (map fst (sorted_list_of_fmap (def_placements ?d))))"
    by (subst distinct_map) (simp add: sorted_list_of_fset.rep_eq inj_on_subset [OF _ subset_UNIV])
  then have "distinct (map sc_partition_id (map snd ?kvs))" by (simp add: comp_def case_prod_unfold del: map_fst_sorted_list_of_fmap)
  moreover have "\<forall>c \<in> set (map snd ?kvs). sc_partition_id c < 2 ^ 16 \<and> sc_after_aggregate_id c = []" using one by auto
  ultimately obtain items where items: "list_local_partition_states (sample_cluster [1]) 1 1 (Some (''shop'', ''order'')) (map snd ?kvs)
      (saturating_add (effective_page_size 0) 1) sample_stated = (sample_stated, Returns items)" "length items \<le> 1" "\<forall>i \<in> set items. is_partition_id i = 0"
    using sample_local_states by blast
  have n: "unat (effective_page_size 0) = 100" by (simp add: effective_page_size_def DEFAULT_STATE_PAGE_SIZE_def)
  have "?after \<noteq> []" by (simp add: EVENT_PARTITION_COUNT_def)
  with items(3) obtain r where r: "take_items ?after (take 100 (sort_key is_aggregate_id items)) = Returns r"
    using take_items_first [of "take 100 (sort_key is_aggregate_id items)" ?after] by (metis in_set_takeD set_sort)
  have ty: "aggregate_type_to_proto sample_type = (''shop'', ''order'')" by code_simp
  have "list_all (\<lambda>(p, _). unat p < unat EVENT_PARTITION_COUNT) (sorted_list_of_fmap (def_placements ?d))" using pl by (auto simp: list_all_iff)
  moreover have "def_partition_count ?d = EVENT_PARTITION_COUNT" by (simp add: sample_definition_def)
  moreover have "list_states_from_shard (sample_cluster [1]) 1 1 sample_type (map snd ?kvs) (saturating_add (effective_page_size 0) 1) sample_stated
      = (sample_stated, Returns items)"
    using items(1) by (simp add: list_states_from_shard_def scatch_def sample_local_leader Let_def ty)
  ultimately show ?thesis
    using items(2) r by (cases r) (simp add: list_aggregate_states_def t sample_combinators Let_def sample_step active decode_state_page_token_def grouped n
        sbind_def sreturn_def)
qed

theorem paging_complete_witness:
  "\<exists>pages. paging (sample_cluster [1]) (\<lambda>_. 7) log_shard log_shard (Some (''shop'', ''order'')) [] sample_stated pages sample_stated
     \<and> map si_aggregate_id (concat pages) = [''x'']"
proof -
  let ?cl = "sample_cluster [1]" and ?ty = "Some (''shop'', ''order'')" and ?w = sample_stated
  obtain states where "list_aggregate_states ?cl 1 ?ty 0 [] ?w = (?w, Returns (states, []))" using sample_page by blast
  then have run: "paging ?cl (\<lambda>_. 7) log_shard log_shard ?ty [] ?w [states] ?w" by (rule last_page)
  have t: "proto_aggregate_type ?ty = Inr sample_type" by code_simp
  have tokens: "bc_encode (wr_page_token (cl_wire ?cl)) v \<noteq> Inr []" for v by (simp add: sample_wire_def counting_def)
  have "log_shard ?w 0 = log_shard sample_ready 0" by (rule log_shard_cong) (simp add: sample_stated_def)
  then have e: "fmlookup (cat_aggregate_types (spec_catalog (log_shard ?w 0))) sample_type = Some sample_definition"
    by (simp add: sample_ready_catalog)
  have gen: "\<forall>p pl. fmlookup (def_placements sample_definition) p = Some pl \<longrightarrow> pl_generation pl = 1"
    by (simp add: sample_definition_def fmlookup_sample_placements)
  have shard: "pl_shard_id (the (fmlookup (def_placements sample_definition) p)) = 1" if "p \<in> fset (fmdom (def_placements sample_definition))" for p
    using that by (auto simp: sample_definition_def fmlookup_sample_placements fmlookup_dom_iff split: if_splits)
  have zero: "0 \<in> fset (fmdom (def_placements sample_definition))"
    by (simp add: sample_definition_def fmlookup_sample_placements fmlookup_dom_iff)
  have "\<forall>p \<in> fset (fmdom (def_placements sample_definition)). \<forall>q \<in> fset (fmdom (def_placements sample_definition)). p \<noteq> q \<longrightarrow>
      state_ids (log_shard ?w (pl_shard_id (the (fmlookup (def_placements sample_definition) p)))) sample_type p
      \<inter> state_ids (log_shard ?w (pl_shard_id (the (fmlookup (def_placements sample_definition) q)))) sample_type q = {}"
    by (simp add: shard sample_state_ids)
  from paging_complete [OF sample.lagging_axioms run t tokens e gen this]
  have ids: "distinct (map si_aggregate_id states)" "''x'' \<in> set (map si_aggregate_id states)" "set (map si_aggregate_id states) \<subseteq> {''x''}"
    using zero by (auto simp: shard sample_state_ids split: if_splits)
  then have "map si_aggregate_id states = [''x'']" by (intro single_list) blast+
  with run show ?thesis by (intro exI [of _ "[states]"]) simp
qed

end
