(* ===== verification/Snapshot_File.thy ===== *)
theory Snapshot_File
  imports Raft_Types
begin

text \<open>
  The snapshot file format of \<open>es-storage/src/snapshot.rs\<close>: a 32 byte header, the JSON encoded
  meta data and a compressed stream of records between a count and an end marker. Readers and writers
  are functions on byte strings; \<open>read_exact\<close> takes bytes off the front. Three things the code calls
  are parameters: the compressors (\<open>zip\<close>), the JSON encoding of the meta data (\<open>mc\<close>) and whether the
  allocator can reserve a number of bytes (\<open>alloc\<close>). The locale \<open>wire\<close> is the contract of a writer
  and its reader; it is interpreted on integers, records and whole streams.
\<close>

section \<open>Data\<close>

definition SNAP_MAGIC :: bytes where "SNAP_MAGIC = [0x45, 0x53, 0x4E, 0x50]"
definition SNAP_VERSION :: u8 where "SNAP_VERSION = 1"
definition END_MARKER :: u64 where "END_MARKER = - 1"
definition HEADER_LEN :: nat where "HEADER_LEN = 32"
definition MAX_META_LEN :: u64 where "MAX_META_LEN = 64 * 1024 * 1024"
definition MAX_RECORD_LEN :: u64 where "MAX_RECORD_LEN = push_bit 30 1"

datatype Compression = Zstd | Lz4 | CNone

datatype io_error =
    UnexpectedEof
  | OsError string
  | BadTag u8
  | MetaEncode
  | MetaLenMismatch u64 u64
  | BadMagic
  | BadVersion u8
  | MetaTooLong u64
  | AllocFailed
  | MetaDecode
  | EarlyEndMarker
  | KeyTooLong u64
  | ValueTooLong u64
  | EndMarkerMissing u64

fun Compression_tag :: "Compression \<Rightarrow> u8" where
  "Compression_tag CNone = 0"
| "Compression_tag Zstd = 1"
| "Compression_tag Lz4 = 2"

definition Compression_from_tag :: "u8 \<Rightarrow> (Compression, io_error) result" where
  "Compression_from_tag tag =
     (if tag = 0 then Inr CNone else if tag = 1 then Inr Zstd else if tag = 2 then Inr Lz4 else Inl (BadTag tag))"

text \<open>
  The compressors: \<open>pack\<close> is everything between \<open>Compression::writer\<close> and \<open>finish\<close>, \<open>unpack\<close> the
  bytes that can be read back before the stream ends or fails. Without compression both are the
  file itself.
\<close>

record zip =
  zip_pack :: "Compression \<Rightarrow> bytes \<Rightarrow> (bytes, io_error) result"
  zip_unpack :: "Compression \<Rightarrow> bytes \<Rightarrow> (bytes, io_error) result"

definition zip_laws :: "zip \<Rightarrow> bool" where
  "zip_laws z \<longleftrightarrow> (\<forall>c x y. zip_pack z c x = Inr y \<longrightarrow> zip_unpack z c y = Inr x)"

fun Compression_writer :: "zip \<Rightarrow> Compression \<Rightarrow> bytes \<Rightarrow> (bytes, io_error) result" where
  "Compression_writer z CNone x = Inr x"
| "Compression_writer z c x = zip_pack z c x"

fun Compression_reader :: "zip \<Rightarrow> Compression \<Rightarrow> bytes \<Rightarrow> (bytes, io_error) result" where
  "Compression_reader z CNone x = Inr x"
| "Compression_reader z c x = zip_unpack z c x"

record SnapshotHeader =
  sh_version :: u8
  sh_compression :: Compression
  sh_shard_id :: u64
  sh_meta_len :: u64
  sh_payload_len :: u64

record 'm SnapshotMeta =
  sn_last_log_id :: "log_id option"
  sn_last_membership :: "'m stored_membership"
  sn_snapshot_id :: string

record 'm meta_codec =
  meta_enc :: "'m SnapshotMeta \<Rightarrow> bytes option"
  meta_dec :: "bytes \<Rightarrow> 'm SnapshotMeta option"

definition meta_laws :: "'m meta_codec \<Rightarrow> bool" where
  "meta_laws mc \<longleftrightarrow> (\<forall>m b. meta_enc mc m = Some b \<longrightarrow> meta_dec mc b = Some m)"

section \<open>Header\<close>

definition read_exact :: "nat \<Rightarrow> bytes \<Rightarrow> (bytes \<times> bytes, io_error) result" where
  "read_exact n bs = (if length bs < n then Inl UnexpectedEof else Inr (take n bs, drop n bs))"

definition usize_len :: "bytes \<Rightarrow> u64" where
  "usize_len bs = word_of_nat (length bs)"

definition header_bytes :: "SnapshotHeader \<Rightarrow> bytes" where
  "header_bytes h = SNAP_MAGIC @ [sh_version h, Compression_tag (sh_compression h), 0, 0]
     @ to_le_bytes (sh_shard_id h) @ to_le_bytes (sh_meta_len h) @ to_le_bytes (sh_payload_len h)"

definition write_header :: "'m meta_codec \<Rightarrow> SnapshotHeader \<Rightarrow> 'm SnapshotMeta \<Rightarrow> (bytes, io_error) result" where
  "write_header mc h meta =
     rbind (ok_or MetaEncode (meta_enc mc meta)) (\<lambda>meta_bytes.
       if usize_len meta_bytes \<noteq> sh_meta_len h then Inl (MetaLenMismatch (sh_meta_len h) (usize_len meta_bytes))
       else Inr (header_bytes h @ meta_bytes))"

definition read_header ::
  "'m meta_codec \<Rightarrow> (u64 \<Rightarrow> bool) \<Rightarrow> bytes \<Rightarrow> ((SnapshotHeader \<times> 'm SnapshotMeta) \<times> bytes, io_error) result" where
  "read_header mc alloc bs =
     rbind (read_exact HEADER_LEN bs) (\<lambda>(head, bs).
       if take 4 head \<noteq> SNAP_MAGIC then Inl BadMagic
       else if head ! 4 \<noteq> SNAP_VERSION then Inl (BadVersion (head ! 4))
       else rbind (Compression_from_tag (head ! 5)) (\<lambda>compression.
         let shard_id = from_le_bytes (take 8 (drop 8 head));
             meta_len = from_le_bytes (take 8 (drop 16 head));
             payload_len = from_le_bytes (take 8 (drop 24 head))
         in if meta_len > MAX_META_LEN then Inl (MetaTooLong meta_len)
            else if \<not> alloc meta_len then Inl AllocFailed
            else rbind (read_exact (unat meta_len) bs) (\<lambda>(meta_bytes, bs).
              rbind (ok_or MetaDecode (meta_dec mc meta_bytes)) (\<lambda>meta.
                Inr ((\<lparr>sh_version = head ! 4, sh_compression = compression, sh_shard_id = shard_id,
                    sh_meta_len = meta_len, sh_payload_len = payload_len\<rparr>, meta), bs)))))"

text \<open>\<open>open_payload_reader\<close>: the payload starts at \<open>HEADER_LEN + meta_len\<close>.\<close>

definition open_payload_reader ::
  "zip \<Rightarrow> 'm meta_codec \<Rightarrow> (u64 \<Rightarrow> bool) \<Rightarrow> bytes \<Rightarrow> (SnapshotHeader \<times> 'm SnapshotMeta \<times> bytes, io_error) result" where
  "open_payload_reader z mc alloc file =
     rbind (read_header mc alloc file) (\<lambda>((h, m), _).
       rbind (Compression_reader z (sh_compression h) (drop (HEADER_LEN + unat (sh_meta_len h)) file)) (\<lambda>r.
         Inr (h, m, r)))"

section \<open>Records\<close>

definition record_len :: "bytes \<Rightarrow> bytes \<Rightarrow> u64" where
  "record_len key val = 16 + usize_len key + usize_len val"

definition payload_len_for :: "(bytes \<times> bytes) list \<Rightarrow> u64" where
  "payload_len_for entries = 8 + sum_list (map (\<lambda>(k, v). record_len k v) entries) + 8"

definition write_record :: "bytes \<Rightarrow> bytes \<Rightarrow> bytes" where
  "write_record key val = to_le_bytes (usize_len key) @ key @ to_le_bytes (usize_len val) @ val"

definition write_end_marker :: bytes where
  "write_end_marker = to_le_bytes END_MARKER"

text \<open>The closure \<open>read_u64\<close> counts the bytes it takes.\<close>

definition read_u64 :: "u64 \<Rightarrow> bytes \<Rightarrow> (u64 \<times> u64 \<times> bytes, io_error) result" where
  "read_u64 n bs = rbind (read_exact 8 bs) (\<lambda>(b, bs). Inr (from_le_bytes b, n + 8, bs))"

text \<open>One record: the body of the loop up to the call of \<open>f\<close>.\<close>

definition read_record :: "(u64 \<Rightarrow> bool) \<Rightarrow> u64 \<Rightarrow> bytes \<Rightarrow> ((bytes \<times> bytes) \<times> u64 \<times> bytes, io_error) result" where
  "read_record alloc n bs =
     rbind (read_u64 n bs) (\<lambda>(key_len, n, bs).
       if key_len = END_MARKER then Inl EarlyEndMarker
       else if key_len > MAX_RECORD_LEN then Inl (KeyTooLong key_len)
       else if \<not> alloc key_len then Inl AllocFailed
       else rbind (read_exact (unat key_len) bs) (\<lambda>(key, bs).
         rbind (read_u64 (n + key_len) bs) (\<lambda>(val_len, n, bs).
           if val_len > MAX_RECORD_LEN then Inl (ValueTooLong val_len)
           else if \<not> alloc val_len then Inl AllocFailed
           else rbind (read_exact (unat val_len) bs) (\<lambda>(val, bs).
             Inr ((key, val), n + val_len, bs)))))"

fun read_records ::
  "(u64 \<Rightarrow> bool) \<Rightarrow> ('s \<Rightarrow> bytes \<Rightarrow> bytes \<Rightarrow> ('s, io_error) result) \<Rightarrow> nat \<Rightarrow> 's \<Rightarrow> u64 \<Rightarrow> bytes
     \<Rightarrow> ('s \<times> u64 \<times> bytes, io_error) result" where
  "read_records alloc f 0 s n bs = Inr (s, n, bs)"
| "read_records alloc f (Suc c) s n bs =
     rbind (read_record alloc n bs) (\<lambda>((key, val), n, bs).
       rbind (f s key val) (\<lambda>s. read_records alloc f c s n bs))"

definition for_each_record ::
  "(u64 \<Rightarrow> bool) \<Rightarrow> ('s \<Rightarrow> bytes \<Rightarrow> bytes \<Rightarrow> ('s, io_error) result) \<Rightarrow> 's \<Rightarrow> bytes
     \<Rightarrow> ('s \<times> u64 \<times> bytes, io_error) result" where
  "for_each_record alloc f s bs =
     rbind (read_u64 0 bs) (\<lambda>(count, n, bs).
     rbind (read_records alloc f (unat count) s n bs) (\<lambda>(s, n, bs).
     rbind (read_u64 n bs) (\<lambda>(marker, n, bs).
       if marker \<noteq> END_MARKER then Inl (EndMarkerMissing count) else Inr (s, n, bs))))"

text \<open>The payload \<open>build_snapshot\<close> writes: count, records, end marker.\<close>

definition payload_bytes :: "(bytes \<times> bytes) list \<Rightarrow> bytes" where
  "payload_bytes entries =
     to_le_bytes (word_of_nat (length entries) :: u64) @ concat (map (\<lambda>(k, v). write_record k v) entries)
       @ write_end_marker"

section \<open>Writers and their readers\<close>

lemma usize_len_append [simp]: "usize_len (xs @ ys) = usize_len xs + usize_len ys"
  by (simp add: usize_len_def)

lemma usize_len_Nil [simp]: "usize_len [] = 0"
  by (simp add: usize_len_def)

text \<open>
  What a reader promises for a writer: it reads back what was written and leaves the rest, it accepts
  nothing else, and it counts the bytes it takes.
\<close>

locale wire =
  fixes put :: "'a \<Rightarrow> bytes" and get :: "u64 \<Rightarrow> bytes \<Rightarrow> ('a \<times> u64 \<times> bytes, io_error) result" and ok :: "'a \<Rightarrow> bool"
  assumes get_put: "ok x \<Longrightarrow> get n (put x @ rest) = Inr (x, n + usize_len (put x), rest)"
    and put_get: "get n bs = Inr (x, n', rest) \<Longrightarrow> ok x \<and> bs = put x @ rest \<and> n' = n + usize_len (put x)"
begin

lemma put_unique:
  assumes "ok x" "ok y" "put x @ r = put y @ r'"
  shows "x = y \<and> r = r'"
proof -
  have "Inr (x, 0 + usize_len (put x), r) = get 0 (put y @ r')"
    using get_put [OF assms(1), of 0 r] by (simp only: assms(3))
  also have "\<dots> = Inr (y, 0 + usize_len (put y), r')" by (rule get_put [OF assms(2)])
  finally show ?thesis by simp
qed

text \<open>Every proper prefix of what was written is rejected.\<close>

lemma truncated:
  assumes "ok x" "k < length (put x)"
  shows "is_err (get n (take k (put x)))"
proof (cases "get n (take k (put x))")
  case (Inr y)
  obtain z n' r where z: "get n (take k (put x)) = Inr (z, n', r)" using Inr by (cases y) auto
  from put_get [OF z] have "ok z" "put x = put z @ r @ drop k (put x)" by (metis append_take_drop_id append.assoc)+
  with put_unique [OF assms(1), of z "[]" "r @ drop k (put x)"] have "drop k (put x) = []" by simp
  with assms(2) show ?thesis by simp
qed simp

primrec gets :: "nat \<Rightarrow> u64 \<Rightarrow> bytes \<Rightarrow> ('a list \<times> u64 \<times> bytes, io_error) result" where
  "gets 0 n bs = Inr ([], n, bs)"
| "gets (Suc c) n bs = rbind (get n bs) (\<lambda>(x, n, bs). rbind (gets c n bs) (\<lambda>(xs, n, bs). Inr (x # xs, n, bs)))"

lemma gets_put:
  "list_all ok xs \<Longrightarrow>
     gets (length xs) n (concat (map put xs) @ rest) = Inr (xs, n + usize_len (concat (map put xs)), rest)"
  by (induction xs arbitrary: n) (simp_all add: get_put ac_simps)

lemma put_gets:
  "gets c n bs = Inr (xs, n', rest) \<Longrightarrow>
     list_all ok xs \<and> length xs = c \<and> bs = concat (map put xs) @ rest \<and> n' = n + usize_len (concat (map put xs))"
proof (induction c arbitrary: n bs xs)
  case (Suc c)
  then obtain x n1 b1 ys where x: "get n bs = Inr (x, n1, b1)" "gets c n1 b1 = Inr (ys, n', rest)" "xs = x # ys"
    by (auto simp: rbind_Inr_iff)
  from Suc.IH [OF x(2)] put_get [OF x(1)] x(3) show ?case by (auto simp: ac_simps)
qed simp

end

lemma be_value_bound: "be_value bs < 256 ^ length bs"
proof (induction bs)
  case (Cons b bs)
  have "unat b < 2 ^ 8" using unsigned_less [where ?'a = nat, of b] by simp
  then have "unat b \<le> 255" by simp
  then have "unat b * 256 ^ length bs \<le> 255 * 256 ^ length bs" by (rule mult_right_mono) simp
  moreover have "be_value (b # bs) = unat b * 256 ^ length bs + be_value bs" "256 ^ length (b # bs) = 256 * (256 :: nat) ^ length bs"
    by simp_all
  ultimately show ?case using Cons.IH by linarith
qed simp

lemma nat_be_be_value: "nat_be (length bs) (be_value bs) = bs"
proof (induction bs)
  case (Cons b bs)
  have "be_value bs < 256 ^ length bs" by (rule be_value_bound)
  then have "(unat b * 256 ^ length bs + be_value bs) div 256 ^ length bs = unat b"
    by simp
  moreover have "unat b < 256" using unsigned_less [where ?'a = nat, of b] by simp
  moreover have "nat_be (length bs) (unat b * 256 ^ length bs + be_value bs) = nat_be (length bs) (be_value bs)"
    by (simp add: nat_be_eq_iff)
  ultimately show ?case using Cons by simp
qed simp

lemma to_from_le_bytes: "length b = 8 \<Longrightarrow> to_le_bytes (from_le_bytes b :: u64) = b"
  using nat_be_be_value [of "rev b"] be_value_bound [of "rev b"]
  by (simp add: to_le_bytes_def from_le_bytes_def to_be_bytes_def from_be_bytes_def unat_of_nat)

interpretation le: wire to_le_bytes read_u64 "\<lambda>_. True"
proof
  show "read_u64 n (to_le_bytes x @ rest) = Inr (x, n + usize_len (to_le_bytes x), rest)" for n x rest
    by (simp add: read_u64_def read_exact_def usize_len_def)
  show "True \<and> bs = to_le_bytes x @ rest \<and> n' = n + usize_len (to_le_bytes x)"
    if "read_u64 n bs = Inr (x, n', rest)" for n bs x n' rest
    using that by (auto simp: read_u64_def read_exact_def rbind_Inr_iff usize_len_def to_from_le_bytes split: if_splits)
qed

text \<open>A record of two byte strings that the limits and the allocator admit.\<close>

definition record_ok :: "(u64 \<Rightarrow> bool) \<Rightarrow> bytes \<times> bytes \<Rightarrow> bool" where
  "record_ok alloc = (\<lambda>(k, v). length k \<le> unat MAX_RECORD_LEN \<and> length v \<le> unat MAX_RECORD_LEN
     \<and> alloc (usize_len k) \<and> alloc (usize_len v))"

lemma max_record_len: "unat MAX_RECORD_LEN = 2 ^ 30"
  by (simp add: MAX_RECORD_LEN_def)

lemma unat_usize_len: "length b \<le> unat MAX_RECORD_LEN \<Longrightarrow> unat (usize_len b) = length b"
  by (simp add: max_record_len usize_len_def unat_of_nat)

lemma usize_len_le: "usize_len b \<le> MAX_RECORD_LEN \<longleftrightarrow> length b \<le> unat MAX_RECORD_LEN" if "length b < 2 ^ 64"
  using that by (simp add: word_le_nat_alt usize_len_def unat_of_nat)

lemma record_len_not_marker: "usize_len b \<le> MAX_RECORD_LEN \<Longrightarrow> usize_len b \<noteq> END_MARKER"
  by (auto simp: END_MARKER_def MAX_RECORD_LEN_def word_le_nat_alt unat_max_word)

lemma read_exact_append [simp]: "length b = n \<Longrightarrow> read_exact n (b @ rest) = Inr (b, rest)"
  by (simp add: read_exact_def)

lemma read_exact_Inr: "read_exact n bs = Inr (b, rest) \<longleftrightarrow> bs = b @ rest \<and> length b = n"
  by (auto simp: read_exact_def)

lemma read_record_put:
  assumes "record_ok alloc (k, v)"
  shows "read_record alloc n (write_record k v @ rest) = Inr ((k, v), n + usize_len (write_record k v), rest)"
proof -
  have k: "unat (usize_len k) = length k" "usize_len k \<le> MAX_RECORD_LEN" "alloc (usize_len k)"
    and v: "unat (usize_len v) = length v" "usize_len v \<le> MAX_RECORD_LEN" "alloc (usize_len v)"
    using assms unat_usize_len [of k] unat_usize_len [of v] by (simp_all add: record_ok_def word_le_nat_alt)
  then show ?thesis
    using record_len_not_marker [OF k(2)]
    by (simp add: read_record_def write_record_def le.get_put not_less [symmetric] ac_simps)
qed

lemma write_record_read:
  assumes "read_record alloc n bs = Inr ((k, v), n', rest)"
  shows "record_ok alloc (k, v) \<and> bs = write_record k v @ rest \<and> n' = n + usize_len (write_record k v)"
proof -
  from assms obtain kl n1 b1 b2 vl n2 b3 where
    r: "read_u64 n bs = Inr (kl, n1, b1)" "\<not> MAX_RECORD_LEN < kl" "alloc kl" "read_exact (unat kl) b1 = Inr (k, b2)"
      "read_u64 (n1 + kl) b2 = Inr (vl, n2, b3)" "\<not> MAX_RECORD_LEN < vl" "alloc vl"
      "read_exact (unat vl) b3 = Inr (v, rest)" "n' = n2 + vl"
    by (auto simp: read_record_def rbind_Inr_iff split: if_splits)
  then have len: "length k = unat kl" "length v = unat vl" "b1 = k @ b2" "b3 = v @ rest" by (simp_all add: read_exact_Inr)
  then have "usize_len k = kl" "usize_len v = vl" by (simp_all add: usize_len_def)
  moreover have "length k \<le> unat MAX_RECORD_LEN" "length v \<le> unat MAX_RECORD_LEN"
    using r(2,6) len by (simp_all add: word_le_nat_alt not_less)
  ultimately show ?thesis
    using r len le.put_get [OF r(1)] le.put_get [OF r(5)] by (simp add: write_record_def record_ok_def ac_simps)
qed

interpretation rec: wire "\<lambda>(k, v). write_record k v" "read_record alloc" "record_ok alloc" for alloc
proof
  fix x n rest assume "record_ok alloc x"
  then show "read_record alloc n ((case x of (k, v) \<Rightarrow> write_record k v) @ rest) =
      Inr (x, n + usize_len (case x of (k, v) \<Rightarrow> write_record k v), rest)"
    using read_record_put by (cases x) simp
next
  fix n bs x n' rest assume "read_record alloc n bs = Inr (x, n', rest)"
  then show "record_ok alloc x \<and> bs = (case x of (k, v) \<Rightarrow> write_record k v) @ rest
      \<and> n' = n + usize_len (case x of (k, v) \<Rightarrow> write_record k v)"
    using write_record_read by (cases x) simp
qed

section \<open>The record stream\<close>

text \<open>The callback over a list of records; the first error ends it.\<close>

fun callbacks :: "('s \<Rightarrow> bytes \<Rightarrow> bytes \<Rightarrow> ('s, io_error) result) \<Rightarrow> 's \<Rightarrow> (bytes \<times> bytes) list \<Rightarrow> ('s, io_error) result" where
  "callbacks f s [] = Inr s"
| "callbacks f s ((k, v) # es) = rbind (f s k v) (\<lambda>s. callbacks f s es)"

lemma read_records_iff:
  "read_records alloc f c s n bs = Inr (s', n', rest) \<longleftrightarrow>
     (\<exists>es. rec.gets alloc c n bs = Inr (es, n', rest) \<and> callbacks f s es = Inr s')"
proof (induction c arbitrary: s n bs)
  case (Suc c)
  show ?case
  proof
    assume "read_records alloc f (Suc c) s n bs = Inr (s', n', rest)"
    then obtain k v n1 b1 s1 where r: "read_record alloc n bs = Inr ((k, v), n1, b1)" "f s k v = Inr s1"
      "read_records alloc f c s1 n1 b1 = Inr (s', n', rest)"
      by (auto simp: rbind_Inr_iff)
    from Suc.IH r(3) obtain es where "rec.gets alloc c n1 b1 = Inr (es, n', rest)" "callbacks f s1 es = Inr s'" by blast
    with r show "\<exists>es. rec.gets alloc (Suc c) n bs = Inr (es, n', rest) \<and> callbacks f s es = Inr s'"
      by (intro exI [of _ "(k, v) # es"]) simp
  next
    assume "\<exists>es. rec.gets alloc (Suc c) n bs = Inr (es, n', rest) \<and> callbacks f s es = Inr s'"
    then obtain k v n1 b1 ys where r: "read_record alloc n bs = Inr ((k, v), n1, b1)"
      "rec.gets alloc c n1 b1 = Inr (ys, n', rest)" "callbacks f s ((k, v) # ys) = Inr s'"
      by (auto simp: rbind_Inr_iff)
    then obtain s1 where "f s k v = Inr s1" "callbacks f s1 ys = Inr s'" by (auto simp: rbind_Inr_iff)
    with r Suc.IH show "read_records alloc f (Suc c) s n bs = Inr (s', n', rest)" by auto
  qed
qed auto

lemma payload_len_bytes: "usize_len (payload_bytes es) = payload_len_for es"
proof -
  have "usize_len (concat (map (\<lambda>(k, v). write_record k v) es)) = sum_list (map (\<lambda>(k, v). record_len k v) es)"
  proof (induction es)
    case (Cons e es)
    then show ?case by (cases e) (simp add: write_record_def record_len_def usize_len_def)
  qed simp
  then show ?thesis by (simp add: payload_bytes_def payload_len_for_def write_end_marker_def usize_len_def)
qed

lemma for_each_record_iff:
  "for_each_record alloc f s bs = Inr (s', n, rest) \<longleftrightarrow>
     (\<exists>es. list_all (record_ok alloc) es \<and> length es < 2 ^ 64 \<and> bs = payload_bytes es @ rest
        \<and> n = payload_len_for es \<and> callbacks f s es = Inr s')"
proof
  assume "for_each_record alloc f s bs = Inr (s', n, rest)"
  then obtain count n1 b1 n2 b2 where
    r: "read_u64 0 bs = Inr (count, n1, b1)" "read_records alloc f (unat count) s n1 b1 = Inr (s', n2, b2)"
      "read_u64 n2 b2 = Inr (END_MARKER, n, rest)"
    by (auto simp: for_each_record_def rbind_Inr_iff split: if_splits)
  from r(2) obtain es where es: "rec.gets alloc (unat count) n1 b1 = Inr (es, n2, b2)" "callbacks f s es = Inr s'"
    by (auto simp: read_records_iff)
  note G = rec.put_gets [OF es(1)] and A = le.put_get [OF r(1)] and B = le.put_get [OF r(3)]
  have "count = word_of_nat (length es)" "length es < 2 ^ 64" using G unsigned_less [where ?'a = nat, of count] by auto
  moreover from this G A B have "bs = payload_bytes es @ rest" by (simp add: payload_bytes_def write_end_marker_def)
  moreover have "n = usize_len (payload_bytes es)"
    using G A B \<open>count = word_of_nat (length es)\<close> by (simp add: payload_bytes_def write_end_marker_def ac_simps)
  ultimately show "\<exists>es. list_all (record_ok alloc) es \<and> length es < 2 ^ 64 \<and> bs = payload_bytes es @ rest
      \<and> n = payload_len_for es \<and> callbacks f s es = Inr s'"
    using G es(2) by (auto simp: payload_len_bytes)
next
  assume "\<exists>es. list_all (record_ok alloc) es \<and> length es < 2 ^ 64 \<and> bs = payload_bytes es @ rest
      \<and> n = payload_len_for es \<and> callbacks f s es = Inr s'"
  then obtain es where es: "list_all (record_ok alloc) es" "length es < 2 ^ 64" "bs = payload_bytes es @ rest"
    "n = payload_len_for es" "callbacks f s es = Inr s'" by blast
  have c: "unat (word_of_nat (length es) :: u64) = length es" using es(2) by (simp add: unat_of_nat)
  let ?recs = "concat (map (\<lambda>(k, v). write_record k v) es)"
  have "read_records alloc f (length es) s m (?recs @ x) = Inr (s', m + usize_len ?recs, x)" for m x
    using rec.gets_put [OF es(1), of m x] es(5) by (auto simp: read_records_iff)
  then show "for_each_record alloc f s bs = Inr (s', n, rest)"
    by (simp add: for_each_record_def es(3,4) payload_bytes_def le.get_put c write_end_marker_def
        payload_len_bytes [symmetric] ac_simps)
qed

lemma payload_unique:
  assumes "list_all (record_ok alloc) es" "length es < 2 ^ 64" "list_all (record_ok alloc) xs" "length xs < 2 ^ 64"
    and "payload_bytes es @ r = payload_bytes xs @ r'"
  shows "es = xs \<and> r = r'"
proof -
  let ?put = "\<lambda>es. concat (map (\<lambda>(k, v). write_record k v) es)"
  from assms(5) have "to_le_bytes (word_of_nat (length es) :: u64) @ (?put es @ write_end_marker @ r) =
      to_le_bytes (word_of_nat (length xs) :: u64) @ (?put xs @ write_end_marker @ r')"
    by (simp add: payload_bytes_def)
  from le.put_unique [OF TrueI TrueI this] have n: "(word_of_nat (length es) :: u64) = word_of_nat (length xs)"
    and eq: "?put es @ write_end_marker @ r = ?put xs @ write_end_marker @ r'" by simp_all
  from n have "unat (word_of_nat (length es) :: u64) = unat (word_of_nat (length xs) :: u64)" by simp
  with assms(2,4) have len: "length es = length xs" by (simp add: unat_of_nat)
  have "Inr (es, 0 + usize_len (?put es), write_end_marker @ r) = rec.gets alloc (length es) 0 (?put xs @ write_end_marker @ r')"
    using rec.gets_put [OF assms(1), of 0 "write_end_marker @ r"] by (simp only: eq)
  also have "\<dots> = Inr (xs, 0 + usize_len (?put xs), write_end_marker @ r')"
    using rec.gets_put [OF assms(3), of 0 "write_end_marker @ r'"] by (simp only: len)
  finally show ?thesis by simp
qed

section \<open>Whole files\<close>

text \<open>The header and the bytes \<open>build_snapshot\<close> writes to its temporary file.\<close>

definition snapshot_header ::
  "'m meta_codec \<Rightarrow> Compression \<Rightarrow> u64 \<Rightarrow> 'm SnapshotMeta \<Rightarrow> (bytes \<times> bytes) list \<Rightarrow> (SnapshotHeader, io_error) result" where
  "snapshot_header mc c shard meta entries =
     rbind (ok_or MetaEncode (meta_enc mc meta)) (\<lambda>mb.
       Inr \<lparr>sh_version = SNAP_VERSION, sh_compression = c, sh_shard_id = shard, sh_meta_len = usize_len mb,
            sh_payload_len = payload_len_for entries\<rparr>)"

definition snapshot_image ::
  "zip \<Rightarrow> 'm meta_codec \<Rightarrow> SnapshotHeader \<Rightarrow> 'm SnapshotMeta \<Rightarrow> (bytes \<times> bytes) list \<Rightarrow> (bytes, io_error) result" where
  "snapshot_image z mc h meta entries =
     rbind (write_header mc h meta) (\<lambda>head.
     rbind (Compression_writer z (sh_compression h) (payload_bytes entries)) (\<lambda>body.
     Inr (head @ body)))"

lemma compression_roundtrip:
  "Compression_from_tag (Compression_tag c) = Inr c"
  "zip_laws z \<Longrightarrow> Compression_writer z c x = Inr y \<Longrightarrow> Compression_reader z c y = Inr x"
  by (cases c; simp add: Compression_from_tag_def zip_laws_def)+

lemma length_header_bytes [simp]: "length (header_bytes h) = 32"
  by (simp add: header_bytes_def SNAP_MAGIC_def)

lemma header_fields:
  "take 4 (header_bytes h) = SNAP_MAGIC" "header_bytes h ! 4 = sh_version h"
  "header_bytes h ! 5 = Compression_tag (sh_compression h)"
  "take 8 (drop 8 (header_bytes h)) = to_le_bytes (sh_shard_id h)"
  "take 8 (drop 16 (header_bytes h)) = to_le_bytes (sh_meta_len h)"
  "take 8 (drop 24 (header_bytes h)) = to_le_bytes (sh_payload_len h)"
  by (simp_all add: header_bytes_def SNAP_MAGIC_def numeral_2_eq_2)

lemma read_written_header:
  assumes mc: "meta_laws mc" and w: "write_header mc h meta = Inr bs" and v: "sh_version h = SNAP_VERSION"
    and len: "sh_meta_len h \<le> MAX_META_LEN" "alloc (sh_meta_len h)" and small: "\<And>b. meta_enc mc meta = Some b \<Longrightarrow> length b < 2 ^ 64"
  shows "read_header mc alloc (bs @ rest) = Inr ((h, meta), rest) \<and> length bs = HEADER_LEN + unat (sh_meta_len h)"
proof -
  from w obtain mb where mb: "meta_enc mc meta = Some mb" "usize_len mb = sh_meta_len h" "bs = header_bytes h @ mb"
    by (auto simp: write_header_def rbind_Inr_iff ok_or_def split: option.splits if_splits)
  have n: "unat (sh_meta_len h) = length mb" using small [OF mb(1)] by (simp add: mb(2) [symmetric] usize_len_def unat_of_nat)
  have "meta_dec mc mb = Some meta" using mc mb(1) by (simp add: meta_laws_def)
  then show ?thesis
    using len by (simp add: read_header_def mb(3) HEADER_LEN_def header_fields v [symmetric] compression_roundtrip n
        ok_or_def not_less Let_def)
qed

text \<open>What a reader gets from an image: the header, the meta data and the payload.\<close>

lemma open_image:
  assumes laws: "zip_laws z" "meta_laws mc" and h: "snapshot_header mc c shard meta entries = Inr h"
    and img: "snapshot_image z mc h meta entries = Inr file"
    and meta: "\<And>b. meta_enc mc meta = Some b \<Longrightarrow> length b \<le> unat MAX_META_LEN \<and> alloc (usize_len b)"
  shows "open_payload_reader z mc alloc file = Inr (h, meta, payload_bytes entries)
    \<and> (\<exists>rest. read_header mc alloc file = Inr ((h, meta), rest))"
proof -
  from h obtain mb where mb: "meta_enc mc meta = Some mb" "h = \<lparr>sh_version = SNAP_VERSION, sh_compression = c,
      sh_shard_id = shard, sh_meta_len = usize_len mb, sh_payload_len = payload_len_for entries\<rparr>"
    by (auto simp: snapshot_header_def rbind_Inr_iff ok_or_def split: option.splits)
  have M: "unat MAX_META_LEN < 2 ^ 64" by (simp add: MAX_META_LEN_def)
  have m: "length mb \<le> unat MAX_META_LEN" "alloc (usize_len mb)" using meta [OF mb(1)] by simp_all
  then have le: "usize_len mb \<le> MAX_META_LEN" using M by (simp add: word_le_nat_alt usize_len_def unat_of_nat)
  from img obtain head body where w: "write_header mc h meta = Inr head" "file = head @ body"
    "Compression_writer z c (payload_bytes entries) = Inr body"
    by (auto simp: snapshot_image_def rbind_Inr_iff mb(2))
  have "read_header mc alloc (head @ body) = Inr ((h, meta), body) \<and> length head = HEADER_LEN + unat (sh_meta_len h)"
    by (rule read_written_header [OF laws(2) w(1)]) (use mb m le M in auto)
  moreover have "Compression_reader z (sh_compression h) body = Inr (payload_bytes entries)"
    using compression_roundtrip(2) [OF laws(1) w(3)] by (simp add: mb(2))
  ultimately show ?thesis by (simp add: open_payload_reader_def w(2))
qed

section \<open>Properties\<close>

text \<open>C20: a snapshot file reads back as what was written. For a compressor and a meta encoding that
  decode what they encoded, opening the image of some entries gives the header, the meta data and a
  payload from which the record loop visits exactly those entries, in order, and counts as many bytes
  as the header declares, so that the length check of the installer passes; whatever the callback
  does with the records, its errors included. Meta data and records are within the format's limits.\<close>

theorem snapshot_file_roundtrip:
  assumes "zip_laws z" "meta_laws mc" and "snapshot_header mc c shard meta entries = Inr h"
    and "snapshot_image z mc h meta entries = Inr file"
    and "\<And>b. meta_enc mc meta = Some b \<Longrightarrow> length b \<le> unat MAX_META_LEN \<and> alloc (usize_len b)"
    and "list_all (record_ok alloc) entries" "length entries < 2 ^ 64"
  shows "\<exists>payload. open_payload_reader z mc alloc file = Inr (h, meta, payload)
    \<and> sh_shard_id h = shard \<and> sh_compression h = c
    \<and> (\<forall>f s s' n rest. for_each_record alloc f s payload = Inr (s', n, rest) \<longleftrightarrow>
        callbacks f s entries = Inr s' \<and> n = sh_payload_len h \<and> rest = [])"
proof -
  have h: "sh_payload_len h = payload_len_for entries" "sh_shard_id h = shard" "sh_compression h = c"
    using assms(3) by (auto simp: snapshot_header_def rbind_Inr_iff)
  have "for_each_record alloc f s (payload_bytes entries) = Inr (s', n, rest) \<longleftrightarrow>
      callbacks f s entries = Inr s' \<and> n = sh_payload_len h \<and> rest = []" (is "?L \<longleftrightarrow> ?R") for f s s' n rest
  proof
    assume ?L
    then obtain es where es: "list_all (record_ok alloc) es" "length es < 2 ^ 64" "payload_bytes entries = payload_bytes es @ rest"
      "n = payload_len_for es" "callbacks f s es = Inr s'" by (auto simp: for_each_record_iff)
    from payload_unique [OF assms(6,7) es(1,2), of "[]" rest] es(3) have "es = entries" "rest = []" by simp_all
    with es h show ?R by simp
  next
    assume ?R
    with assms(6,7) h show ?L by (auto simp: for_each_record_iff)
  qed
  with open_image [OF assms(1-5)] h show ?thesis by blast
qed

text \<open>A meta encoding for snapshots whose membership was never logged, and a compressor that reverses its
  input.\<close>

fun sample_meta_enc :: "unit SnapshotMeta \<Rightarrow> bytes option" where
  "sample_meta_enc m =
     (if sm_log_id (sn_last_membership m) \<noteq> None then None
      else Some ((case sn_last_log_id m of None \<Rightarrow> [0]
           | Some l \<Rightarrow> 1 # to_le_bytes (li_term l) @ to_le_bytes (li_node l) @ to_le_bytes (li_index l))
         @ as_bytes (sn_snapshot_id m)))"

fun sample_meta_dec :: "bytes \<Rightarrow> unit SnapshotMeta option" where
  "sample_meta_dec [] = None"
| "sample_meta_dec (b # bs) =
     (let meta = \<lambda>l bs. \<lparr>sn_last_log_id = l, sn_last_membership = \<lparr>sm_log_id = None, sm_config = ()\<rparr>,
            sn_snapshot_id = string_of_bytes bs\<rparr>
      in if b = 0 then Some (meta None bs)
         else Some (meta (Some \<lparr>li_term = from_le_bytes (take 8 bs), li_node = from_le_bytes (take 8 (drop 8 bs)),
                li_index = from_le_bytes (take 8 (drop 16 bs))\<rparr>) (drop 24 bs)))"

definition sample_meta_codec :: "unit meta_codec" where
  "sample_meta_codec = \<lparr>meta_enc = sample_meta_enc, meta_dec = sample_meta_dec\<rparr>"

definition sample_zip :: zip where
  "sample_zip = \<lparr>zip_pack = \<lambda>_ x. Inr (rev x), zip_unpack = \<lambda>_ x. Inr (rev x)\<rparr>"

definition sample_meta :: "unit SnapshotMeta" where
  "sample_meta = \<lparr>sn_last_log_id = None, sn_last_membership = \<lparr>sm_log_id = None, sm_config = ()\<rparr>,
     sn_snapshot_id = ''1-empty''\<rparr>"

lemma sample_laws: "zip_laws sample_zip" "meta_laws sample_meta_codec"
proof -
  show "zip_laws sample_zip" by (auto simp: zip_laws_def sample_zip_def)
  have "sample_meta_dec b = Some m" if "sample_meta_enc m = Some b" for m b
    using that by (cases m; cases "sn_last_membership m") (auto split: if_splits option.splits)
  then show "meta_laws sample_meta_codec" by (simp add: meta_laws_def sample_meta_codec_def)
qed

theorem snapshot_file_roundtrip_witness:
  "\<exists>h file payload. snapshot_header sample_meta_codec Zstd 1 sample_meta [([1], [2, 3]), ([4], [])] = Inr h
     \<and> snapshot_image sample_zip sample_meta_codec h sample_meta [([1], [2, 3]), ([4], [])] = Inr file
     \<and> open_payload_reader sample_zip sample_meta_codec (\<lambda>_. True) file = Inr (h, sample_meta, payload)
     \<and> for_each_record (\<lambda>_. True) (\<lambda>es k v. Inr (es @ [(k, v)])) [] payload =
         Inr ([([1], [2, 3]), ([4], [])], sh_payload_len h, [])"
proof -
  let ?es = "[([1], [2, 3]), ([4], [])] :: (bytes \<times> bytes) list" and ?mc = sample_meta_codec
  obtain h where h: "snapshot_header ?mc Zstd 1 sample_meta ?es = Inr h"
    by (simp add: snapshot_header_def sample_meta_codec_def sample_meta_def ok_or_def)
  obtain bs where img: "snapshot_image sample_zip ?mc h sample_meta ?es = Inr bs"
    using h by (auto simp: snapshot_image_def snapshot_header_def write_header_def sample_meta_codec_def sample_meta_def
        ok_or_def sample_zip_def)
  have "length b \<le> unat MAX_META_LEN \<and> True" if "meta_enc ?mc sample_meta = Some b" for b
    using that by (auto simp: sample_meta_codec_def sample_meta_def MAX_META_LEN_def)
  then obtain payload where "open_payload_reader sample_zip ?mc (\<lambda>_. True) bs = Inr (h, sample_meta, payload)"
    "\<forall>f s s' n rest. for_each_record (\<lambda>_. True) f (s :: (bytes \<times> bytes) list) payload = Inr (s', n, rest) \<longleftrightarrow>
       callbacks f s ?es = Inr s' \<and> n = sh_payload_len h \<and> rest = []"
    using snapshot_file_roundtrip [OF sample_laws h img, of "\<lambda>_. True"]
    by (auto simp: record_ok_def max_record_len)
  with h img show ?thesis by auto
qed

text \<open>C21: what the record loop accepts. It accepts a payload exactly if the payload begins with the image of a list of
  records within the limits (a count, that many records, the end marker); then it has visited those records, counted
  the length of their image and stopped after the end marker. The bytes after it are not looked at, whatever they
  are. It rejects every proper prefix of an image, so a truncated or half-written payload is never taken for a
  snapshot.\<close>

theorem snapshot_stream_exact:
  "(for_each_record alloc (\<lambda>es k v. Inr (es @ [(k, v)])) [] bs = Inr (es, n, rest) \<longleftrightarrow>
     list_all (record_ok alloc) es \<and> length es < 2 ^ 64 \<and> bs = payload_bytes es @ rest \<and> n = payload_len_for es)
   \<and> (list_all (record_ok alloc) es \<and> length es < 2 ^ 64 \<and> k < length (payload_bytes es) \<longrightarrow>
       is_err (for_each_record alloc f s (take k (payload_bytes es))))"
proof (intro conjI impI)
  have "callbacks (\<lambda>es k v. Inr (es @ [(k, v)])) acc xs = Inr (acc @ xs)" for acc xs
  proof (induction xs arbitrary: acc)
    case (Cons x xs)
    then show ?case by (cases x) simp
  qed simp
  then show "for_each_record alloc (\<lambda>es k v. Inr (es @ [(k, v)])) [] bs = Inr (es, n, rest) \<longleftrightarrow>
      list_all (record_ok alloc) es \<and> length es < 2 ^ 64 \<and> bs = payload_bytes es @ rest \<and> n = payload_len_for es"
    by (auto simp: for_each_record_iff)
next
  assume es: "list_all (record_ok alloc) es \<and> length es < 2 ^ 64 \<and> k < length (payload_bytes es)"
  show "is_err (for_each_record alloc f s (take k (payload_bytes es)))"
  proof (rule ccontr)
    assume "\<not> is_err (for_each_record alloc f s (take k (payload_bytes es)))"
    then obtain s' n rest where "for_each_record alloc f s (take k (payload_bytes es)) = Inr (s', n, rest)"
      by (cases "for_each_record alloc f s (take k (payload_bytes es))") auto
    then obtain xs where xs: "list_all (record_ok alloc) xs" "length xs < 2 ^ 64"
      "take k (payload_bytes es) = payload_bytes xs @ rest" by (auto simp: for_each_record_iff)
    have "payload_bytes es @ [] = payload_bytes xs @ rest @ drop k (payload_bytes es)"
      using xs(3) append_take_drop_id [of k "payload_bytes es"] by simp
    with payload_unique [of alloc es xs "[]" "rest @ drop k (payload_bytes es)"] es xs(1,2) show False by auto
  qed
qed

theorem snapshot_stream_exact_witness:
  "is_err (for_each_record (\<lambda>_. True) (\<lambda>s k v. Inr (k # s)) [] (take 20 (payload_bytes [([1], [2, 3])])))"
  using snapshot_stream_exact [of "\<lambda>_. True" _ "[([1], [2, 3])]" _ _ 20 "\<lambda>s k v. Inr (k # s)" "[]"]
  by (simp add: record_ok_def max_record_len payload_bytes_def write_record_def write_end_marker_def)

end
