(* ===== verification/Snapshot_Store.thy ===== *)
theory Snapshot_Store
  imports Snapshot_File Strings "HOL-Library.Multiset" "HOL-Library.Product_Lexorder"
begin

text \<open>
  The snapshot directory, \<open>SnapshotStore\<close> of \<open>es-storage/src/snapshot.rs\<close>: naming, enumeration, choice
  of the current snapshot and retention. The directory is a value with the files of its root and of
  \<open>incoming/\<close> in the order \<open>read_dir\<close> yields them; what the operating system may refuse (listing,
  opening, removing, renaming or copying a file) is the parameter \<open>fs\<close>.
\<close>

section \<open>Directory\<close>

record dir_entry =
  de_name :: string
  de_is_file :: bool
  de_mtime :: nat
  de_bytes :: bytes

record SnapDir =
  sd_root :: "dir_entry list option"
  sd_incoming :: "dir_entry list option"

record fs =
  fs_list :: bool
  fs_open :: "string \<Rightarrow> bool"
  fs_remove :: "string \<Rightarrow> bool"
  fs_rename :: "string \<Rightarrow> string \<Rightarrow> bool"
  fs_copy :: "string \<Rightarrow> bool"
  fs_mkdir :: bool
  fs_create :: "string \<Rightarrow> bool"

record SnapshotStore =
  ss_compression :: Compression
  ss_keep :: nat
  ss_shard_id :: u64

record 'm SnapshotEntry =
  se_path :: string
  se_header :: "SnapshotHeader option"
  se_meta :: "'m SnapshotMeta option"
  se_size :: nat
  se_mtime :: nat
  se_valid :: bool

text \<open>\<open>Path::extension\<close> of a file name.\<close>

definition file_extension :: "string \<Rightarrow> string option" where
  "file_extension name =
     (let r = takeWhile (\<lambda>c. c \<noteq> CHR ''.'') (rev name); stem = length name - length r - 1
      in if name = ''..'' \<or> length r = length name \<or> stem = 0 then None else Some (rev r))"

definition ensure_dirs :: "fs \<Rightarrow> SnapDir \<Rightarrow> (SnapDir, io_error) result" where
  "ensure_dirs fs d = (if fs_mkdir fs
     then Inr (d\<lparr>sd_root := Some (case sd_root d of None \<Rightarrow> [] | Some x \<Rightarrow> x),
                sd_incoming := Some (case sd_incoming d of None \<Rightarrow> [] | Some x \<Rightarrow> x)\<rparr>)
     else Inl (OsError ''create_dir_all''))"

section \<open>File names\<close>

definition padded :: "nat \<Rightarrow> nat \<Rightarrow> string" where
  "padded w n = replicate (w - length (decimal n)) (CHR ''0'') @ decimal n"

text \<open>\<open>(term, index)\<close> of a snapshot point; an empty snapshot is \<open>(0, 0)\<close>.\<close>

definition snap_point :: "log_id option \<Rightarrow> u64 \<times> u64" where
  "snap_point l = (case l of Some l \<Rightarrow> (li_term l, li_index l) | None \<Rightarrow> (0, 0))"

definition final_path :: "u64 \<Rightarrow> log_id option \<Rightarrow> string" where
  "final_path shard last_log_id =
     (let (t, i) = snap_point last_log_id
      in ''snap-'' @ padded 8 (unat shard) @ ''-'' @ padded 20 (unat t) @ ''-'' @ padded 20 (unat i) @ ''.esnap'')"

section \<open>Enumeration\<close>

definition entry_of :: "'m meta_codec \<Rightarrow> (u64 \<Rightarrow> bool) \<Rightarrow> fs \<Rightarrow> dir_entry \<Rightarrow> 'm SnapshotEntry" where
  "entry_of mc alloc fs e =
     (let unread = \<lparr>se_path = de_name e, se_header = None, se_meta = None, se_size = length (de_bytes e),
                     se_mtime = de_mtime e, se_valid = False\<rparr>
      in if \<not> fs_open fs (de_name e) then unread
         else case read_header mc alloc (de_bytes e) of
             Inr ((header, meta), _) \<Rightarrow> unread\<lparr>se_header := Some header, se_meta := Some meta, se_valid := True\<rparr>
           | Inl _ \<Rightarrow> unread)"

definition list_entries ::
  "'m meta_codec \<Rightarrow> (u64 \<Rightarrow> bool) \<Rightarrow> fs \<Rightarrow> SnapDir \<Rightarrow> ('m SnapshotEntry list, io_error) result" where
  "list_entries mc alloc fs d =
     (case sd_root d of
        None \<Rightarrow> Inr []
      | Some files \<Rightarrow>
          if \<not> fs_list fs then Inl (OsError ''read_dir'')
          else Inr (map (entry_of mc alloc fs)
            (filter (\<lambda>e. de_is_file e \<and> file_extension (de_name e) = Some ''esnap'') files)))"

section \<open>The current snapshot\<close>

text \<open>One step of the loop of \<open>latest\<close>.\<close>

definition latest_step ::
  "u64 \<Rightarrow> log_id option \<Rightarrow> 'm SnapshotEntry \<Rightarrow> ((u64 \<times> u64) \<times> string) option \<Rightarrow> ((u64 \<times> u64) \<times> string) option" where
  "latest_step shard applied entry best =
     (case (se_header entry, se_meta entry) of
        (Some header, Some meta) \<Rightarrow>
          if sh_shard_id header \<noteq> shard then best
          else if (case (applied, sn_last_log_id meta) of
                     (Some a, Some m) \<Rightarrow> (li_term m, li_index m) > (li_term a, li_index a)
                   | _ \<Rightarrow> False) then best
          else (let point = snap_point (sn_last_log_id meta)
                in case best of
                     Some (b, _) \<Rightarrow> if b \<ge> point then best else Some (point, se_path entry)
                   | None \<Rightarrow> Some (point, se_path entry))
      | _ \<Rightarrow> best)"

definition latest ::
  "'m meta_codec \<Rightarrow> (u64 \<Rightarrow> bool) \<Rightarrow> fs \<Rightarrow> SnapDir \<Rightarrow> u64 \<Rightarrow> log_id option \<Rightarrow> (string option, io_error) result" where
  "latest mc alloc fs d shard applied =
     rbind (list_entries mc alloc fs d) (\<lambda>entries.
       Inr (map_option snd (fold (latest_step shard applied) entries None)))"

section \<open>Retention\<close>

definition remove_file :: "string \<Rightarrow> SnapDir \<Rightarrow> SnapDir" where
  "remove_file name d = d\<lparr>sd_root := map_option (filter (\<lambda>e. de_name e \<noteq> name)) (sd_root d)\<rparr>"

fun retain_loop ::
  "fs \<Rightarrow> nat \<Rightarrow> SnapDir \<Rightarrow> ((u64 \<times> u64) \<times> string) list \<Rightarrow> string list \<Rightarrow> SnapDir \<times> (string list, io_error) result" where
  "retain_loop fs keep d [] removed = (d, Inr removed)"
| "retain_loop fs keep d ((point, path) # rest) removed =
     (if Suc (length rest) > keep
      then (if fs_remove fs path then retain_loop fs keep (remove_file path d) rest (removed @ [path])
            else (d, Inl (OsError ''remove_file'')))
      else (d, Inr removed))"

definition own_snapshots :: "u64 \<Rightarrow> 'm SnapshotEntry list \<Rightarrow> ((u64 \<times> u64) \<times> string) list" where
  "own_snapshots shard entries =
     map (\<lambda>e. (snap_point (Option.bind (se_meta e) sn_last_log_id), se_path e))
       (filter (\<lambda>e. map_option sh_shard_id (se_header e) = Some shard) entries)"

definition retain ::
  "'m meta_codec \<Rightarrow> (u64 \<Rightarrow> bool) \<Rightarrow> fs \<Rightarrow> SnapDir \<Rightarrow> u64 \<Rightarrow> nat \<Rightarrow> SnapDir \<times> (string list, io_error) result" where
  "retain mc alloc fs d shard keep =
     (if keep = 0 then (d, Inl (OsError ''keep''))
      else case list_entries mc alloc fs d of
          Inl e \<Rightarrow> (d, Inl e)
        | Inr entries \<Rightarrow> retain_loop fs keep d (sort_key fst (own_snapshots shard entries)) [])"

text \<open>Temporary files left over from an interrupted transfer; a file that cannot be removed stays.\<close>

definition cleanup_incoming :: "fs \<Rightarrow> SnapDir \<Rightarrow> SnapDir \<times> (nat, io_error) result" where
  "cleanup_incoming fs d =
     (case sd_incoming d of
        None \<Rightarrow> (d, Inr 0)
      | Some files \<Rightarrow>
          if \<not> fs_list fs then (d, Inl (OsError ''read_dir''))
          else (let gone = (\<lambda>e. de_is_file e \<and> file_extension (de_name e) = Some ''tmp'' \<and> fs_remove fs (''incoming/'' @ de_name e))
                in (d\<lparr>sd_incoming := Some (filter (\<lambda>e. \<not> gone e) files)\<rparr>, Inr (length (filter gone files)))))"

section \<open>Names sort as numbers\<close>

lemma digit_less_iff:
  "a < 10 \<Longrightarrow> b < 10 \<Longrightarrow> (char_of (48 + a) :: char) < char_of (48 + b) \<longleftrightarrow> a < (b :: nat)"
  by (simp add: less_char_def)

lemma digit_eq_iff: "a < 10 \<Longrightarrow> b < 10 \<Longrightarrow> (char_of (48 + a) :: char) = char_of (48 + b) \<longleftrightarrow> a = (b :: nat)"
  using digit_less_iff [of a b] digit_less_iff [of b a] by (metis less_irrefl linorder_cases)

lemma decimal_length: "n < 10 ^ Suc k \<Longrightarrow> length (decimal n) \<le> Suc k"
proof (induction k arbitrary: n)
  case 0
  then show ?case by (simp add: decimal.simps [of n])
next
  case (Suc k)
  then have "n div 10 < 10 ^ Suc k" by simp
  from Suc.IH [OF this] show ?case by (simp add: decimal.simps [of n])
qed

lemma padded_Suc:
  assumes "0 < k" "n < 10 ^ Suc k"
  shows "padded (Suc k) n = padded k (n div 10) @ [char_of (48 + n mod 10)]"
proof (cases "n < 10")
  case True
  have "replicate (k - 1) (CHR ''0'') @ [CHR ''0''] = replicate k (CHR ''0'')"
    using assms(1) by (metis Suc_diff_1 replicate_Suc replicate_append_same)
  moreover have "char_of (48 :: nat) = CHR ''0''" by code_simp
  ultimately show ?thesis using True by (simp add: padded_def decimal.simps [of n] decimal.simps [of 0])
next
  case False
  then show ?thesis by (simp add: padded_def decimal.simps [of n])
qed

lemma length_padded: "0 < k \<Longrightarrow> n < 10 ^ k \<Longrightarrow> length (padded k n) = k"
  using decimal_length [of n "k - 1"] by (simp add: padded_def)

lemma padded_less_iff:
  "0 < k \<Longrightarrow> a < 10 ^ k \<Longrightarrow> b < 10 ^ k \<Longrightarrow> padded k a < padded k b \<longleftrightarrow> a < b"
proof (induction k arbitrary: a b)
  case (Suc k)
  show ?case
  proof (cases "k = 0")
    case True
    with Suc.prems show ?thesis by (simp add: padded_def decimal.simps [of a] decimal.simps [of b] digit_less_iff)
  next
    case False
    then have k: "0 < k" "a div 10 < 10 ^ k" "b div 10 < 10 ^ k" using Suc.prems by simp_all
    note IH = Suc.IH [OF k] Suc.IH [OF k(1,3,2)]
    then have eq: "padded k (a div 10) = padded k (b div 10) \<longleftrightarrow> a div 10 = b div 10"
      by (metis less_irrefl linorder_cases)
    have "padded (Suc k) a < padded (Suc k) b \<longleftrightarrow> a div 10 < b div 10 \<or> a div 10 = b div 10 \<and> a mod 10 < b mod 10"
      using IH(1) eq k Suc.prems
      by (simp add: padded_Suc lexord_append_same_length length_padded digit_less_iff)
    also have "\<dots> \<longleftrightarrow> a div 10 * 10 + a mod 10 < b div 10 * 10 + b mod 10"
      by (subst positional_less_iff) simp_all
    finally show ?thesis by simp
  qed
qed simp

lemma padded_eq_iff: "0 < k \<Longrightarrow> a < 10 ^ k \<Longrightarrow> b < 10 ^ k \<Longrightarrow> padded k a = padded k b \<longleftrightarrow> a = b"
  using padded_less_iff [of k a b] padded_less_iff [of k b a] by (metis less_irrefl linorder_cases)

lemma unat_20: "unat (x :: u64) < 10 ^ 20"
  using unsigned_less [where ?'a = nat, of x] by simp

lemma padded_20:
  "length (padded 20 (unat (x :: u64))) = 20" "padded 20 (unat x) < padded 20 (unat y) \<longleftrightarrow> x < (y :: u64)"
  "padded 20 (unat x) = padded 20 (unat y) \<longleftrightarrow> x = (y :: u64)"
  using unat_20 [of x] unat_20 [of y]
  by (simp_all add: length_padded padded_less_iff padded_eq_iff word_less_nat_alt word_unat_eq_iff)

definition decimal_value :: "string \<Rightarrow> nat" where
  "decimal_value s = foldl (\<lambda>a c. a * 10 + (of_char c - 48)) 0 s"

lemma decimal_value_decimal: "decimal_value (decimal n) = n"
proof (induction n rule: decimal.induct)
  case (1 n)
  then show ?case by (simp add: decimal.simps [of n] decimal_value_def)
qed

lemma decimal_value_padded [simp]: "decimal_value (padded w n) = n"
proof -
  have "decimal_value (replicate k (CHR ''0'') @ s) = decimal_value s" for k s
    by (induction k) (simp_all add: decimal_value_def)
  then show ?thesis by (simp add: padded_def decimal_value_decimal)
qed

lemma final_path_parts:
  "final_path s l = ''snap-'' @ padded 8 (unat s) @ ''-'' @ padded 20 (unat (fst (snap_point l))) @ ''-''
     @ padded 20 (unat (snd (snap_point l))) @ ''.esnap''"
  by (simp add: final_path_def split_beta)

lemma final_path_inject: "final_path s l = final_path s' l' \<longleftrightarrow> s = s' \<and> snap_point l = snap_point l'"
proof
  assume eq: "final_path s l = final_path s' l'"
  let ?tail = "\<lambda>l. ''-'' @ padded 20 (unat (fst (snap_point l))) @ ''-'' @ padded 20 (unat (snd (snap_point l))) @ ''.esnap''"
  have len: "length (?tail l) = length (?tail l')" for l l' by (simp add: padded_20)
  from eq have "padded 8 (unat s) @ ?tail l = padded 8 (unat s') @ ?tail l'" by (simp add: final_path_parts)
  then have "padded 8 (unat s) = padded 8 (unat s')" "?tail l = ?tail l'"
    using append_eq_append_conv [OF disjI2 [OF len]] by blast+
  moreover from this(1) have "unat s = unat s'" by (metis decimal_value_padded)
  ultimately show "s = s' \<and> snap_point l = snap_point l'"
    by (simp add: padded_20 word_unat_eq_iff prod_eq_iff)
qed (simp add: final_path_parts)

lemma final_path_less: "final_path s l < final_path s l' \<longleftrightarrow> snap_point l < snap_point l'"
  by (simp add: final_path_parts lexord_append_same_length padded_20 less_prod_def' prod_eq_iff)

section \<open>Choosing and retaining\<close>

text \<open>The files of the directory that hold a snapshot of the shard, with their meta data.\<close>

definition own_file ::
  "'m meta_codec \<Rightarrow> (u64 \<Rightarrow> bool) \<Rightarrow> fs \<Rightarrow> u64 \<Rightarrow> dir_entry \<Rightarrow> 'm SnapshotMeta \<Rightarrow> bool" where
  "own_file mc alloc fs shard f m \<longleftrightarrow> de_is_file f \<and> file_extension (de_name f) = Some ''esnap'' \<and> fs_open fs (de_name f)
     \<and> (\<exists>h rest. read_header mc alloc (de_bytes f) = Inr ((h, m), rest) \<and> sh_shard_id h = shard)"

definition not_ahead :: "log_id option \<Rightarrow> 'm SnapshotMeta \<Rightarrow> bool" where
  "not_ahead applied m \<longleftrightarrow> (case (applied, sn_last_log_id m) of
     (Some a, Some l) \<Rightarrow> (li_term l, li_index l) \<le> (li_term a, li_index a) | _ \<Rightarrow> True)"

text \<open>A fold that keeps the best key seen so far, the first one among equals.\<close>

lemma fold_best:
  fixes key :: "'e \<Rightarrow> 'k::linorder option"
  assumes "\<And>e best. step e best = (case key e of None \<Rightarrow> best
      | Some k \<Rightarrow> (case best of Some (b, _) \<Rightarrow> if b \<ge> k then best else Some (k, path e) | None \<Rightarrow> Some (k, path e)))"
  shows "case fold step es None of
      None \<Rightarrow> \<forall>e \<in> set es. key e = None
    | Some (k, p) \<Rightarrow> (\<exists>e \<in> set es. key e = Some k \<and> path e = p) \<and> (\<forall>e \<in> set es. \<forall>k'. key e = Some k' \<longrightarrow> k' \<le> k)"
proof (induction es rule: rev_induct)
  case (snoc e es)
  let ?best = "fold step es None"
  have step: "fold step (es @ [e]) None = step e ?best" by simp
  show ?case
  proof (cases "key e")
    case None
    then have "step e ?best = ?best" using assms [of e ?best] by simp
    with snoc None show ?thesis unfolding step by (auto split: option.splits)
  next
    case (Some k)
    show ?thesis
    proof (cases ?best)
      case None
      then have "step e ?best = Some (k, path e)" using assms [of e ?best] Some by simp
      with snoc None Some show ?thesis unfolding step by simp
    next
      case best: (Some bp)
      obtain b p where bp: "?best = Some (b, p)" using best by (cases bp) simp
      then have "step e ?best = (if b \<ge> k then Some (b, p) else Some (k, path e))"
        using assms [of e ?best] Some by simp
      with snoc bp Some show ?thesis
        unfolding step by (cases "b \<ge> k") (auto simp: not_le dest: less_imp_le order_trans)
    qed
  qed
qed simp

definition entry_point :: "u64 \<Rightarrow> log_id option \<Rightarrow> 'm SnapshotEntry \<Rightarrow> (u64 \<times> u64) option" where
  "entry_point shard applied e = (case (se_header e, se_meta e) of
     (Some h, Some m) \<Rightarrow> if sh_shard_id h = shard \<and> not_ahead applied m then Some (snap_point (sn_last_log_id m)) else None
   | _ \<Rightarrow> None)"

lemma latest_step_eq:
  "latest_step shard applied e best = (case entry_point shard applied e of None \<Rightarrow> best
     | Some k \<Rightarrow> (case best of Some (b, _) \<Rightarrow> if b \<ge> k then best else Some (k, se_path e) | None \<Rightarrow> Some (k, se_path e)))"
  by (auto simp: latest_step_def entry_point_def not_ahead_def Let_def not_le split: option.splits)

lemma entry_point_of:
  assumes "de_is_file f" "file_extension (de_name f) = Some ''esnap''"
  shows "entry_point shard applied (entry_of mc alloc fs f) = Some k \<longleftrightarrow>
    (\<exists>m. own_file mc alloc fs shard f m \<and> not_ahead applied m \<and> k = snap_point (sn_last_log_id m))"
  using assms by (auto simp: entry_point_def entry_of_def own_file_def Let_def split: sum.splits)

lemma se_path_entry_of [simp]: "se_path (entry_of mc alloc fs f) = de_name f"
  by (auto simp: entry_of_def Let_def split: sum.split)

lemma retain_loop_result:
  assumes "retain_loop fs keep d xs removed = (d', r)"
  obtains k where "k \<le> length xs - keep" "d' = fold remove_file (map snd (take k xs)) d"
    "\<not> is_err r \<Longrightarrow> k = length xs - keep \<and> r = Inr (removed @ map snd (take k xs))"
proof -
  have "\<exists>k. k \<le> length xs - keep \<and> d' = fold remove_file (map snd (take k xs)) d
      \<and> (\<not> is_err r \<longrightarrow> k = length xs - keep \<and> r = Inr (removed @ map snd (take k xs)))"
    using assms
  proof (induction fs keep d xs removed rule: retain_loop.induct)
    case (1 fs keep d removed)
    then show ?case by auto
  next
    case (2 fs keep d point path rest removed)
    show ?case
    proof (cases "Suc (length rest) > keep \<and> fs_remove fs path")
      case True
      with 2 obtain k where "k \<le> length rest - keep" "d' = fold remove_file (map snd (take k rest)) (remove_file path d)"
        "\<not> is_err r \<longrightarrow> k = length rest - keep \<and> r = Inr ((removed @ [path]) @ map snd (take k rest))"
        by auto
      with True show ?thesis by (intro exI [of _ "Suc k"]) auto
    next
      case False
      with 2(2) show ?thesis by (intro exI [of _ 0]) (auto split: if_splits)
    qed
  qed
  with that show thesis by blast
qed

lemma sd_root_remove: "sd_root (remove_file n d) = map_option (filter (\<lambda>e. de_name e \<noteq> n)) (sd_root d)"
  by (simp add: remove_file_def)

lemma root_remove_files:
  "sd_root (fold remove_file names d) = map_option (filter (\<lambda>e. de_name e \<notin> set names)) (sd_root d)"
proof (induction names arbitrary: d)
  case Nil
  then show ?case by (simp add: option.map_ident)
next
  case (Cons n names)
  then show ?case by (simp add: sd_root_remove option.map_comp comp_def conj_commute)
qed

definition file_point :: "'m meta_codec \<Rightarrow> (u64 \<Rightarrow> bool) \<Rightarrow> fs \<Rightarrow> dir_entry \<Rightarrow> u64 \<times> u64" where
  "file_point mc alloc fs f = snap_point (Option.bind (se_meta (entry_of mc alloc fs f)) sn_last_log_id)"

definition is_own :: "'m meta_codec \<Rightarrow> (u64 \<Rightarrow> bool) \<Rightarrow> fs \<Rightarrow> u64 \<Rightarrow> dir_entry \<Rightarrow> bool" where
  "is_own mc alloc fs shard f \<longleftrightarrow> (\<exists>m. own_file mc alloc fs shard f m)"

lemma own_file_point: "own_file mc alloc fs shard f m \<Longrightarrow> file_point mc alloc fs f = snap_point (sn_last_log_id m)"
  by (auto simp: own_file_def file_point_def entry_of_def Let_def)

lemma is_own_iff:
  "is_own mc alloc fs shard f \<longleftrightarrow> de_is_file f \<and> file_extension (de_name f) = Some ''esnap''
     \<and> map_option sh_shard_id (se_header (entry_of mc alloc fs f)) = Some shard"
  by (auto simp: is_own_def own_file_def entry_of_def Let_def split: sum.splits)

lemma own_snapshots_files:
  "own_snapshots shard (map (entry_of mc alloc fs) (filter (\<lambda>e. de_is_file e \<and> file_extension (de_name e) = Some ''esnap'') files))
     = map (\<lambda>f. (file_point mc alloc fs f, de_name f)) (filter (is_own mc alloc fs shard) files)"
  by (induction files) (auto simp: own_snapshots_def is_own_iff file_point_def)

text \<open>Deleting a prefix of the sorted snapshots keeps the newest ones.\<close>

lemma sorted_prefix_dropped:
  fixes files :: "dir_entry list" and pt :: "dir_entry \<Rightarrow> 'k::linorder"
  assumes xs: "xs = sort_key fst (map (\<lambda>f. (pt f, de_name f)) (filter own files))"
    and dist: "distinct (map de_name files)" and gone: "gone = set (map snd (take k xs))" and k: "k \<le> length xs"
  shows "f \<in> set files \<Longrightarrow> de_name f \<in> gone \<Longrightarrow> own f"
    and "f \<in> set files \<Longrightarrow> de_name f \<in> gone \<Longrightarrow> f' \<in> set files \<Longrightarrow> own f' \<Longrightarrow> de_name f' \<notin> gone \<Longrightarrow> pt f \<le> pt f'"
    and "length (filter own (filter (\<lambda>f. de_name f \<notin> gone) files)) = length xs - k"
proof -
  have set: "set xs = {(pt f, de_name f) | f. f \<in> set files \<and> own f}" by (auto simp: xs)
  have mem: "own f \<and> (pt f, de_name f) \<in> set (take k xs)" if f: "f \<in> set files" "de_name f \<in> gone" for f
  proof -
    from f(2) obtain p where p: "(p, de_name f) \<in> set (take k xs)" by (auto simp: gone)
    then have "(p, de_name f) \<in> set xs" by (rule in_set_takeD)
    then obtain g where g: "g \<in> set files" "own g" "p = pt g" "de_name g = de_name f" by (auto simp: set)
    with f(1) dist have "g = f" by (auto simp: distinct_map dest: inj_onD)
    with g p show ?thesis by simp
  qed
  show "f \<in> set files \<Longrightarrow> de_name f \<in> gone \<Longrightarrow> own f" using mem by blast
  have srt: "sorted (map fst (take k xs @ drop k xs))" by (simp add: xs)
  show "pt f \<le> pt f'" if "f \<in> set files" "de_name f \<in> gone" "f' \<in> set files" "own f'" "de_name f' \<notin> gone"
  proof -
    have "(pt f', de_name f') \<in> set xs" using that by (auto simp: set)
    then have "(pt f', de_name f') \<in> set (take k xs) \<union> set (drop k xs)" by (metis append_take_drop_id set_append)
    moreover have "(pt f', de_name f') \<notin> set (take k xs)" using that(5) by (force simp: gone)
    ultimately have "(pt f', de_name f') \<in> set (drop k xs)" by simp
    with mem [OF that(1,2)] srt show ?thesis unfolding map_append sorted_append by force
  qed
  have names: "mset (map snd xs) = mset (map de_name (filter own files))"
    by (simp add: xs image_mset.compositionality comp_def)
  have distx: "distinct (map snd xs)"
    using mset_eq_imp_distinct_iff [OF names] distinct_filter dist by (metis distinct_map_filter)
  have "length (filter own (filter (\<lambda>f. de_name f \<notin> gone) files)) =
      length (filter (\<lambda>n. n \<notin> gone) (map de_name (filter own files)))"
    by (simp add: filter_map comp_def conj_commute)
  also have "\<dots> = size (filter_mset (\<lambda>n. n \<notin> gone) (mset (map de_name (filter own files))))"
    by (metis mset_filter size_mset)
  also have "\<dots> = length (filter (\<lambda>n. n \<notin> gone) (map snd (take k xs @ drop k xs)))"
    unfolding names [symmetric] by (metis append_take_drop_id mset_filter size_mset)
  also have "\<dots> = length (drop k xs)"
  proof -
    have "distinct (map snd (take k xs) @ map snd (drop k xs))" using distx by (metis append_take_drop_id map_append)
    then have "filter (\<lambda>n. n \<notin> gone) (map snd (drop k xs)) = map snd (drop k xs)"
      by (auto simp: filter_id_conv gone)
    moreover have "filter (\<lambda>n. n \<notin> gone) (map snd (take k xs)) = []" by (auto simp: gone filter_empty_conv)
    ultimately show ?thesis by (simp only: map_append filter_append) simp
  qed
  finally show "length (filter own (filter (\<lambda>f. de_name f \<notin> gone) files)) = length xs - k" by simp
qed

section \<open>Properties\<close>

text \<open>The current snapshot is the newest one the node may use. \<open>latest\<close> finds a file exactly if the
  directory has a readable snapshot of this shard that is not ahead of what the state machine applied;
  then it is such a file and none has a larger term and index. Snapshots of other shards in the shared
  directory, damaged files and left-overs newer than the state machine never count.\<close>

theorem latest_newest_own:
  assumes run: "latest mc alloc fs d shard applied = Inr r" and root: "sd_root d = Some files"
  shows "(r = None \<longleftrightarrow> \<not> (\<exists>f \<in> set files. \<exists>m. own_file mc alloc fs shard f m \<and> not_ahead applied m))
    \<and> (\<forall>p. r = Some p \<longrightarrow> (\<exists>f \<in> set files. \<exists>m. own_file mc alloc fs shard f m \<and> not_ahead applied m \<and> de_name f = p
        \<and> (\<forall>f' \<in> set files. \<forall>m'. own_file mc alloc fs shard f' m' \<and> not_ahead applied m' \<longrightarrow>
            snap_point (sn_last_log_id m') \<le> snap_point (sn_last_log_id m))))"
proof -
  let ?ext = "\<lambda>e. de_is_file e \<and> file_extension (de_name e) = Some ''esnap''"
  let ?es = "map (entry_of mc alloc fs) (filter ?ext files)" and ?key = "entry_point shard applied"
  have r: "r = map_option snd (fold (latest_step shard applied) ?es None)"
    using run root by (auto simp: latest_def list_entries_def rbind_Inr_iff split: if_splits)
  note B = fold_best [where step = "latest_step shard applied" and key = ?key and path = se_path and es = ?es,
      OF latest_step_eq]
  have key: "?key (entry_of mc alloc fs f) = Some k \<longleftrightarrow>
      (\<exists>m. own_file mc alloc fs shard f m \<and> not_ahead applied m \<and> k = snap_point (sn_last_log_id m))" if "?ext f" for f k
    using entry_point_of that by blast
  have own: "?ext f" if "own_file mc alloc fs shard f m" for f m using that by (simp add: own_file_def)
  show ?thesis
  proof (cases "fold (latest_step shard applied) ?es None")
    case None
    with B have none: "?key (entry_of mc alloc fs f) = None" if "f \<in> set files" "?ext f" for f using that by auto
    have "\<not> not_ahead applied m" if "f \<in> set files" "own_file mc alloc fs shard f m" for f m
      using none [OF that(1) own [OF that(2)]] key [OF own [OF that(2)], of "snap_point (sn_last_log_id m)"] that(2) by auto
    with r None show ?thesis by auto
  next
    case (Some kp)
    obtain k p where kp: "fold (latest_step shard applied) ?es None = Some (k, p)" using Some by (cases kp) simp
    with B obtain f where f: "f \<in> set files" "?ext f" "?key (entry_of mc alloc fs f) = Some k" "de_name f = p" by auto
    from key [OF f(2)] f(3) obtain m where m: "own_file mc alloc fs shard f m" "not_ahead applied m" "k = snap_point (sn_last_log_id m)"
      by blast
    have "snap_point (sn_last_log_id m') \<le> k" if "f' \<in> set files" "own_file mc alloc fs shard f' m'" "not_ahead applied m'" for f' m'
    proof -
      have "?key (entry_of mc alloc fs f') = Some (snap_point (sn_last_log_id m'))"
        using key [OF own [OF that(2)]] that(2,3) by blast
      moreover have "entry_of mc alloc fs f' \<in> set ?es" using that(1) own [OF that(2)] by simp
      ultimately show ?thesis using B unfolding kp option.case prod.case by blast
    qed
    with r kp f m show ?thesis by auto
  qed
qed

text \<open>A shared directory: snapshots of shard 1 at indices 3 and 5, one of shard 2 at 9 and a text file.\<close>

definition sample_meta_at :: "u64 \<Rightarrow> unit SnapshotMeta" where
  "sample_meta_at i = \<lparr>sn_last_log_id = Some \<lparr>li_term = 1, li_node = 1, li_index = i\<rparr>,
     sn_last_membership = \<lparr>sm_log_id = None, sm_config = ()\<rparr>, sn_snapshot_id = ''x''\<rparr>"

definition sample_snapshot :: "u64 \<Rightarrow> u64 \<Rightarrow> dir_entry" where
  "sample_snapshot shard i = \<lparr>de_name = final_path shard (sn_last_log_id (sample_meta_at i)), de_is_file = True, de_mtime = 0,
     de_bytes = (case rbind (snapshot_header sample_meta_codec CNone shard (sample_meta_at i) [])
        (\<lambda>h. snapshot_image sample_zip sample_meta_codec h (sample_meta_at i) []) of Inr b \<Rightarrow> b | Inl _ \<Rightarrow> [])\<rparr>"

definition sample_files :: "dir_entry list" where
  "sample_files = [sample_snapshot 1 5, sample_snapshot 2 9, sample_snapshot 1 3,
     \<lparr>de_name = ''notes.txt'', de_is_file = True, de_mtime = 0, de_bytes = []\<rparr>]"

definition sample_dir :: SnapDir where
  "sample_dir = \<lparr>sd_root = Some sample_files, sd_incoming = Some []\<rparr>"

definition sample_fs :: fs where
  "sample_fs = \<lparr>fs_list = True, fs_open = \<lambda>_. True, fs_remove = \<lambda>_. True, fs_rename = \<lambda>_ _. True, fs_copy = \<lambda>_. True,
     fs_mkdir = True, fs_create = \<lambda>_. True\<rparr>"

theorem latest_newest_own_witness:
  "\<exists>f \<in> set sample_files. \<exists>m. own_file sample_meta_codec (\<lambda>_. True) sample_fs 1 f m
     \<and> not_ahead (Some \<lparr>li_term = 1, li_node = 1, li_index = 4\<rparr>) m
     \<and> de_name f = ''snap-00000001-00000000000000000001-00000000000000000003.esnap''"
proof -
  have "latest sample_meta_codec (\<lambda>_. True) sample_fs sample_dir 1 (Some \<lparr>li_term = 1, li_node = 1, li_index = 4\<rparr>) =
      Inr (Some ''snap-00000001-00000000000000000001-00000000000000000003.esnap'')"
    by code_simp
  from latest_newest_own [OF this, of sample_files] show ?thesis by (auto simp: sample_dir_def)
qed

text \<open>C22: retention removes the oldest snapshots of the shard and nothing else. Whether it succeeds or
  stops at a file it cannot remove: what is gone are snapshots of this shard, each no newer than every
  snapshot of the shard that is left; at least \<open>keep\<close> of them (or all) are left, and after a success
  exactly that many. Files of other shards, unreadable files and other file types stay.\<close>

theorem retain_keeps_newest:
  assumes run: "retain mc alloc fs d shard keep = (d', r)" and keep: "0 < keep"
    and root: "sd_root d = Some files" and names: "distinct (map de_name files)"
  shows "\<exists>gone. sd_root d' = Some (filter (\<lambda>f. de_name f \<notin> gone) files)
    \<and> (\<forall>f \<in> set files. de_name f \<in> gone \<longrightarrow> is_own mc alloc fs shard f
        \<and> (\<forall>f' \<in> set files. is_own mc alloc fs shard f' \<and> de_name f' \<notin> gone \<longrightarrow>
            file_point mc alloc fs f \<le> file_point mc alloc fs f'))
    \<and> min keep (length (filter (is_own mc alloc fs shard) files))
        \<le> length (filter (is_own mc alloc fs shard) (filter (\<lambda>f. de_name f \<notin> gone) files))
    \<and> (\<not> is_err r \<longrightarrow> length (filter (is_own mc alloc fs shard) (filter (\<lambda>f. de_name f \<notin> gone) files)) \<le> keep)"
proof (cases "fs_list fs")
  case False
  with run root keep have "d' = d" "is_err r" by (auto simp: retain_def list_entries_def)
  with root show ?thesis by (intro exI [of _ "{}"]) simp
next
  case True
  define xs where "xs = sort_key fst (map (\<lambda>f. (file_point mc alloc fs f, de_name f)) (filter (is_own mc alloc fs shard) files))"
  have loop: "retain_loop fs keep d xs [] = (d', r)"
    using run keep root True by (simp add: retain_def list_entries_def own_snapshots_files xs_def)
  obtain k where k: "k \<le> length xs - keep" "d' = fold remove_file (map snd (take k xs)) d"
    "\<not> is_err r \<Longrightarrow> k = length xs - keep \<and> r = Inr ([] @ map snd (take k xs))"
    using retain_loop_result [OF loop] by blast
  let ?gone = "set (map snd (take k xs))"
  have "k \<le> length xs" using k(1) by simp
  note S = sorted_prefix_dropped [OF xs_def names refl this]
  have len: "length xs = length (filter (is_own mc alloc fs shard) files)" by (simp add: xs_def)
  have "sd_root d' = Some (filter (\<lambda>f. de_name f \<notin> ?gone) files)" using k(2) root by (simp add: root_remove_files)
  moreover have "min keep (length (filter (is_own mc alloc fs shard) files)) \<le> length xs - k" using k(1) len by simp
  moreover have "\<not> is_err r \<Longrightarrow> length xs - k \<le> keep" using k(3) by simp
  ultimately show ?thesis using S(1,2) by (intro exI [of _ ?gone]) (auto simp only: S(3))
qed

theorem retain_keeps_newest_witness:
  "\<exists>d'. retain sample_meta_codec (\<lambda>_. True) sample_fs sample_dir 1 1 =
       (d', Inr [''snap-00000001-00000000000000000001-00000000000000000003.esnap''])
     \<and> (\<exists>files'. sd_root d' = Some files'
         \<and> length (filter (is_own sample_meta_codec (\<lambda>_. True) sample_fs 1) files') = 1)"
proof -
  let ?r = "retain sample_meta_codec (\<lambda>_. True) sample_fs sample_dir 1 1"
  have snd: "snd ?r = Inr [''snap-00000001-00000000000000000001-00000000000000000003.esnap'']" by code_simp
  have len: "length (filter (is_own sample_meta_codec (\<lambda>_. True) sample_fs 1) sample_files) = 2"
    unfolding is_own_iff by code_simp
  have dist: "distinct (map de_name sample_files)" by code_simp
  obtain d' where run: "?r = (d', Inr [''snap-00000001-00000000000000000001-00000000000000000003.esnap''])"
    using snd by (metis prod.collapse)
  have root: "sd_root sample_dir = Some sample_files" by (simp add: sample_dir_def)
  from retain_keeps_newest [OF run _ root dist] len obtain gone where
    "sd_root d' = Some (filter (\<lambda>f. de_name f \<notin> gone) sample_files)"
    "length (filter (is_own sample_meta_codec (\<lambda>_. True) sample_fs 1) (filter (\<lambda>f. de_name f \<notin> gone) sample_files)) = 1"
    by (auto simp del: filter_filter)
  with run show ?thesis by blast
qed

text \<open>Snapshot files of a shard sort by name as by term and index, and no two snapshot points of any
  shards share a name, up to the largest 64-bit values.\<close>

theorem final_path_order:
  "(final_path s l < final_path s l' \<longleftrightarrow> snap_point l < snap_point l')
   \<and> (final_path s l = final_path s' l' \<longleftrightarrow> s = s' \<and> snap_point l = snap_point l')"
  by (simp add: final_path_less final_path_inject)

end
