(* ===== verification/Log_Store.thy ===== *)
theory Log_Store
  imports Scans Apply_Refinement
begin

text \<open>
  The Raft log and its marks, \<open>es-storage/src/log_storage.rs\<close>, over the store of a shard: vote,
  committed mark, purge mark and the entries, with the appends, truncations and purges openraft
  asks for. An operation that commits twice (\<open>purge\<close>) returns the storage it leaves behind together
  with its result, so that a failure between the two commits is a state of the model. The lemmas
  relate each operation to the typed shard: the entry map, the range reads, the log state.
\<close>

section \<open>Operations\<close>

record LogState =
  ls_last_purged :: "log_id option"
  ls_last_log_id :: "log_id option"

fun as_log_id where "as_log_id (VLogId l) = Some l" | "as_log_id _ = None"
fun as_vote where "as_vote (VVote v) = Some v" | "as_vote _ = None"
fun as_entry where "as_entry (VEntry e) = Some e" | "as_entry _ = None"

text \<open>The writers only store \<open>Some\<close>: a stored \<open>None\<close> is corruption and is reported.\<close>

definition read_last_purged ::
  "'db kv \<Rightarrow> 'm codec \<Rightarrow> ('db, 'm) EsStorage \<Rightarrow> (log_id option, Error) result" where
  "read_last_purged kv cd st =
     rbind (read_typed kv cd st LastPurgedKey as_log_id) (\<lambda>o'.
       case o' of
         None \<Rightarrow> Inr None
       | Some (Some l) \<Rightarrow> Inr (Some l)
       | Some None \<Rightarrow> Inl (Serde ''last_purged''))"

definition get_log_state ::
  "'db kv \<Rightarrow> 'm codec \<Rightarrow> ('db, 'm) EsStorage \<Rightarrow> (LogState, Error) result" where
  "get_log_state kv cd st =
     rbind (read_last_purged kv cd st) (\<lambda>last_purged.
     rbind (read_last_log_id kv cd st) (\<lambda>last_in_log.
     Inr \<lparr>ls_last_purged = last_purged,
          ls_last_log_id = (case last_in_log of Some x \<Rightarrow> Some x | None \<Rightarrow> last_purged)\<rparr>))"

definition save_committed ::
  "'db kv \<Rightarrow> 'm codec \<Rightarrow> ('db, 'm) EsStorage \<Rightarrow> log_id option \<Rightarrow> (('db, 'm) EsStorage, Error) result" where
  "save_committed kv cd st committed =
     rbind (encode_value cd (VLogId committed)) (\<lambda>v.
       es_set kv st (encode_key (es_shard_id st) CommittedKey) v)"

definition read_committed ::
  "'db kv \<Rightarrow> 'm codec \<Rightarrow> ('db, 'm) EsStorage \<Rightarrow> (log_id option, Error) result" where
  "read_committed kv cd st =
     rbind (read_typed kv cd st CommittedKey as_log_id) (\<lambda>o'.
       Inr (case o' of None \<Rightarrow> None | Some committed \<Rightarrow> committed))"

definition save_vote ::
  "'db kv \<Rightarrow> 'm codec \<Rightarrow> ('db, 'm) EsStorage \<Rightarrow> vote \<Rightarrow> (('db, 'm) EsStorage, Error) result" where
  "save_vote kv cd st vote =
     rbind (encode_value cd (VVote vote)) (\<lambda>v. es_set kv st (encode_key (es_shard_id st) VoteKey) v)"

definition read_vote ::
  "'db kv \<Rightarrow> 'm codec \<Rightarrow> ('db, 'm) EsStorage \<Rightarrow> (vote option, Error) result" where
  "read_vote kv cd st = read_typed kv cd st VoteKey as_vote"

fun encode_entries :: "'m codec \<Rightarrow> u64 \<Rightarrow> 'm Entry list \<Rightarrow> (kv_op list, Error) result" where
  "encode_entries cd shard [] = Inr []"
| "encode_entries cd shard (e # es) =
     rbind (encode_value cd (VEntry e)) (\<lambda>v.
     rbind (encode_entries cd shard es) (\<lambda>ops.
     Inr (KvSet (encode_key shard (LogEntryKey (li_index (en_log_id e)))) v # ops)))"

text \<open>One transaction for the batch; the flush callback runs after the commit.\<close>

definition log_append ::
  "'db kv \<Rightarrow> 'm codec \<Rightarrow> ('db, 'm) EsStorage \<Rightarrow> 'm Entry list \<Rightarrow> (('db, 'm) EsStorage, Error) result" where
  "log_append kv cd st entries =
     rbind (encode_entries cd (es_shard_id st) entries) (\<lambda>ops. es_commit kv st ops)"

definition truncate_log ::
  "'db kv \<Rightarrow> ('db, 'm) EsStorage \<Rightarrow> log_id \<Rightarrow> (('db, 'm) EsStorage, Error) result" where
  "truncate_log kv st l =
     rbind (collect_keys kv st (raft_log_entry (es_shard_id st) (li_index l)) (raft_log_upper (es_shard_id st)))
       (\<lambda>ks. delete_batch kv st ks)"

definition purge ::
  "'db kv \<Rightarrow> 'm codec \<Rightarrow> ('db, 'm) EsStorage \<Rightarrow> log_id \<Rightarrow> ('db, 'm) EsStorage \<times> (unit, Error) result" where
  "purge kv cd st l =
     (case rbind (encode_value cd (VLogId (Some l))) (\<lambda>v.
             es_set kv st (encode_key (es_shard_id st) LastPurgedKey) v) of
        Inl e \<Rightarrow> (st, Inl e)
      | Inr st1 \<Rightarrow>
          let s = es_shard_id st;
              end_key = (case checked_add (li_index l) 1 of
                  Some n \<Rightarrow> raft_log_entry s n
                | None \<Rightarrow> raft_log_upper s)
          in case rbind (collect_keys kv st1 (raft_log_prefix s) end_key) (\<lambda>ks. delete_batch kv st1 ks) of
               Inl e \<Rightarrow> (st1, Inl e)
             | Inr st2 \<Rightarrow> (st2, Inr ()))"

section \<open>The typed log\<close>

definition log_at :: "'m shard \<Rightarrow> u64 \<Rightarrow> 'm Entry option" where
  "log_at T i = at T (LogEntryKey i) as_entry"

fun in_bounds :: "bound \<Rightarrow> bound \<Rightarrow> u64 \<Rightarrow> bool" where
  "in_bounds lo hi i \<longleftrightarrow>
     (case lo of Included a \<Rightarrow> a \<le> i | Excluded a \<Rightarrow> a < i | Unbounded \<Rightarrow> True)
     \<and> (case hi of Included b \<Rightarrow> i \<le> b | Excluded b \<Rightarrow> i < b | Unbounded \<Rightarrow> True)"

text \<open>An entry is stored under its own index.\<close>

definition log_wf :: "'m shard \<Rightarrow> bool" where
  "log_wf T \<longleftrightarrow> (\<forall>i e. log_at T i = Some e \<longrightarrow> li_index (en_log_id e) = i)"

definition log_put :: "'m shard \<Rightarrow> 'm Entry list \<Rightarrow> 'm shard" where
  "log_put T es = fold (\<lambda>e T. T(LogEntryKey (li_index (en_log_id e)) \<mapsto> VEntry e)) es T"

definition log_drop :: "'m shard \<Rightarrow> (u64 \<Rightarrow> bool) \<Rightarrow> 'm shard" where
  "log_drop T P = (\<lambda>k. case k of LogEntryKey i \<Rightarrow> if P i then None else T k | _ \<Rightarrow> T k)"

text \<open>A store update by one put or by deletes, on both sides.\<close>

lemma rep_put:
  assumes cd: "codec_laws cd" and R: "rep cd s m T" and k: "valid_key k" "value_kind v = key_kind k"
    and e: "enc cd v = Some b"
  shows "rep cd s (fmupd (encode_key s k) b m) (T(k \<mapsto> v))"
proof -
  have "rep_at cd s (fmupd (encode_key s k) b m) (T(k \<mapsto> v)) j" if j: "valid_key j" for j
  proof (cases "j = k")
    case True
    have "dec cd (key_kind k) b = Some v" using cd e k(2) by (metis codec_laws_def)
    with True show ?thesis by (simp add: rep_at_def)
  next
    case False
    then have "encode_key s j \<noteq> encode_key s k" using encode_key_inject j k(1) by blast
    with False R j show ?thesis
      using rep_at_cong [of "T(k \<mapsto> v)" j T "fmupd (encode_key s k) b m" s m cd] by (simp add: rep_def)
  qed
  moreover have "closed (fmupd (encode_key s k) b m)"
    using R k(1) by (auto simp: rep_def closed_def)
  ultimately show ?thesis by (simp add: rep_def)
qed

lemma fold_deletes: "fmlookup (fold apply_kv_op (map KvDelete ks) m) k = (if k \<in> set ks then None else fmlookup m k)"
  by (induction ks arbitrary: m) auto

lemma rep_delete:
  assumes R: "rep cd s m T" and ks: "ks = map (\<lambda>k. encode_key s k) js" and js: "\<And>j. j \<in> set js \<Longrightarrow> valid_key j"
  shows "rep cd s (fold apply_kv_op (map KvDelete ks) m) (\<lambda>k. if k \<in> set js then None else T k)"
proof -
  let ?m = "fold apply_kv_op (map KvDelete ks) m" and ?T = "\<lambda>k. if k \<in> set js then None else T k"
  have "rep_at cd s ?m ?T k" if k: "valid_key k" for k
  proof (cases "k \<in> set js")
    case True
    then have "encode_key s k \<in> set ks" by (simp add: ks)
    with True show ?thesis by (simp add: rep_at_def fold_deletes)
  next
    case False
    then have "encode_key s k \<notin> set ks" using encode_key_inject k js by (auto simp: ks)
    with False R k show ?thesis
      using rep_at_cong [of ?T k T ?m s m cd] by (simp add: rep_def fold_deletes)
  qed
  moreover have "closed ?m"
    using R by (auto simp: rep_def closed_def fmlookup_dom_iff fold_deletes split: if_splits)
  ultimately show ?thesis by (simp add: rep_def)
qed

section \<open>Ranges of log keys\<close>

lemma log_successor: "successor (raft_log_prefix s) = Some (raft_log_upper s)"
  by (simp add: raft_log_upper_def raft_log_prefix_def successor_def encode_u64_be_def tag_defs)

lemma log_prefix_iff: "prefix (raft_log_prefix s) (encode_key s' k) \<longleftrightarrow> s' = s \<and> (\<exists>i. k = LogEntryKey i)"
  using log_range_iff [of s s' k] successor_range [of "raft_log_prefix s" "encode_key s' k"] log_successor by simp

lemma log_key_between: "raft_log_prefix s \<le> raft_log_entry s i" "raft_log_entry s i < raft_log_upper s"
  using log_range_iff [of s s "LogEntryKey i"] by simp_all

lemma log_key_le_iff: "raft_log_entry s i \<le> raft_log_entry s j \<longleftrightarrow> i \<le> j"
  by (simp add: not_less [symmetric] key_less_iff)

lemmas log_key_simps = log_key_between less_imp_le [OF log_key_between(2)] log_key_le_iff key_less_iff(4)

lemma less_next_iff: "checked_add b 1 = Some n \<Longrightarrow> i < n \<longleftrightarrow> i \<le> b" for b :: u64
  by (auto simp: wrap_simps word_less_nat_alt word_le_nat_alt)

lemma next_le_iff: "checked_add b 1 = Some n \<Longrightarrow> n \<le> i \<longleftrightarrow> b < i" for b :: u64
  using less_next_iff [of b n i] by (simp add: not_less [symmetric])

lemma no_next_le: "checked_add b 1 = None \<Longrightarrow> i \<le> b" for b :: u64
  using unat_le_max [of i] by (auto simp: wrap_simps word_le_nat_alt)

text \<open>The byte range is the index range, the ends of \<open>u64\<close> included.\<close>

lemma lower_index:
  "(case lo of Included a \<Rightarrow> Some a | Excluded a \<Rightarrow> checked_add a 1 | Unbounded \<Rightarrow> Some 0) = Some n \<Longrightarrow>
     in_bounds lo hi i \<longleftrightarrow> n \<le> i \<and> in_bounds Unbounded hi i"
  "(case lo of Included a \<Rightarrow> Some a | Excluded a \<Rightarrow> checked_add a 1 | Unbounded \<Rightarrow> Some 0) = None \<Longrightarrow> \<not> in_bounds lo hi i"
  by (cases lo; simp add: next_le_iff no_next_le not_less)+

definition log_end :: "u64 \<Rightarrow> u64 \<Rightarrow> bound \<Rightarrow> bytes option" where
  "log_end s n hi = (case hi of
       Excluded i \<Rightarrow> if i \<le> n then None else Some (raft_log_entry s i)
     | Included i \<Rightarrow> if i < n then None
         else (case checked_add i 1 of Some n \<Rightarrow> Some (raft_log_entry s n) | None \<Rightarrow> Some (raft_log_upper s))
     | Unbounded \<Rightarrow> Some (raft_log_upper s))"

lemma log_end_Some:
  assumes "log_end s n hi = Some b"
  shows "raft_log_entry s n < b \<and> b \<le> raft_log_upper s \<and> (raft_log_entry s i < b \<longleftrightarrow> in_bounds Unbounded hi i)"
proof (cases hi)
  case (Included j)
  with assms show ?thesis
    by (auto simp: log_end_def log_key_simps less_next_iff no_next_le split: if_splits option.splits)
next
  case (Excluded j)
  with assms show ?thesis by (auto simp: log_end_def log_key_simps split: if_splits)
next
  case Unbounded
  with assms show ?thesis by (auto simp: log_end_def log_key_simps)
qed

lemma log_end_None: "log_end s n hi = None \<Longrightarrow> n \<le> i \<Longrightarrow> \<not> in_bounds Unbounded hi i"
  by (cases hi) (auto simp: log_end_def split: if_splits option.splits)

lemma log_range_keys_exact:
  "log_range_keys s lo hi = None \<Longrightarrow> \<not> in_bounds lo hi i"
  "log_range_keys s lo hi = Some (a, b) \<Longrightarrow> raft_log_prefix s \<le> a \<and> a < b \<and> b \<le> raft_log_upper s
     \<and> (a \<le> raft_log_entry s i \<and> raft_log_entry s i < b \<longleftrightarrow> in_bounds lo hi i)"
proof -
  let ?n = "case lo of Included a \<Rightarrow> Some a | Excluded a \<Rightarrow> checked_add a 1 | Unbounded \<Rightarrow> Some 0"
  have eq: "log_range_keys s lo hi =
      Option.bind ?n (\<lambda>n. Option.bind (log_end s n hi) (\<lambda>b. Some (raft_log_entry s n, b)))"
    by (simp add: log_range_keys_def log_end_def)
  show "\<not> in_bounds lo hi i" if "log_range_keys s lo hi = None"
    using that eq lower_index(1) [of lo _ hi i] lower_index(2) [of lo hi i] log_end_None [of s _ hi i]
    by (cases ?n) (auto simp: bind_eq_None_conv simp del: in_bounds.simps)
  show "raft_log_prefix s \<le> a \<and> a < b \<and> b \<le> raft_log_upper s
      \<and> (a \<le> raft_log_entry s i \<and> raft_log_entry s i < b \<longleftrightarrow> in_bounds lo hi i)" if "log_range_keys s lo hi = Some (a, b)"
  proof -
    from that eq obtain n where n: "?n = Some n" "log_end s n hi = Some b" "a = raft_log_entry s n"
      by (auto simp: bind_eq_Some_conv)
    show ?thesis
      using lower_index(1) [OF n(1), of hi i] log_end_Some [OF n(2), of i]
      by (simp add: n(3) log_key_simps del: in_bounds.simps)
  qed
qed

section \<open>Scans of the log\<close>

lemma log_at_iff:
  assumes "rep cd s m T" "codec_laws cd"
  shows "T (LogEntryKey i) = map_option VEntry (log_at T i)"
  using assms at_cases [of cd s m T "LogEntryKey i"]
  by (auto simp: rep_def log_at_def at_def dest!: value_kind_cases spec [of _ "LogEntryKey i"])

lemma log_scan:
  assumes R: "rep cd s m T" and cd: "codec_laws cd" and bounds: "raft_log_prefix s \<le> lo" "hi \<le> raft_log_upper s"
    and P: "\<And>i. lo \<le> raft_log_entry s i \<and> raft_log_entry s i < hi \<longleftrightarrow> P i"
    and xs: "sorted_wrt (<) xs" "set xs = {i. log_at T i \<noteq> None \<and> P i}"
  shows "range_of m lo hi = map (\<lambda>i. (raft_log_entry s i, the (fmlookup m (raft_log_entry s i)))) xs"
proof -
  have "range_of m lo hi = map (\<lambda>i. (encode_key s (LogEntryKey i), the (fmlookup m (encode_key s (LogEntryKey i))))) xs"
    using P by (intro prefix_scan [OF R log_successor bounds, where P = P])
      (simp_all add: log_prefix_iff key_less_iff xs log_at_iff [OF R cd])
  then show ?thesis by simp
qed

lemma log_list:
  obtains xs :: "u64 list" where "sorted_wrt (<) xs" "set xs = {i. Q i}"
proof (rule that)
  show "sorted_wrt (<) (sorted_list_of_set {i. Q i})" by (rule strict_sorted_list_of_set)
qed simp

section \<open>What the operations do to the shard\<close>

text \<open>\<open>st\<close> holds the shard \<open>T\<close>; \<open>st'\<close> differs from \<open>st\<close> in its store only.\<close>

abbreviation holds :: "('db \<Rightarrow> (bytes, bytes) fmap) \<Rightarrow> 'm codec \<Rightarrow> ('db, 'm) EsStorage \<Rightarrow> 'm shard \<Rightarrow> bool" where
  "holds view cd st T \<equiv> rep cd (es_shard_id st) (view (es_tree st)) T"

definition only_tree :: "('db, 'm) EsStorage \<Rightarrow> ('db, 'm) EsStorage \<Rightarrow> bool" where
  "only_tree st st' \<longleftrightarrow> (\<exists>db. st' = st\<lparr>es_tree := db\<rparr>)"

lemma only_tree_shard [simp]: "only_tree st st' \<Longrightarrow> es_shard_id st' = es_shard_id st"
  by (auto simp: only_tree_def)

lemma only_tree_refl [simp]: "only_tree st st"
  unfolding only_tree_def by (rule exI [of _ "es_tree st"]) simp

lemma es_commit_Inr:
  assumes "kv_laws kv view" "es_commit kv st ops = Inr st'"
  shows "only_tree st st' \<and> view (es_tree st') = fold apply_kv_op ops (view (es_tree st))"
proof -
  from assms(2) obtain db where db: "kv_commit kv (es_tree st) ops = Inr db" "st' = st\<lparr>es_tree := db\<rparr>"
    by (auto simp: es_commit_def rbind_Inr_iff)
  from assms(1) db(1) have "view db = fold apply_kv_op ops (view (es_tree st))" by (simp add: kv_laws_def)
  moreover from db(2) have "only_tree st st'" unfolding only_tree_def by (rule exI)
  ultimately show ?thesis using db(2) by simp
qed

text \<open>A step of a shard on the shared store: commands on its own keys only.\<close>

fun op_key :: "kv_op \<Rightarrow> bytes" where
  "op_key (KvSet k v) = k"
| "op_key (KvDelete k) = k"

definition own_kv :: "u64 \<Rightarrow> kv_op list \<Rightarrow> bool" where
  "own_kv s ops \<longleftrightarrow> (\<forall>op \<in> set ops. \<exists>k. valid_key k \<and> op_key op = encode_key s k)"

definition own_step :: "('db \<Rightarrow> (bytes, bytes) fmap) \<Rightarrow> ('db, 'm) EsStorage \<Rightarrow> ('db, 'm) EsStorage \<Rightarrow> bool" where
  "own_step view st st' \<longleftrightarrow> only_tree st st'
     \<and> (\<exists>ops. own_kv (es_shard_id st) ops \<and> view (es_tree st') = fold apply_kv_op ops (view (es_tree st)))"

lemma own_step_shard: "own_step view st st' \<Longrightarrow> es_shard_id st' = es_shard_id st"
  by (simp add: own_step_def)

lemma own_step_refl [simp]: "own_step view st st"
  unfolding own_step_def by (intro conjI exI [of _ "[]"]) (simp_all add: own_kv_def)

lemma own_step_trans:
  assumes "own_step view st1 st2" "own_step view st2 st3"
  shows "own_step view st1 st3"
proof -
  from assms obtain xs ys where xs: "own_kv (es_shard_id st1) xs" "view (es_tree st2) = fold apply_kv_op xs (view (es_tree st1))"
    and ys: "own_kv (es_shard_id st1) ys" "view (es_tree st3) = fold apply_kv_op ys (view (es_tree st2))"
    unfolding own_step_def by auto
  have "only_tree st1 st3" using assms unfolding own_step_def only_tree_def by auto
  with xs ys show ?thesis
    unfolding own_step_def by (intro conjI exI [of _ "xs @ ys"]) (auto simp: own_kv_def)
qed

lemma own_step_commit:
  "kv_laws kv view \<Longrightarrow> es_commit kv st ops = Inr st' \<Longrightarrow> own_kv (es_shard_id st) ops \<Longrightarrow> own_step view st st'"
  unfolding own_step_def using es_commit_Inr [of kv view st ops st'] by blast

lemma foreign_lookup: "b \<notin> op_key ` set ops \<Longrightarrow> fmlookup (fold apply_kv_op ops m) b = fmlookup m b"
proof (induction ops arbitrary: m)
  case (Cons op ops)
  then show ?case by (cases op) auto
qed simp

lemma own_step_foreign:
  assumes step: "own_step view st st'" and R: "rep cd s' (view (es_tree st)) T'" and s': "s' \<noteq> es_shard_id st"
    and C: "closed (view (es_tree st'))"
  shows "rep cd s' (view (es_tree st')) T'"
proof -
  from step obtain ops where ops: "own_kv (es_shard_id st) ops" "view (es_tree st') = fold apply_kv_op ops (view (es_tree st))"
    unfolding own_step_def by blast
  have "rep_at cd s' (view (es_tree st')) T' k" if k: "valid_key k" for k
  proof -
    have "encode_key s' k \<notin> op_key ` set ops"
      using ops(1) s' encode_key_inject [OF k, of _ s' "es_shard_id st"] unfolding own_kv_def by (metis imageE)
    then have "fmlookup (view (es_tree st')) (encode_key s' k) = fmlookup (view (es_tree st)) (encode_key s' k)"
      by (simp add: ops(2) foreign_lookup)
    with rep_at_cong [of T' k T', OF refl this, of cd] R k show ?thesis by (simp add: rep_def)
  qed
  with C show ?thesis by (simp add: rep_def)
qed

lemma es_commit_ok: "kv_reliable kv \<Longrightarrow> \<not> is_err (es_commit kv st ops)"
  by (cases "kv_commit kv (es_tree st) ops") (auto simp: es_commit_def kv_reliable_def is_err_iff)

lemma es_range_ok: "kv_reliable kv \<Longrightarrow> \<not> is_err (es_range kv st lo hi)"
  by (cases "kv_range kv (es_tree st) lo hi") (auto simp: es_range_def kv_reliable_def is_err_iff)

lemma es_set_rep:
  assumes "kv_laws kv view" "codec_laws cd" "holds view cd st T" "valid_key k" "value_kind v = key_kind k"
    and "rbind (encode_value cd v) (\<lambda>b. es_set kv st (encode_key (es_shard_id st) k) b) = Inr st'"
  shows "holds view cd st' (T(k \<mapsto> v)) \<and> own_step view st st'"
proof -
  from assms(6) obtain b where b: "enc cd v = Some b" "es_commit kv st [KvSet (encode_key (es_shard_id st) k) b] = Inr st'"
    by (auto simp: rbind_Inr_iff encode_value_def ok_or_def es_set_def split: option.splits)
  have "own_step view st st'" by (rule own_step_commit [OF assms(1) b(2)]) (use assms(4) in \<open>auto simp: own_kv_def\<close>)
  with es_commit_Inr [OF assms(1) b(2)] rep_put [OF assms(2-5) b(1)] show ?thesis by auto
qed

lemma es_set_ok:
  "kv_reliable kv \<Longrightarrow> codec_total cd \<Longrightarrow> \<not> is_err (rbind (encode_value cd v) (\<lambda>b. es_set kv st k b))"
  by (rule ok_rbind [OF ok_encode]) (simp_all add: es_set_def es_commit_ok)

lemma log_put_simps [simp]:
  "log_put T [] = T"
  "log_put T (e # es) = log_put (T(LogEntryKey (li_index (en_log_id e)) \<mapsto> VEntry e)) es"
  by (simp_all add: log_put_def)

lemma log_append_ops:
  assumes "codec_laws cd" "rep cd s m T" "encode_entries cd s es = Inr ops"
  shows "rep cd s (fold apply_kv_op ops m) (log_put T es)"
  using assms(2,3)
proof (induction es arbitrary: m T ops)
  case (Cons e es)
  let ?k = "LogEntryKey (li_index (en_log_id e))"
  from Cons.prems(2) obtain b ops' where b: "enc cd (VEntry e) = Some b" "encode_entries cd s es = Inr ops'"
    "ops = KvSet (encode_key s ?k) b # ops'"
    by (auto simp: rbind_Inr_iff encode_value_def ok_or_def split: option.splits)
  have "rep cd s (fmupd (encode_key s ?k) b m) (T(?k \<mapsto> VEntry e))"
    by (rule rep_put [OF assms(1) Cons.prems(1)]) (simp_all add: b)
  from Cons.IH [OF this b(2)] show ?case by (simp add: b(3) del: fun_upd_apply cong: if_cong)
qed simp

lemma encode_entries_own: "encode_entries cd s es = Inr ops \<Longrightarrow> own_kv s ops"
proof (induction es arbitrary: ops)
  case (Cons e es)
  then obtain b ops' where "encode_entries cd s es = Inr ops'"
    "ops = KvSet (encode_key s (LogEntryKey (li_index (en_log_id e)))) b # ops'" by (auto simp: rbind_Inr_iff)
  with Cons.IH show ?case unfolding own_kv_def
    by (auto intro: exI [of _ "LogEntryKey (li_index (en_log_id e))"])
qed (simp add: own_kv_def)

lemma encode_entries_ok: "codec_total cd \<Longrightarrow> \<not> is_err (encode_entries cd s es)"
  by (induction es) (simp, simp, intro ok_rbind ok_encode, simp_all)

text \<open>Deleting the keys of a range drops the entries of that range.\<close>

lemma drop_range:
  assumes laws: "kv_laws kv view" "codec_laws cd" and R: "holds view cd st T"
    and bounds: "raft_log_prefix (es_shard_id st) \<le> lo" "hi \<le> raft_log_upper (es_shard_id st)"
    and P: "\<And>i. lo \<le> raft_log_entry (es_shard_id st) i \<and> raft_log_entry (es_shard_id st) i < hi \<longleftrightarrow> P i"
    and run: "rbind (collect_keys kv st lo hi) (delete_batch kv st) = Inr st'"
  shows "holds view cd st' (log_drop T P) \<and> own_step view st st'"
proof -
  let ?s = "es_shard_id st"
  obtain xs where xs: "sorted_wrt (<) xs" "set xs = {i. log_at T i \<noteq> None \<and> P i}" by (rule log_list)
  from run obtain rows where rows: "es_range kv st lo hi = Inr rows" "delete_batch kv st (map fst rows) = Inr st'"
    by (auto simp: collect_keys_def rbind_Inr_iff)
  have "map fst rows = map (\<lambda>k. encode_key ?s k) (map LogEntryKey xs)"
  proof (cases "hi \<le> lo")
    case True
    then have "xs = []" using P xs(2) by (metis (mono_tags, lifting) empty_Collect_eq leD le_less_trans set_empty)
    with True rows(1) show ?thesis by (simp add: es_range_def)
  next
    case False
    with rows(1) laws(1) have "rows = range_of (view (es_tree st)) lo hi" by (auto simp: es_range_def kv_laws_def)
    with log_scan [OF R laws(2) bounds P xs] show ?thesis by (simp add: comp_def)
  qed
  moreover have "only_tree st st' \<and> view (es_tree st') = fold apply_kv_op (map KvDelete (map fst rows)) (view (es_tree st))"
    using rows(2) es_commit_Inr [OF laws(1), of st "map KvDelete (map fst rows)" st']
    by (cases rows) (simp_all add: delete_batch_def)
  moreover have "(\<lambda>k. if k \<in> set (map LogEntryKey xs) then None else T k) = log_drop T P"
    using xs(2) log_at_iff [OF R laws(2)] by (auto simp: log_drop_def fun_eq_iff split: store_key.split)
  moreover have "valid_key j" if "j \<in> set (map LogEntryKey xs)" for j using that by auto
  moreover have "own_kv ?s (map KvDelete (map fst rows))" unfolding calculation(1) own_kv_def by (force simp del: encode_key.simps)
  ultimately show ?thesis
    using rep_delete [OF R, of "map fst rows" "map LogEntryKey xs"] only_tree_shard [of st st']
    unfolding own_step_def by metis
qed

lemma drop_range_ok: "kv_reliable kv \<Longrightarrow> \<not> is_err (rbind (collect_keys kv st lo hi) (delete_batch kv st))"
  by (rule ok_rbind) (simp_all add: collect_keys_def es_range_ok delete_batch_def es_commit_ok)

section \<open>What the reads return\<close>

lemma decode_all_exact:
  assumes R: "rep cd s m T" and cd: "codec_laws cd"
  shows "(\<And>i. i \<in> set xs \<Longrightarrow> log_at T i \<noteq> None) \<Longrightarrow>
    decode_all cd (map (\<lambda>i. (raft_log_entry s i, the (fmlookup m (raft_log_entry s i)))) xs) =
      Inr (map (\<lambda>i. the (log_at T i)) xs)"
proof (induction xs)
  case (Cons i xs)
  from Cons.prems [of i] obtain e where e: "log_at T i = Some e" by auto
  then have "T (LogEntryKey i) = Some (VEntry e)" using log_at_iff [OF R cd] by simp
  then have "dec cd KEntry (the (fmlookup m (raft_log_entry s i))) = Some (VEntry e)"
    using rep_value(2) [OF R, of "LogEntryKey i"] by simp
  moreover have "log_at T j \<noteq> None" if "j \<in> set xs" for j using that Cons.prems by simp
  note Cons.IH [OF this]
  ultimately show ?case by (simp add: e)
qed simp

lemma read_entries:
  assumes laws: "kv_laws kv view" "codec_laws cd" and R: "holds view cd st T"
    and xs: "sorted_wrt (<) xs" "set xs = {i. log_at T i \<noteq> None \<and> in_bounds lo hi i}"
  shows "read_log_entries kv cd st lo hi = Inr es \<Longrightarrow> es = map (\<lambda>i. the (log_at T i)) xs"
    and "kv_reliable kv \<Longrightarrow> \<not> is_err (read_log_entries kv cd st lo hi)"
proof -
  let ?s = "es_shard_id st" and ?res = "map (\<lambda>i. the (log_at T i)) xs"
  have "read_log_entries kv cd st lo hi = Inr ?res
      \<or> is_err (read_log_entries kv cd st lo hi) \<and> \<not> kv_reliable kv"
  proof (cases "log_range_keys ?s lo hi")
    case None
    then have "set xs = {}" using xs(2) log_range_keys_exact(1) [OF None] by (simp del: in_bounds.simps)
    with None show ?thesis by (simp add: read_log_entries_def)
  next
    case (Some ab)
    obtain a b where ab: "log_range_keys ?s lo hi = Some (a, b)" using Some by (cases ab) auto
    note K = log_range_keys_exact(2) [OF ab]
    have scan: "range_of (view (es_tree st)) a b =
        map (\<lambda>i. (raft_log_entry ?s i, the (fmlookup (view (es_tree st)) (raft_log_entry ?s i)))) xs"
      using K by (intro log_scan [OF R laws(2) _ _ _ xs]) auto
    have lt: "\<not> b \<le> a" using K [of 0] by (simp add: not_le)
    have dec: "decode_all cd (range_of (view (es_tree st)) a b) = Inr ?res"
      using decode_all_exact [OF R laws(2), of xs] xs(2) by (simp add: scan)
    show ?thesis
    proof (cases "kv_range kv (es_tree st) a b")
      case (Inl e)
      then show ?thesis by (auto simp: read_log_entries_def ab es_range_def lt kv_reliable_def is_err_iff)
    next
      case (Inr rows)
      with laws(1) have "rows = range_of (view (es_tree st)) a b" by (simp add: kv_laws_def)
      with Inr dec show ?thesis by (simp add: read_log_entries_def ab es_range_def lt)
    qed
  qed
  then show "read_log_entries kv cd st lo hi = Inr es \<Longrightarrow> es = ?res"
    and "kv_reliable kv \<Longrightarrow> \<not> is_err (read_log_entries kv cd st lo hi)" by auto
qed

lemma read_ok:
  assumes "kv_laws kv view" "codec_laws cd" "holds view cd st T" "kv_reliable kv"
  obtains es where "read_log_entries kv cd st lo hi = Inr es"
proof -
  obtain xs where xs: "sorted_wrt (<) xs" "set xs = {i. log_at T i \<noteq> None \<and> in_bounds lo hi i}" by (rule log_list)
  from read_entries(2) [OF assms(1-3) xs assms(4)] that show thesis
    by (cases "read_log_entries kv cd st lo hi") auto
qed

lemma read_entries_same:
  assumes laws: "kv_laws kv view" "codec_laws cd" and R: "holds view cd st T" "holds view cd st' T'"
    and same: "\<And>i. in_bounds lo hi i \<Longrightarrow> log_at T' i = log_at T i"
    and run: "read_log_entries kv cd st lo hi = Inr es" "read_log_entries kv cd st' lo hi = Inr es'"
  shows "es' = es"
proof -
  obtain xs where xs: "sorted_wrt (<) xs" "set xs = {i. log_at T i \<noteq> None \<and> in_bounds lo hi i}" by (rule log_list)
  have xs': "set xs = {i. log_at T' i \<noteq> None \<and> in_bounds lo hi i}" using xs(2) same by (auto simp del: in_bounds.simps)
  have "map (\<lambda>i. the (log_at T' i)) xs = map (\<lambda>i. the (log_at T i)) xs"
    using xs(2) same by (simp del: in_bounds.simps)
  then show ?thesis
    using read_entries(1) [OF laws R(1) xs run(1)] read_entries(1) [OF laws R(2) xs(1) xs' run(2)] by simp
qed

definition log_last :: "'m shard \<Rightarrow> log_id option" where
  "log_last T = (if {i. log_at T i \<noteq> None} = {} then None
     else Some (en_log_id (the (log_at T (Max {i. log_at T i \<noteq> None})))))"

lemma sorted_last_ge: "sorted xs \<Longrightarrow> y \<in> set xs \<Longrightarrow> y \<le> last xs" for xs :: "'x::linorder list"
  by (induction xs) auto

lemma last_is_Max: "sorted_wrt (<) xs \<Longrightarrow> xs \<noteq> [] \<Longrightarrow> last xs = Max (set xs)" for xs :: "'x::linorder list"
  by (intro Max_eqI [symmetric]) (auto simp: sorted_last_ge strict_sorted_iff)

lemma read_last:
  assumes laws: "kv_laws kv view" "codec_laws cd" and R: "holds view cd st T"
    and run: "read_last_log_id kv cd st = Inr x"
  shows "x = log_last T"
proof -
  let ?s = "es_shard_id st"
  obtain xs where xs: "sorted_wrt (<) xs" "set xs = {i. log_at T i \<noteq> None \<and> True}" by (rule log_list)
  let ?row = "\<lambda>i. (raft_log_entry ?s i, the (fmlookup (view (es_tree st)) (raft_log_entry ?s i)))"
  have scan: "range_of (view (es_tree st)) (raft_log_prefix ?s) (raft_log_upper ?s) = map ?row xs"
    by (rule log_scan [OF R laws(2) _ _ _ xs]) (simp_all add: log_key_simps)
  from run obtain rows where "kv_range kv (es_tree st) (raft_log_prefix ?s) (raft_log_upper ?s) = Inr rows"
    by (auto simp: read_last_log_id_def rbind_Inr_iff)
  moreover from this laws(1) scan have "rows = map ?row xs" by (simp add: kv_laws_def)
  ultimately have x: "(if xs = [] then Inr None else case dec cd KEntry (snd (last (map ?row xs))) of
      Some (VEntry e) \<Rightarrow> Inr (Some (en_log_id e)) | _ \<Rightarrow> Inl (Serde ''log entry'')) = Inr x"
    using run by (simp add: read_last_log_id_def)
  show ?thesis
  proof (cases "xs = []")
    case True
    with x xs(2) show ?thesis by (auto simp: log_last_def)
  next
    case False
    then have last: "last xs = Max {i. log_at T i \<noteq> None}" "last xs \<in> {i. log_at T i \<noteq> None}"
      using last_is_Max [OF xs(1)] last_in_set [OF False] xs(2) by simp_all
    then obtain e where e: "log_at T (last xs) = Some e" by auto
    then have "dec cd KEntry (snd (?row (last xs))) = Some (VEntry e)"
      using rep_value(2) [OF R, of "LogEntryKey (last xs)"] log_at_iff [OF R laws(2)] by simp
    with x False last e show ?thesis by (auto simp: log_last_def last_map)
  qed
qed

lemma read_last_ok:
  assumes laws: "kv_laws kv view" "codec_laws cd" and R: "holds view cd st T" and ok: "kv_reliable kv"
  shows "\<not> is_err (read_last_log_id kv cd st)"
proof -
  let ?s = "es_shard_id st" and ?m = "view (es_tree st)"
  obtain xs where xs: "sorted_wrt (<) xs" "set xs = {i. log_at T i \<noteq> None \<and> True}" by (rule log_list)
  let ?row = "\<lambda>i. (raft_log_entry ?s i, the (fmlookup ?m (raft_log_entry ?s i)))"
  have scan: "range_of ?m (raft_log_prefix ?s) (raft_log_upper ?s) = map ?row xs"
    by (rule log_scan [OF R laws(2) _ _ _ xs]) (simp_all add: log_key_simps)
  from ok obtain rows where rows: "kv_range kv (es_tree st) (raft_log_prefix ?s) (raft_log_upper ?s) = Inr rows"
    by (auto simp: kv_reliable_def is_err_iff) (metis obj_sumE)
  with laws(1) scan have "rows = map ?row xs" by (simp add: kv_laws_def)
  moreover have "\<exists>e. dec cd KEntry (snd (?row (last xs))) = Some (VEntry e)" if ne: "xs \<noteq> []"
  proof -
    from last_in_set [OF ne] xs(2) obtain e where "log_at T (last xs) = Some e" by auto
    then show ?thesis using rep_value(2) [OF R, of "LogEntryKey (last xs)"] log_at_iff [OF R laws(2)] by simp
  qed
  ultimately show ?thesis using rows by (auto simp: read_last_log_id_def last_map)
qed

lemma get_log_state_exact:
  assumes laws: "kv_laws kv view" "codec_laws cd" and R: "holds view cd st T"
    and run: "get_log_state kv cd st = Inr ls"
  shows "at T LastPurgedKey as_log_id = map_option Some (ls_last_purged ls)
    \<and> ls_last_log_id ls = (case log_last T of Some h \<Rightarrow> Some h | None \<Rightarrow> ls_last_purged ls)"
proof -
  from run obtain p x where px: "read_last_purged kv cd st = Inr p" "read_last_log_id kv cd st = Inr x"
    "ls = \<lparr>ls_last_purged = p, ls_last_log_id = (case x of Some x \<Rightarrow> Some x | None \<Rightarrow> p)\<rparr>"
    by (auto simp: get_log_state_def rbind_Inr_iff)
  from px(1) obtain y where y: "read_typed kv cd st LastPurgedKey as_log_id = Inr y"
    "(case y of None \<Rightarrow> Inr None | Some (Some l) \<Rightarrow> Inr (Some l) | Some None \<Rightarrow> Inl (Serde ''last_purged'')) = Inr p"
    by (auto simp: read_last_purged_def rbind_Inr_iff)
  have "rep_at cd (es_shard_id st) (view (es_tree st)) T LastPurgedKey" using R by (simp add: rep_def)
  from read_typed_rep [OF laws(1) this y(1)] y(2) read_last [OF laws R px(2)] px(3) show ?thesis
    by (auto split: option.splits)
qed

section \<open>Logs under the operations\<close>

lemma log_at_upd [simp]:
  "k \<noteq> LogEntryKey i \<Longrightarrow> log_at (T(k \<mapsto> v)) i = log_at T i"
  "log_at (T(LogEntryKey j \<mapsto> VEntry e)) i = (if i = j then Some e else log_at T i)"
  by (simp_all add: log_at_def at_def)

lemma log_at_drop [simp]: "log_at (log_drop T P) i = (if P i then None else log_at T i)"
  by (simp add: log_at_def at_def log_drop_def)

lemma log_drop_other [simp]: "(\<And>i. k \<noteq> LogEntryKey i) \<Longrightarrow> log_drop T P k = T k"
  by (simp add: log_drop_def split: store_key.split)

lemma log_wf_ops:
  assumes "log_wf T"
  shows "log_wf (log_drop T P)" "(\<And>i. k \<noteq> LogEntryKey i) \<Longrightarrow> log_wf (T(k \<mapsto> v))"
  using assms by (simp_all add: log_wf_def)

lemma log_at_put:
  assumes "sorted_wrt (<) (map (\<lambda>e. li_index (en_log_id e)) es)"
  shows "log_at (log_put T es) i =
    (case find (\<lambda>e. li_index (en_log_id e) = i) es of Some e \<Rightarrow> Some e | None \<Rightarrow> log_at T i)"
  using assms
proof (induction es arbitrary: T)
  case (Cons e es)
  then have "find (\<lambda>e'. li_index (en_log_id e') = li_index (en_log_id e)) es = None" by (auto simp: find_None_iff)
  with Cons show ?case by (auto split: option.split)
qed simp

lemma log_last_None: "log_last T = None \<longleftrightarrow> (\<forall>i. log_at T i = None)"
  by (auto simp: log_last_def)

lemma log_last_Some:
  assumes "log_wf T" "log_last T = Some h"
  shows "log_at T (li_index h) \<noteq> None" "log_at T i \<noteq> None \<Longrightarrow> i \<le> li_index h"
proof -
  let ?I = "{i. log_at T i \<noteq> None}"
  have h: "?I \<noteq> {}" "h = en_log_id (the (log_at T (Max ?I)))" using assms(2) by (auto simp: log_last_def split: if_splits)
  with Max_in [of ?I] obtain e where "log_at T (Max ?I) = Some e" by auto
  with assms(1) h(2) have m: "li_index h = Max ?I" by (simp add: log_wf_def)
  with Max_in [of ?I] h(1) show "log_at T (li_index h) \<noteq> None" by simp
  show "log_at T i \<noteq> None \<Longrightarrow> i \<le> li_index h" by (simp add: m)
qed

text \<open>The last entry survives dropping smaller indices.\<close>

lemma log_last_drop:
  assumes wf: "log_wf T" and h: "log_last T = Some h" and P: "\<not> P (li_index h)"
  shows "log_last (log_drop T P) = Some h"
proof -
  have at: "log_at (log_drop T P) (li_index h) \<noteq> None" using log_last_Some(1) [OF wf h] P by simp
  then obtain h' where h': "log_last (log_drop T P) = Some h'" by (cases "log_last (log_drop T P)") (auto simp: log_last_None)
  note D = log_last_Some [OF log_wf_ops(1) [OF wf] h']
  have "li_index h \<le> li_index h'" using D(2) at by simp
  moreover have "log_at T (li_index h') \<noteq> None" using D(1) by (simp split: if_splits)
  then have "li_index h' \<le> li_index h" by (rule log_last_Some(2) [OF wf h])
  ultimately have eq: "li_index h' = li_index h" by simp
  have entry: "\<exists>e. log_at S (li_index g) = Some e \<and> en_log_id e = g" if "log_wf S" "log_last S = Some g" for S :: "'a shard" and g
  proof -
    from that(2) have "g = en_log_id (the (log_at S (Max {i. log_at S i \<noteq> None})))" by (auto simp: log_last_def split: if_splits)
    moreover have "li_index g = Max {i. log_at S i \<noteq> None}"
      using log_last_Some [OF that] by (intro Max_eqI [symmetric]) auto
    ultimately show ?thesis using log_last_Some(1) [OF that] by auto
  qed
  from entry [OF wf h] entry [OF log_wf_ops(1) [OF wf] h'] eq P h' show ?thesis by auto
qed

lemma purge_outcomes:
  assumes laws: "kv_laws kv view" "codec_laws cd" and R: "holds view cd st T" and run: "purge kv cd st l = (st', r)"
  shows "own_step view st st' \<and>
    (is_err r \<and> st' = st
     \<or> is_err r \<and> holds view cd st' (T(LastPurgedKey \<mapsto> VLogId (Some l)))
     \<or> r = Inr () \<and> holds view cd st' (log_drop (T(LastPurgedKey \<mapsto> VLogId (Some l))) (\<lambda>i. i \<le> li_index l)))"
proof (cases "rbind (encode_value cd (VLogId (Some l))) (\<lambda>v. es_set kv st (encode_key (es_shard_id st) LastPurgedKey) v)")
  case (Inl e)
  then show ?thesis using run by (auto simp: purge_def)
next
  case (Inr st1)
  let ?T = "T(LastPurgedKey \<mapsto> VLogId (Some l))" and ?s = "es_shard_id st"
  have st1: "holds view cd st1 ?T" "own_step view st st1"
    using es_set_rep [OF laws R _ _ Inr] by simp_all
  define hi where "hi = (case checked_add (li_index l) 1 of Some n \<Rightarrow> raft_log_entry ?s n | None \<Rightarrow> raft_log_upper ?s)"
  have hi: "hi \<le> raft_log_upper ?s" "raft_log_entry ?s i < hi \<longleftrightarrow> i \<le> li_index l" for i
    by (auto simp: hi_def log_key_simps less_next_iff no_next_le split: option.split)
  show ?thesis
  proof (cases "rbind (collect_keys kv st1 (raft_log_prefix ?s) hi) (delete_batch kv st1)")
    case (Inl e)
    then show ?thesis using run Inr st1 by (auto simp: purge_def Let_def hi_def)
  next
    case (Inr st2)
    then have "st' = st2" "r = Inr ()"
      using run \<open>rbind (encode_value _ _) _ = Inr st1\<close> by (simp_all add: purge_def Let_def hi_def)
    moreover have "holds view cd st2 (log_drop ?T (\<lambda>i. i \<le> li_index l)) \<and> own_step view st1 st2"
      using hi Inr own_step_shard [OF st1(2)] by (intro drop_range [OF laws st1(1)]) (simp_all add: log_key_simps)
    ultimately show ?thesis using own_step_trans [OF st1(2)] by blast
  qed
qed

lemma log_append_rep:
  assumes "kv_laws kv view" "codec_laws cd" "holds view cd st T" "log_append kv cd st es = Inr st'"
  shows "holds view cd st' (log_put T es) \<and> own_step view st st'"
proof -
  from assms(4) obtain ops where ops: "encode_entries cd (es_shard_id st) es = Inr ops" "es_commit kv st ops = Inr st'"
    by (auto simp: log_append_def rbind_Inr_iff)
  have "own_step view st st'" by (rule own_step_commit [OF assms(1) ops(2) encode_entries_own [OF ops(1)]])
  with es_commit_Inr [OF assms(1) ops(2)] log_append_ops [OF assms(2,3) ops(1)] show ?thesis by auto
qed

lemma truncate_rep:
  assumes "kv_laws kv view" "codec_laws cd" "holds view cd st T" "truncate_log kv st l = Inr st'"
  shows "holds view cd st' (log_drop T (\<lambda>i. li_index l \<le> i)) \<and> own_step view st st'"
  using assms(4) by (intro drop_range [OF assms(1-3)]) (simp_all add: log_key_simps truncate_log_def)

lemma log_append_ok: "kv_reliable kv \<Longrightarrow> codec_total cd \<Longrightarrow> \<not> is_err (log_append kv cd st es)"
  unfolding log_append_def by (rule ok_rbind [OF encode_entries_ok]) (simp_all add: es_commit_ok)

lemma truncate_ok: "kv_reliable kv \<Longrightarrow> \<not> is_err (truncate_log kv st l)"
  unfolding truncate_log_def by (rule drop_range_ok)

lemma drop_range_inl: "rbind (collect_keys kv st lo hi) (delete_batch kv st) = Inl e \<Longrightarrow> \<not> kv_reliable kv"
  using drop_range_ok [of kv st lo hi] by auto

lemma purge_ok: "kv_reliable kv \<Longrightarrow> codec_total cd \<Longrightarrow> snd (purge kv cd st l) = Inr ()"
  using es_set_ok [of kv cd "VLogId (Some l)" st "encode_key (es_shard_id st) LastPurgedKey"]
  by (auto simp: purge_def Let_def is_err_iff split: sum.split dest: drop_range_inl)

lemma purge_step:
  assumes "kv_laws kv view" "codec_laws cd" "holds view cd st T" "purge kv cd st l = (st', Inr ())"
  shows "holds view cd st' (log_drop (T(LastPurgedKey \<mapsto> VLogId (Some l))) (\<lambda>i. i \<le> li_index l)) \<and> own_step view st st'"
  using purge_outcomes [OF assms] by simp

lemma log_read:
  assumes laws: "kv_laws kv view" "codec_laws cd" and R: "holds view cd st T" and wf: "log_wf T"
    and run: "read_log_entries kv cd st lo hi = Inr es"
  shows "sorted_wrt (<) (map (\<lambda>e. li_index (en_log_id e)) es)
    \<and> set es = {e. \<exists>i. in_bounds lo hi i \<and> log_at T i = Some e}"
proof -
  obtain xs where xs: "sorted_wrt (<) xs" "set xs = {i. log_at T i \<noteq> None \<and> in_bounds lo hi i}" by (rule log_list)
  have idx: "li_index (en_log_id (the (log_at T i))) = i" if "i \<in> set xs" for i
    using that xs(2) wf by (auto simp: log_wf_def)
  have es: "es = map (\<lambda>i. the (log_at T i)) xs" by (rule read_entries(1) [OF laws R xs run])
  have "map (\<lambda>e. li_index (en_log_id e)) es = xs" using idx by (simp add: es comp_def map_idI)
  moreover have "set es = {e. \<exists>i. in_bounds lo hi i \<and> log_at T i = Some e}"
    unfolding es using xs(2) by (auto simp: image_iff simp del: in_bounds.simps) force
  ultimately show ?thesis using xs(1) by simp
qed

lemma vote_rep:
  assumes "kv_laws kv view" "codec_laws cd" "holds view cd st T" "save_vote kv cd st v = Inr st'"
  shows "holds view cd st' (T(VoteKey \<mapsto> VVote v))"
  using es_set_rep [OF assms(1-3), of VoteKey "VVote v" st'] assms(4) by (simp add: save_vote_def)

lemma committed_rep:
  assumes "kv_laws kv view" "codec_laws cd" "holds view cd st T" "save_committed kv cd st c = Inr st'"
  shows "holds view cd st' (T(CommittedKey \<mapsto> VLogId c))"
  using es_set_rep [OF assms(1-3), of CommittedKey "VLogId c" st'] assms(4) by (simp add: save_committed_def)

lemma find_unique:
  "sorted_wrt (<) (map f es) \<Longrightarrow> e \<in> set es \<Longrightarrow> find (\<lambda>x. f x = f e) es = Some e" for f :: "'x \<Rightarrow> 'y::linorder"
  by (induction es) auto

lemma find_SomeD: "find P xs = Some x \<Longrightarrow> x \<in> set xs \<and> P x"
  by (auto simp: find_Some_iff)

lemma apply_own_step:
  assumes "kv_laws kv view" "codec_laws cd" "holds view cd st T" "revision_room T (length entries)"
    and "sm_apply h kv cd st entries = Inr (st', rs)" "s' \<noteq> es_shard_id st" "rep cd s' (view (es_tree st)) T'"
  shows "rep cd s' (view (es_tree st')) T'"
  using sm_apply_refines [OF assms(1-5)] rep_foreign [OF assms(7)] assms(6) by auto

text \<open>A log of five entries.\<close>

lemma sample_log:
  obtains st' :: "((bytes, bytes) fmap, unit) EsStorage"
  where "log_append map_kv sample_codec sample_storage sample_entries = Inr st'"
    "holds (\<lambda>m. m) sample_codec st' (log_put sample_shard sample_entries)" "log_wf (log_put sample_shard sample_entries)"
    "es_shard_id st' = 1"
proof -
  obtain st' where st': "log_append map_kv sample_codec sample_storage sample_entries = Inr st'"
    using log_append_ok [OF map_kv_reliable sample_codec_total, of sample_storage sample_entries]
    by (cases "log_append map_kv sample_codec sample_storage sample_entries") auto
  note A = log_append_rep [OF map_kv_laws sample_codec_laws sample_storage_rep st']
  have "log_wf (log_put sample_shard sample_entries)"
    by (simp add: log_wf_def sample_entries_def sample_entry_def sample_shard_def log_at_def at_def)
  moreover have "es_shard_id st' = 1"
    using A own_step_shard [of "\<lambda>m. m" sample_storage st'] by (simp add: sample_storage_def)
  ultimately show thesis using that st' A by blast
qed

lemma sample_log_at: "log_at (log_put sample_shard sample_entries) i =
    (if i = 1 \<or> i = 2 \<or> i = 3 \<or> i = 4 \<or> i = 5 then Some (sample_entries ! (unat i - 1)) else None)"
  by (auto simp: sample_entries_def sample_entry_def sample_shard_def log_at_def at_def)

section \<open>Properties\<close>

text \<open>C16: the Raft log storage implements a typed log. Over a store that holds the shard \<open>T\<close>, a
  successful vote or committed-mark write, append, truncation and purge leaves a store that holds
  exactly \<open>T\<close> with that vote or mark, with those entries at their indices, without the entries from
  the truncation point on, and with the purge mark and without the entries up to it; nothing else of
  the shard changes. With a store and an encoder that do not fail every one of them succeeds.\<close>

theorem log_operations_refine:
  assumes laws: "kv_laws kv view" "codec_laws cd" and R: "holds view cd st T"
  shows "(save_vote kv cd st v = Inr st' \<longrightarrow> holds view cd st' (T(VoteKey \<mapsto> VVote v)))
    \<and> (save_committed kv cd st c = Inr st' \<longrightarrow> holds view cd st' (T(CommittedKey \<mapsto> VLogId c)))
    \<and> (log_append kv cd st es = Inr st' \<longrightarrow> holds view cd st' (log_put T es))
    \<and> (truncate_log kv st l = Inr st' \<longrightarrow> holds view cd st' (log_drop T (\<lambda>i. li_index l \<le> i)))
    \<and> (purge kv cd st l = (st', Inr ()) \<longrightarrow>
        holds view cd st' (log_drop (T(LastPurgedKey \<mapsto> VLogId (Some l))) (\<lambda>i. i \<le> li_index l)))
    \<and> (kv_reliable kv \<and> codec_total cd \<longrightarrow>
        \<not> is_err (save_vote kv cd st v) \<and> \<not> is_err (save_committed kv cd st c)
        \<and> \<not> is_err (log_append kv cd st es) \<and> \<not> is_err (truncate_log kv st l)
        \<and> \<not> is_err (snd (purge kv cd st l)))"
proof (intro conjI impI)
  show "holds view cd st' (T(VoteKey \<mapsto> VVote v))" if "save_vote kv cd st v = Inr st'"
    by (rule vote_rep [OF laws R that])
  show "holds view cd st' (T(CommittedKey \<mapsto> VLogId c))" if "save_committed kv cd st c = Inr st'"
    by (rule committed_rep [OF laws R that])
qed (use log_append_rep [OF laws R] truncate_rep [OF laws R] purge_step [OF laws R] in
  \<open>simp_all add: save_vote_def save_committed_def es_set_ok log_append_ok truncate_ok purge_ok\<close>)

theorem log_operations_refine_witness:
  "\<exists>st'. log_append map_kv sample_codec sample_storage sample_entries = Inr st'
     \<and> rep sample_codec 1 (es_tree st') (log_put sample_shard sample_entries)"
proof -
  obtain st' where st': "log_append map_kv sample_codec sample_storage sample_entries = Inr st'" "es_shard_id st' = 1"
    by (rule sample_log)
  with log_operations_refine [OF map_kv_laws sample_codec_laws sample_storage_rep, where es = sample_entries and st' = st']
  show ?thesis by auto
qed

text \<open>A range read returns exactly the stored entries of the range, in index order, for every
  combination of included, excluded and open bounds, the ends of the 64-bit index space included; it
  does not fail on a store that does not.\<close>

theorem log_read_exact:
  assumes laws: "kv_laws kv view" "codec_laws cd" and R: "holds view cd st T" and wf: "log_wf T"
  shows "(\<forall>es. read_log_entries kv cd st lo hi = Inr es \<longrightarrow>
      sorted_wrt (<) (map (\<lambda>e. li_index (en_log_id e)) es)
      \<and> set es = {e. \<exists>i. in_bounds lo hi i \<and> log_at T i = Some e})
    \<and> (kv_reliable kv \<longrightarrow> (\<exists>es. read_log_entries kv cd st lo hi = Inr es))"
proof (intro conjI allI impI)
  assume "kv_reliable kv"
  then obtain es where "read_log_entries kv cd st lo hi = Inr es" by (rule read_ok [OF laws R])
  then show "\<exists>es. read_log_entries kv cd st lo hi = Inr es" by (rule exI)
qed (use log_read [OF laws R wf] in blast)+

theorem log_read_exact_witness:
  "\<exists>st' es. log_append map_kv sample_codec sample_storage sample_entries = Inr st'
     \<and> read_log_entries map_kv sample_codec st' (Excluded 1) (Included 2) = Inr es
     \<and> set es = {sample_entry 2 sample_fence}"
proof -
  obtain st' :: "((bytes, bytes) fmap, unit) EsStorage"
    where S: "log_append map_kv sample_codec sample_storage sample_entries = Inr st'"
    "holds (\<lambda>m. m) sample_codec st' (log_put sample_shard sample_entries)" "log_wf (log_put sample_shard sample_entries)"
    by (rule sample_log)
  note P = log_read_exact [OF map_kv_laws sample_codec_laws S(2,3), of "Excluded 1" "Included 2"]
  from P map_kv_reliable obtain es where es: "read_log_entries map_kv sample_codec st' (Excluded 1) (Included 2) = Inr es"
    by blast
  have at2: "log_at (log_put sample_shard sample_entries) 2 = Some (sample_entry 2 sample_fence)"
    unfolding sample_log_at by (simp add: sample_entries_def)
  have b: "in_bounds (Excluded 1) (Included 2) i \<longleftrightarrow> i = 2" for i
    by (auto simp: word_less_nat_alt word_le_nat_alt word_unat_eq_iff)
  have "{e. \<exists>i. in_bounds (Excluded 1) (Included 2) i \<and> log_at (log_put sample_shard sample_entries) i = Some e}
      = {sample_entry 2 sample_fence}"
    using b at2 by (simp del: in_bounds.simps)
  with P es S(1) show ?thesis by (metis (no_types, lifting))
qed

lemma read_dropped:
  assumes laws: "kv_laws kv view" "codec_laws cd" and R: "holds view cd st T" "holds view cd st' T'" and wf: "log_wf T"
    and drop: "\<And>i. log_at T' i = (if i \<le> x then None else log_at T i)"
    and run: "read_log_entries kv cd st Unbounded Unbounded = Inr es" "read_log_entries kv cd st' Unbounded Unbounded = Inr es'"
  shows "es' = filter (\<lambda>e. x < li_index (en_log_id e)) es"
proof -
  obtain xs where xs: "sorted_wrt (<) xs" "set xs = {i. log_at T i \<noteq> None \<and> in_bounds Unbounded Unbounded i}" by (rule log_list)
  let ?ys = "filter (\<lambda>i. x < i) xs"
  have ys: "sorted_wrt (<) ?ys" "set ?ys = {i. log_at T' i \<noteq> None \<and> in_bounds Unbounded Unbounded i}"
    using xs by (auto simp: sorted_wrt_filter drop not_le)
  have "li_index (en_log_id (the (log_at T i))) = i" if "i \<in> set xs" for i
    using wf that xs(2) by (auto simp: log_wf_def)
  then have "filter (\<lambda>e. x < li_index (en_log_id e)) (map (\<lambda>i. the (log_at T i)) xs) = map (\<lambda>i. the (log_at T i)) ?ys"
    by (simp add: filter_map comp_def cong: filter_cong)
  also have "\<dots> = map (\<lambda>i. the (log_at T' i)) ?ys" by (rule map_cong) (auto simp: drop not_le)
  finally show ?thesis using read_entries(1) [OF laws R(1) xs run(1)] read_entries(1) [OF laws R(2) ys run(2)] by simp
qed

text \<open>C17: purging is safe at every crash point. Whether a purge up to \<open>l\<close> succeeds, or fails before its mark is written,
  between its two commits or while deleting: an entry that is gone from the log is covered by the purge mark; the
  entries above \<open>l\<close> are all there; the log is either untouched or has lost exactly the entries up to \<open>l\<close>; the mark is
  the old one or \<open>l\<close>; and the log state still has a last log id with an index no smaller than before, the same one if
  that entry is above \<open>l\<close>. After a success the mark is \<open>l\<close> and nothing up to it is left. The purge point is not
  below the previous mark, as Raft purges forwards.\<close>

theorem purge_crash_safe:
  assumes laws: "kv_laws kv view" "codec_laws cd" and R: "holds view cd st T" and wf: "log_wf T"
    and before: "get_log_state kv cd st = Inr ls" "ls_last_log_id ls = Some h"
    and forward: "\<forall>q. ls_last_purged ls = Some q \<longrightarrow> li_index q \<le> li_index l"
    and run: "purge kv cd st l = (st', r)" and after: "get_log_state kv cd st' = Inr ls'"
    and log: "read_log_entries kv cd st Unbounded Unbounded = Inr es" "read_log_entries kv cd st' Unbounded Unbounded = Inr es'"
  defines "kept \<equiv> filter (\<lambda>e. li_index l < li_index (en_log_id e))"
  shows "(\<forall>e \<in> set es. e \<in> set es' \<or> (\<exists>q. ls_last_purged ls' = Some q \<and> li_index (en_log_id e) \<le> li_index q))
    \<and> kept es' = kept es \<and> (es' = es \<or> es' = kept es)
    \<and> (ls_last_purged ls' = ls_last_purged ls \<or> ls_last_purged ls' = Some l)
    \<and> (\<exists>h'. ls_last_log_id ls' = Some h' \<and> li_index h \<le> li_index h' \<and> (li_index l < li_index h \<longrightarrow> h' = h))
    \<and> (r = Inr () \<longrightarrow> ls_last_purged ls' = Some l \<and> es' = kept es)"
proof -
  let ?M = "T(LastPurgedKey \<mapsto> VLogId (Some l))"
  let ?D = "log_drop ?M (\<lambda>i. i \<le> li_index l)"
  have wfs: "log_wf ?M" "log_wf ?D" by (simp_all add: log_wf_ops wf)
  have last: "log_last ?M = log_last T" by (simp add: log_last_def)
  have marks: "at ?M LastPurgedKey as_log_id = Some (Some l)" "at ?D LastPurgedKey as_log_id = Some (Some l)"
    by (simp_all add: at_def)
  note B = get_log_state_exact [OF laws R before(1)]
  have head: "log_last T = Some h \<or> log_last T = None \<and> ls_last_purged ls = Some h"
    using B before(2) by (auto split: option.splits)
  consider (same) "is_err r" "st' = st" | (marked) "is_err r" "holds view cd st' ?M" | (purged) "r = Inr ()" "holds view cd st' ?D"
    using purge_outcomes [OF laws R run] by blast
  then show ?thesis
  proof cases
    case same
    with before after log show ?thesis by auto
  next
    case marked
    have A: "at ?M LastPurgedKey as_log_id = map_option Some (ls_last_purged ls')
        \<and> ls_last_log_id ls' = (case log_last ?M of Some h \<Rightarrow> Some h | None \<Rightarrow> ls_last_purged ls')"
      by (rule get_log_state_exact [OF laws marked(2) after])
    have "log_at ?M i = log_at T i" for i by simp
    then have "es' = es" by (rule read_entries_same [OF laws R marked(2) _ log])
    moreover have "ls_last_purged ls' = Some l" using A by (cases "ls_last_purged ls'") (simp_all add: marks)
    ultimately show ?thesis
      using A head forward marked(1) by (auto simp: last is_err_iff)
  next
    case purged
    note A = get_log_state_exact [OF laws purged(2) after]
    have gone: "es' = kept es" unfolding kept_def by (rule read_dropped [OF laws R purged(2) wf _ log]) simp
    have mark: "ls_last_purged ls' = Some l" using A by (cases "ls_last_purged ls'") (simp_all add: marks)
    have "e \<in> set es' \<or> li_index (en_log_id e) \<le> li_index l" if "e \<in> set es" for e
      using that by (auto simp: gone kept_def not_less)
    moreover have "kept es' = kept es" by (simp add: gone kept_def)
    moreover have "\<exists>h'. ls_last_log_id ls' = Some h' \<and> li_index h \<le> li_index h' \<and> (li_index l < li_index h \<longrightarrow> h' = h)"
    proof (cases "log_last T = Some h \<and> li_index l < li_index h")
      case True
      then have "log_last ?D = Some h" by (intro log_last_drop [OF wfs(1)]) (auto simp: last)
      then show ?thesis using A by simp
    next
      case False
      then have le: "li_index h \<le> li_index l" using head forward by (auto simp: not_less)
      have "log_last ?D = None"
      proof (cases "log_last ?D")
        case (Some g)
        from log_last_Some(1) [OF wfs(2) Some] have "\<not> li_index g \<le> li_index l" "log_at T (li_index g) \<noteq> None"
          by (auto split: if_splits)
        moreover from this(2) head have "li_index g \<le> li_index h" using log_last_Some(2) [OF wf] log_last_None by metis
        ultimately show ?thesis using le by simp
      qed
      then show ?thesis using A mark le by simp
    qed
    ultimately show ?thesis using mark gone by simp
  qed
qed

lemma get_log_state_ok:
  assumes "kv_laws kv view" "codec_laws cd" "kv_reliable kv" "holds view cd st T" "T LastPurgedKey \<noteq> Some (VLogId None)"
  obtains ls where "get_log_state kv cd st = Inr ls"
proof -
  have R: "rep_at cd (es_shard_id st) (view (es_tree st)) T LastPurgedKey" using assms(4) by (simp add: rep_def)
  have "\<not> is_err (read_typed kv cd st LastPurgedKey as_log_id)"
    by (rule read_typed_ok [OF assms(3,1,2) R]) (auto simp: projects_def dest!: value_kind_cases)
  then obtain x where x: "read_typed kv cd st LastPurgedKey as_log_id = Inr x" by (auto simp: is_err_iff) (metis obj_sumE)
  moreover have "x \<noteq> Some None"
    using read_typed_rep [OF assms(1) R x] assms(5) rep_at_kind [OF assms(2) R]
    by (auto simp: at_def bind_eq_Some_conv dest!: value_kind_cases)
  ultimately have p: "\<not> is_err (read_last_purged kv cd st)"
    by (auto simp: read_last_purged_def split: option.split)
  from p read_last_ok [OF assms(1,2,4,3)] show thesis
    using that by (cases "read_last_purged kv cd st"; cases "read_last_log_id kv cd st") (auto simp: get_log_state_def)
qed

theorem purge_crash_safe_witness:
  "\<exists>st st' ls'. log_append map_kv sample_codec sample_storage sample_entries = Inr st
     \<and> purge map_kv sample_codec st \<lparr>li_term = 1, li_node = 1, li_index = 3\<rparr> = (st', Inr ())
     \<and> get_log_state map_kv sample_codec st' = Inr ls'
     \<and> ls_last_purged ls' = Some \<lparr>li_term = 1, li_node = 1, li_index = 3\<rparr>
     \<and> ls_last_log_id ls' = Some \<lparr>li_term = 1, li_node = 1, li_index = 5\<rparr>"
proof -
  let ?T = "log_put sample_shard sample_entries" and ?l = "\<lparr>li_term = 1, li_node = 1, li_index = 3\<rparr> :: log_id"
  let ?h = "\<lparr>li_term = 1, li_node = 1, li_index = 5\<rparr> :: log_id"
  note L = map_kv_laws sample_codec_laws
  obtain st :: "((bytes, bytes) fmap, unit) EsStorage"
    where S: "log_append map_kv sample_codec sample_storage sample_entries = Inr st"
    "holds (\<lambda>m. m) sample_codec st ?T" "log_wf ?T" by (rule sample_log)
  obtain st' where run: "purge map_kv sample_codec st ?l = (st', Inr ())"
    using purge_ok [OF map_kv_reliable sample_codec_total, of st ?l] by (metis prod.collapse)
  note D = purge_step [OF L S(2) run, THEN conjunct1]
  have none: "?T LastPurgedKey = None" by (simp add: sample_entries_def sample_shard_def)
  have mark: "log_drop (?T(LastPurgedKey \<mapsto> VLogId (Some ?l))) (\<lambda>i. i \<le> li_index ?l) LastPurgedKey \<noteq> Some (VLogId None)"
    by simp
  obtain ls where ls: "get_log_state map_kv sample_codec st = Inr ls"
    using get_log_state_ok [OF L map_kv_reliable S(2)] none by auto
  obtain ls' where ls': "get_log_state map_kv sample_codec st' = Inr ls'"
    by (rule get_log_state_ok [OF L map_kv_reliable D mark])
  have I: "{i. log_at ?T i \<noteq> None} = {1, 2, 3, 4, 5}" by (auto simp: sample_log_at)
  have "log_last ?T = Some (en_log_id (the (log_at ?T 5)))" 
    unfolding log_last_def I by simp
  also have "\<dots> = Some ?h" unfolding sample_log_at by (simp add: sample_entries_def sample_entry_def)
  finally have last: "log_last ?T = Some ?h" .
  note A = get_log_state_exact [OF L S(2) ls]
  have h: "ls_last_log_id ls = Some ?h" and p: "ls_last_purged ls = None" using A last none by (simp_all add: at_def)
  obtain es es' where es: "read_log_entries map_kv sample_codec st Unbounded Unbounded = Inr es"
    "read_log_entries map_kv sample_codec st' Unbounded Unbounded = Inr es'"
    using read_ok [OF L S(2) map_kv_reliable] read_ok [OF L D map_kv_reliable] by metis
  have "\<forall>q. ls_last_purged ls = Some q \<longrightarrow> li_index q \<le> li_index ?l" by (simp add: p)
  from purge_crash_safe [OF L S(2,3) ls h this run ls' es]
  have "ls_last_log_id ls' = Some ?h" "ls_last_purged ls' = Some ?l" by auto
  with S(1) run ls' show ?thesis by blast
qed

text \<open>A diverged suffix is replaced as a whole. Truncating at \<open>l\<close> and appending the entries \<open>es\<close>,
  whose indices ascend from there, leaves a log that reads as the old entries below \<open>l\<close> followed by
  exactly \<open>es\<close>: nothing of the old suffix survives, nothing below it is touched.\<close>

theorem truncate_append_roundtrip:
  assumes laws: "kv_laws kv view" "codec_laws cd" and R: "holds view cd st T" and wf: "log_wf T"
    and es: "sorted_wrt (<) (map (\<lambda>e. li_index (en_log_id e)) es)" "\<forall>e \<in> set es. li_index l \<le> li_index (en_log_id e)"
    and run: "truncate_log kv st l = Inr st1" "log_append kv cd st1 es = Inr st2"
    and read: "read_log_entries kv cd st Unbounded (Excluded (li_index l)) = Inr old"
      "read_log_entries kv cd st2 Unbounded Unbounded = Inr new"
  shows "new = old @ es"
proof -
  let ?T2 = "log_put (log_drop T (\<lambda>i. li_index l \<le> i)) es" and ?idx = "\<lambda>e. li_index (en_log_id e)"
  have R2: "holds view cd st2 ?T2"
    using truncate_rep [OF laws R run(1)] log_append_rep [OF laws _ run(2)] by blast
  obtain xs where xs: "sorted_wrt (<) xs" "set xs = {i. log_at T i \<noteq> None \<and> in_bounds Unbounded (Excluded (li_index l)) i}"
    by (rule log_list)
  have old: "old = map (\<lambda>i. the (log_at T i)) xs" by (rule read_entries(1) [OF laws R xs read(1)])
  have below: "i < li_index l" if "i \<in> set xs" for i using that xs(2) by simp
  have fresh: "log_at ?T2 i = log_at T i" if "i \<in> set xs" for i
    using below [OF that] es by (auto simp: log_at_put find_None_iff split: option.split dest: find_SomeD)
  have entry: "log_at ?T2 (?idx e) = Some e" if "e \<in> set es" for e
    using that es(1) find_unique [OF es(1) that] by (simp add: log_at_put)
  have only: "i \<in> set xs \<union> ?idx ` set es" if "log_at ?T2 i \<noteq> None" for i
    using that xs(2) by (auto simp: log_at_put [OF es(1)] split: option.splits if_splits dest!: find_SomeD)
  have "sorted_wrt (<) (xs @ map ?idx es)"
    using xs(1) es below by (fastforce simp: sorted_wrt_append)
  moreover have "set (xs @ map ?idx es) = {i. log_at ?T2 i \<noteq> None \<and> in_bounds Unbounded Unbounded i}"
    using fresh entry only xs(2) by fastforce
  ultimately have "new = map (\<lambda>i. the (log_at ?T2 i)) (xs @ map ?idx es)"
    by (rule read_entries(1) [OF laws R2 _ _ read(2)])
  also have "\<dots> = old @ es" using fresh entry by (simp add: old map_idI)
  finally show ?thesis .
qed

theorem truncate_append_roundtrip_witness:
  "\<exists>st st1 st2. log_append map_kv sample_codec sample_storage sample_entries = Inr st
     \<and> truncate_log map_kv st (en_log_id (sample_entry 1 Blank)) = Inr st1
     \<and> log_append map_kv sample_codec st1 [sample_entry 1 Blank, sample_entry 2 Blank] = Inr st2
     \<and> read_log_entries map_kv sample_codec st2 Unbounded Unbounded = Inr [sample_entry 1 Blank, sample_entry 2 Blank]"
proof -
  let ?es = "[sample_entry 1 Blank, sample_entry 2 Blank]" and ?l = "en_log_id (sample_entry 1 Blank)"
  note L = map_kv_laws sample_codec_laws
  obtain st :: "((bytes, bytes) fmap, unit) EsStorage"
    where S: "log_append map_kv sample_codec sample_storage sample_entries = Inr st"
    "holds (\<lambda>m. m) sample_codec st (log_put sample_shard sample_entries)" "log_wf (log_put sample_shard sample_entries)"
    by (rule sample_log)
  obtain st1 where 1: "truncate_log map_kv st ?l = Inr st1"
    using truncate_ok [OF map_kv_reliable, of st ?l] by (cases "truncate_log map_kv st ?l") auto
  obtain st2 where 2: "log_append map_kv sample_codec st1 ?es = Inr st2"
    using log_append_ok [OF map_kv_reliable sample_codec_total, of st1 ?es] by (cases "log_append map_kv sample_codec st1 ?es") auto
  note R1 = truncate_rep [OF L S(2) 1, THEN conjunct1]
  note R2 = log_append_rep [OF L R1 2, THEN conjunct1]
  obtain old where old: "read_log_entries map_kv sample_codec st Unbounded (Excluded (li_index ?l)) = Inr old"
    by (rule read_ok [OF L S(2) map_kv_reliable])
  have "set old = {}"
  proof -
    have "\<not> (in_bounds Unbounded (Excluded (li_index ?l)) i \<and> log_at (log_put sample_shard sample_entries) i = Some e)" for i e
      by (auto simp: sample_log_at sample_entry_def)
    with log_read [OF L S(2,3) old] show ?thesis by auto
  qed
  obtain new where new: "read_log_entries map_kv sample_codec st2 Unbounded Unbounded = Inr new"
    by (rule read_ok [OF L R2 map_kv_reliable])
  have "new = old @ ?es"
    by (rule truncate_append_roundtrip [OF L S(2,3) _ _ 1 2 old new]) (simp_all add: sample_entry_def)
  with S(1) 1 2 new \<open>set old = {}\<close> show ?thesis by auto
qed

text \<open>A zeroed purge mark is reported, never read as an unpurged log. A shard whose purge mark was
  lost to a stored \<open>None\<close> makes \<open>get_log_state\<close> fail on every store, while no operation of the log
  storage leaves such a mark behind if there was none.\<close>

theorem purge_mark_corruption_detected:
  assumes laws: "kv_laws kv view" "codec_laws cd" and R: "holds view cd st T"
  shows "(T LastPurgedKey = Some (VLogId None) \<longrightarrow> is_err (get_log_state kv cd st))
    \<and> (T LastPurgedKey \<noteq> Some (VLogId None) \<longrightarrow>
        (kv_reliable kv \<longrightarrow> \<not> is_err (get_log_state kv cd st))
        \<and> (\<forall>st' r. save_vote kv cd st v = Inr st' \<or> save_committed kv cd st c = Inr st' \<or> log_append kv cd st es = Inr st'
              \<or> truncate_log kv st l = Inr st' \<or> purge kv cd st l = (st', r) \<longrightarrow>
            (\<exists>T'. holds view cd st' T' \<and> T' LastPurgedKey \<noteq> Some (VLogId None))))"
proof (intro conjI impI allI)
  show "is_err (get_log_state kv cd st)" if "T LastPurgedKey = Some (VLogId None)"
  proof (rule ccontr)
    assume "\<not> is_err (get_log_state kv cd st)"
    then obtain ls where "get_log_state kv cd st = Inr ls" by (cases "get_log_state kv cd st") auto
    from get_log_state_exact [OF laws R this] that show False by (cases "ls_last_purged ls") (simp_all add: at_def)
  qed
next
  assume ok: "T LastPurgedKey \<noteq> Some (VLogId None)"
  show "\<not> is_err (get_log_state kv cd st)" if "kv_reliable kv"
    by (rule get_log_state_ok [OF laws that R ok]) simp
  have put: "log_put T es LastPurgedKey = T LastPurgedKey" by (induction es arbitrary: T) simp_all
  fix st' r
  assume "save_vote kv cd st v = Inr st' \<or> save_committed kv cd st c = Inr st' \<or> log_append kv cd st es = Inr st'
      \<or> truncate_log kv st l = Inr st' \<or> purge kv cd st l = (st', r)"
  then consider "save_vote kv cd st v = Inr st'" | "save_committed kv cd st c = Inr st'"
    | "log_append kv cd st es = Inr st'" | "truncate_log kv st l = Inr st'" | "purge kv cd st l = (st', r)" by blast
  then show "\<exists>T'. holds view cd st' T' \<and> T' LastPurgedKey \<noteq> Some (VLogId None)"
  proof cases
    case 1
    have "holds view cd st' (T(VoteKey \<mapsto> VVote v))" using vote_rep [OF laws R 1] by simp
    moreover have "(T(VoteKey \<mapsto> VVote v)) LastPurgedKey \<noteq> Some (VLogId None)" using ok by simp
    ultimately show ?thesis by blast
  next
    case 2
    have "holds view cd st' (T(CommittedKey \<mapsto> VLogId c))" using committed_rep [OF laws R 2] by simp
    moreover have "(T(CommittedKey \<mapsto> VLogId c)) LastPurgedKey \<noteq> Some (VLogId None)" using ok by simp
    ultimately show ?thesis by blast
  next
    case 3
    from log_append_rep [OF laws R 3] put ok show ?thesis by auto
  next
    case 4
    moreover have "log_drop T (\<lambda>i. li_index l \<le> i) LastPurgedKey \<noteq> Some (VLogId None)" using ok by simp
    ultimately show ?thesis using truncate_rep [OF laws R 4] by blast
  next
    case 5
    let ?M = "T(LastPurgedKey \<mapsto> VLogId (Some l))"
    have "?M LastPurgedKey \<noteq> Some (VLogId None)" "log_drop ?M (\<lambda>i. i \<le> li_index l) LastPurgedKey \<noteq> Some (VLogId None)"
      by simp_all
    then show ?thesis using purge_outcomes [OF laws R 5] ok R by blast
  qed
qed

theorem purge_mark_corruption_detected_witness:
  "\<exists>st' :: ((bytes, bytes) fmap, unit) EsStorage.
     rep sample_codec 1 (es_tree st') (sample_shard(LastPurgedKey \<mapsto> VLogId None))
     \<and> is_err (get_log_state map_kv sample_codec st')"
proof -
  have "\<not> is_err (rbind (encode_value sample_codec (VLogId None))
      (\<lambda>v. es_set map_kv sample_storage (encode_key (es_shard_id sample_storage) LastPurgedKey) v))"
    by (rule es_set_ok [OF map_kv_reliable sample_codec_total])
  then obtain st' where st': "rbind (encode_value sample_codec (VLogId None))
      (\<lambda>v. es_set map_kv sample_storage (encode_key (es_shard_id sample_storage) LastPurgedKey) v) = Inr st'"
    unfolding is_err_iff by (metis obj_sumE)
  from es_set_rep [OF map_kv_laws sample_codec_laws sample_storage_rep _ _ st']
  have R: "holds (\<lambda>m. m) sample_codec st' (sample_shard(LastPurgedKey \<mapsto> VLogId None))" "es_shard_id st' = 1"
    using own_step_shard [of "\<lambda>m. m" sample_storage st'] by (simp_all add: sample_storage_def)
  from purge_mark_corruption_detected [OF map_kv_laws sample_codec_laws R(1)] R show ?thesis by auto
qed

text \<open>C18: the shards that share one store are isolated. Whatever a shard does, applying entries, writing
  its vote or its committed mark, appending to, truncating or purging its log, a failed purge included,
  every other shard of the same store reads exactly what it read before.\<close>

theorem shards_isolated:
  assumes laws: "kv_laws kv view" "codec_laws cd" and R: "holds view cd st T" and room: "revision_room T (length entries)"
    and other: "rep cd s' (view (es_tree st)) T'" "s' \<noteq> es_shard_id st"
    and run: "sm_apply h kv cd st entries = Inr (st', rs) \<or> save_vote kv cd st v = Inr st' \<or> save_committed kv cd st c = Inr st'
      \<or> log_append kv cd st es = Inr st' \<or> truncate_log kv st l = Inr st' \<or> purge kv cd st l = (st', r)"
  shows "rep cd s' (view (es_tree st')) T'"
proof -
  have *: "rep cd s' (view (es_tree st')) T'" if "own_step view st st'" "holds view cd st' T2" for T2
    using own_step_foreign [OF that(1) other] that(2) by (simp add: rep_def)
  have key: "rep cd s' (view (es_tree st')) T'"
    if "rbind (encode_value cd x) (\<lambda>b. es_set kv st (encode_key (es_shard_id st) k) b) = Inr st'" "valid_key k" "value_kind x = key_kind k" for k x
    using * es_set_rep [OF laws R that(2,3,1)] by blast
  from run consider "sm_apply h kv cd st entries = Inr (st', rs)" | "save_vote kv cd st v = Inr st'"
    | "save_committed kv cd st c = Inr st'" | "log_append kv cd st es = Inr st'" | "truncate_log kv st l = Inr st'"
    | "purge kv cd st l = (st', r)" by blast
  then show ?thesis
  proof cases
    case 1
    then show ?thesis using apply_own_step [OF laws R room] other by blast
  next
    case 2
    then show ?thesis using key [of "VVote v" VoteKey] by (simp add: save_vote_def)
  next
    case 3
    then show ?thesis using key [of "VLogId c" CommittedKey] by (simp add: save_committed_def)
  next
    case 4
    then show ?thesis using * log_append_rep [OF laws R] by blast
  next
    case 5
    then show ?thesis using * truncate_rep [OF laws R] by blast
  next
    case 6
    then show ?thesis using * purge_outcomes [OF laws R] R by blast
  qed
qed

theorem shards_isolated_witness:
  "\<exists>st'. log_append map_kv sample_codec sample_storage sample_entries = Inr st'
     \<and> rep sample_codec 2 (es_tree st') (sample_shard :: unit shard)"
proof -
  obtain st' where st': "log_append map_kv sample_codec sample_storage sample_entries = Inr st'" by (rule sample_log)
  have "rep sample_codec 2 (es_tree sample_storage) (sample_shard :: unit shard)"
    by (simp add: rep_def rep_at_def closed_def sample_storage_def sample_shard_def)
  moreover have "(2 :: u64) \<noteq> es_shard_id sample_storage" by (simp add: sample_storage_def)
  moreover have "revision_room (sample_shard :: unit shard) (length ([] :: unit Entry list))" by (rule sample_room) simp
  ultimately show ?thesis
    using shards_isolated [OF map_kv_laws sample_codec_laws sample_storage_rep, of "[]" 2 sample_shard] st' by blast
qed

end
