(* ===== verification/Snapshot_Transfer.thy ===== *)
theory Snapshot_Transfer
  imports Snapshot_Store Log_Store
begin

text \<open>
  Snapshots between the store and the snapshot directory: \<open>build_snapshot\<close>, \<open>install_snapshot\<close>,
  \<open>get_current_snapshot\<close>, \<open>begin_receiving_snapshot\<close> and the startup clean-up of
  \<open>es-storage/src/state_machine.rs\<close>, and the offline \<open>restore\<close> of \<open>es-storage/src/snapshot.rs\<close>. An
  operation that fails returns the directory (and, for \<open>restore\<close>, the store) it leaves behind.
\<close>

section \<open>Errors and small helpers\<close>

datatype sm_error =
    SmRead io_error
  | SmWrite io_error
  | SmEs Error
  | SnapshotIdMismatch string string
  | PayloadLenMismatch u64 u64
  | WrongShard u64 u64

definition find_file :: "string \<Rightarrow> dir_entry list option \<Rightarrow> dir_entry option" where
  "find_file name files = Option.bind files (find (\<lambda>e. de_name e = name))"

definition new_file :: "string \<Rightarrow> bytes \<Rightarrow> dir_entry" where
  "new_file name bs = \<lparr>de_name = name, de_is_file = True, de_mtime = 0, de_bytes = bs\<rparr>"

definition put_file :: "dir_entry \<Rightarrow> dir_entry list option \<Rightarrow> dir_entry list option" where
  "put_file f files = map_option (\<lambda>fs. filter (\<lambda>e. de_name e \<noteq> de_name f) fs @ [f]) files"

definition drop_file :: "string \<Rightarrow> dir_entry list option \<Rightarrow> dir_entry list option" where
  "drop_file name files = map_option (filter (\<lambda>e. de_name e \<noteq> name)) files"

text \<open>\<open>std::fs::rename\<close> from \<open>incoming/\<close> to the root.\<close>

definition promote :: "string \<Rightarrow> string \<Rightarrow> bytes \<Rightarrow> SnapDir \<Rightarrow> SnapDir" where
  "promote tmp final bs d =
     d\<lparr>sd_root := put_file (new_file final bs) (sd_root d), sd_incoming := drop_file tmp (sd_incoming d)\<rparr>"

section \<open>Building a snapshot\<close>

definition sm_range :: "u64 \<Rightarrow> (bytes \<times> bytes, Error) result" where
  "sm_range shard =
     (let start = 0x02 # to_be_bytes shard
      in rbind (ok_or (Internal ''sm_range'') (successor start)) (\<lambda>e. Inr (start, e)))"

definition collect_sm_entries :: "'db kv \<Rightarrow> ('db, 'm) EsStorage \<Rightarrow> ((bytes \<times> bytes) list, Error) result" where
  "collect_sm_entries kv st =
     rbind (sm_range (es_shard_id st)) (\<lambda>(lo, hi). map_err Error.Storage (kv_range kv (es_tree st) lo hi))"

definition snapshot_id_of :: "u64 \<Rightarrow> log_id option \<Rightarrow> string" where
  "snapshot_id_of shard l =
     (case l of
        Some l \<Rightarrow> decimal (unat shard) @ ''-'' @ decimal (unat (li_term l)) @ ''-'' @ decimal (unat (li_index l))
      | None \<Rightarrow> decimal (unat shard) @ ''-empty'')"

definition snapshot_meta :: "('db, 'm) EsStorage \<Rightarrow> 'm SnapshotMeta" where
  "snapshot_meta st = \<lparr>sn_last_log_id = es_last_applied st, sn_last_membership = es_membership st,
     sn_snapshot_id = snapshot_id_of (es_shard_id st) (es_last_applied st)\<rparr>"

text \<open>
  \<open>uuid\<close> names the temporary file; \<open>torn\<close> are the bytes a failed write left in it, which stay if it
  cannot be removed either.
\<close>

definition build_snapshot ::
  "zip \<Rightarrow> 'm meta_codec \<Rightarrow> (u64 \<Rightarrow> bool) \<Rightarrow> fs \<Rightarrow> SnapshotStore \<Rightarrow> string \<Rightarrow> bytes \<Rightarrow> 'db kv \<Rightarrow> ('db, 'm) EsStorage \<Rightarrow> SnapDir
     \<Rightarrow> SnapDir \<times> ('m SnapshotMeta \<times> string, sm_error) result" where
  "build_snapshot z mc alloc fs store uuid torn kv st d =
     (case collect_sm_entries kv st of
        Inl e \<Rightarrow> (d, Inl (SmEs e))
      | Inr entries \<Rightarrow>
          let meta = snapshot_meta st; shard = es_shard_id st; tmp = uuid @ ''.tmp'' in
          case ensure_dirs fs d of
            Inl e \<Rightarrow> (d, Inl (SmWrite e))
          | Inr d1 \<Rightarrow>
              (case snapshot_header mc (ss_compression store) shard meta entries of
                 Inl e \<Rightarrow> (d1, Inl (SmWrite e))
               | Inr h \<Rightarrow>
                   if \<not> fs_create fs (''incoming/'' @ tmp) then (d1, Inl (SmWrite (OsError ''create'')))
                   else case snapshot_image z mc h meta entries of
                       Inl e \<Rightarrow>
                         (if fs_remove fs (''incoming/'' @ tmp) then d1
                          else d1\<lparr>sd_incoming := put_file (new_file tmp torn) (sd_incoming d1)\<rparr>, Inl (SmWrite e))
                     | Inr bs \<Rightarrow>
                         let final = final_path shard (es_last_applied st) in
                         if \<not> fs_rename fs (''incoming/'' @ tmp) final
                         then (d1\<lparr>sd_incoming := put_file (new_file tmp bs) (sd_incoming d1)\<rparr>, Inl (SmWrite (OsError ''rename'')))
                         else case retain mc alloc fs (promote tmp final bs d1) (ss_shard_id store) (ss_keep store) of
                             (d2, Inl e) \<Rightarrow> (d2, Inl (SmWrite e))
                           | (d2, Inr _) \<Rightarrow>
                               if fs_open fs final then (d2, Inr (meta, final)) else (d2, Inl (SmWrite (OsError ''open'')))))"

section \<open>Receiving and installing a snapshot\<close>

definition begin_receiving_snapshot :: "fs \<Rightarrow> string \<Rightarrow> SnapDir \<Rightarrow> SnapDir \<times> (string, sm_error) result" where
  "begin_receiving_snapshot fs uuid d =
     (case ensure_dirs fs d of
        Inl e \<Rightarrow> (d, Inl (SmWrite e))
      | Inr d1 \<Rightarrow>
          let tmp = uuid @ ''.tmp'' in
          if \<not> fs_create fs (''incoming/'' @ tmp) \<or> find_file tmp (sd_incoming d1) \<noteq> None
          then (d1, Inl (SmWrite (OsError ''create_new'')))
          else (d1\<lparr>sd_incoming := put_file (new_file tmp []) (sd_incoming d1)\<rparr>, Inr tmp))"

text \<open>\<open>SnapshotFile\<close>: where the received bytes are and whether the file is temporary.\<close>

record SnapshotFile =
  sf_path :: string
  sf_temp :: bool

definition snapshot_bytes :: "fs \<Rightarrow> SnapDir \<Rightarrow> SnapshotFile \<Rightarrow> (bytes, sm_error) result" where
  "snapshot_bytes fs d sf =
     (let full = (if sf_temp sf then ''incoming/'' @ sf_path sf else sf_path sf)
      in case find_file (sf_path sf) (if sf_temp sf then sd_incoming d else sd_root d) of
           Some f \<Rightarrow> if fs_open fs full then Inr (de_bytes f) else Inl (SmRead (OsError ''open''))
         | None \<Rightarrow> Inl (SmRead (OsError ''open'')))"

text \<open>Every early return drops the temporary file (\<open>TempGuard\<close>, \<open>Drop for SnapshotFile\<close>).\<close>

definition discard :: "fs \<Rightarrow> SnapshotFile \<Rightarrow> SnapDir \<Rightarrow> SnapDir" where
  "discard fs sf d =
     (if sf_temp sf \<and> fs_remove fs (''incoming/'' @ sf_path sf)
      then d\<lparr>sd_incoming := drop_file (sf_path sf) (sd_incoming d)\<rparr> else d)"

text \<open>The checks and the transaction \<open>install_snapshot\<close> collects before its commit.\<close>

definition install_ops ::
  "zip \<Rightarrow> 'm meta_codec \<Rightarrow> (u64 \<Rightarrow> bool) \<Rightarrow> 'db kv \<Rightarrow> 'm codec \<Rightarrow> ('db, 'm) EsStorage \<Rightarrow> 'm SnapshotMeta \<Rightarrow> bytes
     \<Rightarrow> (kv_op list, sm_error) result" where
  "install_ops z mc alloc kv cd st meta bs =
     rbind (map_err SmRead (read_header mc alloc bs)) (\<lambda>((h, file_meta), _).
       if sn_snapshot_id file_meta \<noteq> sn_snapshot_id meta
       then Inl (SnapshotIdMismatch (sn_snapshot_id file_meta) (sn_snapshot_id meta))
       else rbind (map_err SmRead (Compression_reader z (sh_compression h) (drop (32 + unat (sh_meta_len h)) bs))) (\<lambda>reader.
         rbind (map_err SmEs (rbind (sm_range (es_shard_id st)) (\<lambda>(lo, hi). collect_keys kv st lo hi))) (\<lambda>old_keys.
           rbind (map_err SmRead (for_each_record alloc (\<lambda>ops k v. Inr (ops @ [KvSet k v])) (map KvDelete old_keys) reader))
             (\<lambda>(ops, read_bytes, _).
               if read_bytes \<noteq> sh_payload_len h then Inl (PayloadLenMismatch read_bytes (sh_payload_len h))
               else rbind (map_err SmEs (encode_value cd
                   (VApplied \<lparr>ap_last_applied = sn_last_log_id meta, ap_membership = sn_last_membership meta\<rparr>))) (\<lambda>v.
                 Inr (ops @ [KvSet (sm_applied_state (es_shard_id st)) v]))))))"

definition install_snapshot ::
  "zip \<Rightarrow> 'm meta_codec \<Rightarrow> (u64 \<Rightarrow> bool) \<Rightarrow> fs \<Rightarrow> SnapshotStore \<Rightarrow> 'db kv \<Rightarrow> 'm codec \<Rightarrow> ('db, 'm) EsStorage \<Rightarrow> SnapDir
     \<Rightarrow> 'm SnapshotMeta \<Rightarrow> SnapshotFile \<Rightarrow> ('db, 'm) EsStorage \<times> SnapDir \<times> (unit, sm_error) result" where
  "install_snapshot z mc alloc fs store kv cd st d meta sf =
     (case rbind (snapshot_bytes fs d sf) (\<lambda>bs.
             rbind (install_ops z mc alloc kv cd st meta bs) (\<lambda>ops.
               rbind (map_err SmEs (es_commit kv st ops)) (\<lambda>st'. Inr (bs, st')))) of
        Inl e \<Rightarrow> (st, discard fs sf d, Inl e)
      | Inr (bs, st') \<Rightarrow>
          let final = final_path (ss_shard_id store) (sn_last_log_id meta);
              renamed = sf_temp sf \<and> fs_rename fs (''incoming/'' @ sf_path sf) final;
              d1 = (if renamed then promote (sf_path sf) final bs d else d);
              d2 = fst (retain mc alloc fs d1 (ss_shard_id store) (ss_keep store));
              d3 = (if renamed then d2 else discard fs sf d2)
          in (st'\<lparr>es_last_applied := sn_last_log_id meta, es_membership := sn_last_membership meta\<rparr>, d3, Inr ()))"

definition get_current_snapshot ::
  "'m meta_codec \<Rightarrow> (u64 \<Rightarrow> bool) \<Rightarrow> fs \<Rightarrow> ('db, 'm) EsStorage \<Rightarrow> SnapDir
     \<Rightarrow> (('m SnapshotMeta \<times> string) option, sm_error) result" where
  "get_current_snapshot mc alloc fs st d =
     rbind (map_err SmRead (latest mc alloc fs d (es_shard_id st) (es_last_applied st))) (\<lambda>o'.
       case o' of
         None \<Rightarrow> Inr None
       | Some path \<Rightarrow>
           rbind (snapshot_bytes fs d \<lparr>sf_path = path, sf_temp = False\<rparr>) (\<lambda>bs.
           rbind (map_err SmRead (read_header mc alloc bs)) (\<lambda>((_, meta), _). Inr (Some (meta, path)))))"

section \<open>Startup\<close>

definition cleanup_legacy_snapshot ::
  "'db kv \<Rightarrow> fs \<Rightarrow> ('db, 'm) EsStorage \<Rightarrow> SnapDir \<Rightarrow> SnapDir \<times> (('db, 'm) EsStorage, Error) result" where
  "cleanup_legacy_snapshot kv fs st d =
     (let k = snapshot_current (es_shard_id st)
      in case rbind (es_get kv st k) (\<lambda>x. if x \<noteq> None then delete_batch kv st [k] else Inr st) of
           Inl e \<Rightarrow> (d, Inl e)
         | Inr st' \<Rightarrow>
             (case cleanup_incoming fs d of
                (d', Inl _) \<Rightarrow> (d', Inl (Error.Storage ''cleanup_incoming''))
              | (d', Inr _) \<Rightarrow> (d', Inr st')))"

definition restore_applied_state ::
  "'db kv \<Rightarrow> 'm codec \<Rightarrow> fs \<Rightarrow> ('db, 'm) EsStorage \<Rightarrow> SnapDir \<Rightarrow> SnapDir \<times> (('db, 'm) EsStorage, Error) result" where
  "restore_applied_state kv cd fs st d =
     (case read_typed kv cd st AppliedStateKey as_applied of
        Inl e \<Rightarrow> (d, Inl e)
      | Inr o' \<Rightarrow>
          cleanup_legacy_snapshot kv fs
            (case o' of None \<Rightarrow> st
             | Some a \<Rightarrow> st\<lparr>es_last_applied := ap_last_applied a, es_membership := ap_membership a\<rparr>) d)"

section \<open>Offline restore\<close>

record RestoreReport =
  rr_shard_id :: u64
  rr_term :: u64
  rr_index :: u64
  rr_events :: nat
  rr_snapshot_file :: string

text \<open>
  Old snapshots of the shard are removed first; \<open>src\<close> is the name of the restored file if it lies
  in the directory itself.
\<close>

fun remove_old ::
  "fs \<Rightarrow> u64 \<Rightarrow> string option \<Rightarrow> 'm SnapshotEntry list \<Rightarrow> SnapDir \<Rightarrow> SnapDir \<times> (unit, sm_error) result" where
  "remove_old fs shard src [] d = (d, Inr ())"
| "remove_old fs shard src (e # es) d =
     (if map_option sh_shard_id (se_header e) \<noteq> Some shard \<or> src = Some (se_path e) then remove_old fs shard src es d
      else if fs_remove fs (se_path e) then remove_old fs shard src es (remove_file (se_path e) d)
      else (d, Inl (SmEs (Error.Storage ''remove_file''))))"

definition area_keys :: "'db kv \<Rightarrow> 'db \<Rightarrow> u8 \<Rightarrow> u64 \<Rightarrow> (bytes list, Error) result" where
  "area_keys kv db tag shard =
     (let start = tag # to_be_bytes shard
      in rbind (ok_or (Internal ''area'') (successor start)) (\<lambda>e.
        if e \<le> start then Inr [] else rbind (map_err Error.Storage (kv_range kv db start e)) (\<lambda>xs. Inr (map fst xs))))"

definition restore_ops ::
  "(u64 \<Rightarrow> bool) \<Rightarrow> 'db kv \<Rightarrow> 'm codec \<Rightarrow> 'db \<Rightarrow> u64 \<Rightarrow> SnapshotHeader \<Rightarrow> 'm SnapshotMeta \<Rightarrow> bytes
     \<Rightarrow> (kv_op list \<times> nat, sm_error) result" where
  "restore_ops alloc kv cd db shard h meta reader =
     rbind (map_err SmEs (area_keys kv db 0x01 shard)) (\<lambda>raft_keys.
     rbind (map_err SmEs (area_keys kv db 0x02 shard)) (\<lambda>sm_keys.
     rbind (map_err SmRead (for_each_record alloc
         (\<lambda>(ops, events) k v. Inr (ops @ [KvSet k v], if is_aggregate_event_key shard k then events + 1 else events))
         (map KvDelete (filter (\<lambda>k. k \<noteq> raft_vote shard) (raft_keys @ sm_keys)), 0) reader))
       (\<lambda>((ops, events), read_bytes, _).
       if read_bytes \<noteq> sh_payload_len h then Inl (PayloadLenMismatch read_bytes (sh_payload_len h))
       else rbind (map_err SmEs (encode_value cd
           (VApplied \<lparr>ap_last_applied = sn_last_log_id meta, ap_membership = sn_last_membership meta\<rparr>))) (\<lambda>a.
         case sn_last_log_id meta of
           None \<Rightarrow> Inr (ops @ [KvSet (sm_applied_state shard) a], events)
         | Some l \<Rightarrow>
             rbind (map_err SmEs (encode_value cd (VLogId (Some l)))) (\<lambda>v.
               Inr (ops @ [KvSet (sm_applied_state shard) a, KvSet (raft_last_purged shard) v,
                   KvSet (raft_committed shard) v], events))))))"

definition restore ::
  "zip \<Rightarrow> 'm meta_codec \<Rightarrow> (u64 \<Rightarrow> bool) \<Rightarrow> fs \<Rightarrow> 'db kv \<Rightarrow> 'm codec \<Rightarrow> 'db \<Rightarrow> SnapDir \<Rightarrow> u64 \<Rightarrow> string option \<Rightarrow> bytes
     \<Rightarrow> 'db \<times> SnapDir \<times> (RestoreReport, sm_error) result" where
  "restore z mc alloc fs kv cd db d shard src bs =
     (case read_header mc alloc bs of
        Inl e \<Rightarrow> (db, d, Inl (SmRead e))
      | Inr ((h, meta), _) \<Rightarrow>
          if sh_shard_id h \<noteq> shard then (db, d, Inl (WrongShard (sh_shard_id h) shard))
          else case Compression_reader z (sh_compression h) (drop (32 + unat (sh_meta_len h)) bs) of
              Inl e \<Rightarrow> (db, d, Inl (SmRead e))
            | Inr reader \<Rightarrow>
                (case ensure_dirs fs d of
                   Inl e \<Rightarrow> (db, d, Inl (SmWrite e))
                 | Inr d1 \<Rightarrow>
                     let final = final_path shard (sn_last_log_id meta) in
                     case list_entries mc alloc fs d1 of
                       Inl e \<Rightarrow> (db, d1, Inl (SmRead e))
                     | Inr entries \<Rightarrow>
                         (case remove_old fs shard src entries d1 of
                            (d2, Inl e) \<Rightarrow> (db, d2, Inl e)
                          | (d2, Inr _) \<Rightarrow>
                              (case rbind (restore_ops alloc kv cd db shard h meta reader) (\<lambda>(ops, events).
                                      rbind (map_err (\<lambda>e. SmEs (Error.Storage e)) (kv_commit kv db ops)) (\<lambda>db'. Inr (db', events))) of
                                 Inl e \<Rightarrow> (db, d2, Inl e)
                               | Inr (db', events) \<Rightarrow>
                                   if src \<noteq> Some final \<and> \<not> fs_copy fs final
                                   then (db', d2, Inl (SmEs (Error.Storage ''copy'')))
                                   else (db', if src = Some final then d2
                                           else d2\<lparr>sd_root := put_file (new_file final bs) (sd_root d2)\<rparr>,
                                         Inr \<lparr>rr_shard_id = shard, rr_term = fst (snap_point (sn_last_log_id meta)),
                                              rr_index = snd (snap_point (sn_last_log_id meta)), rr_events = events,
                                              rr_snapshot_file = final\<rparr>)))))"

section \<open>The state machine area\<close>

definition sm_key :: "store_key \<Rightarrow> bool" where
  "sm_key k \<longleftrightarrow> fst (key_tags k) = TAG_SM"

definition raft_key :: "store_key \<Rightarrow> bool" where
  "raft_key k \<longleftrightarrow> fst (key_tags k) = TAG_RAFT"

lemma area_prefix:
  "prefix (tag # to_be_bytes s) (encode_key s' k) \<longleftrightarrow> s' = s \<and> fst (key_tags k) = tag"
  by (auto simp: encode_key_eq prefix_def simp del: encode_key.simps)

lemma area_successor: "tag \<noteq> 0xFF \<Longrightarrow> successor (tag # to_be_bytes s) \<noteq> None"
  by (simp add: successor_Cons split: option.split)

text \<open>A scan of an area gives all its pairs, each key once.\<close>

lemma area_scan:
  assumes "successor pre = Some e"
  obtains bs where "range_of m pre e = map (\<lambda>b. (b, the (fmlookup m b))) bs" "distinct bs"
    "set bs = {b. b |\<in>| fmdom m \<and> prefix pre b}"
proof -
  let ?bs = "filter (\<lambda>k. pre \<le> k \<and> k < e) (sorted_list_of_fset (fmdom m))"
  have "range_of m pre e = map (\<lambda>b. (b, the (fmlookup m b))) ?bs"
    by (simp add: range_of_def sorted_list_of_fmap_def filter_map comp_def)
  moreover have "set ?bs = {b. b |\<in>| fmdom m \<and> prefix pre b}"
    using successor_range [of pre] assms by (auto simp: sorted_list_of_fset.rep_eq)
  ultimately show thesis using that by simp
qed

lemma fold_replace:
  assumes "distinct bs"
  shows "fmlookup (fold apply_kv_op (map KvDelete ds @ map (\<lambda>b. KvSet b (f b)) bs) m) b =
    (if b \<in> set bs then Some (f b) else if b \<in> set ds then None else fmlookup m b)"
proof -
  have "fmlookup (fold apply_kv_op (map (\<lambda>b. KvSet b (f b)) bs) m') b = (if b \<in> set bs then Some (f b) else fmlookup m' b)" for m'
    by (induction bs arbitrary: m') auto
  then show ?thesis by (simp add: fold_deletes)
qed

section \<open>What a built file holds\<close>

lemma retain_root:
  fixes mc :: "'m meta_codec"
  assumes "retain mc alloc fs d shard keep = (d', r)"
  obtains Q where "sd_root d' = map_option (filter Q) (sd_root d)"
proof -
  have refl: "sd_root d = map_option (filter (\<lambda>_. True)) (sd_root d)" by (cases "sd_root d") simp_all
  show thesis
  proof (cases "keep = 0 \<or> is_err (list_entries mc alloc fs d)")
    case True
    with assms have "d' = d" by (auto simp: retain_def is_err_iff split: if_splits)
    with refl that show ?thesis by auto
  next
    case False
    then obtain es :: "'m SnapshotEntry list" where "retain_loop fs keep d (sort_key fst (own_snapshots shard es)) [] = (d', r)"
      using assms by (cases "list_entries mc alloc fs d") (auto simp: retain_def)
    from retain_loop_result [OF this] root_remove_files that show ?thesis by metis
  qed
qed

lemma find_put_file:
  assumes "find_file name (map_option (filter Q) (put_file (new_file name bs) files)) = Some f"
  shows "de_bytes f = bs"
proof -
  have new: "de_name (new_file name bs) = name" "de_bytes (new_file name bs) = bs" by (simp_all add: new_file_def)
  from assms obtain xs where "find (\<lambda>e. de_name e = name) (filter Q (filter (\<lambda>e. de_name e \<noteq> name) xs @ [new_file name bs])) = Some f"
    by (auto simp: find_file_def put_file_def bind_eq_Some_conv new)
  from find_SomeD [OF this] have "f = new_file name bs" by (auto split: if_splits)
  then show ?thesis by (simp add: new)
qed

lemma build_snapshot_file:
  assumes run: "build_snapshot z mc alloc fs store uuid torn kv st d = (d', Inr (meta, name))"
    and f: "find_file name (sd_root d') = Some f"
  obtains entries h where "collect_sm_entries kv st = Inr entries" "meta = snapshot_meta st"
    "snapshot_header mc (ss_compression store) (es_shard_id st) meta entries = Inr h"
    "snapshot_image z mc h meta entries = Inr (de_bytes f)" "name = final_path (es_shard_id st) (es_last_applied st)"
proof -
  let ?tmp = "uuid @ ''.tmp''" and ?shard = "es_shard_id st" and ?final = "final_path (es_shard_id st) (es_last_applied st)"
  obtain entries where e: "collect_sm_entries kv st = Inr entries"
    using run by (cases "collect_sm_entries kv st") (simp_all add: build_snapshot_def)
  obtain d1 where d1: "ensure_dirs fs d = Inr d1"
    using run e by (cases "ensure_dirs fs d") (simp_all add: build_snapshot_def Let_def)
  obtain h where h: "snapshot_header mc (ss_compression store) ?shard (snapshot_meta st) entries = Inr h"
    using run e d1 by (cases "snapshot_header mc (ss_compression store) ?shard (snapshot_meta st) entries")
      (simp_all add: build_snapshot_def Let_def)
  have create: "fs_create fs (''incoming/'' @ ?tmp)"
    using run e d1 h by (simp add: build_snapshot_def Let_def split: if_splits)
  obtain bs where bs: "snapshot_image z mc h (snapshot_meta st) entries = Inr bs"
    using run e d1 h create by (cases "snapshot_image z mc h (snapshot_meta st) entries") (simp_all add: build_snapshot_def Let_def)
  have rename: "fs_rename fs (''incoming/'' @ ?tmp) ?final"
    using run e d1 h create bs by (simp add: build_snapshot_def Let_def split: if_splits)
  obtain d2 r where r: "retain mc alloc fs (promote ?tmp ?final bs d1) (ss_shard_id store) (ss_keep store) = (d2, r)"
    by (metis prod.collapse)
  have meta: "d' = d2" "meta = snapshot_meta st" "name = ?final"
    using run e d1 h create bs rename r by (cases r; simp add: build_snapshot_def Let_def split: if_splits)+
  from retain_root [OF r] meta(1) obtain Q where "sd_root d' = map_option (filter Q) (put_file (new_file ?final bs) (sd_root d1))"
    by (auto simp: promote_def)
  with f meta(3) have "de_bytes f = bs" using find_put_file by metis
  with that e h bs meta show thesis by blast
qed

section \<open>What installing does to the shard\<close>

text \<open>The shard \<open>T\<close> with its state machine replaced by that of \<open>U\<close> at the applied state \<open>a\<close>.\<close>

definition with_state :: "'m shard \<Rightarrow> 'm shard \<Rightarrow> 'm AppliedState \<Rightarrow> 'm shard" where
  "with_state T U a = (\<lambda>k. if sm_key k then U k else T k)(AppliedStateKey \<mapsto> VApplied a)"

lemma sm_area_entries:
  assumes kv: "kv_laws kv view" and run: "collect_sm_entries kv st = Inr entries"
  obtains bs where "entries = map (\<lambda>b. (b, the (fmlookup (view (es_tree st)) b))) bs" "distinct bs"
    "set bs = {b. b |\<in>| fmdom (view (es_tree st)) \<and> prefix (0x02 # to_be_bytes (es_shard_id st)) b}"
proof -
  from run obtain e where e: "successor (0x02 # to_be_bytes (es_shard_id st)) = Some e"
    "kv_range kv (es_tree st) (0x02 # to_be_bytes (es_shard_id st)) e = Inr entries"
    by (auto simp: collect_sm_entries_def sm_range_def Let_def rbind_Inr_iff ok_or_def split: option.splits)
  from e(2) kv have "entries = range_of (view (es_tree st)) (0x02 # to_be_bytes (es_shard_id st)) e"
    by (simp add: kv_laws_def)
  moreover obtain bs where "range_of (view (es_tree st)) (0x02 # to_be_bytes (es_shard_id st)) e =
      map (\<lambda>b. (b, the (fmlookup (view (es_tree st)) b))) bs" "distinct bs"
    "set bs = {b. b |\<in>| fmdom (view (es_tree st)) \<and> prefix (0x02 # to_be_bytes (es_shard_id st)) b}"
    by (rule area_scan [OF e(1)])
  ultimately show thesis using that by blast
qed

text \<open>The store after the old area is deleted and the pairs of another store's area are written.\<close>

lemma replace_area:
  assumes R: "rep cd s m T" and L: "rep cd s m1 T1"
    and bs: "distinct bs" "set bs = {b. b |\<in>| fmdom m1 \<and> prefix (0x02 # to_be_bytes s) b}"
    and ds: "\<And>k. valid_key k \<Longrightarrow> T k \<noteq> None \<Longrightarrow> encode_key s k \<in> set ds \<longleftrightarrow> D k" and D: "\<And>k. sm_key k \<Longrightarrow> D k"
    and m': "m' = fold apply_kv_op (map KvDelete ds @ map (\<lambda>b. KvSet b (the (fmlookup m1 b))) bs) m"
  shows "rep cd s m' (\<lambda>k. if sm_key k then T1 k else if D k then None else T k)"
proof -
  let ?U = "\<lambda>k. if sm_key k then T1 k else if D k then None else T k" and ?pre = "0x02 # to_be_bytes s"
  have pre: "prefix ?pre (encode_key s k) \<longleftrightarrow> sm_key k" for k
    by (simp only: area_prefix) (simp add: sm_key_def TAG_SM_def)
  have look: "fmlookup m' b = (if b \<in> set bs then Some (the (fmlookup m1 b)) else if b \<in> set ds then None else fmlookup m b)" for b
    unfolding m' by (rule fold_replace [OF bs(1)])
  have "rep_at cd s m' ?U k" if k: "valid_key k" for k
  proof -
    let ?b = "encode_key s k"
    have m: "fmlookup m ?b \<noteq> None \<Longrightarrow> ?b \<in> set ds \<longleftrightarrow> D k"
      using ds [OF k] rep_dom [OF R k] by (simp add: fmlookup_dom_iff)
    show ?thesis
    proof (cases "sm_key k")
      case True
      have "fmlookup m' ?b = fmlookup m1 ?b"
        using True pre look [of ?b] bs(2) m D [of k] by (cases "fmlookup m ?b") (auto simp: fmlookup_dom_iff split: if_splits)
      with rep_at_cong [of ?U k T1 m' s m1 cd] True L k show ?thesis by (simp add: rep_def)
    next
      case False
      have "fmlookup m' ?b = (if D k then None else fmlookup m ?b)"
        using False pre [of k] bs(2) m look [of ?b] by (cases "fmlookup m ?b") auto
      with False R k rep_at_cong [of ?U k T m' s m cd] show ?thesis
        by (cases "D k") (simp_all add: rep_def rep_at_def [of _ _ m'])
    qed
  qed
  moreover have "closed m'"
    unfolding closed_def
  proof (intro allI impI)
    fix b assume "b |\<in>| fmdom m'"
    then have "b |\<in>| fmdom m1 \<or> b |\<in>| fmdom m" using look [of b] bs(2) by (auto simp: fmlookup_dom_iff split: if_splits)
    with R L show "\<exists>s k. valid_key k \<and> b = encode_key s k" by (auto simp: rep_def closed_def)
  qed
  ultimately show ?thesis by (simp add: rep_def)
qed

lemma area_keys_exact:
  assumes kv: "kv_laws kv view" and e: "successor pre = Some e" and run: "kv_range kv db pre e = Inr rows"
  shows "set (map fst rows) = {b. b |\<in>| fmdom (view db) \<and> prefix pre b}"
proof -
  have rows: "rows = range_of (view db) pre e" using kv run by (simp add: kv_laws_def)
  obtain bs where bs: "range_of (view db) pre e = map (\<lambda>b. (b, the (fmlookup (view db) b))) bs"
    "set bs = {b. b |\<in>| fmdom (view db) \<and> prefix pre b}"
    by (rule area_scan [OF e])
  show ?thesis unfolding rows bs(1) by (simp add: comp_def bs(2))
qed

lemma callbacks_sets:
  "callbacks (\<lambda>ops k v. Inr (ops @ [KvSet k v])) acc es = Inr (acc @ map (\<lambda>(k, v). KvSet k v) es)"
proof (induction es arbitrary: acc)
  case (Cons e es)
  then show ?case by (cases e) simp
qed simp

lemma reliable_range:
  assumes "kv_reliable kv"
  obtains rows where "kv_range kv db lo hi = Inr rows"
proof -
  have "\<not> is_err (kv_range kv db lo hi)" using assms by (simp add: kv_reliable_def)
  with that show thesis by (cases "kv_range kv db lo hi") auto
qed

lemma area_key_iff:
  assumes kv: "kv_laws kv view" and R: "rep cd s (view db) T" and e: "successor (tag # to_be_bytes s) = Some e"
    and run: "kv_range kv db (tag # to_be_bytes s) e = Inr rows" and k: "valid_key k" "T k \<noteq> None"
  shows "encode_key s k \<in> set (map fst rows) \<longleftrightarrow> fst (key_tags k) = tag"
  unfolding area_keys_exact [OF kv e run] using rep_dom [OF R k(1)] k(2) by (simp add: area_prefix del: encode_key.simps)

text \<open>Installing the image of a leader's entries.\<close>

lemma install_ops_image:
  assumes laws: "kv_laws kv view" "codec_laws cd" "zip_laws z" "meta_laws mc"
    and L: "holds view cd st1 T1" and R: "holds view cd st2 T2" and same: "es_shard_id st2 = es_shard_id st1"
    and img: "collect_sm_entries kv st1 = Inr entries" "snapshot_header mc c (es_shard_id st1) meta entries = Inr h"
      "snapshot_image z mc h meta entries = Inr bs"
    and meta: "\<forall>b. meta_enc mc meta = Some b \<longrightarrow> length b \<le> unat MAX_META_LEN \<and> alloc (usize_len b)"
    and entries: "list_all (record_ok alloc) entries" "length entries < 2 ^ 64"
  shows "install_ops z mc alloc kv cd st2 meta bs = Inr ops \<Longrightarrow> es_commit kv st2 ops = Inr st' \<Longrightarrow>
      holds view cd st' (with_state T2 T1 \<lparr>ap_last_applied = sn_last_log_id meta, ap_membership = sn_last_membership meta\<rparr>)
      \<and> only_tree st2 st'"
    and "kv_reliable kv \<Longrightarrow> codec_total cd \<Longrightarrow> \<not> is_err (install_ops z mc alloc kv cd st2 meta bs)"
proof -
  let ?s = "es_shard_id st2" and ?pre = "0x02 # to_be_bytes (es_shard_id st2) :: bytes"
  let ?a = "\<lparr>ap_last_applied = sn_last_log_id meta, ap_membership = sn_last_membership meta\<rparr>"
  have rdr: "open_payload_reader z mc alloc bs = Inr (h, meta, payload_bytes entries)
      \<and> (\<exists>rest. read_header mc alloc bs = Inr ((h, meta), rest))"
    by (rule open_image [OF laws(3,4) img(2,3)]) (use meta in blast)
  then obtain rest where hd: "read_header mc alloc bs = Inr ((h, meta), rest)" by blast
  with rdr have rd: "Compression_reader z (sh_compression h) (drop (32 + unat (sh_meta_len h)) bs) = Inr (payload_bytes entries)"
    by (auto simp: open_payload_reader_def HEADER_LEN_def rbind_Inr_iff)
  have len: "sh_payload_len h = payload_len_for entries" using img(2) by (auto simp: snapshot_header_def rbind_Inr_iff)
  obtain e where e: "successor ?pre = Some e" using area_successor [of "0x02" ?s] by auto
  have lt: "\<not> e \<le> ?pre" using prefix_le [OF e, of ?pre] by auto
  have each: "for_each_record alloc (\<lambda>ops k v. Inr (ops @ [KvSet k v])) acc (payload_bytes entries) =
      Inr (acc @ map (\<lambda>(k, v). KvSet k v) entries, payload_len_for entries, [])" for acc
    using entries by (auto simp: for_each_record_iff callbacks_sets)
  have ops_eq: "install_ops z mc alloc kv cd st2 meta bs =
      rbind (map_err SmEs (map_err Error.Storage (kv_range kv (es_tree st2) ?pre e))) (\<lambda>rows.
        rbind (map_err SmEs (encode_value cd (VApplied ?a))) (\<lambda>v.
          Inr ((map KvDelete (map fst rows) @ map (\<lambda>(k, v). KvSet k v) entries) @ [KvSet (sm_applied_state ?s) v])))"
    using lt by (cases "kv_range kv (es_tree st2) ?pre e")
      (simp_all add: install_ops_def hd rd sm_range_def e ok_or_def collect_keys_def es_range_def each len)
  show "\<not> is_err (install_ops z mc alloc kv cd st2 meta bs)" if ok: "kv_reliable kv" "codec_total cd"
  proof -
    obtain rows where "kv_range kv (es_tree st2) ?pre e = Inr rows"
      by (rule reliable_range [OF ok(1)])
    moreover obtain v where "encode_value cd (VApplied ?a) = Inr v"
      using ok_encode [OF ok(2), of "VApplied ?a"] by (cases "encode_value cd (VApplied ?a)") auto
    ultimately show ?thesis by (simp add: ops_eq)
  qed
  assume run: "install_ops z mc alloc kv cd st2 meta bs = Inr ops" and commit: "es_commit kv st2 ops = Inr st'"
  from run obtain rows v where r: "kv_range kv (es_tree st2) ?pre e = Inr rows" "enc cd (VApplied ?a) = Some v"
    "ops = (map KvDelete (map fst rows) @ map (\<lambda>(k, v). KvSet k v) entries) @ [KvSet (sm_applied_state ?s) v]"
    by (auto simp: ops_eq rbind_Inr_iff encode_value_def ok_or_def split: option.splits)
  obtain ks where ks: "entries = map (\<lambda>b. (b, the (fmlookup (view (es_tree st1)) b))) ks" "distinct ks"
    "set ks = {b. b |\<in>| fmdom (view (es_tree st1)) \<and> prefix (0x02 # to_be_bytes (es_shard_id st1)) b}"
    by (rule sm_area_entries [OF laws(1) img(1)])
  let ?m = "fold apply_kv_op (map KvDelete (map fst rows) @ map (\<lambda>b. KvSet b (the (fmlookup (view (es_tree st1)) b))) ks)
      (view (es_tree st2))"
  have "rep cd ?s ?m (\<lambda>k. if sm_key k then T1 k else if sm_key k then None else T2 k)"
  proof (rule replace_area [OF R _ ks(2) _ _ _ refl])
    show "encode_key ?s k \<in> set (map fst rows) \<longleftrightarrow> sm_key k" if "valid_key k" "T2 k \<noteq> None" for k
      using area_key_iff [OF laws(1) R e r(1) that] by (simp add: sm_key_def TAG_SM_def)
  qed (use L ks(3) same in simp_all)
  moreover have tree: "only_tree st2 st'" "view (es_tree st') = fmupd (encode_key ?s AppliedStateKey) v ?m"
    using es_commit_Inr [OF laws(1) commit] by (simp_all add: r(3) ks(1) comp_def)
  ultimately have "rep cd ?s (view (es_tree st'))
      ((\<lambda>k. if sm_key k then T1 k else if sm_key k then None else T2 k)(AppliedStateKey \<mapsto> VApplied ?a))"
    unfolding tree(2) by (intro rep_put [OF laws(2) _ _ _ r(2)]) simp_all
  moreover have "(\<lambda>k. if sm_key k then T1 k else if sm_key k then None else T2 k) = (\<lambda>k. if sm_key k then T1 k else T2 k)"
    by (rule ext) simp
  ultimately have "rep cd ?s (view (es_tree st')) ((\<lambda>k. if sm_key k then T1 k else T2 k)(AppliedStateKey \<mapsto> VApplied ?a))" by simp
  with tree(1) show "holds view cd st' (with_state T2 T1 ?a) \<and> only_tree st2 st'" by (simp add: with_state_def)
qed

lemma install_result:
  assumes "install_snapshot z mc alloc fs store kv cd st d meta sf = (st', d', r)"
  shows "is_err r \<Longrightarrow> st' = st"
    and "\<not> is_err r \<Longrightarrow> \<exists>bs ops st1. snapshot_bytes fs d sf = Inr bs \<and> install_ops z mc alloc kv cd st meta bs = Inr ops
      \<and> es_commit kv st ops = Inr st1 \<and> st' = st1\<lparr>es_last_applied := sn_last_log_id meta, es_membership := sn_last_membership meta\<rparr>"
proof -
  let ?x = "rbind (snapshot_bytes fs d sf) (\<lambda>bs. rbind (install_ops z mc alloc kv cd st meta bs) (\<lambda>ops.
      rbind (map_err SmEs (es_commit kv st ops)) (\<lambda>st'. Inr (bs, st'))))"
  show "st' = st" if "is_err r"
    using assms that by (cases ?x) (auto simp: install_snapshot_def Let_def split: prod.splits)
  show "\<exists>bs ops st1. snapshot_bytes fs d sf = Inr bs \<and> install_ops z mc alloc kv cd st meta bs = Inr ops
      \<and> es_commit kv st ops = Inr st1 \<and> st' = st1\<lparr>es_last_applied := sn_last_log_id meta, es_membership := sn_last_membership meta\<rparr>"
    if "\<not> is_err r"
  proof (cases ?x)
    case (Inl e)
    with assms that show ?thesis by (auto simp: install_snapshot_def)
  next
    case (Inr y)
    obtain bs st1 where y: "?x = Inr (bs, st1)" using Inr by (cases y) simp
    then obtain ops where "snapshot_bytes fs d sf = Inr bs" "install_ops z mc alloc kv cd st meta bs = Inr ops"
      "es_commit kv st ops = Inr st1"
      by (auto simp: rbind_Inr_iff)
    moreover have "st' = st1\<lparr>es_last_applied := sn_last_log_id meta, es_membership := sn_last_membership meta\<rparr>"
      using assms y by (simp add: install_snapshot_def Let_def)
    ultimately show ?thesis by blast
  qed
qed

lemma only_tree_fields:
  assumes "only_tree st st'"
  shows "es_last_applied st' = es_last_applied st" "es_membership st' = es_membership st"
proof -
  from assms obtain db where "st' = st\<lparr>es_tree := db\<rparr>" unfolding only_tree_def by (rule exE)
  then show "es_last_applied st' = es_last_applied st" "es_membership st' = es_membership st" by simp_all
qed

text \<open>Deleting the snapshot key of the older format.\<close>

lemma drop_legacy:
  assumes laws: "kv_laws kv view" "codec_laws cd" and ok: "kv_reliable kv" and R: "holds view cd st T"
  obtains st2 where "rbind (es_get kv st (snapshot_current (es_shard_id st)))
      (\<lambda>x. if x \<noteq> None then delete_batch kv st [snapshot_current (es_shard_id st)] else Inr st) = Inr st2"
    "holds view cd st2 (T(SnapshotKey := None))" "only_tree st st2"
proof -
  let ?k = "snapshot_current (es_shard_id st)"
  have "\<not> is_err (kv_get kv (es_tree st) ?k)" using ok by (simp add: kv_reliable_def)
  then obtain x where x: "kv_get kv (es_tree st) ?k = Inr x" by (cases "kv_get kv (es_tree st) ?k") auto
  then have look: "x = fmlookup (view (es_tree st)) (encode_key (es_shard_id st) SnapshotKey)" using laws(1) by (simp add: kv_laws_def)
  have T: "(\<lambda>k. if k \<in> set [SnapshotKey] then None else T k) = T(SnapshotKey := None)" by auto
  show thesis
  proof (cases x)
    case None
    then have "T SnapshotKey = None" using rep_dom [OF R, of SnapshotKey] look by (simp add: fmlookup_dom_iff)
    then have T': "T(SnapshotKey := None) = T" by auto
    show ?thesis
    proof (rule that [of st])
      show "holds view cd st (T(SnapshotKey := None))" unfolding T' by (rule R)
    qed (simp_all add: es_get_def x None)
  next
    case (Some b)
    obtain st2 where st2: "es_commit kv st [KvDelete ?k] = Inr st2"
      using es_commit_ok [OF ok, of st "[KvDelete ?k]"] by (cases "es_commit kv st [KvDelete ?k]") auto
    note C = es_commit_Inr [OF laws(1) st2]
    have "rep cd (es_shard_id st) (view (es_tree st2)) (T(SnapshotKey := None))"
      using rep_delete [OF R, of "[?k]" "[SnapshotKey]"] C by (simp add: T [simplified])
    with that [of st2] x Some st2 C show ?thesis by (simp add: es_get_def delete_batch_def)
  qed
qed

section \<open>Properties\<close>

text \<open>C3: a snapshot carries the whole state machine of a shard to another replica. If a leader builds a
  snapshot and a follower of the same shard installs that file, then the follower's store holds the
  leader's events, indexes, versions, states, fences, idempotency records and catalogs, and nothing of
  its own old state machine, together with the applied log id and membership of the snapshot; its Raft
  log, vote and marks are untouched, and memory agrees with the store. If the installation fails, the
  follower is exactly as it was. With a store, an encoder and a file system that do not fail it
  succeeds.\<close>

theorem snapshot_transfer:
  assumes laws: "kv_laws kv view" "codec_laws cd" "zip_laws z" "meta_laws mc"
    and leader: "holds view cd st1 T1"
      "build_snapshot z mc alloc fs store uuid torn kv st1 d1 = (d1', Inr (meta, name))"
      "find_file name (sd_root d1') = Some f"
    and follower: "holds view cd st2 T2" "es_shard_id st2 = es_shard_id st1" "snapshot_bytes fs d2 sf = Inr (de_bytes f)"
    and meta: "\<forall>b. meta_enc mc meta = Some b \<longrightarrow> length b \<le> unat MAX_META_LEN \<and> alloc (usize_len b)"
    and entries: "\<forall>entries. collect_sm_entries kv st1 = Inr entries \<longrightarrow>
      list_all (record_ok alloc) entries \<and> length entries < 2 ^ 64"
    and run: "install_snapshot z mc alloc fs store kv cd st2 d2 meta sf = (st2', d2', r)"
  shows "(\<not> is_err r \<longrightarrow>
        holds view cd st2' (with_state T2 T1 \<lparr>ap_last_applied = es_last_applied st1, ap_membership = es_membership st1\<rparr>)
        \<and> es_last_applied st2' = es_last_applied st1 \<and> es_membership st2' = es_membership st1)
    \<and> (is_err r \<longrightarrow> st2' = st2)
    \<and> (kv_reliable kv \<and> codec_total cd \<longrightarrow> \<not> is_err r)"
proof -
  obtain entries h where b: "collect_sm_entries kv st1 = Inr entries" "meta = snapshot_meta st1"
    "snapshot_header mc (ss_compression store) (es_shard_id st1) meta entries = Inr h"
    "snapshot_image z mc h meta entries = Inr (de_bytes f)"
    by (rule build_snapshot_file [OF leader(2,3)])
  have E: "list_all (record_ok alloc) entries" "length entries < 2 ^ 64" using entries b(1) by simp_all
  note I = install_ops_image [OF laws leader(1) follower(1,2) b(1,3,4) meta E]
  have m: "sn_last_log_id meta = es_last_applied st1" "sn_last_membership meta = es_membership st1"
    by (simp_all add: b(2) snapshot_meta_def)
  have "\<not> is_err r" if ok: "kv_reliable kv" "codec_total cd"
  proof -
    obtain ops where ops: "install_ops z mc alloc kv cd st2 meta (de_bytes f) = Inr ops"
      using I(2) [OF ok] by (cases "install_ops z mc alloc kv cd st2 meta (de_bytes f)") auto
    obtain st' where "es_commit kv st2 ops = Inr st'" using es_commit_ok [OF ok(1), of st2 ops] by (cases "es_commit kv st2 ops") auto
    with run ops follower(3) show ?thesis by (auto simp: install_snapshot_def Let_def)
  qed
  moreover have "holds view cd st2' (with_state T2 T1 \<lparr>ap_last_applied = es_last_applied st1, ap_membership = es_membership st1\<rparr>)
      \<and> es_last_applied st2' = es_last_applied st1 \<and> es_membership st2' = es_membership st1" if ok: "\<not> is_err r"
  proof -
    from install_result(2) [OF run ok] follower(3) obtain ops st' where "install_ops z mc alloc kv cd st2 meta (de_bytes f) = Inr ops"
      "es_commit kv st2 ops = Inr st'" "st2' = st'\<lparr>es_last_applied := sn_last_log_id meta, es_membership := sn_last_membership meta\<rparr>"
      by auto
    with I(1) [of ops st'] m show ?thesis by (simp add: only_tree_shard)
  qed
  ultimately show ?thesis using install_result(1) [OF run] by blast
qed

text \<open>An encoding of numbers and of the initial applied state, a leader with one fence and a follower with
  another.\<close>

fun fence_enc :: "unit sm_value \<Rightarrow> bytes option" where
  "fence_enc (VU64 n) = Some (to_be_bytes n)"
| "fence_enc (VApplied a) = (if ap_last_applied a = None \<and> sm_log_id (ap_membership a) = None then Some [7] else None)"
| "fence_enc _ = None"

fun fence_dec :: "sm_kind \<Rightarrow> bytes \<Rightarrow> unit sm_value option" where
  "fence_dec KU64 b = Some (VU64 (from_be_bytes b))"
| "fence_dec KApplied b = Some (VApplied \<lparr>ap_last_applied = None, ap_membership = \<lparr>sm_log_id = None, sm_config = ()\<rparr>\<rparr>)"
| "fence_dec _ b = None"

definition fence_codec :: "unit codec" where
  "fence_codec = \<lparr>enc = fence_enc, dec = fence_dec\<rparr>"

lemma fence_codec_laws: "codec_laws fence_codec"
proof -
  have "fence_dec (value_kind v) b = Some v" if "fence_enc v = Some b" for v b
    using that by (cases v rule: fence_enc.cases) (auto simp: split: if_splits)
  moreover have "value_kind v = kind" if "fence_dec kind b = Some v" for kind b v
    using that by (cases "(kind, b)" rule: fence_dec.cases) auto
  ultimately show ?thesis by (simp add: codec_laws_def fence_codec_def)
qed

definition fenced :: "u16 \<Rightarrow> u64 \<Rightarrow> ((bytes, bytes) fmap, unit) EsStorage" where
  "fenced p n = sample_storage\<lparr>es_tree := fmupd (encode_key 1 (PartitionKey (AggregateTypeId ''a'' ''b'') p FenceKey)) (to_be_bytes n) fmempty\<rparr>"

definition fenced_shard :: "u16 \<Rightarrow> u64 \<Rightarrow> unit shard" where
  "fenced_shard p n = (\<lambda>_. None)(PartitionKey (AggregateTypeId ''a'' ''b'') p FenceKey \<mapsto> VU64 n)"

definition sample_store :: SnapshotStore where
  "sample_store = \<lparr>ss_compression = Zstd, ss_keep = 3, ss_shard_id = 1\<rparr>"

definition received :: "bytes \<Rightarrow> SnapDir" where
  "received bs = \<lparr>sd_root = Some [], sd_incoming = Some [new_file ''u.tmp'' bs]\<rparr>"

definition built :: "SnapDir \<times> (unit SnapshotMeta \<times> string, sm_error) result" where
  "built = build_snapshot sample_zip sample_meta_codec (\<lambda>_. True) sample_fs sample_store ''u'' [] map_kv (fenced 3 5)
     \<lparr>sd_root = None, sd_incoming = None\<rparr>"

definition installed :: "bytes \<Rightarrow> ((bytes, bytes) fmap, unit) EsStorage \<times> SnapDir \<times> (unit, sm_error) result" where
  "installed bs = install_snapshot sample_zip sample_meta_codec (\<lambda>_. True) sample_fs sample_store map_kv fence_codec (fenced 4 9)
     (received bs) (snapshot_meta (fenced 3 5)) \<lparr>sf_path = ''u.tmp'', sf_temp = True\<rparr>"

lemma built_ok: "(case snd built of Inr (m, n) \<Rightarrow> n = final_path 1 None | Inl _ \<Rightarrow> False)
    \<and> (case find_file (final_path 1 None) (sd_root (fst built)) of
         Some f \<Rightarrow> \<not> is_err (snd (snd (installed (de_bytes f)))) | None \<Rightarrow> False)"
  by code_simp

lemma small_entries: "(case collect_sm_entries map_kv (fenced 3 5) of
    Inr es \<Rightarrow> list_all (\<lambda>(k, v). length k \<le> 100 \<and> length v \<le> 100) es \<and> length es = 1 | Inl _ \<Rightarrow> False)"
  by code_simp

lemma small_meta: "(case meta_enc sample_meta_codec (snapshot_meta (fenced 3 5)) of Some b \<Rightarrow> length b \<le> 100 | None \<Rightarrow> False)"
  by code_simp

lemma fenced_holds: "holds (\<lambda>m. m) fence_codec (fenced p n) (fenced_shard p n)"
proof -
  have "\<not> is_err (AggregateTypeId_validate (AggregateTypeId ''a'' ''b''))" by code_simp
  then have "valid_type_id (AggregateTypeId ''a'' ''b'')"
    using AggregateTypeId_validate_cases [of "AggregateTypeId ''a'' ''b''"] by fastforce
  moreover have "rep fence_codec 1 fmempty (\<lambda>_. None)" by (simp add: rep_def rep_at_def closed_def)
  ultimately have "rep fence_codec 1 (fmupd (encode_key 1 (PartitionKey (AggregateTypeId ''a'' ''b'') p FenceKey)) (to_be_bytes n) fmempty)
      ((\<lambda>_. None)(PartitionKey (AggregateTypeId ''a'' ''b'') p FenceKey \<mapsto> VU64 n))"
    by (intro rep_put [OF fence_codec_laws]) (simp_all add: fence_codec_def)
  then show ?thesis by (simp add: fenced_def fenced_shard_def sample_storage_def)
qed

theorem snapshot_transfer_witness:
  "\<exists>f. find_file (final_path 1 None) (sd_root (fst built)) = Some f
     \<and> holds (\<lambda>m. m) fence_codec (fst (installed (de_bytes f)))
         (with_state (fenced_shard 4 9) (fenced_shard 3 5)
            \<lparr>ap_last_applied = None, ap_membership = \<lparr>sm_log_id = None, sm_config = ()\<rparr>\<rparr>)"
proof -
  let ?st1 = "fenced 3 5" and ?mc = sample_meta_codec
  obtain f where f: "find_file (final_path 1 None) (sd_root (fst built)) = Some f" "\<not> is_err (snd (snd (installed (de_bytes f))))"
    using built_ok by (auto split: option.splits)
  obtain meta where "snd built = Inr (meta, final_path 1 None)" using built_ok by (auto split: sum.splits)
  then have run: "built = (fst built, Inr (meta, final_path 1 None))" by (simp add: prod_eq_iff)
  from build_snapshot_file [OF run [unfolded built_def] f(1) [unfolded built_def]] have meta: "meta = snapshot_meta ?st1" by metis
  have enc: "\<forall>b. meta_enc ?mc meta = Some b \<longrightarrow> length b \<le> unat MAX_META_LEN \<and> True"
    using small_meta by (auto simp: meta MAX_META_LEN_def split: option.splits)
  have es: "\<forall>es. collect_sm_entries map_kv ?st1 = Inr es \<longrightarrow> list_all (record_ok (\<lambda>_. True)) es \<and> length es < 2 ^ 64"
    using small_entries by (auto simp: record_ok_def max_record_len list_all_iff split: sum.splits)
  have shard: "es_shard_id (fenced 4 9) = es_shard_id ?st1" "es_last_applied ?st1 = None"
    "es_membership ?st1 = \<lparr>sm_log_id = None, sm_config = ()\<rparr>" by (simp_all add: fenced_def sample_storage_def)
  have bytes: "snapshot_bytes sample_fs (received (de_bytes f)) \<lparr>sf_path = ''u.tmp'', sf_temp = True\<rparr> = Inr (de_bytes f)"
    by (simp add: snapshot_bytes_def received_def find_file_def new_file_def sample_fs_def)
  obtain st' d' r where inst: "installed (de_bytes f) = (st', d', r)" by (metis prod.collapse)
  from snapshot_transfer [OF map_kv_laws fence_codec_laws sample_laws fenced_holds run [unfolded built_def] f(1) [unfolded built_def]
      fenced_holds shard(1) bytes enc es inst [unfolded installed_def, folded meta]] f inst shard(2,3)
  show ?thesis by auto
qed

section \<open>Startup\<close>

text \<open>C4: a restarted node resumes where its store is. After any applied batch, startup, whatever the
  in-memory values were, gives back the last applied log id and the membership the batch left in memory;
  of the store it removes only the snapshot key of an older format, of the snapshot directory only
  temporary files of interrupted transfers.\<close>

theorem restart_resumes_applied_state:
  assumes laws: "kv_laws kv view" "codec_laws cd" and R: "holds view cd st T" and room: "revision_room T (length entries)"
    and ok: "kv_reliable kv" "fs_list fs" and run: "sm_apply h kv cd st entries = Inr (st', responses)"
  shows "\<exists>d' st2 T'. restore_applied_state kv cd fs (st'\<lparr>es_last_applied := la, es_membership := mem\<rparr>) d = (d', Inr st2)
    \<and> es_last_applied st2 = es_last_applied st' \<and> es_membership st2 = es_membership st'
    \<and> holds view cd st' T' \<and> holds view cd st2 (T'(SnapshotKey := None))
    \<and> sd_root d' = sd_root d
    \<and> (\<forall>files. sd_incoming d = Some files \<longrightarrow> sd_incoming d' = Some (filter (\<lambda>e. \<not> (de_is_file e
        \<and> file_extension (de_name e) = Some ''tmp'' \<and> fs_remove fs (''incoming/'' @ de_name e))) files))"
proof -
  let ?st = "st'\<lparr>es_last_applied := la, es_membership := mem\<rparr>"
  let ?T = "(spec_run h T entries)(AppliedStateKey \<mapsto> VApplied (applied_state st entries))"
  note A = sm_apply_refines [OF laws R room run]
  have H: "holds view cd st' ?T" using A by (rule conjunct1)
  have R1: "rep_at cd (es_shard_id ?st) (view (es_tree ?st)) ?T AppliedStateKey" using H by (simp add: rep_def)
  obtain x where x: "read_typed kv cd ?st AppliedStateKey as_applied = Inr x"
    using read_typed_ok [OF ok(1) laws R1, of as_applied] by (cases "read_typed kv cd ?st AppliedStateKey as_applied") auto
  from read_typed_rep [OF laws(1) R1 x] have x': "x = Some (applied_state st entries)" by (simp add: at_def)
  let ?st1 = "?st\<lparr>es_last_applied := ap_last_applied (applied_state st entries), es_membership := ap_membership (applied_state st entries)\<rparr>"
  have same: "?st1 = st'" using A by simp
  obtain st2 where st2: "rbind (es_get kv st' (snapshot_current (es_shard_id st')))
      (\<lambda>x. if x \<noteq> None then delete_batch kv st' [snapshot_current (es_shard_id st')] else Inr st') = Inr st2"
    "holds view cd st2 (?T(SnapshotKey := None))" "only_tree st' st2"
    by (rule drop_legacy [OF laws ok(1) H])
  have "cleanup_legacy_snapshot kv fs st' d = (fst (cleanup_incoming fs d), Inr st2)"
    using ok(2) st2(1) by (auto simp: cleanup_legacy_snapshot_def cleanup_incoming_def Let_def split: option.splits)
  then have "restore_applied_state kv cd fs ?st d = (fst (cleanup_incoming fs d), Inr st2)"
    using x x' same by (simp add: restore_applied_state_def)
  moreover have "es_last_applied st2 = es_last_applied st'" "es_membership st2 = es_membership st'"
    using only_tree_fields [OF st2(3)] by simp_all
  moreover have "sd_root (fst (cleanup_incoming fs d)) = sd_root d
      \<and> (\<forall>files. sd_incoming d = Some files \<longrightarrow> sd_incoming (fst (cleanup_incoming fs d)) = Some (filter (\<lambda>e. \<not> (de_is_file e
          \<and> file_extension (de_name e) = Some ''tmp'' \<and> fs_remove fs (''incoming/'' @ de_name e))) files))"
    using ok(2) by (auto simp: cleanup_incoming_def Let_def split: option.splits)
  ultimately show ?thesis using H st2(2) by blast
qed

theorem restart_resumes_applied_state_witness:
  "\<exists>st' responses d' st2. sm_apply (\<lambda>_. 7) map_kv sample_codec sample_storage sample_entries = Inr (st', responses)
     \<and> restore_applied_state map_kv sample_codec sample_fs
         (st'\<lparr>es_last_applied := None, es_membership := \<lparr>sm_log_id = None, sm_config = ()\<rparr>\<rparr>) sample_dir = (d', Inr st2)
     \<and> es_last_applied st2 = es_last_applied st'"
proof -
  have room: "revision_room sample_shard (length sample_entries)" by (rule sample_room) (simp add: sample_entries_def)
  note L = map_kv_laws sample_codec_laws sample_storage_rep room
  have fs: "fs_list sample_fs" by (simp add: sample_fs_def)
  obtain st' rs where run: "sm_apply (\<lambda>_. 7) map_kv sample_codec sample_storage sample_entries = Inr (st', rs)"
    using sm_apply_ok [OF L map_kv_reliable sample_codec_total] by blast
  from restart_resumes_applied_state [OF L map_kv_reliable fs run, where la = None and mem = "\<lparr>sm_log_id = None, sm_config = ()\<rparr>" and d = sample_dir] run
  show ?thesis by blast
qed

section \<open>Offline restore\<close>

text \<open>The shard after a restore: the snapshot's state machine, an empty log whose marks stand at the
  snapshot point, and the vote the node had.\<close>

definition restored :: "'m shard \<Rightarrow> 'm shard \<Rightarrow> 'm SnapshotMeta \<Rightarrow> 'm shard" where
  "restored T U meta =
     (let base = (\<lambda>k. if sm_key k then U k else if raft_key k \<and> k \<noteq> VoteKey then None else T k)
            (AppliedStateKey \<mapsto> VApplied \<lparr>ap_last_applied = sn_last_log_id meta, ap_membership = sn_last_membership meta\<rparr>)
      in case sn_last_log_id meta of
           None \<Rightarrow> base
         | Some l \<Rightarrow> base(LastPurgedKey \<mapsto> VLogId (Some l), CommittedKey \<mapsto> VLogId (Some l)))"

lemma callbacks_count:
  "callbacks (\<lambda>(ops, n) k v. Inr (ops @ [KvSet k v], if is_aggregate_event_key s k then n + 1 else n)) (acc, n) es =
     Inr (acc @ map (\<lambda>(k, v). KvSet k v) es, n + length (filter (\<lambda>(k, _). is_aggregate_event_key s k) es))"
proof (induction es arbitrary: acc n)
  case (Cons e es)
  then show ?case by (cases e) simp
qed simp

lemma area_keys_eq:
  assumes "tag \<noteq> 0xFF"
  obtains e where "successor (tag # to_be_bytes s) = Some e"
    "area_keys kv db tag s = rbind (map_err Error.Storage (kv_range kv db (tag # to_be_bytes s) e)) (\<lambda>xs. Inr (map fst xs))"
proof -
  obtain e where e: "successor (tag # to_be_bytes s) = Some e" using area_successor [OF assms] by blast
  then have "\<not> e \<le> tag # to_be_bytes s" using prefix_le [OF e, of "tag # to_be_bytes s"] by auto
  with that e show thesis by (simp add: area_keys_def ok_or_def)
qed

lemma restore_ops_image:
  assumes laws: "kv_laws kv view" "codec_laws cd" and L: "holds view cd st1 T1" "es_shard_id st1 = shard"
    and R: "rep cd shard (view db) T" and img: "collect_sm_entries kv st1 = Inr entries" "sh_payload_len h = payload_len_for entries"
    and entries: "list_all (record_ok alloc) entries" "length entries < 2 ^ 64"
  shows "restore_ops alloc kv cd db shard h meta (payload_bytes entries) = Inr (ops, n) \<Longrightarrow> kv_commit kv db ops = Inr db' \<Longrightarrow>
      rep cd shard (view db') (restored T T1 meta) \<and> n = length (filter (\<lambda>(k, _). is_aggregate_event_key shard k) entries)"
    and "kv_reliable kv \<Longrightarrow> codec_total cd \<Longrightarrow> \<not> is_err (restore_ops alloc kv cd db shard h meta (payload_bytes entries))"
proof -
  let ?a = "VApplied \<lparr>ap_last_applied = sn_last_log_id meta, ap_membership = sn_last_membership meta\<rparr>"
  let ?n = "length (filter (\<lambda>(k, _). is_aggregate_event_key shard k) entries)"
  obtain e1 where e1: "successor (0x01 # to_be_bytes shard) = Some e1"
    "area_keys kv db 0x01 shard = rbind (map_err Error.Storage (kv_range kv db (0x01 # to_be_bytes shard) e1)) (\<lambda>xs. Inr (map fst xs))"
    by (rule area_keys_eq [of "0x01"]) simp_all
  obtain e2 where e2: "successor (0x02 # to_be_bytes shard) = Some e2"
    "area_keys kv db 0x02 shard = rbind (map_err Error.Storage (kv_range kv db (0x02 # to_be_bytes shard) e2)) (\<lambda>xs. Inr (map fst xs))"
    by (rule area_keys_eq [of "0x02"]) simp_all
  have each: "for_each_record alloc (\<lambda>(ops, events) k v. Inr (ops @ [KvSet k v], if is_aggregate_event_key shard k then events + 1 else events))
      (acc, 0) (payload_bytes entries) = Inr ((acc @ map (\<lambda>(k, v). KvSet k v) entries, ?n), payload_len_for entries, [])" for acc
    unfolding for_each_record_iff using entries callbacks_count [of shard acc 0 entries] by auto
  define ds where "ds rows1 rows2 = filter (\<lambda>k. k \<noteq> raft_vote shard) (map fst rows1 @ map fst rows2)"
    for rows1 rows2 :: "(bytes \<times> bytes) list"
  have eq: "restore_ops alloc kv cd db shard h meta (payload_bytes entries) =
      rbind (map_err SmEs (map_err Error.Storage (kv_range kv db (0x01 # to_be_bytes shard) e1))) (\<lambda>rows1.
      rbind (map_err SmEs (map_err Error.Storage (kv_range kv db (0x02 # to_be_bytes shard) e2))) (\<lambda>rows2.
      rbind (map_err SmEs (encode_value cd ?a)) (\<lambda>a.
        let base = (map KvDelete (ds rows1 rows2) @ map (\<lambda>(k, v). KvSet k v) entries) @ [KvSet (sm_applied_state shard) a] in
        case sn_last_log_id meta of
          None \<Rightarrow> Inr (base, ?n)
        | Some l \<Rightarrow> rbind (map_err SmEs (encode_value cd (VLogId (Some l)))) (\<lambda>v.
            Inr (base @ [KvSet (raft_last_purged shard) v, KvSet (raft_committed shard) v], ?n)))))"
    by (cases "kv_range kv db (0x01 # to_be_bytes shard) e1"; cases "kv_range kv db (0x02 # to_be_bytes shard) e2";
        cases "sn_last_log_id meta")
      (simp_all add: restore_ops_def e1(2) e2(2) each img(2) ds_def Let_def)
  show "\<not> is_err (restore_ops alloc kv cd db shard h meta (payload_bytes entries))" if ok: "kv_reliable kv" "codec_total cd"
  proof -
    obtain rows1 where 1: "kv_range kv db (0x01 # to_be_bytes shard) e1 = Inr rows1" by (rule reliable_range [OF ok(1)])
    obtain rows2 where 2: "kv_range kv db (0x02 # to_be_bytes shard) e2 = Inr rows2" by (rule reliable_range [OF ok(1)])
    have enc: "\<exists>b. encode_value cd x = Inr b" for x using ok_encode [OF ok(2), of x] by (cases "encode_value cd x") auto
    from enc [of ?a] enc [of "VLogId (sn_last_log_id meta)"] show ?thesis
      by (cases "sn_last_log_id meta") (auto simp: eq 1 2 Let_def)
  qed
  assume run: "restore_ops alloc kv cd db shard h meta (payload_bytes entries) = Inr (ops, n)" and commit: "kv_commit kv db ops = Inr db'"
  obtain rows1 where 1: "kv_range kv db (0x01 # to_be_bytes shard) e1 = Inr rows1"
    using run by (cases "kv_range kv db (0x01 # to_be_bytes shard) e1") (simp_all add: eq)
  obtain rows2 where 2: "kv_range kv db (0x02 # to_be_bytes shard) e2 = Inr rows2"
    using run 1 by (cases "kv_range kv db (0x02 # to_be_bytes shard) e2") (simp_all add: eq)
  obtain a where a: "enc cd ?a = Some a" using run 1 2 by (cases "enc cd ?a") (simp_all add: eq encode_value_def ok_or_def)
  obtain ks where ks: "entries = map (\<lambda>b. (b, the (fmlookup (view (es_tree st1)) b))) ks" "distinct ks"
    "set ks = {b. b |\<in>| fmdom (view (es_tree st1)) \<and> prefix (0x02 # to_be_bytes (es_shard_id st1)) b}"
    by (rule sm_area_entries [OF laws(1) img(1)])
  let ?D = "\<lambda>k. (sm_key k \<or> raft_key k) \<and> k \<noteq> VoteKey"
  let ?m = "fold apply_kv_op (map KvDelete (ds rows1 rows2) @ map (\<lambda>b. KvSet b (the (fmlookup (view (es_tree st1)) b))) ks) (view db)"
  let ?B = "\<lambda>k. if sm_key k then T1 k else if raft_key k \<and> k \<noteq> VoteKey then None else T k"
  have "rep cd shard ?m (\<lambda>k. if sm_key k then T1 k else if ?D k then None else T k)"
  proof (rule replace_area [OF R _ ks(2) _ _ _ refl])
    show "encode_key shard k \<in> set (ds rows1 rows2) \<longleftrightarrow> ?D k" if k: "valid_key k" "T k \<noteq> None" for k
    proof -
      have "encode_key shard k = raft_vote shard \<longleftrightarrow> k = VoteKey" using encode_key_inject [OF k(1), of VoteKey shard shard] by simp
      moreover have "encode_key shard k \<in> set (map fst rows1) \<longleftrightarrow> raft_key k"
        using area_key_iff [OF laws(1) R e1(1) 1 k] by (simp add: raft_key_def TAG_RAFT_def)
      moreover have "encode_key shard k \<in> set (map fst rows2) \<longleftrightarrow> sm_key k"
        using area_key_iff [OF laws(1) R e2(1) 2 k] by (simp add: sm_key_def TAG_SM_def)
      ultimately show ?thesis unfolding ds_def set_filter set_append by blast
    qed
    show "?D k" if "sm_key k" for k using that by (auto simp: sm_key_def tag_defs)
  qed (use L ks(3) in simp_all)
  moreover have "(\<lambda>k. if sm_key k then T1 k else if ?D k then None else T k) = ?B" by (rule ext) simp
  ultimately have "rep cd shard ?m ?B" by simp
  then have base: "rep cd shard (fmupd (encode_key shard AppliedStateKey) a ?m) (?B(AppliedStateKey \<mapsto> ?a))"
    by (intro rep_put [OF laws(2) _ _ _ a]) simp_all
  have view: "view db' = fold apply_kv_op ops (view db)" using laws(1) commit by (simp add: kv_laws_def)
  have sets: "map (\<lambda>(k, v). KvSet k v) entries = map (\<lambda>b. KvSet b (the (fmlookup (view (es_tree st1)) b))) ks" by (simp add: ks(1))
  show "rep cd shard (view db') (restored T T1 meta) \<and> n = ?n"
  proof (cases "sn_last_log_id meta")
    case None
    with run 1 2 a have "ops = (map KvDelete (ds rows1 rows2) @ map (\<lambda>(k, v). KvSet k v) entries) @ [KvSet (sm_applied_state shard) a]" "n = ?n"
      by (simp_all add: eq encode_value_def ok_or_def Let_def)
    with base None view show ?thesis by (simp add: restored_def Let_def sets)
  next
    case (Some l)
    obtain v where v: "enc cd (VLogId (Some l)) = Some v"
      using run 1 2 a Some by (cases "enc cd (VLogId (Some l))") (simp_all add: eq encode_value_def ok_or_def Let_def)
    with run 1 2 a Some have "ops = (map KvDelete (ds rows1 rows2) @ map (\<lambda>(k, v). KvSet k v) entries) @ [KvSet (sm_applied_state shard) a]
        @ [KvSet (raft_last_purged shard) v, KvSet (raft_committed shard) v]" "n = ?n"
      by (simp_all add: eq encode_value_def ok_or_def Let_def)
    moreover have "rep cd shard (fmupd (encode_key shard CommittedKey) v (fmupd (encode_key shard LastPurgedKey) v
        (fmupd (encode_key shard AppliedStateKey) a ?m)))
        (?B(AppliedStateKey \<mapsto> ?a, LastPurgedKey \<mapsto> VLogId (Some l), CommittedKey \<mapsto> VLogId (Some l)))"
      by (intro rep_put [OF laws(2) _ _ _ v] base) simp_all
    ultimately show ?thesis using Some view by (simp add: restored_def Let_def sets)
  qed
qed

lemma restore_result:
  fixes mc :: "'m meta_codec"
  assumes run: "restore z mc alloc fs kv cd db d shard src bs = (db', d', r)"
    and hd: "read_header mc alloc bs = Inr ((h, meta), rest)" "sh_shard_id h = shard"
      "Compression_reader z (sh_compression h) (drop (32 + unat (sh_meta_len h)) bs) = Inr reader"
  shows "\<not> is_err r \<Longrightarrow> \<exists>ops n. restore_ops alloc kv cd db shard h meta reader = Inr (ops, n) \<and> kv_commit kv db ops = Inr db'
      \<and> r = Inr \<lparr>rr_shard_id = shard, rr_term = fst (snap_point (sn_last_log_id meta)),
          rr_index = snd (snap_point (sn_last_log_id meta)), rr_events = n, rr_snapshot_file = final_path shard (sn_last_log_id meta)\<rparr>"
    and "is_err r \<Longrightarrow> fs_copy fs (final_path shard (sn_last_log_id meta)) \<Longrightarrow> db' = db"
    and "fs_mkdir fs \<Longrightarrow> fs_list fs \<Longrightarrow> (\<And>n. fs_remove fs n) \<Longrightarrow> fs_copy fs (final_path shard (sn_last_log_id meta)) \<Longrightarrow>
      restore_ops alloc kv cd db shard h meta reader = Inr (ops, n) \<Longrightarrow> kv_commit kv db ops = Inr db2 \<Longrightarrow> \<not> is_err r"
proof -
  let ?final = "final_path shard (sn_last_log_id meta)"
  define core where "core = rbind (restore_ops alloc kv cd db shard h meta reader) (\<lambda>(ops, events).
      rbind (map_err (\<lambda>e. SmEs (Error.Storage e)) (kv_commit kv db ops)) (\<lambda>db'. Inr (db', events)))"
  define fin where "fin = (\<lambda>d2 :: SnapDir. case core of
      Inl e \<Rightarrow> (db, d2, Inl e)
    | Inr (db', events) \<Rightarrow>
        if src \<noteq> Some ?final \<and> \<not> fs_copy fs ?final then (db', d2, Inl (SmEs (Error.Storage ''copy'')))
        else (db', if src = Some ?final then d2 else d2\<lparr>sd_root := put_file (new_file ?final bs) (sd_root d2)\<rparr>,
              Inr \<lparr>rr_shard_id = shard, rr_term = fst (snap_point (sn_last_log_id meta)),
                   rr_index = snd (snap_point (sn_last_log_id meta)), rr_events = events, rr_snapshot_file = ?final\<rparr>))"
  have eq: "restore z mc alloc fs kv cd db d shard src bs =
      (case ensure_dirs fs d of Inl e \<Rightarrow> (db, d, Inl (SmWrite e))
       | Inr d1 \<Rightarrow> (case list_entries mc alloc fs d1 of Inl e \<Rightarrow> (db, d1, Inl (SmRead e))
           | Inr entries \<Rightarrow> (case remove_old fs shard src entries d1 of (d2, Inl e) \<Rightarrow> (db, d2, Inl e) | (d2, Inr _) \<Rightarrow> fin d2)))"
    unfolding restore_def hd(1) core_def fin_def Let_def using hd(2,3) by simp
  have cases: "(db' = db \<and> is_err r) \<or> (\<exists>d2. fin d2 = (db', d', r))"
    using run unfolding eq by (auto split: sum.splits prod.splits)
  have core: "core = Inr (x, n) \<longleftrightarrow> (\<exists>ops. restore_ops alloc kv cd db shard h meta reader = Inr (ops, n) \<and> kv_commit kv db ops = Inr x)" for x n
    by (auto simp: core_def rbind_Inr_iff)
  show "\<exists>ops n. restore_ops alloc kv cd db shard h meta reader = Inr (ops, n) \<and> kv_commit kv db ops = Inr db'
      \<and> r = Inr \<lparr>rr_shard_id = shard, rr_term = fst (snap_point (sn_last_log_id meta)),
          rr_index = snd (snap_point (sn_last_log_id meta)), rr_events = n, rr_snapshot_file = ?final\<rparr>" if "\<not> is_err r"
  proof -
    from cases that obtain d2 where "fin d2 = (db', d', r)" by blast
    with that obtain n where "core = Inr (db', n)" "r = Inr \<lparr>rr_shard_id = shard, rr_term = fst (snap_point (sn_last_log_id meta)),
          rr_index = snd (snap_point (sn_last_log_id meta)), rr_events = n, rr_snapshot_file = ?final\<rparr>"
      by (cases core) (auto simp: fin_def split: if_splits)
    with core show ?thesis by blast
  qed
  show "db' = db" if "is_err r" "fs_copy fs ?final"
    using cases that by (cases core) (auto simp: fin_def split: if_splits)
  show "\<not> is_err r" if ok: "fs_mkdir fs" "fs_list fs" "\<And>n. fs_remove fs n" "fs_copy fs ?final"
      "restore_ops alloc kv cd db shard h meta reader = Inr (ops, n)" "kv_commit kv db ops = Inr db2"
  proof -
    have rm: "\<exists>d'. remove_old fs shard src es d = (d', Inr ())" for es :: "'m SnapshotEntry list" and d
      using ok(3) by (induction es arbitrary: d) auto
    obtain d1 where d1: "ensure_dirs fs d = Inr d1" using ok(1) by (simp add: ensure_dirs_def)
    obtain es where es: "list_entries mc alloc fs d1 = Inr es" using ok(2) by (cases "sd_root d1") (simp_all add: list_entries_def)
    have "core = Inr (db2, n)" using core ok(5,6) by blast
    with run rm [of es d1] ok(4) show ?thesis unfolding eq by (auto simp: fin_def d1 es)
  qed
qed

text \<open>C19: an offline restore sets a shard back to a snapshot consistently. After a restore the store holds
  the snapshot's state machine, no log entry, the vote the node had, and purge mark, committed mark and
  applied state at the snapshot point, so that the log state openraft reads on the next start begins
  exactly there; the report counts the events of the snapshot. A restore that fails leaves the store as
  it was, unless only the final copy of the file failed. With a store, an encoder and a file system that
  do not fail it succeeds.\<close>

theorem restore_resets_to_snapshot:
  assumes laws: "kv_laws kv view" "codec_laws cd" "zip_laws z" "meta_laws mc"
    and source: "holds view cd st1 T1" "es_shard_id st1 = shard" "collect_sm_entries kv st1 = Inr entries"
      "snapshot_header mc c shard meta entries = Inr h" "snapshot_image z mc h meta entries = Inr bs"
    and limits: "\<forall>b. meta_enc mc meta = Some b \<longrightarrow> length b \<le> unat MAX_META_LEN \<and> alloc (usize_len b)"
      "list_all (record_ok alloc) entries" "length entries < 2 ^ 64"
    and target: "rep cd shard (view db) T"
    and run: "restore z mc alloc fs kv cd db d shard src bs = (db', d', r)"
  shows "(\<forall>rep'. r = Inr rep' \<longrightarrow> rep cd shard (view db') (restored T T1 meta)
        \<and> rr_events rep' = length (filter (\<lambda>(k, _). is_aggregate_event_key shard k) entries)
        \<and> (\<forall>st ls. es_shard_id st = shard \<and> es_tree st = db' \<and> get_log_state kv cd st = Inr ls \<longrightarrow>
            ls_last_purged ls = sn_last_log_id meta \<and> ls_last_log_id ls = sn_last_log_id meta))
    \<and> (is_err r \<and> fs_copy fs (final_path shard (sn_last_log_id meta)) \<longrightarrow> db' = db)
    \<and> (kv_reliable kv \<and> codec_total cd \<and> fs_mkdir fs \<and> fs_list fs \<and> (\<forall>n. fs_remove fs n)
        \<and> fs_copy fs (final_path shard (sn_last_log_id meta)) \<longrightarrow> \<not> is_err r)"
proof -
  have img: "open_payload_reader z mc alloc bs = Inr (h, meta, payload_bytes entries)
      \<and> (\<exists>rest. read_header mc alloc bs = Inr ((h, meta), rest))"
    by (rule open_image [OF laws(3,4) source(4,5)]) (use limits(1) in blast)
  then obtain rest where hd: "read_header mc alloc bs = Inr ((h, meta), rest)" by blast
  with img have rd: "Compression_reader z (sh_compression h) (drop (32 + unat (sh_meta_len h)) bs) = Inr (payload_bytes entries)"
    by (auto simp: open_payload_reader_def HEADER_LEN_def rbind_Inr_iff)
  have h: "sh_shard_id h = shard" "sh_payload_len h = payload_len_for entries"
    using source(4) by (auto simp: snapshot_header_def rbind_Inr_iff)
  note O = restore_ops_image [OF laws(1,2) source(1,2) target source(3) h(2) limits(2,3)]
    and res = restore_result [OF run hd h(1) rd]
  have held: "rep cd shard (view db') (restored T T1 meta) \<and> rr_events rp = length (filter (\<lambda>(k, _). is_aggregate_event_key shard k) entries)"
    if "r = Inr rp" for rp
    using res(1) that O(1) by fastforce
  have "ls_last_purged ls = sn_last_log_id meta \<and> ls_last_log_id ls = sn_last_log_id meta"
    if "r = Inr rp" "es_shard_id st = shard" "es_tree st = db'" "get_log_state kv cd st = Inr ls" for rp st ls
  proof -
    have "holds view cd st (restored T T1 meta)" using held [OF that(1)] that(2,3) by simp
    note G = get_log_state_exact [OF laws(1,2) this that(4)]
    have none: "log_last (restored T T1 meta) = None"
      by (auto simp: log_last_None log_at_def at_def restored_def Let_def sm_key_def raft_key_def tag_defs split: option.split)
    have mark: "at (restored T T1 meta) LastPurgedKey as_log_id = map_option Some (sn_last_log_id meta)"
      by (auto simp: at_def restored_def Let_def sm_key_def raft_key_def tag_defs split: option.split)
    show ?thesis using G none mark by (cases "sn_last_log_id meta"; cases "ls_last_purged ls") simp_all
  qed
  moreover have "\<not> is_err r" if ok: "kv_reliable kv" "codec_total cd" "fs_mkdir fs" "fs_list fs" "\<forall>n. fs_remove fs n"
    "fs_copy fs (final_path shard (sn_last_log_id meta))"
  proof -
    obtain ops n where ops: "restore_ops alloc kv cd db shard h meta (payload_bytes entries) = Inr (ops, n)"
      using O(2) [OF ok(1,2), of meta] by (cases "restore_ops alloc kv cd db shard h meta (payload_bytes entries)") auto
    have "\<not> is_err (kv_commit kv db ops)" using ok(1) by (simp add: kv_reliable_def)
    then obtain db2 where "kv_commit kv db ops = Inr db2" by (cases "kv_commit kv db ops") auto
    with res(3) [OF ok(3,4) _ ok(6) ops] ok(5) show ?thesis by blast
  qed
  ultimately show ?thesis using held res(2) by blast
qed

definition restored_sample :: "bytes \<Rightarrow> (bytes, bytes) fmap \<times> SnapDir \<times> (RestoreReport, sm_error) result" where
  "restored_sample bs = restore sample_zip sample_meta_codec (\<lambda>_. True) sample_fs map_kv fence_codec (es_tree (fenced 4 9)) sample_dir 1 None bs"

lemma restored_sample_ok: "(case find_file (final_path 1 None) (sd_root (fst built)) of
    Some f \<Rightarrow> \<not> is_err (snd (snd (restored_sample (de_bytes f)))) | None \<Rightarrow> False)"
  by code_simp

theorem restore_resets_to_snapshot_witness:
  "\<exists>f. find_file (final_path 1 None) (sd_root (fst built)) = Some f
     \<and> rep fence_codec 1 (fst (restored_sample (de_bytes f)))
         (restored (fenced_shard 4 9) (fenced_shard 3 5) (snapshot_meta (fenced 3 5)))"
proof -
  let ?st1 = "fenced 3 5" and ?mc = sample_meta_codec
  obtain f where f: "find_file (final_path 1 None) (sd_root (fst built)) = Some f" "\<not> is_err (snd (snd (restored_sample (de_bytes f))))"
    using restored_sample_ok by (auto split: option.splits)
  obtain meta where "snd built = Inr (meta, final_path 1 None)" using built_ok by (auto split: sum.splits)
  then have run: "built = (fst built, Inr (meta, final_path 1 None))" by (simp add: prod_eq_iff)
  have shard: "es_shard_id ?st1 = 1" by (simp add: fenced_def sample_storage_def)
  obtain entries h where b: "collect_sm_entries map_kv ?st1 = Inr entries" "meta = snapshot_meta ?st1"
    "snapshot_header ?mc (ss_compression sample_store) (es_shard_id ?st1) meta entries = Inr h"
    "snapshot_image sample_zip ?mc h meta entries = Inr (de_bytes f)"
    by (rule build_snapshot_file [OF run [unfolded built_def] f(1) [unfolded built_def]])
  have enc: "\<forall>b. meta_enc ?mc meta = Some b \<longrightarrow> length b \<le> unat MAX_META_LEN \<and> True"
    using small_meta by (auto simp: b(2) MAX_META_LEN_def split: option.splits)
  have es: "list_all (record_ok (\<lambda>_. True)) entries" "length entries < 2 ^ 64"
    using small_entries b(1) by (auto simp: record_ok_def max_record_len list_all_iff)
  have tgt: "rep fence_codec 1 (es_tree (fenced 4 9)) (fenced_shard 4 9)"
    using fenced_holds [of 4 9] by (simp add: fenced_def sample_storage_def)
  obtain db' d' r where res: "restored_sample (de_bytes f) = (db', d', r)" by (metis prod.collapse)
  from f(2) res obtain rp where rp: "r = Inr rp" by (cases r) auto
  from restore_resets_to_snapshot [OF map_kv_laws fence_codec_laws sample_laws fenced_holds shard b(1) b(3) [unfolded shard] b(4)
      enc es tgt res [unfolded restored_sample_def]] rp f(1) res b(2)
  show ?thesis by auto
qed

text \<open>The old snapshots of the shard are gone even if the restored file then turns out to be truncated.\<close>

lemma restore_failure_loses_snapshots:
  "(case restore sample_zip sample_meta_codec (\<lambda>_. True) sample_fs map_kv fence_codec fmempty sample_dir 1 None
      (butlast (de_bytes (sample_snapshot 1 5))) of (_, d, r) \<Rightarrow>
    is_err r \<and> (case sd_root d of Some files \<Rightarrow> map de_name files = [de_name (sample_snapshot 2 9), ''notes.txt''] | None \<Rightarrow> False))"
  by code_simp

end
