(* ===== verification/Fuse_Paths.thy ===== *)
theory Fuse_Paths
  imports Identifiers Strings
begin

text \<open>
  The paths of the mounted file system (\<open>eventfs-fuse/src/path.rs\<close>): the tree of logical nodes, the
  child of a directory under a name, and the parser of absolute paths.
\<close>

section \<open>Nodes\<close>

datatype Node =
    Root
  | BusinessSpace string
  | AggregateType string string
  | Events string string
  | States string string
  | State string string string
  | Groups string string
  | Group string string string
  | Consumer string string string string

datatype PathError = InvalidShape | InvalidName | InvalidExtension | NotDirectory | NotFound

definition strip_extension :: "string \<Rightarrow> string \<Rightarrow> (string, PathError) result" where
  "strip_extension name extension =
     (case strip_suffix extension name of
        Some stem \<Rightarrow> if stem \<noteq> [] then Inr stem else Inl InvalidExtension
      | None \<Rightarrow> Inl InvalidExtension)"

definition path_identifier :: "string \<Rightarrow> string \<Rightarrow> (unit, PathError) result" where
  "path_identifier kind val = map_err (\<lambda>_. InvalidName) (validate_aggregate_identifier kind val)"

definition child :: "Node \<Rightarrow> string \<Rightarrow> (Node, PathError) result" where
  "child self name =
     (if name = [] \<or> name = ''.'' \<or> name = ''..'' \<or> CHR ''/'' \<in> set name then Inl InvalidName
      else case self of
        Root \<Rightarrow> rbind (path_identifier ''business_space'' name) (\<lambda>_. Inr (BusinessSpace name))
      | BusinessSpace b \<Rightarrow> rbind (path_identifier ''aggregate_type'' name) (\<lambda>_. Inr (AggregateType b name))
      | AggregateType b t \<Rightarrow>
          (if name = ''events.jsonl'' then Inr (Events b t)
           else if name = ''states'' then Inr (States b t)
           else if name = ''groups'' then Inr (Groups b t)
           else Inl NotFound)
      | States b t \<Rightarrow>
          rbind (strip_extension name ''.json'') (\<lambda>aggregate_id.
          rbind (path_identifier ''aggregate_id'' aggregate_id) (\<lambda>_. Inr (State b t aggregate_id)))
      | Groups b t \<Rightarrow> rbind (path_identifier ''group_name'' name) (\<lambda>_. Inr (Group b t name))
      | Group b t g \<Rightarrow>
          rbind (strip_extension name ''.jsonl'') (\<lambda>consumer_id.
          rbind (path_identifier ''consumer_id'' consumer_id) (\<lambda>_. Inr (Consumer b t g consumer_id)))
      | _ \<Rightarrow> Inl NotDirectory)"

fun descend :: "Node \<Rightarrow> string list \<Rightarrow> (Node, PathError) result" where
  "descend node [] = Inr node"
| "descend node (segment # segments) = rbind (child node segment) (\<lambda>node. descend node segments)"

definition parse :: "string \<Rightarrow> (Node, PathError) result" where
  "parse path =
     (if path = ''/'' then Inr Root
      else if strip_prefix ''/'' path = None \<or> strip_suffix ''/'' path \<noteq> None \<or> str_contains ''//'' path then Inl InvalidShape
      else descend Root (split_on (CHR ''/'') (drop 1 path)))"

fun is_directory :: "Node \<Rightarrow> bool" where
  "is_directory Root = True"
| "is_directory (BusinessSpace _) = True"
| "is_directory (AggregateType _ _) = True"
| "is_directory (States _ _) = True"
| "is_directory (Groups _ _) = True"
| "is_directory (Group _ _ _) = True"
| "is_directory _ = False"

fun node_aggregate_type :: "Node \<Rightarrow> (string \<times> string) option" where
  "node_aggregate_type (AggregateType b t) = Some (b, t)"
| "node_aggregate_type (Events b t) = Some (b, t)"
| "node_aggregate_type (States b t) = Some (b, t)"
| "node_aggregate_type (State b t _) = Some (b, t)"
| "node_aggregate_type (Groups b t) = Some (b, t)"
| "node_aggregate_type (Group b t _) = Some (b, t)"
| "node_aggregate_type (Consumer b t _ _) = Some (b, t)"
| "node_aggregate_type Root = None"
| "node_aggregate_type (BusinessSpace _) = None"

section \<open>The tree\<close>

text \<open>Where a node sits: its parent and its name there, and the names on the way from the root.\<close>

fun location :: "Node \<Rightarrow> (Node \<times> string) option" where
  "location Root = None"
| "location (BusinessSpace b) = Some (Root, b)"
| "location (AggregateType b t) = Some (BusinessSpace b, t)"
| "location (Events b t) = Some (AggregateType b t, ''events.jsonl'')"
| "location (States b t) = Some (AggregateType b t, ''states'')"
| "location (State b t a) = Some (States b t, a @ ''.json'')"
| "location (Groups b t) = Some (AggregateType b t, ''groups'')"
| "location (Group b t g) = Some (Groups b t, g)"
| "location (Consumer b t g c) = Some (Group b t g, c @ ''.jsonl'')"

fun names :: "Node \<Rightarrow> string list" where
  "names Root = []"
| "names (BusinessSpace b) = [b]"
| "names (AggregateType b t) = [b, t]"
| "names (Events b t) = [b, t, ''events.jsonl'']"
| "names (States b t) = [b, t, ''states'']"
| "names (State b t a) = [b, t, ''states'', a @ ''.json'']"
| "names (Groups b t) = [b, t, ''groups'']"
| "names (Group b t g) = [b, t, ''groups'', g]"
| "names (Consumer b t g c) = [b, t, ''groups'', g, c @ ''.jsonl'']"

fun identifiers :: "Node \<Rightarrow> string list" where
  "identifiers Root = []"
| "identifiers (BusinessSpace b) = [b]"
| "identifiers (State b t a) = [b, t, a]"
| "identifiers (Group b t g) = [b, t, g]"
| "identifiers (Consumer b t g c) = [b, t, g, c]"
| "identifiers n = (case node_aggregate_type n of Some (b, t) \<Rightarrow> [b, t] | None \<Rightarrow> [])"

definition valid_node :: "Node \<Rightarrow> bool" where
  "valid_node n \<longleftrightarrow> list_all valid_identifier (identifiers n)"

definition path_of :: "Node \<Rightarrow> string" where
  "path_of n = CHR ''/'' # join_with (CHR ''/'') (names n)"

lemma identifier_Inr [simp]: "path_identifier kind s = Inr u \<longleftrightarrow> valid_identifier s"
  by (cases rule: validate_cases [of kind s]) (simp_all add: path_identifier_def)

lemma strip_extension_Inr [simp]: "strip_extension s x = Inr a \<longleftrightarrow> s = a @ x \<and> a \<noteq> []"
proof (cases "strip_suffix x s")
  case None
  then have "s \<noteq> a @ x" by (metis strip_suffix_Some option.distinct(1))
  with None show ?thesis by (simp add: strip_extension_def)
next
  case (Some b)
  then have "s = b @ x" by (simp add: strip_suffix_Some)
  with Some show ?thesis by (auto simp: strip_extension_def)
qed

lemma slash_free [simp]: "valid_identifier s \<Longrightarrow> CHR ''/'' \<notin> set s"
  by (rule valid_identifier_no_slash)

lemma valid_name [simp]:
  assumes "valid_identifier s"
  shows "s \<noteq> []" "s \<noteq> ''.''" "s \<noteq> ''..''"
  using assms by auto

text \<open>Looking a name up in a directory is the inverse of a node's location.\<close>

lemma child_iff:
  "child n s = Inr c \<longleftrightarrow>
     location c = Some (n, s) \<and> list_all valid_identifier (drop (length (identifiers n)) (identifiers c))"
proof
  assume "child n s = Inr c"
  then show "location c = Some (n, s) \<and> list_all valid_identifier (drop (length (identifiers n)) (identifiers c))"
    by (cases n) (auto simp: child_def rbind_Inr_iff split: if_splits)
next
  assume "location c = Some (n, s) \<and> list_all valid_identifier (drop (length (identifiers n)) (identifiers c))"
  then show "child n s = Inr c" by (cases c) (auto simp: child_def rbind_Inr_iff)
qed

lemma child_names:
  assumes "child n s = Inr c"
  shows "names c = names n @ [s]" "valid_node n \<Longrightarrow> valid_node c"
  using assms unfolding child_iff valid_node_def by (cases c; auto)+

lemma descend_names: "descend n ss = Inr c \<Longrightarrow> names c = names n @ ss \<and> (valid_node n \<longrightarrow> valid_node c)"
  by (induction n ss rule: descend.induct) (auto simp: rbind_Inr_iff dest: child_names)

lemma descend_snoc: "descend n (ss @ [s]) = rbind (descend n ss) (\<lambda>n. child n s)"
proof (induction n ss rule: descend.induct)
  case (1 n)
  show ?case by (cases "child n s") auto
next
  case (2 n s' ss)
  then show ?case by (cases "child n s'") auto
qed

lemma descend_valid: "valid_node n \<Longrightarrow> descend Root (names n) = Inr n"
  by (cases n) (auto simp: valid_node_def child_def rbind_Inr_iff)

lemma valid_names: "valid_node n \<Longrightarrow> w \<in> set (names n) \<Longrightarrow> w \<noteq> [] \<and> CHR ''/'' \<notin> set w"
  by (cases n) (auto simp: valid_node_def)

lemma split_on_empty_piece:
  "[] \<in> set (tl (split_on c (x @ [c])))" "[] \<in> set (tl (split_on c (x @ c # c # y)))"
  by (induction x) (auto split: list.splits)

lemma path_shape:
  assumes "valid_node n" "n \<noteq> Root"
  shows "path_of n \<noteq> ''/''" "strip_suffix ''/'' (path_of n) = None" "\<not> str_contains ''//'' (path_of n)"
    "split_on (CHR ''/'') (drop 1 (path_of n)) = names n"
proof -
  have ne: "names n \<noteq> []" using assms(2) by (cases n) auto
  have free: "\<forall>w \<in> set (names n). CHR ''/'' \<notin> set w" and full: "[] \<notin> set (names n)"
    using valid_names [OF assms(1)] by blast+
  show S: "split_on (CHR ''/'') (drop 1 (path_of n)) = names n"
    using split_on_join [OF ne free] by (simp add: path_of_def)
  then have T: "tl (split_on (CHR ''/'') (path_of n)) = names n" by (simp add: path_of_def)
  show "path_of n \<noteq> ''/''"
  proof
    assume "path_of n = ''/''"
    with T full show False by (metis (no_types) list.sel(3) list.set_intros(1) split_on.simps(1,2))
  qed
  show "strip_suffix ''/'' (path_of n) = None"
    using split_on_empty_piece(1) [of "CHR ''/''"] T full by (metis strip_suffix_Some not_None_eq)
  show "\<not> str_contains ''//'' (path_of n)"
    using split_on_empty_piece(2) [of "CHR ''/''"] T full by (metis str_contains_iff append_Cons append_Nil)
qed

lemma parse_iff: "parse path = Inr n \<longleftrightarrow> path = path_of n \<and> valid_node n"
proof
  assume p: "parse path = Inr n"
  show "path = path_of n \<and> valid_node n"
  proof (cases "path = ''/''")
    case False
    with p obtain q where q: "path = CHR ''/'' # q" "descend Root (split_on (CHR ''/'') q) = Inr n"
      by (cases path) (auto simp: parse_def strip_prefix_def split: if_splits)
    from descend_names [OF q(2)] have "names n = split_on (CHR ''/'') q" "valid_node n" by (auto simp: valid_node_def)
    with q(1) show ?thesis by (simp add: path_of_def)
  qed (use p in \<open>auto simp: parse_def path_of_def valid_node_def\<close>)
next
  assume n: "path = path_of n \<and> valid_node n"
  show "parse path = Inr n"
  proof (cases "n = Root")
    case False
    have "strip_prefix ''/'' (path_of n) \<noteq> None" by (simp add: path_of_def strip_prefix_def)
    with path_shape [OF _ False] n descend_valid [of n] show ?thesis by (simp add: parse_def)
  qed (use n in \<open>simp add: parse_def path_of_def\<close>)
qed

lemma child_names_iff:
  assumes v: "valid_node n"
  shows "child n name = Inr c \<longleftrightarrow> valid_node c \<and> names c = names n @ [name]"
proof
  assume c: "valid_node c \<and> names c = names n @ [name]"
  have "descend Root (names n @ [name]) = rbind (descend Root (names n)) (\<lambda>n. child n name)"
    by (rule descend_snoc)
  with descend_valid [OF v] descend_valid [of c] c show "child n name = Inr c" by simp
qed (use v child_names [of n name c] in blast)

lemma directory_iff: "(\<exists>name c. child n name = Inr c) \<longleftrightarrow> is_directory n"
proof
  assume "\<exists>name c. child n name = Inr c"
  then show "is_directory n" by (cases n) (auto simp: child_iff elim: location.elims)
next
  have "validate_aggregate_identifier [] ''a'' = Inr ()" by code_simp
  then have a: "valid_identifier ''a''" by simp
  assume "is_directory n"
  then have "\<exists>c. location c \<noteq> None \<and> fst (the (location c)) = n
      \<and> list_all valid_identifier (drop (length (identifiers n)) (identifiers c))"
  proof (cases n)
    case Root
    then show ?thesis using a by (intro exI [of _ "BusinessSpace ''a''"]) simp
  next
    case (BusinessSpace b)
    then show ?thesis using a by (intro exI [of _ "AggregateType b ''a''"]) simp
  next
    case (AggregateType b t)
    then show ?thesis by (intro exI [of _ "States b t"]) simp
  next
    case (States b t)
    then show ?thesis using a by (intro exI [of _ "State b t ''a''"]) simp
  next
    case (Groups b t)
    then show ?thesis using a by (intro exI [of _ "Group b t ''a''"]) simp
  next
    case (Group b t g)
    then show ?thesis using a by (intro exI [of _ "Consumer b t g ''a''"]) simp
  qed auto
  then show "\<exists>name c. child n name = Inr c" unfolding child_iff by fastforce
qed

section \<open>Properties\<close>

text \<open>C29: a path names at most one node and every node has exactly one path. Parsing accepts a string
  exactly if it is the path of a node whose identifiers are all valid, and then gives that node; so no
  string with an empty, \<open>.\<close> or \<open>..\<close> segment, a trailing slash or a wrong extension is accepted. The lookup of a
  name in a directory agrees with it: a node has the child \<open>c\<close> under a name exactly if the path of \<open>c\<close> is the
  path of the node with the name added. Only directories have children, and every directory can have one.\<close>

theorem path_roundtrip:
  "(parse path = Inr n \<longleftrightarrow> path = path_of n \<and> valid_node n)
   \<and> (valid_node n \<longrightarrow> (child n name = Inr c \<longleftrightarrow> valid_node c \<and> names c = names n @ [name]))
   \<and> ((\<exists>name c. child n name = Inr c) \<longleftrightarrow> is_directory n)
   \<and> (node_aggregate_type n = None \<longleftrightarrow> length (names n) < 2)"
  using parse_iff child_names_iff directory_iff by (cases n) auto

theorem path_roundtrip_witness:
  "parse ''/orders/order/states/order-1.json'' = Inr (State ''orders'' ''order'' ''order-1'')
   \<and> child (States ''orders'' ''order'') ''order-1.json'' = Inr (State ''orders'' ''order'' ''order-1'')"
proof -
  have "list_all (\<lambda>s. validate_aggregate_identifier [] s = Inr ()) [''orders'', ''order'', ''order-1'']" by code_simp
  then have v: "valid_node (State ''orders'' ''order'' ''order-1'')" "valid_node (States ''orders'' ''order'')"
    by (auto simp: valid_node_def)
  then show ?thesis
    using path_roundtrip [of "''/orders/order/states/order-1.json''" "State ''orders'' ''order'' ''order-1''" "[]" Root]
      path_roundtrip [of "[]" "States ''orders'' ''order''" "''order-1.json''" "State ''orders'' ''order'' ''order-1''"]
    by (simp add: path_of_def)
qed

end
