(* ===== verification/Fuse_Inodes.thy ===== *)
theory Fuse_Inodes
  imports Machines Fuse_Paths
begin

text \<open>
  The inode table of the mounted file system (\<open>InodeTable\<close> in \<open>eventfs-fuse/src/fuse.rs\<close>): which node an inode
  number stands for, how often the kernel and open directories refer to it, and when it is dropped. The
  table is behind one lock, so its operations happen one after the other, in any order.
\<close>

section \<open>The table\<close>

record InodeTable =
  it_next :: u64
  it_by_inode :: "u64 \<rightharpoonup> Node"
  it_by_node :: "Node \<rightharpoonup> u64"
  it_sizes :: "u64 \<rightharpoonup> u64"
  it_lookup_refs :: "u64 \<rightharpoonup> u64"
  it_directory_refs :: "u64 \<rightharpoonup> u64"

definition ROOT_INODE :: u64 where
  "ROOT_INODE = 1"

definition InodeTable_new :: InodeTable where
  "InodeTable_new =
     \<lparr>it_next = ROOT_INODE + 1, it_by_inode = [ROOT_INODE \<mapsto> Root], it_by_node = [Root \<mapsto> ROOT_INODE],
      it_sizes = Map.empty, it_lookup_refs = Map.empty, it_directory_refs = Map.empty\<rparr>"

definition inode_ensure :: "InodeTable \<Rightarrow> Node \<Rightarrow> u64 \<Rightarrow> InodeTable \<times> u64" where
  "inode_ensure t node sz =
     (case it_by_node t node of
        Some ino \<Rightarrow> (t\<lparr>it_sizes := (it_sizes t)(ino \<mapsto> sz)\<rparr>, ino)
      | None \<Rightarrow>
          let ino = it_next t
          in (t\<lparr>it_next := saturating_add (it_next t) 1, it_by_inode := (it_by_inode t)(ino \<mapsto> node),
               it_by_node := (it_by_node t)(node \<mapsto> ino), it_sizes := (it_sizes t)(ino \<mapsto> sz)\<rparr>, ino))"

definition inode_size :: "InodeTable \<Rightarrow> u64 \<Rightarrow> u64" where
  "inode_size t ino = (case it_sizes t ino of Some s \<Rightarrow> s | None \<Rightarrow> 0)"

text \<open>\<open>*entry(ino).or_default() += 1\<close>, and the decrement that drops the entry at zero.\<close>

definition ref_incr :: "(u64 \<rightharpoonup> u64) \<Rightarrow> u64 \<Rightarrow> (u64 \<rightharpoonup> u64)" where
  "ref_incr refs ino = refs(ino \<mapsto> (case refs ino of Some r \<Rightarrow> r | None \<Rightarrow> 0) + 1)"

definition ref_decr :: "(u64 \<rightharpoonup> u64) \<Rightarrow> u64 \<Rightarrow> u64 \<Rightarrow> (u64 \<rightharpoonup> u64)" where
  "ref_decr refs ino n =
     (case refs ino of
        Some r \<Rightarrow> if saturating_sub r n = 0 then refs(ino := None) else refs(ino \<mapsto> saturating_sub r n)
      | None \<Rightarrow> refs)"

definition remember_lookup :: "InodeTable \<Rightarrow> Node \<Rightarrow> u64 \<Rightarrow> InodeTable \<times> u64" where
  "remember_lookup t node sz =
     (let (t, ino) = inode_ensure t node sz in (t\<lparr>it_lookup_refs := ref_incr (it_lookup_refs t) ino\<rparr>, ino))"

definition remove_if_unreferenced :: "InodeTable \<Rightarrow> u64 \<Rightarrow> InodeTable" where
  "remove_if_unreferenced t ino =
     (if ino = ROOT_INODE \<or> it_lookup_refs t ino \<noteq> None \<or> it_directory_refs t ino \<noteq> None then t
      else case it_by_inode t ino of
             None \<Rightarrow> t
           | Some node \<Rightarrow>
               t\<lparr>it_by_inode := (it_by_inode t)(ino := None), it_by_node := (it_by_node t)(node := None),
                 it_sizes := (it_sizes t)(ino := None)\<rparr>)"

definition inode_forget :: "InodeTable \<Rightarrow> u64 \<Rightarrow> u64 \<Rightarrow> InodeTable" where
  "inode_forget t ino count =
     remove_if_unreferenced (t\<lparr>it_lookup_refs := ref_decr (it_lookup_refs t) ino count\<rparr>) ino"

definition retain_directory :: "InodeTable \<Rightarrow> u64 \<Rightarrow> InodeTable" where
  "retain_directory t ino = t\<lparr>it_directory_refs := ref_incr (it_directory_refs t) ino\<rparr>"

definition release_directory :: "InodeTable \<Rightarrow> u64 \<Rightarrow> InodeTable" where
  "release_directory t ino =
     remove_if_unreferenced (t\<lparr>it_directory_refs := ref_decr (it_directory_refs t) ino 1\<rparr>) ino"

text \<open>The operations in the order they take the lock; the first three return an inode number.\<close>

datatype inode_call =
    Ensure Node u64
  | Remember Node u64
  | Retain_Node Node u64
  | Retain u64
  | Release u64
  | Forget u64 u64

definition retain_directory_node :: "InodeTable \<Rightarrow> Node \<Rightarrow> u64 \<Rightarrow> InodeTable \<times> u64" where
  "retain_directory_node t node sz = (let (t, ino) = inode_ensure t node sz in (retain_directory t ino, ino))"

fun inode_step :: "InodeTable \<Rightarrow> inode_call \<Rightarrow> InodeTable \<times> u64 option" where
  "inode_step t (Ensure node sz) = map_prod id Some (inode_ensure t node sz)"
| "inode_step t (Remember node sz) = map_prod id Some (remember_lookup t node sz)"
| "inode_step t (Retain_Node node sz) = map_prod id Some (retain_directory_node t node sz)"
| "inode_step t (Retain ino) = (retain_directory t ino, None)"
| "inode_step t (Release ino) = (release_directory t ino, None)"
| "inode_step t (Forget ino count) = (inode_forget t ino count, None)"

section \<open>Numbers are never reused\<close>

definition good_table :: "InodeTable \<Rightarrow> bool" where
  "good_table t \<longleftrightarrow> (\<forall>ino node. it_by_inode t ino = Some node \<longleftrightarrow> it_by_node t node = Some ino)
     \<and> it_by_inode t ROOT_INODE = Some Root \<and> (\<forall>ino. it_by_inode t ino \<noteq> None \<longrightarrow> ino < it_next t)"

definition wf_table :: "InodeTable \<Rightarrow> bool" where
  "wf_table t \<longleftrightarrow> ROOT_INODE < it_next t \<and> (it_next t \<noteq> - 1 \<longrightarrow> good_table t)"

definition table_below :: "InodeTable \<Rightarrow> InodeTable \<Rightarrow> bool" where
  "table_below s t \<longleftrightarrow> it_next s \<le> it_next t
     \<and> (\<forall>ino < it_next s. it_by_inode t ino = None \<or> it_by_inode t ino = it_by_inode s ino)"

lemma good_tableD:
  assumes "good_table t"
  shows "it_by_inode t ino = Some node \<longleftrightarrow> it_by_node t node = Some ino"
    and "it_by_inode t ROOT_INODE = Some Root"
    and "it_by_inode t ino = Some node \<Longrightarrow> ino < it_next t"
  using assms by (auto simp: good_table_def)

lemma next_number: "(a :: u64) \<le> saturating_add a 1" "a \<noteq> - 1 \<Longrightarrow> x < saturating_add a 1 \<longleftrightarrow> x \<le> a"
  using unat_max_word_cases [of a] by (auto simp: word_le_nat_alt word_less_nat_alt saturating_add_1)

lemma max_le_iff [simp]: "(- 1 :: u64) \<le> x \<longleftrightarrow> x = - 1"
  using word_order.extremum_unique [of x] by (auto simp: word_order.extremum)

lemma ensure_step:
  assumes "wf_table t" "inode_ensure t node sz = (t', ino)"
  shows "wf_table t'" "table_below t t'" "it_lookup_refs t' = it_lookup_refs t" "it_directory_refs t' = it_directory_refs t"
    "it_next t' \<noteq> - 1 \<Longrightarrow> it_by_inode t' ino = Some node"
    "it_next t' \<noteq> - 1 \<Longrightarrow> it_by_inode t i = Some n \<Longrightarrow> it_by_inode t' i = Some n"
proof -
  have "(t', ino) = inode_ensure t node sz" using assms(2) by simp
  note E = this [unfolded inode_ensure_def]
  show "it_lookup_refs t' = it_lookup_refs t" "it_directory_refs t' = it_directory_refs t"
    using E by (auto simp: Let_def split: option.splits)
  have kept: "it_next t' \<noteq> - 1 \<Longrightarrow> it_next t \<noteq> - 1" using E next_number(1) [of "it_next t"]
    by (auto simp: Let_def saturating_add_def split: option.splits if_splits)
  show "table_below t t'"
    using E next_number(1) [of "it_next t"] by (auto simp: table_below_def Let_def split: option.splits)
  have "it_next t \<le> it_next t'" using \<open>table_below t t'\<close> by (simp add: table_below_def)
  then have root: "ROOT_INODE < it_next t'" using assms(1) by (auto simp: wf_table_def)
  {
    assume n: "it_next t' \<noteq> - 1"
    with kept assms(1) have g: "good_table t" and n0: "it_next t \<noteq> - 1" by (auto simp: wf_table_def)
    have fresh: "it_by_inode t (it_next t) = None" using good_tableD(3) [OF g, of "it_next t"] by fastforce
    have "good_table t' \<and> it_by_inode t' ino = Some node \<and> (it_by_inode t i = Some n \<longrightarrow> it_by_inode t' i = Some n)"
    proof (cases "it_by_node t node")
      case (Some j)
      with E g show ?thesis by (auto simp: good_table_def)
    next
      case None
      then have t': "t' = t\<lparr>it_next := saturating_add (it_next t) 1, it_by_inode := (it_by_inode t)(it_next t \<mapsto> node),
          it_by_node := (it_by_node t)(node \<mapsto> it_next t), it_sizes := (it_sizes t)(it_next t \<mapsto> sz)\<rparr>" "ino = it_next t"
        using E by (simp_all add: Let_def)
      have "good_table t'"
        unfolding good_table_def
      proof (intro conjI allI impI)
        fix i m
        show "it_by_inode t' i = Some m \<longleftrightarrow> it_by_node t' m = Some i"
          using good_tableD(1) [OF g, of i m] good_tableD(1) [OF g, of "it_next t" m] fresh None by (auto simp: t' split: if_splits)
        show "it_by_inode t' ROOT_INODE = Some Root" using good_tableD(2) [OF g] fresh by (auto simp: t')
        show "it_by_inode t' i \<noteq> None \<Longrightarrow> i < it_next t'"
          using good_tableD(3) [OF g, of i] next_number(2) [OF n0] by (auto simp: t' split: if_splits)
      qed
      with fresh show ?thesis by (auto simp: t')
    qed
  }
  note G = this
  show "wf_table t'" using G root by (auto simp: wf_table_def)
  show "it_next t' \<noteq> - 1 \<Longrightarrow> it_by_inode t' ino = Some node"
    "it_next t' \<noteq> - 1 \<Longrightarrow> it_by_inode t i = Some n \<Longrightarrow> it_by_inode t' i = Some n" using G by auto
qed

lemma remove_step:
  assumes "wf_table t"
  shows "wf_table (remove_if_unreferenced t ino)" "table_below t (remove_if_unreferenced t ino)"
proof -
  show "table_below t (remove_if_unreferenced t ino)"
    by (auto simp: remove_if_unreferenced_def table_below_def split: option.splits)
  have "good_table (remove_if_unreferenced t ino)" if "good_table t"
    using that unfolding good_table_def remove_if_unreferenced_def
    by (auto split: option.splits) (metis option.inject)
  then show "wf_table (remove_if_unreferenced t ino)"
    using assms by (auto simp: remove_if_unreferenced_def wf_table_def split: option.splits if_splits)
qed

lemma refs_only:
  "wf_table (t\<lparr>it_lookup_refs := r\<rparr>) \<longleftrightarrow> wf_table t" "wf_table (t\<lparr>it_directory_refs := r\<rparr>) \<longleftrightarrow> wf_table t"
  "table_below s (t\<lparr>it_lookup_refs := r\<rparr>) \<longleftrightarrow> table_below s t" "table_below s (t\<lparr>it_directory_refs := r\<rparr>) \<longleftrightarrow> table_below s t"
  "table_below (t\<lparr>it_lookup_refs := r\<rparr>) s \<longleftrightarrow> table_below t s" "table_below (t\<lparr>it_directory_refs := r\<rparr>) s \<longleftrightarrow> table_below t s"
  by (simp_all add: wf_table_def good_table_def table_below_def)

lemma inode_step_ok:
  assumes "wf_table t"
  shows "wf_table (fst (inode_step t c))" "table_below t (fst (inode_step t c))"
proof -
  have "wf_table (fst (inode_step t c)) \<and> table_below t (fst (inode_step t c))"
  proof (cases c)
    case (Ensure node sz)
    then show ?thesis using ensure_step(1,2) [OF assms surjective_pairing, of node sz] by simp
  next
    case (Remember node sz)
    then show ?thesis using ensure_step(1,2) [OF assms surjective_pairing, of node sz]
      by (simp add: remember_lookup_def case_prod_beta refs_only)
  next
    case (Retain_Node node sz)
    then show ?thesis using ensure_step(1,2) [OF assms surjective_pairing, of node sz]
      by (simp add: retain_directory_node_def retain_directory_def case_prod_beta refs_only)
  next
    case (Retain ino)
    have "table_below t t" by (simp add: table_below_def)
    with Retain assms show ?thesis by (simp add: retain_directory_def refs_only)
  next
    case (Release ino)
    then show ?thesis using remove_step [of "t\<lparr>it_directory_refs := ref_decr (it_directory_refs t) ino 1\<rparr>" ino] assms
      by (simp add: release_directory_def refs_only)
  next
    case (Forget ino count)
    then show ?thesis using remove_step [of "t\<lparr>it_lookup_refs := ref_decr (it_lookup_refs t) ino count\<rparr>" ino] assms
      by (simp add: inode_forget_def refs_only)
  qed
  then show "wf_table (fst (inode_step t c))" "table_below t (fst (inode_step t c))" by blast+
qed

interpretation inode_table: monotone_machine inode_step wf_table table_below
proof unfold_locales
  fix s t u
  show "table_below s s" by (simp add: table_below_def)
  show "table_below s t \<Longrightarrow> table_below t u \<Longrightarrow> table_below s u"
    unfolding table_below_def by (metis order.strict_trans2 order_trans)
qed (simp_all add: inode_step_ok)

lemma new_table_wf: "wf_table InodeTable_new"
  by (auto simp: wf_table_def good_table_def InodeTable_new_def ROOT_INODE_def split: if_splits)

section \<open>References keep a node\<close>

text \<open>
  The references the kernel holds on a number: each lookup of its node adds one, a forget gives back some.
  \<open>covered\<close> says that the kernel holds \<open>held\<close> references and in the calls that follow keeps at least one.
\<close>

fun looked_up :: "Node \<Rightarrow> inode_call \<Rightarrow> nat" where
  "looked_up n (Remember m _) = (if m = n then 1 else 0)"
| "looked_up n _ = 0"

fun forgotten :: "u64 \<Rightarrow> inode_call \<Rightarrow> nat" where
  "forgotten i (Forget j count) = (if j = i then unat count else 0)"
| "forgotten i _ = 0"

fun covered :: "nat \<Rightarrow> Node \<Rightarrow> u64 \<Rightarrow> inode_call list \<Rightarrow> bool" where
  "covered held n i [] \<longleftrightarrow> True"
| "covered held n i (c # cs) \<longleftrightarrow>
     forgotten i c < held + looked_up n c \<and> covered (held + looked_up n c - forgotten i c) n i cs"

lemma next_bound:
  "unat (it_next (fst (inode_step t c))) \<le> Suc (unat (it_next t))"
  by (cases c) (auto simp: inode_ensure_def remember_lookup_def retain_directory_node_def retain_directory_def
      release_directory_def inode_forget_def remove_if_unreferenced_def Let_def unat_saturating_add
      split: option.splits prod.splits if_splits)

lemma refs_bound:
  assumes "\<And>i r. it_lookup_refs t i = Some r \<Longrightarrow> unat r \<le> b" "it_lookup_refs (fst (inode_step t c)) i = Some r"
  shows "unat r \<le> Suc b"
proof -
  have incr: "unat (x + 1 :: u64) \<le> Suc (unat x)" for x :: u64 using unat_max_word_cases [of x] by auto
  have "\<exists>j. it_lookup_refs (fst (inode_step t c)) = it_lookup_refs t \<or> it_lookup_refs (fst (inode_step t c)) = ref_incr (it_lookup_refs t) j
      \<or> (\<exists>k. it_lookup_refs (fst (inode_step t c)) = ref_decr (it_lookup_refs t) j k)"
    by (cases c) (auto simp: inode_ensure_def remember_lookup_def retain_directory_node_def retain_directory_def
        release_directory_def inode_forget_def remove_if_unreferenced_def Let_def split: option.splits prod.splits)
  then obtain j where "it_lookup_refs (fst (inode_step t c)) = it_lookup_refs t \<or> it_lookup_refs (fst (inode_step t c)) = ref_incr (it_lookup_refs t) j
      \<or> (\<exists>k. it_lookup_refs (fst (inode_step t c)) = ref_decr (it_lookup_refs t) j k)" by blast
  then show ?thesis
    using assms(2) assms(1) [of i] incr
    by (auto simp: ref_incr_def ref_decr_def unat_saturating_sub split: if_splits option.splits) (fastforce intro: le_trans)+
qed

lemma run_bounds:
  assumes "\<And>i r. it_lookup_refs t i = Some r \<Longrightarrow> unat r \<le> b"
  shows "unat (it_next (run_commands inode_step t cs)) \<le> unat (it_next t) + length cs
    \<and> (\<forall>i r. it_lookup_refs (run_commands inode_step t cs) i = Some r \<longrightarrow> unat r \<le> b + length cs)"
  using assms
proof (induction cs arbitrary: t b)
  case (Cons c cs)
  from Cons.IH [of "fst (inode_step t c)" "Suc b"] refs_bound [OF Cons.prems] next_bound [of t c] show ?case by fastforce
qed simp

lemma remove_keeps:
  assumes "good_table t" "it_by_inode t i = Some n" "j \<noteq> i \<or> it_lookup_refs t i \<noteq> None"
  shows "it_by_inode (remove_if_unreferenced t j) i = Some n" "it_lookup_refs (remove_if_unreferenced t j) = it_lookup_refs t"
  using assms by (auto simp: remove_if_unreferenced_def split: option.splits)

lemma held_step:
  assumes wf: "wf_table t" and room: "it_next (fst (inode_step t c)) \<noteq> - 1"
    and at: "it_by_inode t i = Some n" "it_lookup_refs t i = Some r" and r: "held \<le> unat r" "unat r + 1 < 2 ^ 64"
    and keep: "forgotten i c < held + looked_up n c"
  shows "it_by_inode (fst (inode_step t c)) i = Some n
    \<and> (\<exists>r'. it_lookup_refs (fst (inode_step t c)) i = Some r' \<and> held + looked_up n c - forgotten i c \<le> unat r' \<and> unat r' \<le> unat r + 1)"
proof -
  have "it_next t \<noteq> - 1"
    using inode_step_ok(2) [OF wf, of c] room by (auto simp: table_below_def)
  then have g: "good_table t" using wf by (simp add: wf_table_def)
  have ensured: "it_by_inode t1 i = Some n" "it_lookup_refs t1 i = Some r" "j = i \<longleftrightarrow> m = n"
    if "inode_ensure t m sz = (t1, j)" "it_next t1 \<noteq> - 1" for m sz t1 j
  proof -
    note E = ensure_step [OF wf that(1)]
    show "it_by_inode t1 i = Some n" "it_lookup_refs t1 i = Some r" using E(3) E(6) [OF that(2) at(1)] at by simp_all
    have "good_table t1" using E(1) that(2) by (simp add: wf_table_def)
    with E(5) [OF that(2)] \<open>it_by_inode t1 i = Some n\<close> show "j = i \<longleftrightarrow> m = n"
      by (metis good_tableD(1) option.inject)
  qed
  show ?thesis
  proof (cases c)
    case (Ensure m sz)
    then show ?thesis using ensured [of m sz] room r keep by (cases "inode_ensure t m sz") auto
  next
    case (Remember m sz)
    obtain t1 j where e: "inode_ensure t m sz = (t1, j)" by fastforce
    with Remember room have "it_next t1 \<noteq> - 1" by (simp add: remember_lookup_def)
    note E = ensured [OF e this]
    have "unat (r + 1) = unat r + 1" using unat_max_word_cases [of r] r(2) by (auto simp: unat_max_word)
    with E e Remember r show ?thesis by (auto simp: remember_lookup_def ref_incr_def)
  next
    case (Retain_Node m sz)
    obtain t1 j where e: "inode_ensure t m sz = (t1, j)" by fastforce
    with Retain_Node room have "it_next t1 \<noteq> - 1" by (simp add: retain_directory_node_def retain_directory_def)
    from ensured [OF e this] e Retain_Node r show ?thesis by (auto simp: retain_directory_node_def retain_directory_def)
  next
    case (Retain j)
    then show ?thesis using at r by (simp add: retain_directory_def)
  next
    case (Release j)
    let ?t = "t\<lparr>it_directory_refs := ref_decr (it_directory_refs t) j 1\<rparr>"
    have "good_table ?t" using g by (simp add: good_table_def)
    from remove_keeps [OF this, of i n j] Release at r show ?thesis by (simp add: release_directory_def)
  next
    case (Forget j count)
    let ?refs = "ref_decr (it_lookup_refs t) j count"
    have refs: "\<exists>r'. ?refs i = Some r' \<and> held - forgotten i c \<le> unat r' \<and> unat r' \<le> unat r + 1"
    proof (cases "j = i")
      case True
      have "saturating_sub r count = 0 \<longleftrightarrow> unat r \<le> unat count"
        by (simp add: unat_eq_0 [symmetric] unat_saturating_sub)
      with True Forget at(2) r keep show ?thesis by (auto simp: ref_decr_def unat_saturating_sub)
    qed (use Forget at(2) r in \<open>auto simp: ref_decr_def split: option.splits\<close>)
    have "good_table (t\<lparr>it_lookup_refs := ?refs\<rparr>)" using g by (simp add: good_table_def)
    from remove_keeps [OF this, of i n j] Forget at refs show ?thesis by (auto simp: inode_forget_def)
  qed
qed

lemma held_run:
  "wf_table t \<Longrightarrow> it_next (run_commands inode_step t cs) \<noteq> - 1 \<Longrightarrow> it_by_inode t i = Some n \<Longrightarrow> it_lookup_refs t i = Some r \<Longrightarrow>
   held \<le> unat r \<Longrightarrow> unat r + length cs < 2 ^ 64 \<Longrightarrow> covered held n i cs \<Longrightarrow> it_by_inode (run_commands inode_step t cs) i = Some n"
proof (induction cs arbitrary: t r held)
  case (Cons c cs)
  let ?t = "fst (inode_step t c)"
  have wf: "wf_table ?t" by (rule inode_step_ok(1) [OF Cons.prems(1)])
  have "it_next ?t \<le> it_next (run_commands inode_step ?t cs)"
    using inode_table.run_below [OF wf, of cs] by (simp add: table_below_def)
  with Cons.prems(2) have room: "it_next ?t \<noteq> - 1" by auto
  from held_step [OF Cons.prems(1) room Cons.prems(3,4,5)] Cons.prems(6,7)
  obtain r' where "it_by_inode ?t i = Some n" "it_lookup_refs ?t i = Some r'"
    "held + looked_up n c - forgotten i c \<le> unat r'" "unat r' \<le> unat r + 1" by auto
  with Cons.IH [OF wf, of r' "held + looked_up n c - forgotten i c"] Cons.prems(2,6,7) show ?case by simp
qed simp

section \<open>Properties\<close>

text \<open>C30: an inode number stands for one node. Whatever lookups, directory reads and forgets happened
  before and happen after a lookup that answered with the number \<open>ino\<close> for a node (fewer than the number
  space holds): no two numbers stand for the same node, the root keeps its number, \<open>ino\<close> stands for that node
  or, once dropped, for none, so numbers are never reused although their generation is constant; and as long
  as the kernel has not given back all its references, \<open>ino\<close> still stands for the node, and looking the node
  up gives \<open>ino\<close>.\<close>

theorem inode_numbers_stable:
  fixes n :: Node
  assumes len: "length before + length after < 2 ^ 64 - 4"
    and first: "remember_lookup (run_commands inode_step InodeTable_new before) n sz = (t1, ino)"
    and last: "t2 = run_commands inode_step t1 after"
  shows "(\<forall>i m. it_by_inode t2 i = Some m \<longleftrightarrow> it_by_node t2 m = Some i)
    \<and> it_by_inode t2 ROOT_INODE = Some Root
    \<and> it_by_inode t1 ino = Some n \<and> (it_by_inode t2 ino = None \<or> it_by_inode t2 ino = Some n)
    \<and> (covered 1 n ino after \<longrightarrow> it_by_inode t2 ino = Some n \<and> it_by_node t2 n = Some ino)"
proof -
  let ?all = "before @ Remember n sz # after"
  have t1: "t1 = run_commands inode_step InodeTable_new (before @ [Remember n sz])" using first by simp
  have t2: "t2 = run_commands inode_step InodeTable_new ?all" using first last by simp
  have B: "unat (it_next (run_commands inode_step InodeTable_new cs)) \<le> unat (it_next InodeTable_new) + length cs
    \<and> (\<forall>i r. it_lookup_refs (run_commands inode_step InodeTable_new cs) i = Some r \<longrightarrow> unat r \<le> 0 + length cs)" for cs
    by (rule run_bounds) (simp add: InodeTable_new_def)
  have two: "unat (it_next InodeTable_new) = 2" by (simp add: InodeTable_new_def ROOT_INODE_def)
  have wf: "wf_table t1" "wf_table t2" unfolding t1 t2 by (rule inode_table.run_wf [OF new_table_wf])+
  have room2: "it_next t2 \<noteq> - 1"
    using B [where cs = ?all] two len unfolding t2 [symmetric] by (auto simp: word_unat_eq_iff unat_max_word)
  have below: "table_below t1 t2" unfolding last by (rule inode_table.run_below [OF wf(1)])
  with room2 have room1: "it_next t1 \<noteq> - 1" by (auto simp: table_below_def)
  have g: "good_table t1" "good_table t2" using wf room1 room2 by (auto simp: wf_table_def)
  obtain s where s: "inode_ensure (run_commands inode_step InodeTable_new before) n sz = (s, ino)"
      "t1 = s\<lparr>it_lookup_refs := ref_incr (it_lookup_refs s) ino\<rparr>"
    using first by (auto simp: remember_lookup_def split: prod.splits)
  have at: "it_by_inode t1 ino = Some n"
    using ensure_step(5) [OF inode_table.run_wf [OF new_table_wf] s(1)] room1 by (simp add: s(2))
  have kept: "it_by_inode t2 ino = None \<or> it_by_inode t2 ino = Some n"
    using below at good_tableD(3) [OF g(1) at] by (auto simp: table_below_def)
  obtain r where r: "it_lookup_refs t1 ino = Some r" by (simp add: s(2) ref_incr_def)
  from B [where cs = "before @ [Remember n sz]"] r have rb: "unat r \<le> length before + 1"
    unfolding t1 [symmetric] by auto
  have "unat r \<noteq> 0"
  proof (cases "it_lookup_refs (run_commands inode_step InodeTable_new before) ino")
    case (Some x)
    with B [of before] have "unat x \<le> length before" by simp
    with len unat_max_word_cases [of x] have "unat (x + 1) = Suc (unat x)" by (auto simp: unat_max_word)
    with Some r show ?thesis by (simp add: s(2) ref_incr_def ensure_step(3) [OF inode_table.run_wf [OF new_table_wf] s(1)])
  qed (use r in \<open>simp add: s(2) ref_incr_def ensure_step(3) [OF inode_table.run_wf [OF new_table_wf] s(1)]\<close>)
  then have "covered 1 n ino after \<Longrightarrow> it_by_inode t2 ino = Some n"
    using held_run [OF wf(1) _ at r, where cs = after and held = 1] room2 rb len last by simp
  with at kept good_tableD [OF g(2)] show ?thesis by blast
qed

theorem inode_numbers_stable_witness:
  "let t1 = fst (remember_lookup (run_commands inode_step InodeTable_new [Remember (BusinessSpace ''a'') 0]) (BusinessSpace ''b'') 0);
       t2 = run_commands inode_step t1 [Remember (BusinessSpace ''b'') 0, Forget 3 1, Forget 2 1]
   in it_by_inode t2 3 = Some (BusinessSpace ''b'') \<and> it_by_node t2 (BusinessSpace ''b'') = Some 3
     \<and> it_by_inode t2 ROOT_INODE = Some Root \<and> it_by_inode t2 2 = None"
proof -
  let ?n = "BusinessSpace ''b''" and ?before = "[Remember (BusinessSpace ''a'') 0]"
  let ?after = "[Remember ?n 0, Forget 3 1, Forget 2 1]"
  let ?t1 = "fst (remember_lookup (run_commands inode_step InodeTable_new ?before) ?n 0)"
  have "snd (remember_lookup (run_commands inode_step InodeTable_new ?before) ?n 0) = 3" by code_simp
  then have "remember_lookup (run_commands inode_step InodeTable_new ?before) ?n 0 = (?t1, 3)" by (simp add: prod_eq_iff)
  moreover have "length ?before + length ?after < 2 ^ 64 - 4" by simp
  moreover have "covered 1 ?n 3 ?after" by code_simp
  moreover have "it_by_inode (run_commands inode_step ?t1 ?after) 2 = None" by code_simp
  ultimately show ?thesis
    using inode_numbers_stable [OF _ _ refl, of ?before ?after ?n 0 ?t1 3] unfolding Let_def by blast
qed

end
