(* ===== verification/Fuse_Directory.thy ===== *)
theory Fuse_Directory
  imports Fuse_Inodes Leader_Retry "HOL-Library.Sublist"
begin

text \<open>
  Errors of the file system and the reading of directories (\<open>eventfs-fuse/src/fuse.rs\<close>, \<open>backend.rs\<close>). What the
  backend answers is the parameter \<open>bk\<close>; an open directory is its \<open>DirectoryState\<close>, and the kernel reads it with
  a sequence of \<open>readdir\<close> calls, each with the offset of the last entry it has and a reply buffer that takes a
  number of entries.
\<close>

section \<open>Errors\<close>

datatype BackendError =
    BE_InvalidArgument string | BE_NotFound string | BE_AlreadyExists string | BE_Conflict string | BE_TooLarge string
  | BE_Stale string | BE_PermissionDenied string | BE_Timeout string | BE_Unavailable string | BE_Busy string
  | BE_Unsupported string | BE_Internal string

datatype Errno =
    EINVAL | ENOENT | EEXIST | EAGAIN | EFBIG | ESTALE | EACCES | ETIMEDOUT | EHOSTUNREACH | EBUSY | ENOTSUP | EIO
  | ENOTDIR | EISDIR | EPERM | EBADF

definition rpc_error :: "Code \<Rightarrow> string \<Rightarrow> BackendError" where
  "rpc_error code msg =
     (case code of
        InvalidArgument \<Rightarrow> BE_InvalidArgument msg
      | Code.NotFound \<Rightarrow> BE_NotFound msg
      | AlreadyExists \<Rightarrow> BE_AlreadyExists msg
      | Aborted \<Rightarrow> BE_Conflict msg
      | FailedPrecondition \<Rightarrow>
          if str_contains ''payload'' msg then BE_TooLarge msg
          else if str_contains ''stale'' msg then BE_Stale msg
          else BE_Conflict msg
      | ResourceExhausted \<Rightarrow> BE_TooLarge msg
      | OutOfRange \<Rightarrow> BE_TooLarge msg
      | PermissionDenied \<Rightarrow> BE_PermissionDenied msg
      | Unauthenticated \<Rightarrow> BE_PermissionDenied msg
      | DeadlineExceeded \<Rightarrow> BE_Timeout msg
      | Unavailable \<Rightarrow> BE_Unavailable msg
      | _ \<Rightarrow> BE_Internal msg)"

fun client_error :: "ClientError \<Rightarrow> BackendError" where
  "client_error (RpcFailed code msg) = rpc_error code msg"
| "client_error (PayloadTooLarge msg) = BE_TooLarge msg"
| "client_error (InvalidConfig msg) = BE_InvalidArgument msg"
| "client_error (ConnectionFailed msg) = BE_Unavailable msg"
| "client_error (AllNodesFailed msgs) = BE_Unavailable (concat msgs)"
| "client_error (NotLeader addr) = BE_Unavailable (case addr of Some a \<Rightarrow> ''leader='' @ a | None \<Rightarrow> ''leader=None'')"

fun backend_errno :: "BackendError \<Rightarrow> Errno" where
  "backend_errno (BE_InvalidArgument _) = EINVAL"
| "backend_errno (BE_NotFound _) = ENOENT"
| "backend_errno (BE_AlreadyExists _) = EEXIST"
| "backend_errno (BE_Conflict _) = EAGAIN"
| "backend_errno (BE_TooLarge _) = EFBIG"
| "backend_errno (BE_Stale _) = ESTALE"
| "backend_errno (BE_PermissionDenied _) = EACCES"
| "backend_errno (BE_Timeout _) = ETIMEDOUT"
| "backend_errno (BE_Unavailable _) = EHOSTUNREACH"
| "backend_errno (BE_Busy _) = EBUSY"
| "backend_errno (BE_Unsupported _) = ENOTSUP"
| "backend_errno (BE_Internal _) = EIO"

fun path_errno :: "PathError \<Rightarrow> Errno" where
  "path_errno NotDirectory = ENOTDIR"
| "path_errno PathError.NotFound = ENOENT"
| "path_errno InvalidShape = EINVAL"
| "path_errno InvalidName = EINVAL"
| "path_errno InvalidExtension = EINVAL"

section \<open>Directories\<close>

definition node_type :: "Node \<Rightarrow> (AggregateTypeId, Errno) result" where
  "node_type node =
     (case node_aggregate_type node of
        None \<Rightarrow> Inl EINVAL
      | Some (b, t) \<Rightarrow> map_err (\<lambda>_. EINVAL) (AggregateTypeId_new b t))"

fun parent_node :: "Node \<Rightarrow> Node" where
  "parent_node Root = Root"
| "parent_node (BusinessSpace _) = Root"
| "parent_node (AggregateType b _) = BusinessSpace b"
| "parent_node (Events b t) = AggregateType b t"
| "parent_node (States b t) = AggregateType b t"
| "parent_node (Groups b t) = AggregateType b t"
| "parent_node (State b t _) = States b t"
| "parent_node (Group b t _) = Groups b t"
| "parent_node (Consumer b t g _) = Group b t g"

record StatePage =
  sp_aggregate_ids :: "string list"
  sp_next_page_token :: bytes

record listing_backend =
  bk_list_aggregate_types :: "(AggregateTypeId list, BackendError) result"
  bk_list_states :: "AggregateTypeId \<Rightarrow> (string list, BackendError) result"
  bk_list_states_page :: "AggregateTypeId \<Rightarrow> bytes \<Rightarrow> u32 \<Rightarrow> (StatePage, BackendError) result"
  bk_list_groups :: "AggregateTypeId \<Rightarrow> (string list, BackendError) result"

datatype FileType = Directory | RegularFile

record DirectoryEntry =
  de_name :: string
  de_ino :: u64
  de_kind :: FileType

record DirectoryState =
  ds_entries :: "DirectoryEntry list"
  ds_retained_inodes :: "u64 list"
  ds_next_page_token :: bytes
  ds_initialized :: bool
  ds_complete :: bool

definition STATE_DIRECTORY_PAGE_SIZE :: u32 where
  "STATE_DIRECTORY_PAGE_SIZE = 256"

definition DirectoryState_new :: "Node \<Rightarrow> DirectoryState" where
  "DirectoryState_new node =
     \<lparr>ds_entries = [], ds_retained_inodes = [], ds_next_page_token = [], ds_initialized = False,
      ds_complete = (case node of States _ _ \<Rightarrow> False | _ \<Rightarrow> True)\<rparr>"

text \<open>The business spaces that have an inode, found through their numbers.\<close>

definition known_spaces :: "InodeTable \<Rightarrow> string list" where
  "known_spaces t =
     concat (map (\<lambda>i. case it_by_inode t (word_of_nat i) of Some (BusinessSpace b) \<Rightarrow> [b] | _ \<Rightarrow> []) [0..<unat (it_next t)])"

text \<open>\<open>node.child(&name).expect(..)\<close> panics on a name the server should not have returned: no result.\<close>

fun expect_children :: "Node \<Rightarrow> (string \<Rightarrow> string) \<Rightarrow> string list \<Rightarrow> (string \<times> Node \<times> u64) list option" where
  "expect_children node name [] = Some []"
| "expect_children node name (x # xs) =
     (case child node (name x) of
        Inl _ \<Rightarrow> None
      | Inr c \<Rightarrow> map_option ((#) (name x, c, 0)) (expect_children node name xs))"

fun try_children :: "Node \<Rightarrow> string list \<Rightarrow> ((string \<times> Node \<times> u64) list, Errno) result" where
  "try_children node [] = Inr []"
| "try_children node (x # xs) =
     rbind (map_err path_errno (child node x)) (\<lambda>c. rbind (try_children node xs) (\<lambda>cs. Inr ((x, c, 0) # cs)))"

definition children :: "listing_backend \<Rightarrow> InodeTable \<Rightarrow> Node \<Rightarrow> ((string \<times> Node \<times> u64) list, Errno) result option" where
  "children bk t node =
     (case node of
        Root \<Rightarrow>
          Some (rbind (map_err backend_errno (bk_list_aggregate_types bk)) (\<lambda>types.
            Inr (map (\<lambda>b. (b, BusinessSpace b, 0)) (remdups_adj (sort (map business_space types @ known_spaces t))))))
      | BusinessSpace space \<Rightarrow>
          Some (rbind (map_err backend_errno (bk_list_aggregate_types bk)) (\<lambda>types.
            Inr (map (\<lambda>a. (aggregate_type a, AggregateType (business_space a) (aggregate_type a), 0))
              (filter (\<lambda>a. business_space a = space) types))))
      | AggregateType _ _ \<Rightarrow> Some (try_children node [''events.jsonl'', ''states'', ''groups''])
      | States _ _ \<Rightarrow>
          (case rbind (node_type node) (\<lambda>ty. map_err backend_errno (bk_list_states bk ty)) of
             Inl e \<Rightarrow> Some (Inl e)
           | Inr ids \<Rightarrow> map_option Inr (expect_children node (\<lambda>i. i @ ''.json'') ids))
      | Groups _ _ \<Rightarrow>
          (case rbind (node_type node) (\<lambda>ty. map_err backend_errno (bk_list_groups bk ty)) of
             Inl e \<Rightarrow> Some (Inl e)
           | Inr ids \<Rightarrow> map_option Inr (expect_children node (\<lambda>i. i) ids))
      | Group _ _ _ \<Rightarrow> Some (Inr [])
      | _ \<Rightarrow> Some (Inl ENOTDIR))"

fun add_entries :: "InodeTable \<Rightarrow> DirectoryState \<Rightarrow> (string \<times> Node \<times> u64) list \<Rightarrow> InodeTable \<times> DirectoryState" where
  "add_entries t st [] = (t, st)"
| "add_entries t st ((name, c, sz) # cs) =
     (let kind = (if is_directory c then Directory else RegularFile);
          (t, ino) = retain_directory_node t c sz
      in add_entries t (st\<lparr>ds_retained_inodes := ds_retained_inodes st @ [ino],
           ds_entries := ds_entries st @ [\<lparr>de_name = name, de_ino = ino, de_kind = kind\<rparr>]\<rparr>) cs)"

definition load_next_directory_page ::
  "listing_backend \<Rightarrow> Node \<Rightarrow> InodeTable \<Rightarrow> DirectoryState \<Rightarrow> (InodeTable \<times> DirectoryState \<times> (unit, Errno) result) option" where
  "load_next_directory_page bk node t st =
     (if ds_complete st \<and> ds_initialized st then Some (t, st, Inr ())
      else case node of
        States _ _ \<Rightarrow>
          (case rbind (node_type node) (\<lambda>ty. map_err backend_errno (bk_list_states_page bk ty (ds_next_page_token st) STATE_DIRECTORY_PAGE_SIZE)) of
             Inl e \<Rightarrow> Some (t, st, Inl e)
           | Inr page \<Rightarrow>
               if sp_next_page_token page \<noteq> [] \<and> sp_next_page_token page = ds_next_page_token st then Some (t, st, Inl EIO)
               else let st = st\<lparr>ds_next_page_token := sp_next_page_token page, ds_complete := (sp_next_page_token page = [])\<rparr>
                    in case try_children node (map (\<lambda>i. i @ ''.json'') (sp_aggregate_ids page)) of
                         Inl e \<Rightarrow> Some (t, st, Inl e)
                       | Inr cs \<Rightarrow> (case add_entries t (st\<lparr>ds_initialized := True\<rparr>) cs of (t, st) \<Rightarrow> Some (t, st, Inr ())))
      | _ \<Rightarrow>
          (case children bk t node of
             None \<Rightarrow> None
           | Some (Inl e) \<Rightarrow> Some (t, st\<lparr>ds_complete := True\<rparr>, Inl e)
           | Some (Inr cs) \<Rightarrow> (case add_entries t (st\<lparr>ds_complete := True, ds_initialized := True\<rparr>) cs of (t, st) \<Rightarrow> Some (t, st, Inr ()))))"

text \<open>An entry of a reply: inode, offset of the next entry, kind and name.\<close>

record reply_entry =
  re_ino :: u64
  re_offset :: u64
  re_kind :: FileType
  re_name :: string

text \<open>The loop of \<open>readdir\<close>; \<open>room\<close> is the number of entries the reply buffer still takes.\<close>

fun readdir_loop ::
  "listing_backend \<Rightarrow> Node \<Rightarrow> nat \<Rightarrow> InodeTable \<Rightarrow> DirectoryState \<Rightarrow> bool \<Rightarrow> nat
     \<Rightarrow> (InodeTable \<times> DirectoryState \<times> (reply_entry list, Errno) result) option" where
  "readdir_loop bk node room t st fetched index =
     Option.bind
       (if index \<ge> length (ds_entries st) \<and> \<not> ds_complete st \<and> \<not> fetched
        then map_option (\<lambda>(t, st, r). (t, st, r, True)) (load_next_directory_page bk node t st)
        else Some (t, st, Inr (), fetched))
       (\<lambda>(t, st, r, fetched).
          case r of
            Inl e \<Rightarrow> Some (t, st, Inl e)
          | Inr _ \<Rightarrow>
              if index \<ge> length (ds_entries st) then Some (t, st, Inr [])
              else case room of
                0 \<Rightarrow> Some (t, st, Inr [])
              | Suc room \<Rightarrow>
                  let e = ds_entries st ! index;
                      entry = \<lparr>re_ino = de_ino e, re_offset = word_of_nat (index + 3), re_kind = de_kind e, re_name = de_name e\<rparr>
                  in map_option (\<lambda>(t, st, r). (t, st, rbind r (\<lambda>es. Inr (entry # es)))) (readdir_loop bk node room t st fetched (index + 1)))"

declare readdir_loop.simps [simp del]

definition readdir ::
  "listing_backend \<Rightarrow> u64 \<Rightarrow> Node \<Rightarrow> InodeTable \<Rightarrow> DirectoryState \<Rightarrow> u64 \<Rightarrow> nat
     \<Rightarrow> (InodeTable \<times> DirectoryState \<times> (reply_entry list, Errno) result) option" where
  "readdir bk ino node t st offset room =
     (let self = (if offset = 0 then [\<lparr>re_ino = ino, re_offset = 1, re_kind = Directory, re_name = ''.''\<rparr>] else [])
      in if room < length self then Some (t, st, Inr [])
         else let (t, up) = (if offset \<le> 1
                   then (case inode_ensure t (parent_node node) 0 of
                           (t, p) \<Rightarrow> (t, [\<lparr>re_ino = p, re_offset = 2, re_kind = Directory, re_name = ''..''\<rparr>]))
                   else (t, []))
              in if room < length self + length up then Some (t, st, Inr self)
                 else map_option (\<lambda>(t, st, r). (t, st, rbind r (\<lambda>es. Inr (self @ up @ es))))
                   (readdir_loop bk node (room - length self - length up) t st False (unat (saturating_sub offset 2))))"

section \<open>Listing the states of an aggregate type\<close>

text \<open>
  The pages of states a backend that does not change serves, from a token on: every page but the last has
  entries and a new token.
\<close>

inductive page_chain :: "listing_backend \<Rightarrow> AggregateTypeId \<Rightarrow> bytes \<Rightarrow> string list list \<Rightarrow> bool" for bk ty where
  last: "bk_list_states_page bk ty tok STATE_DIRECTORY_PAGE_SIZE = Inr \<lparr>sp_aggregate_ids = ids, sp_next_page_token = []\<rparr>
    \<Longrightarrow> page_chain bk ty tok [ids]"
| more: "bk_list_states_page bk ty tok STATE_DIRECTORY_PAGE_SIZE = Inr \<lparr>sp_aggregate_ids = ids, sp_next_page_token = tok'\<rparr>
    \<Longrightarrow> tok' \<noteq> [] \<Longrightarrow> tok' \<noteq> tok \<Longrightarrow> ids \<noteq> [] \<Longrightarrow> page_chain bk ty tok' pages \<Longrightarrow> page_chain bk ty tok (ids # pages)"

text \<open>The kernel's reads of one open directory, until a reply is empty.\<close>

fun read_all ::
  "listing_backend \<Rightarrow> u64 \<Rightarrow> Node \<Rightarrow> InodeTable \<Rightarrow> DirectoryState \<Rightarrow> u64 \<Rightarrow> nat list \<Rightarrow> (reply_entry list, Errno) result option" where
  "read_all bk ino node t st offset [] = Some (Inr [])"
| "read_all bk ino node t st offset (room # rooms) =
     Option.bind (readdir bk ino node t st offset room) (\<lambda>(t, st, r).
       case r of
         Inl e \<Rightarrow> Some (Inl e)
       | Inr [] \<Rightarrow> Some (Inr [])
       | Inr es \<Rightarrow> map_option (\<lambda>r. rbind r (\<lambda>more. Inr (es @ more))) (read_all bk ino node t st (re_offset (last es)) rooms))"

abbreviation entry_names :: "DirectoryState \<Rightarrow> string list" where
  "entry_names st \<equiv> map de_name (ds_entries st)"

abbreviation json_names :: "string list list \<Rightarrow> string list" where
  "json_names pages \<equiv> map (\<lambda>i. i @ ''.json'') (concat pages)"

text \<open>What is still to come after the loaded entries.\<close>

definition listing_rest :: "listing_backend \<Rightarrow> AggregateTypeId \<Rightarrow> DirectoryState \<Rightarrow> string list list \<Rightarrow> bool" where
  "listing_rest bk ty st pages \<longleftrightarrow>
     (if ds_complete st then pages = [] else page_chain bk ty (ds_next_page_token st) pages)
     \<and> list_all valid_identifier (concat pages)"

lemma add_entries_names:
  assumes "add_entries t st cs = (t', st')"
  shows "entry_names st' = entry_names st @ map fst cs" "ds_next_page_token st' = ds_next_page_token st"
    "ds_complete st' = ds_complete st"
proof -
  have "entry_names st' = entry_names st @ map fst cs \<and> ds_next_page_token st' = ds_next_page_token st \<and> ds_complete st' = ds_complete st"
    using assms
  proof (induction cs arbitrary: t st)
    case (Cons c cs)
    obtain name n sz where c: "c = (name, n, sz)" by (cases c)
    obtain t1 ino where r: "retain_directory_node t n sz = (t1, ino)" by fastforce
    from Cons.prems Cons.IH show ?case by (force simp: c r Let_def)
  qed simp
  then show "entry_names st' = entry_names st @ map fst cs" "ds_next_page_token st' = ds_next_page_token st"
    "ds_complete st' = ds_complete st" by blast+
qed

lemma try_state_names:
  assumes "valid_identifier b" "valid_identifier t" "list_all valid_identifier ids"
  shows "try_children (States b t) (map (\<lambda>i. i @ ''.json'') ids) = Inr (map (\<lambda>i. (i @ ''.json'', State b t i, 0)) ids)"
  using assms(3)
proof (induction ids)
  case (Cons i ids)
  then have "child (States b t) (i @ ''.json'') = Inr (State b t i)" by (simp add: child_iff)
  with Cons show ?case by simp
qed simp

lemma load_page:
  assumes v: "valid_identifier b" "valid_identifier a" and p: "listing_rest bk (AggregateTypeId b a) st pages" "\<not> ds_complete st"
  obtains t' st' rest where "load_next_directory_page bk (States b a) t st = Some (t', st', Inr ())"
    "listing_rest bk (AggregateTypeId b a) st' rest" "entry_names st' @ json_names rest = entry_names st @ json_names pages"
    "entry_names st' \<noteq> entry_names st \<or> rest = []" "prefix (entry_names st) (entry_names st')"
proof -
  have ty: "node_type (States b a) = Inr (AggregateTypeId b a)" using v by (simp add: node_type_def AggregateTypeId_new_def)
  have "page_chain bk (AggregateTypeId b a) (ds_next_page_token st) pages" "list_all valid_identifier (concat pages)"
    using p by (auto simp: listing_rest_def)
  then show thesis
  proof (cases rule: page_chain.cases)
    case (last ids)
    let ?st = "st\<lparr>ds_next_page_token := [], ds_complete := True, ds_initialized := True\<rparr>"
    let ?cs = "map (\<lambda>i. (i @ ''.json'', State b a i, 0)) ids"
    obtain t' st' where e: "add_entries t ?st ?cs = (t', st')" by fastforce
    from \<open>list_all _ (concat pages)\<close> last have "list_all valid_identifier ids" by simp
    from try_state_names [OF v this] have "load_next_directory_page bk (States b a) t st = Some (t', st', Inr ())"
      using last p(2) e by (simp add: load_next_directory_page_def ty)
    with that [of t' st' "[]"] add_entries_names [OF e] last show ?thesis by (simp add: listing_rest_def comp_def)
  next
    case (more ids tok' rest)
    let ?st = "st\<lparr>ds_next_page_token := tok', ds_complete := False, ds_initialized := True\<rparr>"
    let ?cs = "map (\<lambda>i. (i @ ''.json'', State b a i, 0)) ids"
    obtain t' st' where e: "add_entries t ?st ?cs = (t', st')" by fastforce
    from \<open>list_all _ (concat pages)\<close> more have ids: "list_all valid_identifier ids" "list_all valid_identifier (concat rest)" by simp_all
    from try_state_names [OF v ids(1)] have "load_next_directory_page bk (States b a) t st = Some (t', st', Inr ())"
      using more p(2) e by (simp add: load_next_directory_page_def ty)
    with that [of t' st' rest] add_entries_names [OF e] more ids(2) show ?thesis by (simp add: listing_rest_def comp_def)
  qed
qed

definition fetch_step ::
  "listing_backend \<Rightarrow> Node \<Rightarrow> InodeTable \<Rightarrow> DirectoryState \<Rightarrow> bool \<Rightarrow> nat \<Rightarrow> (InodeTable \<times> DirectoryState \<times> (unit, Errno) result \<times> bool) option" where
  "fetch_step bk node t st fetched index =
     (if index \<ge> length (ds_entries st) \<and> \<not> ds_complete st \<and> \<not> fetched
        then map_option (\<lambda>(t, st, r). (t, st, r, True)) (load_next_directory_page bk node t st)
        else Some (t, st, Inr (), fetched))"

lemmas readdir_loop_eq = readdir_loop.simps [folded fetch_step_def]

lemma fetch_ok:
  assumes v: "valid_identifier b" "valid_identifier a"
    and p: "listing_rest bk (AggregateTypeId b a) st pages" "index \<le> length (ds_entries st)"
  obtains t1 st1 rest fetched1 where "fetch_step bk (States b a) t st fetched index = Some (t1, st1, Inr (), fetched1)"
    "listing_rest bk (AggregateTypeId b a) st1 rest" "entry_names st1 @ json_names rest = entry_names st @ json_names pages"
    "index \<le> length (ds_entries st1)" "index = length (ds_entries st1) \<longrightarrow> fetched \<or> rest = []"
    "prefix (entry_names st) (entry_names st1)"
proof (cases "index \<ge> length (ds_entries st) \<and> \<not> ds_complete st \<and> \<not> fetched")
  case True
  from load_page [OF v p(1), of t] True obtain t' st' rest where
    L: "load_next_directory_page bk (States b a) t st = Some (t', st', Inr ())" "listing_rest bk (AggregateTypeId b a) st' rest"
      "entry_names st' @ json_names rest = entry_names st @ json_names pages" "entry_names st' \<noteq> entry_names st \<or> rest = []"
      "prefix (entry_names st) (entry_names st')" by metis
  show thesis
  proof (rule that [of t' st' True rest])
    show "index \<le> length (ds_entries st')" using p(2) prefix_length_le [OF L(5)] by simp
    obtain zs where z: "entry_names st' = entry_names st @ zs" using L(5) by (auto simp: prefix_def)
    have "length (ds_entries st') = length (ds_entries st) + length zs" using arg_cong [OF z, of length] by simp
    then show "index = length (ds_entries st') \<longrightarrow> fetched \<or> rest = []"
      using L(4) z True p(2) by auto
  qed (use L True in \<open>simp_all add: fetch_step_def\<close>)
next
  case False
  show thesis
  proof (rule that [of t st fetched pages])
    show "index = length (ds_entries st) \<longrightarrow> fetched \<or> pages = []" using False p(1) by (auto simp: listing_rest_def)
  qed (use False p in \<open>auto simp: fetch_step_def\<close>)
qed

text \<open>One run of the loop: it emits consecutive entries from the index on, and stops short of the buffer's
  room only at the end of what is loaded, which at the first empty reply is everything.\<close>

lemma loop_exact:
  assumes v: "valid_identifier b" "valid_identifier a"
  shows "listing_rest bk (AggregateTypeId b a) st pages \<Longrightarrow> index \<le> length (ds_entries st) \<Longrightarrow>
    \<exists>t' st' es rest. readdir_loop bk (States b a) room t st fetched index = Some (t', st', Inr es)
      \<and> listing_rest bk (AggregateTypeId b a) st' rest \<and> entry_names st' @ json_names rest = entry_names st @ json_names pages
      \<and> prefix (entry_names st) (entry_names st') \<and> map re_name es = take (length es) (drop index (entry_names st')) \<and> length es \<le> length (ds_entries st') - index
      \<and> map re_offset es = map (\<lambda>i. word_of_nat (index + i + 3)) [0..<length es]
      \<and> (es = [] \<longrightarrow> room = 0 \<or> fetched \<or> (rest = [] \<and> index = length (ds_entries st')))"
proof (induction room arbitrary: t st fetched index pages)
  case 0
  from fetch_ok [OF v 0, of t fetched] obtain t1 st1 rest fetched1 where
    "fetch_step bk (States b a) t st fetched index = Some (t1, st1, Inr (), fetched1)"
    "listing_rest bk (AggregateTypeId b a) st1 rest" "entry_names st1 @ json_names rest = entry_names st @ json_names pages"
    "prefix (entry_names st) (entry_names st1)" by metis
  then show ?case by (auto simp: readdir_loop_eq [of bk "States b a" 0])
next
  case (Suc room)
  from fetch_ok [OF v Suc.prems, of t fetched] obtain t1 st1 rest fetched1 where
    L: "fetch_step bk (States b a) t st fetched index = Some (t1, st1, Inr (), fetched1)"
    "listing_rest bk (AggregateTypeId b a) st1 rest" "entry_names st1 @ json_names rest = entry_names st @ json_names pages"
    "index \<le> length (ds_entries st1)" "index = length (ds_entries st1) \<longrightarrow> fetched \<or> rest = []"
    "prefix (entry_names st) (entry_names st1)" by metis
  show ?case
  proof (cases "index < length (ds_entries st1)")
    case False
    with L show ?thesis by (auto simp: readdir_loop_eq [of bk "States b a" "Suc room"])
  next
    case True
    from Suc.IH [OF L(2), of "index + 1" t1 fetched1] True obtain t' st' es rest' where
      R: "readdir_loop bk (States b a) room t1 st1 fetched1 (index + 1) = Some (t', st', Inr es)"
        "listing_rest bk (AggregateTypeId b a) st' rest'" "entry_names st' @ json_names rest' = entry_names st1 @ json_names rest"
        "prefix (entry_names st1) (entry_names st')" "map re_name es = take (length es) (drop (index + 1) (entry_names st'))" "length es \<le> length (ds_entries st') - (index + 1)"
        "map re_offset es = map (\<lambda>i. word_of_nat (index + 1 + i + 3)) [0..<length es]" by auto
    let ?e = "ds_entries st1 ! index"
    let ?entry = "\<lparr>re_ino = de_ino ?e, re_offset = word_of_nat (index + 3), re_kind = de_kind ?e, re_name = de_name ?e\<rparr>"
    obtain zs where z: "entry_names st' = entry_names st1 @ zs" using R(4) by (auto simp: prefix_def)
    have "length (ds_entries st') = length (ds_entries st1) + length zs" using arg_cong [OF z, of length] by simp
    then have n: "index < length (ds_entries st')" "entry_names st' ! index = de_name ?e"
      using True by (simp_all add: z nth_append)
    have "readdir_loop bk (States b a) (Suc room) t st fetched index = Some (t', st', Inr (?entry # es))"
      using L(1) True R(1) by (simp add: readdir_loop_eq [of bk "States b a" "Suc room"] Let_def)
    moreover have "map re_name (?entry # es) = take (length (?entry # es)) (drop index (entry_names st'))"
      using R(5) n by (simp add: Cons_nth_drop_Suc [symmetric])
    moreover have "map re_offset (?entry # es) = map (\<lambda>i. word_of_nat (index + i + 3)) [0..<length (?entry # es)]"
      using R(7) by (simp add: upt_conv_Cons map_Suc_upt [symmetric] del: upt_Suc)
    moreover have "prefix (entry_names st) (entry_names st')" "length (?entry # es) \<le> length (ds_entries st') - index"
      using prefix_order.trans [OF L(6) R(4)] R(6) n(1) by auto
    ultimately show ?thesis using R(2,3) L(3) by (intro exI [of _ t'] exI [of _ st'] exI [of _ "?entry # es"] exI [of _ rest']) simp
  qed
qed

lemma small_offset: "n < 2 ^ 64 \<Longrightarrow> unat (word_of_nat n :: u64) = n"
  by (simp add: unat_of_nat take_bit_nat_eq_self)

lemma take_drop_append:
  assumes "i + k \<le> length xs"
  shows "take k (drop i xs) @ drop (i + k) (xs @ ys) = drop i (xs @ ys)"
  using assms append_take_drop_id [of k "drop i xs"] by (simp add: add.commute)

lemma read_rest:
  assumes v: "valid_identifier b" "valid_identifier a"
  shows "listing_rest bk (AggregateTypeId b a) st pages \<Longrightarrow> index \<le> length (ds_entries st) \<Longrightarrow> \<forall>room \<in> set rooms. 0 < room \<Longrightarrow>
    length (ds_entries st) + length (concat pages) - index < length rooms \<Longrightarrow>
    length (ds_entries st) + length (concat pages) + 3 < 2 ^ 64 \<Longrightarrow>
    \<exists>es. read_all bk ino (States b a) t st (word_of_nat (index + 2)) rooms = Some (Inr es)
      \<and> map re_name es = drop index (entry_names st @ json_names pages)"
proof (induction rooms arbitrary: t st index pages)
  case (Cons room rooms)
  from loop_exact [OF v Cons.prems(1,2), of room t False] obtain t' st' es rest where
    L: "readdir_loop bk (States b a) room t st False index = Some (t', st', Inr es)"
      "listing_rest bk (AggregateTypeId b a) st' rest" "entry_names st' @ json_names rest = entry_names st @ json_names pages"
      "prefix (entry_names st) (entry_names st')" "map re_name es = take (length es) (drop index (entry_names st'))"
      "length es \<le> length (ds_entries st') - index" "map re_offset es = map (\<lambda>i. word_of_nat (index + i + 3)) [0..<length es]"
      "es = [] \<longrightarrow> rest = [] \<and> index = length (ds_entries st')"
    using Cons.prems(3) by fastforce
  have small: "index + 2 < 2 ^ 64" using Cons.prems(2,5) by simp
  have off: "unat (saturating_sub (word_of_nat (index + 2) :: u64) 2) = index" "(word_of_nat (index + 2) :: u64) \<noteq> 0"
      "\<not> (word_of_nat (index + 2) :: u64) \<le> 1"
    using small_offset [OF small] by (auto simp: unat_saturating_sub word_le_nat_alt simp del: of_nat_add)
  have step: "readdir bk ino (States b a) t st (word_of_nat (index + 2)) room = Some (t', st', Inr es)"
    using L(1) off by (simp add: readdir_def)
  have len: "length (ds_entries st') + length (concat rest) = length (ds_entries st) + length (concat pages)"
    using arg_cong [OF L(3), of length] by simp
  show ?case
  proof (cases "es = []")
    case True
    with L(3,8) have "drop index (entry_names st @ json_names pages) = []"
      by (metis append_Nil2 concat.simps(1) drop_all le_refl length_map list.simps(8))
    with True step show ?thesis by simp
  next
    case False
    then have "re_offset (last es) = map re_offset es ! (length es - 1)" by (simp add: last_conv_nth)
    also have "\<dots> = word_of_nat (index + (length es - 1) + 3)" using False L(7) by (simp del: of_nat_add)
    also have "index + (length es - 1) + 3 = index + length es + 2" using False by (cases es) auto
    finally have o: "re_offset (last es) = word_of_nat (index + length es + 2)" .
    have le: "index + length es \<le> length (ds_entries st')" using L(6) False by (cases es) auto
    have "length (ds_entries st') + length (concat rest) - (index + length es) < length rooms"
      using Cons.prems(4) len le False by (cases es) auto
    from Cons.IH [OF L(2) le _ this, of t'] Cons.prems(3,5) len obtain es' where
      es': "read_all bk ino (States b a) t' st' (word_of_nat (index + length es + 2)) rooms = Some (Inr es')"
        "map re_name es' = drop (index + length es) (entry_names st' @ json_names rest)"
      by auto
    have "map re_name es @ map re_name es' = drop index (entry_names st' @ json_names rest)"
      unfolding L(5) es'(2) using le by (intro take_drop_append) simp
    with es' o step False L(3) show ?thesis by (cases es) auto
  qed
qed simp

section \<open>Properties\<close>

text \<open>A reply that ends with \<open>..\<close> or behind it, followed by the rest of the reads.\<close>

lemma read_after_dots:
  fixes dots :: "reply_entry list"
  assumes v: "valid_identifier b" "valid_identifier a" and pend: "listing_rest bk (AggregateTypeId b a) st pages" "ds_entries st = []"
    and rooms: "\<forall>room \<in> set rooms. 0 < room" "length (concat pages) < length rooms" "length (concat pages) + 3 < 2 ^ 64"
    and dots: "dots \<noteq> []" "re_offset (last dots) = 2"
    and reply: "\<And>t' st' es. readdir_loop bk (States b a) n t0 st False 0 = Some (t', st', Inr es) \<Longrightarrow>
      readdir bk ino (States b a) t st offset room = Some (t', st', Inr (dots @ es))"
  shows "\<exists>es. read_all bk ino (States b a) t st offset (room # rooms) = Some (Inr es) \<and> map re_name es = map re_name dots @ json_names pages"
proof -
  from loop_exact [OF v pend(1), of 0 n t0 False] obtain t' st' es rest where
    L: "readdir_loop bk (States b a) n t0 st False 0 = Some (t', st', Inr es)"
      "listing_rest bk (AggregateTypeId b a) st' rest" "entry_names st' @ json_names rest = json_names pages"
      "map re_name es = take (length es) (entry_names st')" "length es \<le> length (ds_entries st')"
      "map re_offset es = map (\<lambda>i. word_of_nat (i + 3)) [0..<length es]"
    using pend(2) by auto
  note first = reply [OF L(1)]
  have o: "re_offset (last (dots @ es)) = word_of_nat (length es + 2)"
  proof (cases "es = []")
    case False
    then have "re_offset (last es) = map re_offset es ! (length es - 1)" by (simp add: last_conv_nth)
    also have "\<dots> = word_of_nat (length es - 1 + 3)" using False L(6) by (simp del: of_nat_add)
    also have "length es - 1 + 3 = length es + 2" using False by (cases es) auto
    finally show ?thesis using False by simp
  qed (use dots in simp)
  have len: "length (ds_entries st') + length (concat rest) = length (concat pages)" using arg_cong [OF L(3), of length] by simp
  have enough: "length (ds_entries st') + length (concat rest) - length es < length rooms" using rooms(2) len by linarith
  from read_rest [OF v L(2,5) rooms(1) enough, of ino t'] rooms(3) len obtain es' where
    es': "read_all bk ino (States b a) t' st' (word_of_nat (length es + 2)) rooms = Some (Inr es')"
      "map re_name es' = drop (length es) (entry_names st' @ json_names rest)" by auto
  have "map re_name es @ map re_name es' = json_names pages"
    unfolding L(4) es'(2) using take_drop_append [of 0 "length es" "entry_names st'" "json_names rest"] L(3,5) by simp
  with first es' o dots(1) show ?thesis by (cases dots) auto
qed

text \<open>C32: reading the directory of the states of an aggregate type lists every state once. If the backend serves the same
  pages meanwhile, each with a new token and none but the last one empty (as \<open>list_aggregate_states\<close> makes them),
  then reading the open directory from its start with replies of any positive sizes, the first ones with room for
  one entry included, and enough of them, lists \<open>.\<close>, \<open>..\<close> and then, in the order of the pages, exactly the names
  of all states.\<close>

theorem state_directory_complete:
  assumes v: "valid_identifier b" "valid_identifier a" and chain: "page_chain bk (AggregateTypeId b a) [] pages"
    and ids: "list_all valid_identifier (concat pages)" and rooms: "\<forall>room \<in> set rooms. 0 < room"
    and enough: "length (concat pages) + 2 < length rooms" "length (concat pages) + 3 < 2 ^ 64"
  shows "\<exists>es. read_all bk ino (States b a) t (DirectoryState_new (States b a)) 0 rooms = Some (Inr es)
    \<and> map re_name es = ''.'' # ''..'' # json_names pages"
proof -
  let ?st = "DirectoryState_new (States b a)"
  let ?self = "\<lparr>re_ino = ino, re_offset = 1, re_kind = Directory, re_name = ''.''\<rparr>"
  let ?up = "\<lambda>p. \<lparr>re_ino = p, re_offset = 2, re_kind = Directory, re_name = ''..''\<rparr>"
  have pend: "listing_rest bk (AggregateTypeId b a) ?st pages" "ds_entries ?st = []"
    using chain ids by (simp_all add: listing_rest_def DirectoryState_new_def)
  have z: "unat (saturating_sub (0 :: u64) 2) = 0" "unat (saturating_sub (1 :: u64) 2) = 0" by (simp_all add: unat_saturating_sub)
  from enough(1) obtain r1 r2 rest where r: "rooms = r1 # r2 # rest" "length (concat pages) < length rest"
    by (cases rooms; cases "tl rooms") auto
  obtain u p where up: "inode_ensure t (parent_node (States b a)) 0 = (u, p)" by fastforce
  show ?thesis
  proof (cases "1 < r1")
    case True
    then have first: "readdir bk ino (States b a) t ?st 0 r1 = Some (t', st', Inr ([?self, ?up p] @ es))"
      if "readdir_loop bk (States b a) (r1 - 2) u ?st False 0 = Some (t', st', Inr es)" for t' st' es
      using that z(1) up by (simp add: readdir_def numeral_2_eq_2 Suc_lessI)
    have "\<exists>es. read_all bk ino (States b a) t ?st 0 (r1 # r2 # rest) = Some (Inr es)
        \<and> map re_name es = map re_name [?self, ?up p] @ json_names pages"
      by (rule read_after_dots [OF v pend _ _ enough(2) _ _ first]) (use rooms r in auto)
    then show ?thesis by (simp add: r)
  next
    case False
    with rooms r have one: "r1 = 1" by (auto simp: not_less le_Suc_eq)
    have self: "readdir bk ino (States b a) t ?st 0 r1 = Some (u, ?st, Inr [?self])" using one up by (simp add: readdir_def)
    obtain u' p' where up': "inode_ensure u (parent_node (States b a)) 0 = (u', p')" by fastforce
    have second: "readdir bk ino (States b a) u ?st 1 r2 = Some (t', st', Inr ([?up p'] @ es))"
      if "readdir_loop bk (States b a) (r2 - 1) u' ?st False 0 = Some (t', st', Inr es)" for t' st' es
      using that z(2) up' rooms r by (auto simp: readdir_def)
    have "\<exists>es. read_all bk ino (States b a) u ?st 1 (r2 # rest) = Some (Inr es) \<and> map re_name es = map re_name [?up p'] @ json_names pages"
      by (rule read_after_dots [OF v pend _ _ enough(2) _ _ second]) (use rooms r in auto)
    with self show ?thesis by (auto simp: r)
  qed
qed

definition two_pages :: listing_backend where
  "two_pages = \<lparr>bk_list_aggregate_types = Inr [], bk_list_states = (\<lambda>_. Inr []),
     bk_list_states_page = (\<lambda>_ tok _.
       if tok = [] then Inr \<lparr>sp_aggregate_ids = [''x'', ''y''], sp_next_page_token = [1]\<rparr>
       else Inr \<lparr>sp_aggregate_ids = [''z''], sp_next_page_token = []\<rparr>),
     bk_list_groups = (\<lambda>_. Inr [])\<rparr>"

theorem state_directory_complete_witness:
  "\<exists>es. read_all two_pages 7 (States ''a'' ''b'') InodeTable_new (DirectoryState_new (States ''a'' ''b'')) 0 [1, 1, 2, 1, 1, 1]
      = Some (Inr es) \<and> map re_name es = [''.'', ''..'', ''x.json'', ''y.json'', ''z.json'']"
proof -
  have "list_all (\<lambda>s. validate_aggregate_identifier [] s = Inr ()) [''a'', ''b'', ''x'', ''y'', ''z'']" by code_simp
  then have v: "valid_identifier ''a''" "valid_identifier ''b''" "list_all valid_identifier (concat [[''x'', ''y''], [''z'']])" by auto
  have "page_chain two_pages (AggregateTypeId ''a'' ''b'') [1] [[''z'']]"
    by (rule page_chain.last) (simp add: two_pages_def)
  then have c: "page_chain two_pages (AggregateTypeId ''a'' ''b'') [] [[''x'', ''y''], [''z'']]"
    by (rule page_chain.more [rotated 4]) (simp_all add: two_pages_def)
  have "\<forall>room \<in> set [1, 1, 2, 1, 1, 1 :: nat]. 0 < room" "length (concat [[''x'', ''y''], [''z'']]) + 2 < length [1, 1, 2, 1, 1, 1 :: nat]"
    "length (concat [[''x'', ''y''], [''z'']]) + 3 < 2 ^ 64" by simp_all
  from state_directory_complete [OF v(1,2) c v(3) this, of 7 InodeTable_new] show ?thesis by simp
qed

text \<open>
  Every other directory is opened as complete although nothing has been loaded, and \<open>readdir\<close> loads only what is
  not complete: its listing consists of the two dots, whatever the backend has.
\<close>

lemma other_directories_list_nothing:
  assumes "\<And>b a. node \<noteq> States b a" "readdir bk ino node t (DirectoryState_new node) offset room = Some (t', st', Inr es)"
  shows "set (map re_name es) \<subseteq> {''.'', ''..''} \<and> st' = DirectoryState_new node"
proof -
  have c: "ds_complete (DirectoryState_new node)" "ds_entries (DirectoryState_new node) = []"
    using assms(1) by (auto simp: DirectoryState_new_def split: Node.splits)
  have "readdir_loop bk node n t1 (DirectoryState_new node) False k = Some (t1, DirectoryState_new node, Inr [])" for n t1 k
    using c by (simp add: readdir_loop.simps)
  then show ?thesis using assms(2) by (auto simp: readdir_def Let_def split: prod.splits if_splits)
qed

end
