(* ===== verification/Fuse_Handles.thy ===== *)
theory Fuse_Handles
  imports Machines "HOL-Library.Sublist"
begin

text \<open>
  The buffers behind open files (\<open>eventfs-fuse/src/handle.rs\<close>): a write buffer that collects one JSON value
  and commits it once, and a read buffer that is a byte queue with a single reader. Both are state
  machines whose operations the kernel calls in any order; lengths are natural numbers, with the
  saturation of \<open>usize\<close> written out.
\<close>

section \<open>The write buffer\<close>

datatype WriteError = InvalidOffset | TooLarge | Busy

datatype 't CommitState = Open | Committing 't | Committed

record 't BufferedWrite =
  bw_bytes :: bytes
  bw_max_bytes :: nat
  bw_prepared :: "'t option"
  bw_state :: "'t CommitState"

datatype 'e BeginError = Begin_Write WriteError | Begin_Prepare 'e

definition BufferedWrite_new :: "nat \<Rightarrow> 't BufferedWrite" where
  "BufferedWrite_new max_bytes = \<lparr>bw_bytes = [], bw_max_bytes = max_bytes, bw_prepared = None, bw_state = Open\<rparr>"

definition buffer_write :: "'t BufferedWrite \<Rightarrow> u64 \<Rightarrow> bytes \<Rightarrow> 't BufferedWrite \<times> (u32, WriteError) result" where
  "buffer_write b offset data =
     (if (case bw_state b of Open \<Rightarrow> False | _ \<Rightarrow> True) \<or> bw_prepared b \<noteq> None then (b, Inl Busy)
      else if offset \<noteq> word_of_nat (length (bw_bytes b)) then (b, Inl InvalidOffset)
      else if usize_saturating_add (length (bw_bytes b)) (length data) > bw_max_bytes b then (b, Inl TooLarge)
      else (b\<lparr>bw_bytes := bw_bytes b @ data\<rparr>, Inr (word_of_nat (length data))))"

definition buffer_begin ::
  "'t BufferedWrite \<Rightarrow> (bytes \<Rightarrow> ('t, 'e) result) \<Rightarrow> 't BufferedWrite \<times> ('t option, 'e BeginError) result" where
  "buffer_begin b prepare =
     (case bw_state b of
        Committed \<Rightarrow> (b, Inr None)
      | Committing _ \<Rightarrow> (b, Inl (Begin_Write Busy))
      | Open \<Rightarrow>
          (case bw_prepared b of
             Some request \<Rightarrow> (b\<lparr>bw_state := Committing request\<rparr>, Inr (Some request))
           | None \<Rightarrow>
               (case prepare (bw_bytes b) of
                  Inl e \<Rightarrow> (b, Inl (Begin_Prepare e))
                | Inr request \<Rightarrow>
                    (b\<lparr>bw_prepared := Some request, bw_state := Committing request\<rparr>, Inr (Some request)))))"

definition buffer_finish :: "'t BufferedWrite \<Rightarrow> bool \<Rightarrow> 't BufferedWrite" where
  "buffer_finish b success =
     (case bw_state b of
        Committing _ \<Rightarrow> b\<lparr>bw_state := if success then Committed else Open\<rparr>
      | _ \<Rightarrow> b)"

definition buffer_committed :: "'t BufferedWrite \<Rightarrow> bool" where
  "buffer_committed b = (case bw_state b of Committed \<Rightarrow> True | _ \<Rightarrow> False)"

text \<open>The calls on one handle, in the order they are made, and what they return.\<close>

datatype ('t, 'e) write_call =
    Write u64 bytes
  | Begin "bytes \<Rightarrow> ('t, 'e) result"
  | Finish bool

datatype ('t, 'e) write_reply =
    Wrote "(u32, WriteError) result"
  | Began "('t option, 'e BeginError) result"
  | Finished

fun write_step :: "'t BufferedWrite \<Rightarrow> ('t, 'e) write_call \<Rightarrow> 't BufferedWrite \<times> ('t, 'e) write_reply" where
  "write_step b (Write offset data) = map_prod id Wrote (buffer_write b offset data)"
| "write_step b (Begin prepare) = map_prod id Began (buffer_begin b prepare)"
| "write_step b (Finish success) = (buffer_finish b success, Finished)"

section \<open>The write buffer commits once\<close>

definition wf_buffer :: "'t BufferedWrite \<Rightarrow> bool" where
  "wf_buffer b \<longleftrightarrow> (bw_max_bytes b < 2 ^ 64 - 1 \<longrightarrow> length (bw_bytes b) \<le> bw_max_bytes b)
     \<and> (case bw_state b of Open \<Rightarrow> True | Committing r \<Rightarrow> bw_prepared b = Some r | Committed \<Rightarrow> bw_prepared b \<noteq> None)"

definition buffer_below :: "'t BufferedWrite \<Rightarrow> 't BufferedWrite \<Rightarrow> bool" where
  "buffer_below b b' \<longleftrightarrow> bw_max_bytes b' = bw_max_bytes b \<and> prefix (bw_bytes b) (bw_bytes b')
     \<and> (bw_prepared b \<noteq> None \<longrightarrow> bw_prepared b' = bw_prepared b \<and> bw_bytes b' = bw_bytes b)
     \<and> (bw_state b = Committed \<longrightarrow> b' = b)"

lemma write_step_ok: "wf_buffer b \<Longrightarrow> wf_buffer (fst (write_step b c)) \<and> buffer_below b (fst (write_step b c))"
proof (cases c)
  case (Write offset data)
  assume "wf_buffer b"
  then show ?thesis
    by (auto simp: Write buffer_write_def wf_buffer_def buffer_below_def usize_saturating_add_def split: CommitState.splits)
next
  case (Begin prepare)
  assume "wf_buffer b"
  then show ?thesis
    by (auto simp: Begin buffer_begin_def wf_buffer_def buffer_below_def split: CommitState.splits option.splits sum.splits)
next
  case (Finish success)
  assume "wf_buffer b"
  then show ?thesis by (auto simp: Finish buffer_finish_def wf_buffer_def buffer_below_def split: CommitState.splits)
qed

interpretation write_buffer: monotone_machine
  "write_step :: 't BufferedWrite \<Rightarrow> ('t, 'e) write_call \<Rightarrow> 't BufferedWrite \<times> ('t, 'e) write_reply" wf_buffer buffer_below
proof unfold_locales
  fix s t u :: "'t BufferedWrite"
  show "buffer_below s s" by (simp add: buffer_below_def)
  show "buffer_below s t \<Longrightarrow> buffer_below t u \<Longrightarrow> buffer_below s u"
    by (auto simp: buffer_below_def intro: prefix_order.trans)
qed (simp_all add: write_step_ok)

lemma new_wf: "wf_buffer (BufferedWrite_new m)"
  by (simp add: wf_buffer_def BufferedWrite_new_def)

text \<open>The data of the accepted writes, the requests handed out, and the attempts reported as failed.\<close>

fun accepted_data :: "('t, 'e) write_call \<Rightarrow> ('t, 'e) write_reply \<Rightarrow> bytes" where
  "accepted_data (Write _ data) (Wrote (Inr _)) = data"
| "accepted_data _ _ = []"

fun requests :: "('t, 'e) write_reply list \<Rightarrow> 't list" where
  "requests [] = []"
| "requests (Began (Inr (Some r)) # rs) = r # requests rs"
| "requests (_ # rs) = requests rs"

lemma requests_append [simp]: "requests (rs @ qs) = requests rs @ requests qs"
  by (induction rs rule: requests.induct) simp_all

lemma requests_Cons: "requests (r # rs) = requests [r] @ requests rs"
  using requests_append [of "[r]" rs] by simp

lemma requests_single: "requests [r] = (case r of Began (Inr (Some q)) \<Rightarrow> [q] | _ \<Rightarrow> [])"
  by (cases "[r]" rule: requests.cases) (auto split: write_reply.splits)

lemma write_bytes:
  "bw_bytes (run_commands write_step b cs) = bw_bytes b @ concat (map2 accepted_data cs (run_replies write_step b cs))"
proof (induction cs arbitrary: b)
  case (Cons c cs)
  have "bw_bytes (fst (write_step b c)) = bw_bytes b @ accepted_data c (snd (write_step b c))"
    by (cases c) (auto simp: buffer_write_def buffer_begin_def buffer_finish_def
        split: CommitState.splits option.splits sum.splits)
  with Cons show ?case by simp
qed simp

lemma request_step:
  assumes "snd (write_step b c) = Began (Inr (Some r))"
  shows "bw_prepared (fst (write_step b c)) = Some r
    \<and> (\<exists>prepare. c = Begin prepare \<and> (bw_prepared b = Some r \<or> bw_prepared b = None \<and> prepare (bw_bytes b) = Inr r))"
  using assms by (cases c) (auto simp: buffer_begin_def buffer_write_def split: CommitState.splits option.splits sum.splits if_splits)

lemma prepared_step:
  assumes "bw_prepared (fst (write_step b c)) = Some r" "bw_prepared b = None"
  shows "bw_bytes (fst (write_step b c)) = bw_bytes b \<and> (\<exists>prepare. c = Begin prepare \<and> prepare (bw_bytes b) = Inr r)"
  using assms by (cases c)
    (auto simp: buffer_begin_def buffer_write_def buffer_finish_def split: CommitState.splits option.splits sum.splits if_splits)

lemma requests_prepared:
  "wf_buffer b \<Longrightarrow> set (requests (run_replies write_step b cs)) \<subseteq> set_option (bw_prepared (run_commands write_step b cs))"
proof (induction cs arbitrary: b)
  case (Cons c cs)
  let ?b = "fst (write_step b c)"
  have wf: "wf_buffer ?b" using write_step_ok [OF Cons.prems] by blast
  have "bw_prepared (run_commands write_step ?b cs) = Some r" if "snd (write_step b c) = Began (Inr (Some r))" for r
    using request_step [OF that] write_buffer.run_below [OF wf, of cs] by (simp add: buffer_below_def)
  then have "set (requests [snd (write_step b c)]) \<subseteq> set_option (bw_prepared (run_commands write_step ?b cs))"
    by (auto simp: requests_single split: write_reply.splits sum.splits option.splits)
  with Cons.IH [OF wf] show ?case by (simp add: requests_Cons [of "snd (write_step b c)" "run_replies write_step (fst (write_step b c)) cs"])
qed simp

lemma prepared_from:
  "wf_buffer b \<Longrightarrow> bw_prepared (run_commands write_step b cs) = Some r \<Longrightarrow> bw_prepared b = None \<Longrightarrow>
     \<exists>prepare. Begin prepare \<in> set cs \<and> prepare (bw_bytes (run_commands write_step b cs)) = Inr r"
proof (induction cs arbitrary: b)
  case (Cons c cs)
  let ?b = "fst (write_step b c)"
  have wf: "wf_buffer ?b" using write_step_ok [OF Cons.prems(1)] by blast
  show ?case
  proof (cases "bw_prepared ?b")
    case None
    with Cons.IH [OF wf] Cons.prems(2) show ?thesis by auto
  next
    case (Some q)
    with write_buffer.run_below [OF wf, of cs] Cons.prems(2) have "q = r" "bw_bytes (run_commands write_step ?b cs) = bw_bytes ?b"
      by (auto simp: buffer_below_def)
    with prepared_step [of b c q] Some Cons.prems(3) show ?thesis by auto
  qed
qed simp

text \<open>An attempt is under way or has succeeded.\<close>

definition engaged :: "'t BufferedWrite \<Rightarrow> nat" where
  "engaged b = (case bw_state b of Open \<Rightarrow> 0 | _ \<Rightarrow> 1)"

fun failed :: "('t, 'e) write_call \<Rightarrow> bool" where
  "failed (Finish success) = (\<not> success)"
| "failed _ = False"

lemma attempts:
  "engaged b + length (requests (run_replies write_step b cs)) \<le> engaged (run_commands write_step b cs) + length (filter failed cs)
   \<and> engaged (run_commands write_step b cs) \<le> engaged b + length (requests (run_replies write_step b cs))"
proof (induction cs arbitrary: b)
  case (Cons c cs)
  have "engaged b + length (requests [snd (write_step b c)]) \<le> engaged (fst (write_step b c)) + (if failed c then 1 else 0)
    \<and> engaged (fst (write_step b c)) \<le> engaged b + length (requests [snd (write_step b c)])"
    by (cases c) (auto simp: engaged_def buffer_begin_def buffer_write_def buffer_finish_def
        split: CommitState.splits option.splits sum.splits)
  with Cons.IH [of "fst (write_step b c)"] show ?case by (auto simp: requests_Cons [of "snd (write_step b c)" "run_replies write_step (fst (write_step b c)) cs"])
qed simp

lemma committed_final:
  assumes "buffer_committed b"
  shows "run_commands write_step b ds = b \<and> requests (run_replies write_step b ds) = []"
proof (induction ds)
  case (Cons d ds)
  from assms have "bw_state b = Committed" by (simp add: buffer_committed_def split: CommitState.splits)
  then have "fst (write_step b d) = b \<and> requests [snd (write_step b d)] = []"
    by (cases d) (auto simp: buffer_begin_def buffer_write_def buffer_finish_def)
  with Cons show ?case by (simp add: requests_Cons [of "snd (write_step b d)" "run_replies write_step b ds"])
qed simp

section \<open>The read buffer\<close>

record StreamBuffer =
  sb_bytes :: bytes
  sb_consumed :: u64
  sb_closed :: bool

definition StreamBuffer_default :: StreamBuffer where
  "StreamBuffer_default = \<lparr>sb_bytes = [], sb_consumed = 0, sb_closed = False\<rparr>"

definition stream_push :: "StreamBuffer \<Rightarrow> bytes \<Rightarrow> StreamBuffer" where
  "stream_push b frame = (if \<not> sb_closed b then b\<lparr>sb_bytes := sb_bytes b @ frame\<rparr> else b)"

definition stream_read :: "StreamBuffer \<Rightarrow> u64 \<Rightarrow> u32 \<Rightarrow> StreamBuffer \<times> (bytes option, WriteError) result" where
  "stream_read b offset sz =
     (if offset \<noteq> sb_consumed b then (b, Inl InvalidOffset)
      else if sb_bytes b = [] then (b, Inr (if sb_closed b then Some [] else None))
      else let count = min (length (sb_bytes b)) (unat sz);
               data = take count (sb_bytes b)
           in (b\<lparr>sb_bytes := drop count (sb_bytes b), sb_consumed := saturating_add (sb_consumed b) (word_of_nat (length data))\<rparr>,
               Inr (Some data)))"

definition stream_close :: "StreamBuffer \<Rightarrow> StreamBuffer" where
  "stream_close b = b\<lparr>sb_closed := True\<rparr>"

definition stream_ready :: "StreamBuffer \<Rightarrow> bool" where
  "stream_ready b \<longleftrightarrow> sb_bytes b \<noteq> [] \<or> sb_closed b"

datatype stream_call = Push bytes | Read u64 u32 | Close

datatype stream_reply = Done | Returned "(bytes option, WriteError) result"

fun stream_step :: "StreamBuffer \<Rightarrow> stream_call \<Rightarrow> StreamBuffer \<times> stream_reply" where
  "stream_step b (Push frame) = (stream_push b frame, Done)"
| "stream_step b (Read offset sz) = map_prod id Returned (stream_read b offset sz)"
| "stream_step b Close = (stream_close b, Done)"

text \<open>The frames pushed before the first close, and the bytes reads have returned.\<close>

fun pushed :: "stream_call list \<Rightarrow> bytes" where
  "pushed [] = []"
| "pushed (Push frame # cs) = frame @ pushed cs"
| "pushed (Close # cs) = []"
| "pushed (Read _ _ # cs) = pushed cs"

fun returned :: "stream_reply \<Rightarrow> bytes" where
  "returned (Returned (Inr (Some data))) = data"
| "returned _ = []"

lemma stream_conserves:
  "concat (map returned (run_replies stream_step b cs)) @ sb_bytes (run_commands stream_step b cs)
     = sb_bytes b @ (if sb_closed b then [] else pushed cs)"
proof (induction cs arbitrary: b)
  case (Cons c cs)
  show ?case
  proof (cases c)
    case (Read offset sz)
    have "returned (snd (stream_step b c)) @ sb_bytes (fst (stream_step b c)) @ xs = sb_bytes b @ xs"
      "sb_closed (fst (stream_step b c)) = sb_closed b" for xs
      by (auto simp: Read stream_read_def Let_def)
    with Cons [of "fst (stream_step b c)"] Read show ?thesis by (simp del: stream_step.simps)
  qed (use Cons in \<open>auto simp: stream_push_def stream_close_def\<close>)
qed simp

lemma stream_closes: "sb_closed (run_commands stream_step b cs) \<longleftrightarrow> sb_closed b \<or> Close \<in> set cs"
proof (induction cs arbitrary: b)
  case (Cons c cs)
  show ?case using Cons [of "fst (stream_step b c)"]
    by (cases c) (auto simp: stream_push_def stream_close_def stream_read_def Let_def)
qed simp

lemma stream_offset:
  "unat (sb_consumed b) + length (concat (map returned (run_replies stream_step b cs))) < 2 ^ 64 \<Longrightarrow>
   unat (sb_consumed (run_commands stream_step b cs))
     = unat (sb_consumed b) + length (concat (map returned (run_replies stream_step b cs)))"
proof (induction cs arbitrary: b)
  case (Cons c cs)
  let ?b = "fst (stream_step b c)" and ?n = "length (returned (snd (stream_step b c)))"
  have n: "unat (sb_consumed b) + ?n < 2 ^ 64" using Cons.prems by simp
  have "unat (sb_consumed ?b) = unat (sb_consumed b) + ?n"
  proof (cases c)
    case (Read offset sz)
    show ?thesis using n unfolding Read
      by (auto simp: stream_read_def Let_def unat_saturating_add unat_of_nat take_bit_nat_eq_self)
  qed (simp_all add: stream_push_def stream_close_def)
  with Cons.IH [of ?b] Cons.prems show ?case by simp
qed simp

section \<open>Properties\<close>

text \<open>C28: an open file commits one value at most once, however its writes, commit attempts and their
  outcomes are ordered. The buffer is the concatenation of the accepted writes and within its limit;
  every request handed to the backend is the same one, prepared once from exactly those bytes, so a
  retry after a failure carries the same identity; there is at most one attempt more than failures
  reported; and once an attempt has succeeded nothing changes and no further request is handed out.\<close>

theorem handle_commits_once:
  fixes calls :: "('t, 'e) write_call list"
  shows "let b = run_commands write_step (BufferedWrite_new m) calls;
             rs = run_replies write_step (BufferedWrite_new m) calls
    in bw_bytes b = concat (map2 accepted_data calls rs)
     \<and> (m < 2 ^ 64 - 1 \<longrightarrow> length (bw_bytes b) \<le> m)
     \<and> (\<forall>r \<in> set (requests rs). bw_prepared b = Some r \<and> (\<exists>prepare. Begin prepare \<in> set calls \<and> prepare (bw_bytes b) = Inr r))
     \<and> length (requests rs) \<le> 1 + length (filter failed calls)
     \<and> (buffer_committed b \<longrightarrow> requests rs \<noteq> []
         \<and> (\<forall>ds :: ('t, 'e) write_call list. run_commands write_step b ds = b \<and> requests (run_replies write_step b ds) = []))"
proof -
  let ?n = "BufferedWrite_new m :: 't BufferedWrite"
  let ?b = "run_commands write_step ?n calls"
  have new: "bw_bytes ?n = []" "bw_prepared ?n = None" "engaged ?n = 0" "bw_max_bytes ?n = m"
    by (simp_all add: BufferedWrite_new_def engaged_def)
  have wf: "wf_buffer ?b" by (rule write_buffer.run_wf [OF new_wf])
  have m: "bw_max_bytes ?b = m"
    using write_buffer.run_below [OF new_wf, where cs = calls] new(4) by (simp add: buffer_below_def)
  have "m < 2 ^ 64 - 1 \<longrightarrow> length (bw_bytes ?b) \<le> m" using wf m by (simp add: wf_buffer_def)
  moreover have "bw_prepared ?b = Some r \<and> (\<exists>prepare. Begin prepare \<in> set calls \<and> prepare (bw_bytes ?b) = Inr r)"
    if "r \<in> set (requests (run_replies write_step ?n calls))" for r
    using requests_prepared [OF new_wf, where cs = calls] that prepared_from [OF new_wf _ new(2), where cs = calls] by auto
  moreover have "engaged ?b \<le> 1" "buffer_committed ?b \<Longrightarrow> engaged ?b = 1"
    by (auto simp: engaged_def buffer_committed_def split: CommitState.splits)
  ultimately show ?thesis
    using write_bytes [of ?n calls] new attempts [of ?n calls] committed_final [of ?b] unfolding Let_def by fastforce
qed

theorem handle_commits_once_witness:
  "let prepare = (\<lambda>bs. Inr bs :: (bytes, unit) result);
       calls = [Write 0 [1, 2], Write 5 [9], Write 2 [3], Begin prepare, Finish False, Begin prepare, Finish True, Begin prepare];
       b = run_commands write_step (BufferedWrite_new 16) calls;
       rs = run_replies write_step (BufferedWrite_new 16) calls
   in length (bw_bytes b) \<le> 16 \<and> requests rs = [[1, 2, 3], [1, 2, 3]] \<and> buffer_committed b
     \<and> bw_prepared b = Some [1, 2, 3] \<and> requests (run_replies write_step b [Begin prepare, Write 3 [4]]) = []"
proof -
  let ?p = "\<lambda>bs. Inr bs :: (bytes, unit) result"
  let ?calls = "[Write 0 [1, 2], Write 5 [9], Write 2 [3], Begin ?p, Finish False, Begin ?p, Finish True, Begin ?p]"
  define b where "b = run_commands write_step (BufferedWrite_new 16) ?calls"
  define rs where "rs = run_replies write_step (BufferedWrite_new 16) ?calls"
  have r: "requests rs = [[1, 2, 3], [1, 2, 3]]" and c: "buffer_committed b" unfolding rs_def b_def
    by (simp_all add: BufferedWrite_new_def buffer_write_def buffer_begin_def buffer_finish_def buffer_committed_def usize_saturating_add_def)
  have "(16 :: nat) < 2 ^ 64 - 1" by simp
  with handle_commits_once [of 16 ?calls, unfolded Let_def, folded b_def rs_def] r c
  have "length (bw_bytes b) \<le> 16" "bw_prepared b = Some [1, 2, 3]"
    "requests (run_replies write_step b [Begin ?p, Write 3 [4]]) = []" by (blast, metis list.set_intros(1), blast)
  with r c show ?thesis unfolding Let_def b_def [symmetric] rs_def [symmetric] by blast
qed

text \<open>C31: a stream file delivers exactly what was pushed. Whatever the calls, the bytes returned by reads
  followed by the bytes still buffered are the frames pushed before the first close, in order; the offset a
  read must carry is the number of bytes returned so far, and a read at another offset is refused and
  changes nothing; a read of at least one byte returns nothing only if the buffer is empty, and then
  tells the end of the file exactly if the stream was closed.\<close>

theorem stream_buffer_fifo:
  "let b = run_commands stream_step StreamBuffer_default calls;
       out = concat (map returned (run_replies stream_step StreamBuffer_default calls))
   in out @ sb_bytes b = pushed calls
     \<and> (length out < 2 ^ 64 \<longrightarrow> unat (sb_consumed b) = length out)
     \<and> (offset \<noteq> sb_consumed b \<longrightarrow> stream_read b offset sz = (b, Inl InvalidOffset))
     \<and> (sz \<noteq> 0 \<longrightarrow> (snd (stream_read b (sb_consumed b) sz) = Inr (Some []) \<longleftrightarrow> out = pushed calls \<and> Close \<in> set calls)
        \<and> (snd (stream_read b (sb_consumed b) sz) = Inr None \<longleftrightarrow> out = pushed calls \<and> Close \<notin> set calls))"
proof -
  let ?b = "run_commands stream_step StreamBuffer_default calls"
  let ?out = "concat (map returned (run_replies stream_step StreamBuffer_default calls))"
  have d: "sb_bytes StreamBuffer_default = []" "sb_consumed StreamBuffer_default = 0" "\<not> sb_closed StreamBuffer_default"
    by (simp_all add: StreamBuffer_default_def)
  have c: "?out @ sb_bytes ?b = pushed calls" using stream_conserves [of StreamBuffer_default calls] d by simp
  then have e: "sb_bytes ?b = [] \<longleftrightarrow> ?out = pushed calls" by (metis append_Nil2 append_self_conv)
  have "sz \<noteq> 0 \<Longrightarrow> unat sz \<noteq> 0" by (simp add: unat_eq_0)
  then show ?thesis
    using c e d stream_closes [of StreamBuffer_default calls] stream_offset [of StreamBuffer_default calls]
    unfolding Let_def by (auto simp: stream_read_def Let_def)
qed

theorem stream_buffer_fifo_witness:
  "let calls = [Push [1, 2, 3], Read 0 2, Read 0 2, Close, Push [4], Read 2 9];
       b = run_commands stream_step StreamBuffer_default calls
   in concat (map returned (run_replies stream_step StreamBuffer_default calls)) = [1, 2, 3]
     \<and> unat (sb_consumed b) = 3 \<and> snd (stream_read b (sb_consumed b) 1) = Inr (Some [])"
proof -
  let ?calls = "[Push [1, 2, 3], Read 0 2, Read 0 2, Close, Push [4], Read 2 9]"
  have "concat (map returned (run_replies stream_step StreamBuffer_default ?calls)) = [1, 2, 3]" by code_simp
  with stream_buffer_fifo [of ?calls 0 1] show ?thesis
    unfolding Let_def by (auto simp del: run_commands.simps run_replies.simps)
qed

end
