(* ===== verification/Fuse_Codec.thy ===== *)
theory Fuse_Codec
  imports Identifiers Strings Fuse_Handles
begin

text \<open>
  The text formats of the file system (\<open>eventfs-fuse/src/codec.rs\<close>): event and settlement envelopes that
  are written to files, the frames read from them, and the hexadecimal form of opaque tokens. The JSON
  library is the parameter \<open>js\<close>: its typed deserialisers, its serialisers and the tests on its values.
  A call that panics has no result (\<open>None\<close>); a string is the list of its UTF-8 bytes.
\<close>

section \<open>Hexadecimal tokens\<close>

datatype CodecError = TooLarge | Json | UnsupportedSpec string | InvalidField string | InvalidToken | MissingEvent

definition hex_digit :: "nat \<Rightarrow> char" where
  "hex_digit d = ''0123456789abcdef'' ! d"

definition hex :: "bytes \<Rightarrow> string" where
  "hex bs = concat (map (\<lambda>b. [hex_digit (unat b div 16), hex_digit (unat b mod 16)]) bs)"

text \<open>\<open>char::to_digit(16)\<close>.\<close>

definition to_digit :: "char \<Rightarrow> nat option" where
  "to_digit c =
     (if CHR ''0'' \<le> c \<and> c \<le> CHR ''9'' then Some (of_char c - 48)
      else if CHR ''a'' \<le> c \<and> c \<le> CHR ''f'' then Some (of_char c - 87)
      else if CHR ''A'' \<le> c \<and> c \<le> CHR ''F'' then Some (of_char c - 55)
      else None)"

text \<open>\<open>u8::from_str_radix\<close> on a slice of two bytes: one leading plus sign is skipped.\<close>

definition pair_value :: "char \<Rightarrow> char \<Rightarrow> u8 option" where
  "pair_value a b =
     (if a = CHR ''+'' then map_option word_of_nat (to_digit b)
      else Option.bind (to_digit a) (\<lambda>x. map_option (\<lambda>y. word_of_nat (16 * x + y)) (to_digit b)))"

text \<open>A byte that continues a multi-byte character: slicing a string there panics.\<close>

definition continuation :: "char \<Rightarrow> bool" where
  "continuation c \<longleftrightarrow> CHR 0x80 \<le> c \<and> c < CHR 0xC0"

fun decode_pairs :: "string \<Rightarrow> (bytes, CodecError) result option" where
  "decode_pairs (a # b # rest) =
     (if rest \<noteq> [] \<and> continuation (hd rest) then None
      else case pair_value a b of
             None \<Rightarrow> Some (Inl InvalidToken)
           | Some v \<Rightarrow> map_option (\<lambda>r. rbind r (\<lambda>vs. Inr (v # vs))) (decode_pairs rest))"
| "decode_pairs _ = Some (Inr [])"

definition decode_hex :: "string \<Rightarrow> (bytes, CodecError) result option" where
  "decode_hex val = (if val = [] \<or> odd (length val) then Some (Inl InvalidToken) else decode_pairs val)"

section \<open>Envelopes\<close>

datatype AggregateVersionExpectation = Any | NoAggregate | Exists | Exact u64

datatype WireExpectedAggregateVersion = Wire_Any | Wire_NoAggregate | Wire_Exists | Wire_Exact u64

record 'v WireEventEnvelope =
  we_spec_version :: string
  we_aggregate_id :: string
  we_event_type :: string
  we_data :: 'v
  we_event_id :: "uuid option"
  we_expected_version :: "WireExpectedAggregateVersion option"
  we_metadata :: 'v

record EventEnvelope =
  ee_aggregate_id :: string
  ee_event_type :: string
  ee_data :: bytes
  ee_metadata :: bytes
  ee_event_id :: uuid
  ee_expected_version :: AggregateVersionExpectation

datatype SettlementAction = Ack | Retry | Park | Skip

record WireSettlement =
  ws_delivery_id :: string
  ws_action :: SettlementAction
  ws_reason :: string

record Settlement =
  se_delivery_id :: bytes
  se_action :: SettlementAction
  se_reason :: string

record 'v json =
  js_event :: "bytes \<Rightarrow> 'v WireEventEnvelope option"
  js_settlements :: "bytes \<Rightarrow> WireSettlement list option"
  js_value :: "bytes \<Rightarrow> 'v option"
  js_text :: "bytes \<Rightarrow> 'v"
  js_is_object :: "'v \<Rightarrow> bool"
  js_to_vec :: "'v \<Rightarrow> bytes"

definition check_size :: "bytes \<Rightarrow> nat \<Rightarrow> (unit, CodecError) result" where
  "check_size bs max_bytes = (if length bs > max_bytes then Inl TooLarge else Inr ())"

definition wire_expected :: "WireExpectedAggregateVersion option \<Rightarrow> AggregateVersionExpectation" where
  "wire_expected e =
     (case e of
        None \<Rightarrow> Any
      | Some Wire_Any \<Rightarrow> Any
      | Some Wire_NoAggregate \<Rightarrow> NoAggregate
      | Some Wire_Exists \<Rightarrow> Exists
      | Some (Wire_Exact version) \<Rightarrow> Exact version)"

text \<open>\<open>fresh_id\<close> is the identity \<open>Uuid::new_v4\<close> would return.\<close>

definition parse_event :: "'v json \<Rightarrow> uuid \<Rightarrow> nat \<Rightarrow> bytes \<Rightarrow> (EventEnvelope, CodecError) result" where
  "parse_event js fresh_id max_bytes bs =
     rbind (check_size bs max_bytes) (\<lambda>_.
     case js_event js bs of
       None \<Rightarrow> Inl Json
     | Some wire \<Rightarrow>
         if we_spec_version wire \<noteq> ''1.0'' then Inl (UnsupportedSpec (we_spec_version wire))
         else rbind (map_err (\<lambda>_. InvalidField ''aggregate_id'') (validate_aggregate_identifier ''aggregate_id'' (we_aggregate_id wire))) (\<lambda>_.
           if we_event_type wire = [] then Inl (InvalidField ''event_type'')
           else if \<not> js_is_object js (we_metadata wire) then Inl (InvalidField ''metadata'')
           else Inr \<lparr>ee_aggregate_id = we_aggregate_id wire, ee_event_type = we_event_type wire,
             ee_data = js_to_vec js (we_data wire), ee_metadata = js_to_vec js (we_metadata wire),
             ee_event_id = (case we_event_id wire of Some u \<Rightarrow> u | None \<Rightarrow> fresh_id),
             ee_expected_version = wire_expected (we_expected_version wire)\<rparr>))"

fun decode_settlements :: "WireSettlement list \<Rightarrow> (Settlement list, CodecError) result option" where
  "decode_settlements [] = Some (Inr [])"
| "decode_settlements (w # ws) =
     Option.bind (decode_hex (ws_delivery_id w)) (\<lambda>r.
       case r of
         Inl e \<Rightarrow> Some (Inl e)
       | Inr token \<Rightarrow>
           map_option (\<lambda>r. rbind r (\<lambda>rest.
             Inr (\<lparr>se_delivery_id = token, se_action = ws_action w, se_reason = ws_reason w\<rparr> # rest))) (decode_settlements ws))"

definition parse_settlements :: "'v json \<Rightarrow> nat \<Rightarrow> bytes \<Rightarrow> (Settlement list, CodecError) result option" where
  "parse_settlements js max_bytes bs =
     (case check_size bs max_bytes of
        Inl e \<Rightarrow> Some (Inl e)
      | Inr _ \<Rightarrow>
          (case js_settlements js bs of
             None \<Rightarrow> Some (Inl Json)
           | Some wire \<Rightarrow> if wire = [] then Some (Inl (InvalidField ''settlements'')) else decode_settlements wire))"

section \<open>Frames\<close>

record ProtoEvent =
  pe_aggregate_id :: string
  pe_aggregate_version :: u64
  pe_event_id :: bytes
  pe_event_type :: string
  pe_data :: bytes
  pe_metadata :: bytes

record ProtoDelivery =
  pd_delivery_id :: bytes
  pd_event :: "ProtoEvent option"
  pd_attempt :: u32
  pd_deadline_ms :: u64
  pd_replayed :: bool

record 'v EventFrame =
  ef_kind :: string
  ef_aggregate_id :: string
  ef_aggregate_version :: u64
  ef_event_id :: string
  ef_event_type :: string
  ef_data :: 'v
  ef_metadata :: 'v

record 'v DeliveryFrame =
  df_delivery_id :: string
  df_attempt :: u32
  df_deadline_ms :: u64
  df_replayed :: bool
  df_event :: "'v EventFrame"

definition json_value :: "'v json \<Rightarrow> bytes \<Rightarrow> 'v" where
  "json_value js bs = (case js_value js bs of Some v \<Rightarrow> v | None \<Rightarrow> js_text js bs)"

text \<open>\<open>to_vec\<close> serialises a frame; it may fail.\<close>

definition json_line :: "('a \<Rightarrow> bytes option) \<Rightarrow> 'a \<Rightarrow> (bytes, CodecError) result" where
  "json_line to_vec val = (case to_vec val of None \<Rightarrow> Inl Json | Some bs \<Rightarrow> Inr (bs @ [10]))"

definition frame_of :: "'v json \<Rightarrow> string \<Rightarrow> ProtoEvent \<Rightarrow> 'v EventFrame" where
  "frame_of js kind event =
     \<lparr>ef_kind = kind, ef_aggregate_id = pe_aggregate_id event, ef_aggregate_version = pe_aggregate_version event,
      ef_event_id = hex (pe_event_id event), ef_event_type = pe_event_type event,
      ef_data = json_value js (pe_data event), ef_metadata = json_value js (pe_metadata event)\<rparr>"

definition event_frame :: "'v json \<Rightarrow> ('v EventFrame \<Rightarrow> bytes option) \<Rightarrow> ProtoEvent \<Rightarrow> (bytes, CodecError) result" where
  "event_frame js to_vec event = json_line to_vec (frame_of js ''event'' event)"

definition delivery_frame :: "'v json \<Rightarrow> ('v DeliveryFrame \<Rightarrow> bytes option) \<Rightarrow> ProtoDelivery \<Rightarrow> (bytes, CodecError) result" where
  "delivery_frame js to_vec delivery =
     (case pd_event delivery of
        None \<Rightarrow> Inl MissingEvent
      | Some event \<Rightarrow>
          json_line to_vec \<lparr>df_delivery_id = hex (pd_delivery_id delivery), df_attempt = pd_attempt delivery,
            df_deadline_ms = pd_deadline_ms delivery, df_replayed = pd_replayed delivery,
            df_event = frame_of js ''delivery'' event\<rparr>)"

section \<open>Lemmas\<close>

definition hex_text :: "string \<Rightarrow> bool" where
  "hex_text s \<longleftrightarrow> list_all (\<lambda>c. to_digit c \<noteq> None) s"

definition ascii_lower :: "char \<Rightarrow> char" where
  "ascii_lower c = (if CHR ''A'' \<le> c \<and> c \<le> CHR ''F'' then char_of ((of_char c :: nat) + 32) else c)"

lemma all_below_16: "(\<forall>d < (16 :: nat). P d) \<longleftrightarrow> P 0 \<and> P 1 \<and> P 2 \<and> P 3 \<and> P 4 \<and> P 5 \<and> P 6 \<and> P 7 \<and> P 8 \<and> P 9
    \<and> P 10 \<and> P 11 \<and> P 12 \<and> P 13 \<and> P 14 \<and> P 15"
  by (simp add: eval_nat_numeral All_less_Suc conj_ac)

lemma digit_char: "d < 16 \<Longrightarrow> to_digit (hex_digit d) = Some d \<and> \<not> continuation (hex_digit d) \<and> hex_digit d \<noteq> CHR ''+''"
proof -
  have "\<forall>d < 16. to_digit (hex_digit d) = Some d \<and> \<not> continuation (hex_digit d) \<and> hex_digit d \<noteq> CHR ''+''"
    unfolding all_below_16 by code_simp
  then show "d < 16 \<Longrightarrow> ?thesis" by blast
qed

lemma to_digit_all:
  "\<forall>c. case to_digit c of None \<Rightarrow> True | Some d \<Rightarrow> d < 16 \<and> hex_digit d = ascii_lower c \<and> \<not> continuation c \<and> c \<noteq> CHR ''+''"
  by code_simp

lemma to_digit_Some: "to_digit c = Some d \<Longrightarrow> d < 16 \<and> hex_digit d = ascii_lower c \<and> \<not> continuation c \<and> c \<noteq> CHR ''+''"
  using spec [OF to_digit_all, of c] by simp

lemma nibbles:
  fixes b :: u8
  shows "unat b div 16 < 16" "unat b mod 16 < 16"
  using unat_le_max [of b] by simp_all

lemma byte_of_digits:
  fixes b :: u8
  shows "16 * word_of_nat (unat b div 16) + word_of_nat (unat b mod 16) = b"
proof -
  have "16 * (unat b div 16) + unat b mod 16 = unat b" by simp
  then have "(word_of_nat (16 * (unat b div 16) + unat b mod 16) :: u8) = b" by (metis of_nat_unat ucast_id)
  then show ?thesis unfolding of_nat_add of_nat_mult by simp
qed

lemma unat_small: "n < 256 \<Longrightarrow> unat (word_of_nat n :: u8) = n"
  by (simp add: unat_of_nat take_bit_nat_def)

lemma decode_hex_pairs: "decode_pairs (hex bs) = Some (Inr bs)"
proof (induction bs)
  case (Cons b bs)
  have "hex bs = [] \<or> \<not> continuation (hd (hex bs))"
  proof (cases bs)
    case (Cons c cs)
    show ?thesis using digit_char nibbles(1) [of c] by (simp add: Cons hex_def)
  qed (simp add: hex_def)
  moreover have "hex (b # bs) = hex_digit (unat b div 16) # hex_digit (unat b mod 16) # hex bs" by (simp add: hex_def)
  ultimately show ?case using digit_char [OF nibbles(1)] digit_char [OF nibbles(2)] Cons.IH by (auto simp: pair_value_def byte_of_digits)
qed (simp add: hex_def)

lemma decode_pairs_Inr: "decode_pairs s = Some (Inr bs) \<Longrightarrow> even (length s) \<Longrightarrow> length s = 2 * length bs"
proof (induction s arbitrary: bs rule: decode_pairs.induct)
  case (1 a b rest)
  then show ?case by (auto simp: rbind_Inr_iff split: if_splits option.splits)
qed auto

lemma decode_pairs_hex:
  "decode_pairs s = Some (Inr bs) \<Longrightarrow> even (length s) \<Longrightarrow> CHR ''+'' \<notin> set s \<Longrightarrow> hex bs = map ascii_lower s"
proof (induction s arbitrary: bs rule: decode_pairs.induct)
  case (1 a b rest)
  from 1(2-) obtain x y vs where v: "to_digit a = Some x" "to_digit b = Some y" "bs = word_of_nat (16 * x + y) # vs"
    "decode_pairs rest = Some (Inr vs)"
    by (auto simp: pair_value_def rbind_Inr_iff bind_eq_Some_conv split: if_splits option.splits)
  have "hex vs = map ascii_lower rest"
    using 1(1) [of "word_of_nat (16 * x + y)" vs] 1(2-) v by (auto simp: pair_value_def split: if_splits)
  moreover have "x < 16" "y < 16" "hex_digit x = ascii_lower a" "hex_digit y = ascii_lower b"
    using to_digit_Some [OF v(1)] to_digit_Some [OF v(2)] by simp_all
  moreover from this(1,2) have "unat (word_of_nat (16 * x + y) :: u8) = 16 * x + y" by (intro unat_small) simp
  ultimately show ?case by (simp add: v(3) hex_def del: of_nat_add of_nat_mult)
qed (auto simp: hex_def)

lemma ascii_pairs: "\<forall>c \<in> set s. c < CHR 0x80 \<Longrightarrow> decode_pairs s \<noteq> None"
proof (induction s rule: decode_pairs.induct)
  case (1 a b rest)
  then have "rest = [] \<or> \<not> continuation (hd rest)" by (cases rest) (auto simp: continuation_def)
  with 1 show ?case by (auto split: option.splits)
qed auto

section \<open>Properties\<close>

text \<open>C34: a delivery token survives the text formats. The hexadecimal form of a token of at least one byte
  decodes to the token; a text that decodes has two characters for every byte and, unless it uses plus
  signs, is the hexadecimal form up to the case of its letters; and no ASCII text makes the decoder panic.
  In an envelope, the settlements are decoded in order, each with its token, action and reason.\<close>

theorem token_roundtrip:
  "(bs \<noteq> [] \<longrightarrow> decode_hex (hex bs) = Some (Inr bs))
   \<and> (decode_hex s = Some (Inr bs) \<longrightarrow> bs \<noteq> [] \<and> length s = 2 * length bs \<and> (CHR ''+'' \<notin> set s \<longrightarrow> hex bs = map ascii_lower s))
   \<and> ((\<forall>c \<in> set s. c < CHR 0x80) \<longrightarrow> decode_hex s \<noteq> None)
   \<and> ((\<forall>x \<in> set ss. se_delivery_id x \<noteq> []) \<longrightarrow>
        decode_settlements (map (\<lambda>x. \<lparr>ws_delivery_id = hex (se_delivery_id x), ws_action = se_action x, ws_reason = se_reason x\<rparr>) ss)
          = Some (Inr ss))"
proof (intro conjI impI)
  have len: "length (hex bs) = 2 * length bs" for bs by (induction bs) (simp_all add: hex_def)
  then have hex: "decode_hex (hex bs) = Some (Inr bs)" if "bs \<noteq> []" for bs
    using that decode_hex_pairs [of bs] by (auto simp: decode_hex_def)
  show "bs \<noteq> [] \<Longrightarrow> decode_hex (hex bs) = Some (Inr bs)" by (rule hex)
  show "\<forall>x \<in> set ss. se_delivery_id x \<noteq> [] \<Longrightarrow>
    decode_settlements (map (\<lambda>x. \<lparr>ws_delivery_id = hex (se_delivery_id x), ws_action = se_action x, ws_reason = se_reason x\<rparr>) ss)
      = Some (Inr ss)"
    by (induction ss) (simp_all add: hex)
  assume "decode_hex s = Some (Inr bs)"
  then have s: "s \<noteq> []" "even (length s)" "decode_pairs s = Some (Inr bs)" by (auto simp: decode_hex_def split: if_splits)
  from decode_pairs_Inr [OF s(3,2)] show "length s = 2 * length bs" "bs \<noteq> []" using s(1) by auto
  from decode_pairs_hex [OF s(3,2)] show "CHR ''+'' \<notin> set s \<Longrightarrow> hex bs = map ascii_lower s" .
next
  show "\<forall>c \<in> set s. c < CHR 0x80 \<Longrightarrow> decode_hex s \<noteq> None" using ascii_pairs by (simp add: decode_hex_def)
qed

theorem token_roundtrip_witness:
  "decode_hex (hex [0, 255]) = Some (Inr [0, 255]) \<and> hex [0, 255] = ''00ff'' \<and> decode_hex ''x1'' \<noteq> None"
proof -
  have "hex [0, 255] = ''00ff''" by code_simp
  then show ?thesis using token_roundtrip [of "[0, 255]" "''x1''" "[]"] by (simp add: less_char_def)
qed

text \<open>
  A token with a character outside ASCII that straddles an even offset makes \<open>decode_hex\<close> panic instead of
  returning \<open>InvalidToken\<close>: here the text of the letters a, e-acute and b.
\<close>

lemma decode_hex_panics: "decode_hex [CHR ''a'', CHR 0xC3, CHR 0xA9, CHR ''b''] = None"
  by code_simp

text \<open>A plus sign is taken for a digit.\<close>

lemma decode_hex_plus: "decode_hex ''+f'' = Some (Inr [15])"
  by code_simp

end
