(* ===== verification/Fuse_Files.thy ===== *)
theory Fuse_Files
  imports Fuse_Directory Fuse_Handles Fuse_Codec
begin

text \<open>
  Open files (\<open>eventfs-fuse/src/fuse.rs\<close>): what opening a node in a mode does, the table of handles, writing,
  committing a buffer through the backend, and releasing. The backend answers as the parameter \<open>bk\<close> says at
  the moment of the call; a call that panics has no result.
\<close>

section \<open>Handles\<close>

datatype OpenAccMode = O_RDONLY | O_WRONLY | O_RDWR

record ConsumerKey =
  ck_aggregate_type :: AggregateTypeId
  ck_group_name :: string
  ck_consumer_id :: string

datatype OpenHandle =
    StaticRead bytes
  | StreamingRead StreamBuffer "ConsumerKey option"
  | EventWrite AggregateTypeId "EventEnvelope BufferedWrite"
  | StateWrite AggregateTypeId string "u64 option" "bytes BufferedWrite"
  | SettlementWrite AggregateTypeId string string "Settlement list BufferedWrite"

record StateDocument =
  sd_revision :: u64
  sd_data :: bytes
  sd_modified_unix_millis :: u64

datatype SettlementStatus = Applied | AlreadySettled | StaleLease | WrongConsumer

record file_backend =
  fb_follow :: "AggregateTypeId \<Rightarrow> (unit, BackendError) result"
  fb_get_state :: "AggregateTypeId \<Rightarrow> string \<Rightarrow> (StateDocument option, BackendError) result"
  fb_append :: "AggregateTypeId \<Rightarrow> EventEnvelope \<Rightarrow> (u64, BackendError) result"
  fb_put_state :: "AggregateTypeId \<Rightarrow> string \<Rightarrow> u64 option \<Rightarrow> bytes \<Rightarrow> (StateDocument, BackendError) result"
  fb_settle_group :: "AggregateTypeId \<Rightarrow> string \<Rightarrow> string \<Rightarrow> Settlement list \<Rightarrow> (SettlementStatus list, BackendError) result"

record EventFs =
  fs_max_event_bytes :: nat
  fs_max_state_bytes :: nat
  fs_handles :: "u64 \<rightharpoonup> OpenHandle"
  fs_next_handle :: u64
  fs_active_consumers :: "ConsumerKey set"

definition EventFs_new :: "nat \<Rightarrow> nat \<Rightarrow> EventFs" where
  "EventFs_new max_event max_state =
     \<lparr>fs_max_event_bytes = max_event, fs_max_state_bytes = max_state, fs_handles = Map.empty, fs_next_handle = 1,
      fs_active_consumers = {}\<rparr>"

definition insert_handle :: "EventFs \<Rightarrow> OpenHandle \<Rightarrow> EventFs \<times> u64" where
  "insert_handle fs h =
     (fs\<lparr>fs_handles := (fs_handles fs)(fs_next_handle fs \<mapsto> h), fs_next_handle := fs_next_handle fs + 1\<rparr>, fs_next_handle fs)"

fun write_errno :: "WriteError \<Rightarrow> Errno" where
  "write_errno InvalidOffset = EINVAL"
| "write_errno WriteError.TooLarge = EFBIG"
| "write_errno Busy = EBUSY"

fun begin_errno :: "'e BeginError \<Rightarrow> Errno" where
  "begin_errno (Begin_Write e) = write_errno e"
| "begin_errno (Begin_Prepare _) = EINVAL"

definition backend_type :: "string \<Rightarrow> string \<Rightarrow> (AggregateTypeId, Errno) result" where
  "backend_type b t = map_err (\<lambda>_. EINVAL) (AggregateTypeId_new b t)"

section \<open>Opening\<close>

definition open_handle :: "file_backend \<Rightarrow> EventFs \<Rightarrow> Node \<Rightarrow> OpenAccMode \<Rightarrow> EventFs \<times> (u64, Errno) result" where
  "open_handle bk fs node mode =
     (if is_directory node then (fs, Inl EISDIR)
      else if mode = O_RDWR then (fs, Inl EINVAL)
      else
        let fail = (\<lambda>e. (fs, Inl e)); opened = (\<lambda>fs h. map_prod id Inr (insert_handle fs h)) in
        case (node, mode) of
          (Events _ _, O_RDONLY) \<Rightarrow>
            (case rbind (node_type node) (\<lambda>ty. map_err backend_errno (fb_follow bk ty)) of
               Inl e \<Rightarrow> fail e
             | Inr _ \<Rightarrow> opened fs (StreamingRead StreamBuffer_default None))
        | (Events _ _, O_WRONLY) \<Rightarrow>
            (case node_type node of
               Inl e \<Rightarrow> fail e
             | Inr ty \<Rightarrow> opened fs (EventWrite ty (BufferedWrite_new (fs_max_event_bytes fs))))
        | (State b t a, O_RDONLY) \<Rightarrow>
            (case rbind (backend_type b t) (\<lambda>ty. map_err backend_errno (fb_get_state bk ty a)) of
               Inl e \<Rightarrow> fail e
             | Inr None \<Rightarrow> fail ENOENT
             | Inr (Some doc) \<Rightarrow> opened fs (StaticRead (sd_data doc)))
        | (State b t a, O_WRONLY) \<Rightarrow>
            (case rbind (backend_type b t) (\<lambda>ty. rbind (map_err backend_errno (fb_get_state bk ty a)) (\<lambda>doc. Inr (ty, doc))) of
               Inl e \<Rightarrow> fail e
             | Inr (ty, doc) \<Rightarrow>
                 opened fs (StateWrite ty a (map_option sd_revision doc) (BufferedWrite_new (fs_max_state_bytes fs))))
        | (Consumer b t g c, O_RDONLY) \<Rightarrow>
            (case backend_type b t of
               Inl e \<Rightarrow> fail e
             | Inr ty \<Rightarrow>
                 let key = \<lparr>ck_aggregate_type = ty, ck_group_name = g, ck_consumer_id = c\<rparr>
                 in if key \<in> fs_active_consumers fs then fail EBUSY
                    else opened (fs\<lparr>fs_active_consumers := insert key (fs_active_consumers fs)\<rparr>)
                      (StreamingRead StreamBuffer_default (Some key)))
        | (Consumer b t g c, O_WRONLY) \<Rightarrow>
            (case backend_type b t of
               Inl e \<Rightarrow> fail e
             | Inr ty \<Rightarrow> opened fs (SettlementWrite ty g c (BufferedWrite_new (fs_max_event_bytes fs))))
        | _ \<Rightarrow> fail EINVAL)"

section \<open>Reading and writing\<close>

definition read_static :: "bytes \<Rightarrow> u64 \<Rightarrow> u32 \<Rightarrow> bytes" where
  "read_static data offset sz =
     (let start = min (unat offset) (length data); stop = min (usize_saturating_add start (unat sz)) (length data)
      in drop start (take stop data))"

definition file_write :: "EventFs \<Rightarrow> u64 \<Rightarrow> u64 \<Rightarrow> bytes \<Rightarrow> EventFs \<times> (u32, Errno) result" where
  "file_write fs fh offset data =
     (case fs_handles fs fh of
        None \<Rightarrow> (fs, Inl EBADF)
      | Some h \<Rightarrow>
          let put = (\<lambda>h r. (fs\<lparr>fs_handles := (fs_handles fs)(fh \<mapsto> h)\<rparr>, map_err write_errno r)) in
          case h of
            EventWrite ty b \<Rightarrow> (case buffer_write b offset data of (b, r) \<Rightarrow> put (EventWrite ty b) r)
          | StateWrite ty a revision b \<Rightarrow> (case buffer_write b offset data of (b, r) \<Rightarrow> put (StateWrite ty a revision b) r)
          | SettlementWrite ty g c b \<Rightarrow> (case buffer_write b offset data of (b, r) \<Rightarrow> put (SettlementWrite ty g c b) r)
          | _ \<Rightarrow> (fs, Inl EBUSY))"

section \<open>Committing\<close>

text \<open>\<open>begin\<close>, the call of the backend, \<open>finish\<close>.\<close>

definition commit_with ::
  "'t BufferedWrite \<Rightarrow> (bytes \<Rightarrow> ('t, 'e) result) \<Rightarrow> ('t \<Rightarrow> (unit, BackendError) result) \<Rightarrow> 't BufferedWrite \<times> (unit, Errno) result" where
  "commit_with b prepare send =
     (case buffer_begin b prepare of
        (b, Inl e) \<Rightarrow> (b, Inl (begin_errno e))
      | (b, Inr None) \<Rightarrow> (b, Inr ())
      | (b, Inr (Some request)) \<Rightarrow>
          let result = send request
          in (buffer_finish b (\<not> is_err result), map_err backend_errno result))"

text \<open>The outcome of a settlement: all settled, a lost lease, or another consumer's delivery.\<close>

definition settlement_outcome :: "SettlementStatus list \<Rightarrow> (unit, BackendError) result" where
  "settlement_outcome results =
     (if list_all (\<lambda>s. s = Applied \<or> s = AlreadySettled) results then Inr ()
      else if list_ex (\<lambda>s. s = StaleLease) results then Inl (BE_Stale ''delivery lease'')
      else Inl (BE_PermissionDenied ''delivery consumer''))"

definition commit ::
  "'v json \<Rightarrow> uuid \<Rightarrow> file_backend \<Rightarrow> EventFs \<Rightarrow> OpenHandle \<Rightarrow> (OpenHandle \<times> (unit, Errno) result) option" where
  "commit js fresh_id bk fs h =
     (case h of
        EventWrite ty b \<Rightarrow>
          Some (map_prod (EventWrite ty) id
            (commit_with b (parse_event js fresh_id (fs_max_event_bytes fs)) (\<lambda>e. rbind (fb_append bk ty e) (\<lambda>_. Inr ()))))
      | StateWrite ty a revision b \<Rightarrow>
          Some (map_prod (StateWrite ty a revision) id
            (commit_with b (\<lambda>bs. case js_value js bs of Some _ \<Rightarrow> Inr bs | None \<Rightarrow> Inl Json)
              (\<lambda>bs. rbind (fb_put_state bk ty a revision bs) (\<lambda>_. Inr ()))))
      | SettlementWrite ty g c b \<Rightarrow>
          (if bw_state b = Open \<and> bw_prepared b = None \<and> parse_settlements js (fs_max_event_bytes fs) (bw_bytes b) = None then None
           else Some (map_prod (SettlementWrite ty g c) id
             (commit_with b (\<lambda>bs. the (parse_settlements js (fs_max_event_bytes fs) bs))
               (\<lambda>ss. rbind (fb_settle_group bk ty g c ss) settlement_outcome))))
      | _ \<Rightarrow> Some (h, Inr ()))"

definition file_flush :: "'v json \<Rightarrow> uuid \<Rightarrow> file_backend \<Rightarrow> EventFs \<Rightarrow> u64 \<Rightarrow> (EventFs \<times> (unit, Errno) result) option" where
  "file_flush js fresh_id bk fs fh =
     (case fs_handles fs fh of
        None \<Rightarrow> Some (fs, Inl EBADF)
      | Some h \<Rightarrow> map_option (\<lambda>(h, r). (fs\<lparr>fs_handles := (fs_handles fs)(fh \<mapsto> h)\<rparr>, r)) (commit js fresh_id bk fs h))"

text \<open>Releasing removes the handle first; a last commit runs on what was removed.\<close>

definition drop_handle :: "EventFs \<Rightarrow> u64 \<Rightarrow> EventFs \<times> OpenHandle option" where
  "drop_handle fs fh =
     (let h = fs_handles fs fh; fs = fs\<lparr>fs_handles := (fs_handles fs)(fh := None)\<rparr>
      in (case h of
            Some (StreamingRead _ (Some key)) \<Rightarrow> fs\<lparr>fs_active_consumers := fs_active_consumers fs - {key}\<rparr>
          | _ \<Rightarrow> fs, h))"

definition file_release :: "'v json \<Rightarrow> uuid \<Rightarrow> file_backend \<Rightarrow> EventFs \<Rightarrow> u64 \<Rightarrow> (EventFs \<times> (unit, Errno) result) option" where
  "file_release js fresh_id bk fs fh =
     (case drop_handle fs fh of
        (fs, None) \<Rightarrow> Some (fs, Inl EBADF)
      | (fs, Some h) \<Rightarrow> map_option (\<lambda>(_, r). (fs, r)) (commit js fresh_id bk fs h))"

section \<open>One reader for each consumer\<close>

text \<open>The states of the file system after any calls, with the number of opens so far.\<close>

inductive fs_reachable :: "'v json \<Rightarrow> nat \<Rightarrow> EventFs \<Rightarrow> bool" for js where
  start: "fs_reachable js 0 (EventFs_new max_event max_state)"
| opened: "fs_reachable js n fs \<Longrightarrow> fs_reachable js (Suc n) (fst (open_handle bk fs node mode))"
| written: "fs_reachable js n fs \<Longrightarrow> fs_reachable js n (fst (file_write fs fh offset data))"
| flushed: "fs_reachable js n fs \<Longrightarrow> file_flush js fresh_id bk fs fh = Some (fs', r) \<Longrightarrow> fs_reachable js n fs'"
| released: "fs_reachable js n fs \<Longrightarrow> file_release js fresh_id bk fs fh = Some (fs', r) \<Longrightarrow> fs_reachable js n fs'"

definition reads_for :: "OpenHandle option \<Rightarrow> ConsumerKey \<Rightarrow> bool" where
  "reads_for h key \<longleftrightarrow> (\<exists>b. h = Some (StreamingRead b (Some key)))"

definition single_readers :: "EventFs \<Rightarrow> bool" where
  "single_readers fs \<longleftrightarrow>
     (\<forall>key fh fh'. reads_for (fs_handles fs fh) key \<longrightarrow> reads_for (fs_handles fs fh') key \<longrightarrow> fh = fh')
     \<and> (\<forall>key. key \<in> fs_active_consumers fs \<longleftrightarrow> (\<exists>fh. reads_for (fs_handles fs fh) key))"

definition wf_fs :: "nat \<Rightarrow> EventFs \<Rightarrow> bool" where
  "wf_fs n fs \<longleftrightarrow> unat (fs_next_handle fs) \<le> Suc n \<and> (\<forall>fh. fs_handles fs fh \<noteq> None \<longrightarrow> unat fh < unat (fs_next_handle fs))
     \<and> single_readers fs"

lemma reads_for_simps [simp]:
  "\<not> reads_for None key" "\<not> reads_for (Some (StaticRead d)) key" "\<not> reads_for (Some (EventWrite ty eb)) key"
  "\<not> reads_for (Some (StateWrite ty a r sb)) key" "\<not> reads_for (Some (SettlementWrite ty g c tb)) key"
  "reads_for (Some (StreamingRead b k)) key \<longleftrightarrow> k = Some key"
  by (auto simp: reads_for_def)

text \<open>Replacing a handle by one that reads for the same consumer, and adding one under a fresh number.\<close>

lemma replaced_wf:
  assumes "wf_fs n fs" "\<And>key. reads_for (Some h) key \<longleftrightarrow> reads_for (fs_handles fs fh) key" "fs_handles fs fh \<noteq> None"
  shows "wf_fs n (fs\<lparr>fs_handles := (fs_handles fs)(fh \<mapsto> h)\<rparr>)"
proof -
  have "reads_for (((fs_handles fs)(fh \<mapsto> h)) i) key \<longleftrightarrow> reads_for (fs_handles fs i) key" for i key
    using assms(2) by (cases "i = fh") auto
  then show ?thesis using assms(1,3) unfolding wf_fs_def single_readers_def by auto
qed

lemma inserted_wf:
  assumes "wf_fs n fs" "Suc n < 2 ^ 64 - 1"
    and "\<And>key. reads_for (Some h) key \<longleftrightarrow> Some key = new" "\<And>key. new = Some key \<Longrightarrow> key \<notin> fs_active_consumers fs"
  shows "wf_fs (Suc n) (fst (insert_handle (fs\<lparr>fs_active_consumers := fs_active_consumers fs \<union> set_option new\<rparr>) h))"
proof -
  let ?i = "fs_next_handle fs"
  have i: "unat (?i + 1) = Suc (unat ?i)"
    using assms(1,2) unat_max_word_cases [of ?i] by (auto simp: wf_fs_def unat_max_word)
  have fresh: "fs_handles fs ?i = None" using assms(1) by (auto simp: wf_fs_def)
  have old: "reads_for (fs_handles fs fh) key \<Longrightarrow> fh \<noteq> ?i" for fh key using fresh by auto
  show ?thesis
    using assms i old unfolding wf_fs_def single_readers_def insert_handle_def
    by (auto simp: less_Suc_eq split: if_splits) blast+
qed

lemma wf_fs_mono: "wf_fs n fs \<Longrightarrow> wf_fs (Suc n) fs"
  by (auto simp: wf_fs_def)

lemma inserted_plain:
  assumes "wf_fs n fs" "Suc n < 2 ^ 64 - 1" "\<And>key. \<not> reads_for (Some h) key"
  shows "wf_fs (Suc n) (fst (insert_handle fs h))"
  using inserted_wf [OF assms(1,2), of h None] assms(3) by simp

lemma inserted_reader:
  assumes "wf_fs n fs" "Suc n < 2 ^ 64 - 1" "key \<notin> fs_active_consumers fs"
  shows "wf_fs (Suc n) (fst (insert_handle (fs\<lparr>fs_active_consumers := insert key (fs_active_consumers fs)\<rparr>) (StreamingRead b (Some key))))"
  using inserted_wf [OF assms(1,2), of "StreamingRead b (Some key)" "Some key"] assms(3) by (auto simp: eq_commute)

lemma open_wf:
  assumes "wf_fs n fs" "Suc n < 2 ^ 64 - 1"
  shows "wf_fs (Suc n) (fst (open_handle bk fs node mode))"
proof (cases "is_directory node \<or> mode = O_RDWR")
  case True
  then show ?thesis using wf_fs_mono [OF assms(1)] by (auto simp: open_handle_def)
next
  case False
  note I = wf_fs_mono [OF assms(1)] inserted_plain [OF assms] inserted_reader [OF assms]
  have R: "is_directory node = False" "(mode = O_RDWR) = False" using False by auto
  show ?thesis unfolding open_handle_def R if_False Let_def
    by (auto split: Node.splits OpenAccMode.splits sum.splits option.splits simp: fst_map_prod intro: I)
qed

lemma commit_reads:
  assumes "commit js fresh_id bk fs h = Some (h', r)"
  shows "reads_for (Some h') key \<longleftrightarrow> reads_for (Some h) key"
  using assms by (cases h) (auto simp: commit_def map_prod_def split: if_splits prod.splits)

lemma write_wf: "wf_fs n fs \<Longrightarrow> wf_fs n (fst (file_write fs fh offset data))"
  by (auto simp: file_write_def Let_def split: option.splits OpenHandle.splits prod.splits intro!: replaced_wf)

lemma dropped_wf:
  assumes "wf_fs n fs"
  shows "wf_fs n (fst (drop_handle fs fh))"
proof -
  let ?fs = "fst (drop_handle fs fh)"
  have h: "fs_handles ?fs i = (if i = fh then None else fs_handles fs i)" "fs_next_handle ?fs = fs_next_handle fs" for i
    by (auto simp: drop_handle_def Let_def split: option.splits OpenHandle.splits)
  have a: "key \<in> fs_active_consumers ?fs \<longleftrightarrow> key \<in> fs_active_consumers fs \<and> \<not> reads_for (fs_handles fs fh) key" for key
    by (auto simp: drop_handle_def Let_def split: option.splits OpenHandle.splits)
  show ?thesis using assms unfolding wf_fs_def single_readers_def a h by (auto split: if_splits)
qed

lemma reachable_wf: "fs_reachable js n fs \<Longrightarrow> n < 2 ^ 64 - 1 \<Longrightarrow> wf_fs n fs"
proof (induction rule: fs_reachable.induct)
  case (start max_event max_state)
  show ?case by (simp add: wf_fs_def single_readers_def EventFs_new_def)
next
  case (opened n fs bk node mode)
  then show ?case by (intro open_wf) simp_all
next
  case (written n fs fh offset data)
  then show ?case by (simp add: write_wf)
next
  case (flushed n fs fresh_id bk fh fs' r)
  then show ?case
    by (auto simp: file_flush_def split: option.splits intro!: replaced_wf) (simp_all add: commit_reads)
next
  case (released n fs fresh_id bk fh fs' r)
  then have "fs' = fst (drop_handle fs fh)" by (auto simp: file_release_def split: prod.splits option.splits)
  with released dropped_wf show ?case by simp
qed

section \<open>Properties\<close>

text \<open>C33: a consumer has at most one reader. Whatever files were opened, written, flushed and released before,
  with whatever answers of the backend, no two open handles stream for the same consumer of the same group;
  opening its file for reading is refused with \<open>EBUSY\<close>, and changes nothing, exactly while such a handle is
  open; otherwise it succeeds.\<close>

theorem consumer_single_reader:
  assumes "fs_reachable js n fs" "n < 2 ^ 64 - 1" "valid_identifier b" "valid_identifier t"
    and key: "key = \<lparr>ck_aggregate_type = AggregateTypeId b t, ck_group_name = g, ck_consumer_id = c\<rparr>"
  shows "(\<forall>fh fh'. reads_for (fs_handles fs fh) key \<longrightarrow> reads_for (fs_handles fs fh') key \<longrightarrow> fh = fh')
    \<and> (if \<exists>fh. reads_for (fs_handles fs fh) key
       then open_handle bk fs (Consumer b t g c) O_RDONLY = (fs, Inl EBUSY)
       else \<exists>fs' fh. open_handle bk fs (Consumer b t g c) O_RDONLY = (fs', Inr fh) \<and> reads_for (fs_handles fs' fh) key)"
proof -
  have s: "single_readers fs" using reachable_wf [OF assms(1,2)] by (simp add: wf_fs_def)
  have "backend_type b t = Inr (AggregateTypeId b t)" using assms(3,4) by (simp add: backend_type_def AggregateTypeId_new_def)
  then have o: "open_handle bk fs (Consumer b t g c) O_RDONLY =
    (if key \<in> fs_active_consumers fs then (fs, Inl EBUSY)
     else map_prod id Inr (insert_handle (fs\<lparr>fs_active_consumers := insert key (fs_active_consumers fs)\<rparr>) (StreamingRead StreamBuffer_default (Some key))))"
    by (simp add: open_handle_def key Let_def)
  show ?thesis using s unfolding o single_readers_def by (auto simp: insert_handle_def)
qed

definition dead_backend :: file_backend where
  "dead_backend = \<lparr>fb_follow = (\<lambda>_. Inl (BE_Unavailable [])), fb_get_state = (\<lambda>_ _. Inl (BE_Unavailable [])),
     fb_append = (\<lambda>_ _. Inl (BE_Unavailable [])), fb_put_state = (\<lambda>_ _ _ _. Inl (BE_Unavailable [])),
     fb_settle_group = (\<lambda>_ _ _ _. Inl (BE_Unavailable []))\<rparr>"

definition no_json :: "unit json" where
  "no_json = \<lparr>js_event = (\<lambda>_. None), js_settlements = (\<lambda>_. None), js_value = (\<lambda>_. None), js_text = (\<lambda>_. ()),
     js_is_object = (\<lambda>_. False), js_to_vec = (\<lambda>_. [])\<rparr>"

theorem consumer_single_reader_witness:
  "let fs = fst (open_handle dead_backend (EventFs_new 9 9) (Consumer ''a'' ''b'' ''g'' ''c'') O_RDONLY)
   in open_handle dead_backend fs (Consumer ''a'' ''b'' ''g'' ''c'') O_RDONLY = (fs, Inl EBUSY)"
proof -
  let ?init = "EventFs_new 9 9" and ?n = "Consumer ''a'' ''b'' ''g'' ''c''"
  let ?key = "\<lparr>ck_aggregate_type = AggregateTypeId ''a'' ''b'', ck_group_name = ''g'', ck_consumer_id = ''c''\<rparr>"
  let ?fs = "fst (open_handle dead_backend ?init ?n O_RDONLY)"
  have "list_all (\<lambda>s. validate_aggregate_identifier [] s = Inr ()) [''a'', ''b'']" by code_simp
  then have v: "valid_identifier ''a''" "valid_identifier ''b''" by auto
  have start: "fs_reachable no_json 0 ?init" by (rule fs_reachable.start)
  have "\<not> reads_for (fs_handles ?init fh) ?key" for fh by (simp add: EventFs_new_def)
  with consumer_single_reader [OF start _ v refl, of "''g''" "''c''" dead_backend]
  obtain fh where "reads_for (fs_handles ?fs fh) ?key" by (auto simp: prod_eq_iff)
  moreover have "fs_reachable no_json (Suc 0) ?fs" by (rule fs_reachable.opened [OF start])
  ultimately show ?thesis
    using consumer_single_reader [OF _ _ v refl, of no_json "Suc 0" ?fs "''g''" "''c''" dead_backend] unfolding Let_def
    by (auto split: if_splits)
qed

end
