(* ===== verification/Spec2Isabelle.thy ===== *)
theory Spec2Isabelle
  imports Service_Guarantees State_Paging Snapshot_Transfer Fuse_Files
begin

text \<open>
  A verification of eventfs, an event store whose shards are replicated with Raft (openraft) and whose
  aggregates can be used through a file system.

  \<^bold>\<open>The program.\<close> Events belong to aggregates, aggregates to aggregate types, and an aggregate type is cut into
  256 partitions. A \<open>catalog\<close> on the control shard says which shard owns which partition under which
  generation; a \<open>fence\<close> on the data shard refuses writes of an older generation. A shard is a Raft group:
  \<open>es-storage\<close> keeps its log and its state machine in one key-value tree shared by all shards of a node,
  and its snapshots in files. Consumer groups read partitions with at-least-once delivery. Clients follow
  leader hints until they reach the leader of a shard.

  \<^bold>\<open>Theories, by component.\<close>
  \<^item> \<open>Prelude\<close>, \<open>Machines\<close>, \<open>Strings\<close>: machine integers at their width with checked and saturating
    operations, results, finite maps, byte encodings; the locale of command machines (a step function, an
    invariant and a growth order) that the catalogs, the group partition and the shard interpret; string
    functions of the standard library.
  \<^item> \<open>Hlc_Clock\<close>, \<open>Identifiers\<close>, \<open>Partitioning\<close> (\<open>es-core\<close>: \<open>hlc.rs\<close>, \<open>aggregate.rs\<close>): clock readings, identifier
    rules, partition routing, fingerprints.
  \<^item> \<open>Catalog\<close> (\<open>AggregateCatalog\<close>), \<open>Group_Catalog\<close>, \<open>Group_Partition\<close>, \<open>Group_Delivery\<close> (\<open>aggregate_group.rs\<close>): types
    and their placements, groups and their settings, and the claim/settle/renew/expire machine of one
    partition with its delivery guarantees.
  \<^item> \<open>Keys\<close> (\<open>es-storage\<close>: \<open>key.rs\<close>): the bytes of every key. No two logical keys collide, ranges are exact.
  \<^item> \<open>Raft_Types\<close>, \<open>Storage\<close>, \<open>State_Machine\<close> (\<open>raft_type.rs\<close>, \<open>storage.rs\<close>, \<open>state_machine.rs\<close>): requests, the tree as a
    parameter with its laws, and the whole of \<open>apply\<close> with its batch caches, handlers and reads.
  \<^item> \<open>Shard_Spec\<close>: what a shard promises, as functions on a map from logical keys to typed values.
    \<open>Apply_Batch\<close>, \<open>Apply_Handlers\<close>, \<open>Apply_Refinement\<close> prove that \<open>sm_apply\<close> implements it; \<open>Shard_History\<close> proves
    what histories of it guarantee (sound streams, immutability, exactly-once appends, fencing).
  \<^item> \<open>Scans\<close>, \<open>Shard_Reads\<close>: reads of a partition and listings of its states are exact. \<open>Shard_Guarantees\<close> carries
    the guarantees of \<open>Shard_History\<close> over to a node that applies a log in batches with \<open>sm_apply\<close>.
  \<^item> \<open>Log_Store\<close> (\<open>log_storage.rs\<close>): the Raft log, its marks, and the isolation of shards in the shared tree.
  \<^item> \<open>Snapshot_File\<close>, \<open>Snapshot_Store\<close>, \<open>Snapshot_Transfer\<close> (\<open>snapshot.rs\<close>, \<open>state_machine.rs\<close>): the file format, the
    directory with its retention, and building, installing and restoring snapshots.
  \<^item> \<open>Leader_Retry\<close> (\<open>es-core/redirect.rs\<close>, \<open>es-server/rpc_support.rs\<close>, \<open>es-client/aggregate.rs\<close>): leader hints and
    the client's retry loop.
  \<^item> \<open>Cluster\<close>, \<open>Replication\<close>, \<open>Sample_Cluster\<close> (\<open>es-server\<close>: \<open>aggregate_service.rs\<close>, \<open>rpc_support.rs\<close>): calls that run on a node of a
    cluster that others change meanwhile, the catalogs and fences here or forwarded to the leader, the locales
    \<open>replicated\<close> of what Raft promises and \<open>lagging\<close> of how far a local read can be behind (a node that believes to
    lead answers from its own store), and a cluster over \<open>sm_apply\<close> that meets them.
    \<open>Service_Types\<close>, \<open>Service_Guarantees\<close>, \<open>Sample_World\<close>: the handlers for types, appends and state, and what their
    answers mean for the shards. \<open>Service_Loops\<close>, \<open>State_Paging\<close>: loops over grouped requests, and the listing of states
    page by page from all shards while other clients write.
  \<^item> \<open>Fuse_Paths\<close>, \<open>Fuse_Handles\<close>, \<open>Fuse_Codec\<close> (\<open>eventfs-fuse\<close>: \<open>path.rs\<close>, \<open>handle.rs\<close>, \<open>codec.rs\<close>): the paths of the file
    system, the buffers of open files with their commit states, envelopes and delivery tokens.
    \<open>Fuse_Inodes\<close>, \<open>Fuse_Directory\<close>, \<open>Fuse_Files\<close> (\<open>fuse.rs\<close>, \<open>backend.rs\<close>): inode numbers and their references, reading a
    directory page by page, opening, writing, committing and releasing files.

  \<^bold>\<open>Parameters.\<close> Code outside the repository is an argument of the definitions that use it, with the laws a
  property needs as a named hypothesis, shown satisfiable by an instance. \<open>kv\<close> is the surrealkv tree
  (\<open>kv_laws\<close>: get, range and an atomic commit agree with a finite map; any call may fail); \<open>codec\<close> is bincode
  (\<open>codec_laws\<close>: decoding inverts encoding); \<open>xxh3\<close> is any hash; \<open>zip\<close> and \<open>meta_codec\<close> are the compressors and the
  JSON encoder of the snapshot meta data; \<open>alloc\<close> says which buffer sizes can be allocated; \<open>fs\<close> says which file
  operations the system refuses; \<open>net\<close> is what the nodes answer to a client; \<open>cluster\<close> is
  openraft, the network, the clock and the message encoding as a node sees them (\<open>replicated\<close>, \<open>lagging\<close>); \<open>listing_backend\<close> and \<open>file_backend\<close> are what the
  store answers to the file system; \<open>json\<close> is the JSON library.

  \<^bold>\<open>Bounds.\<close> Integers wrap, saturate or are checked as in the source; lengths are \<open>nat\<close> where the source uses
  \<open>usize\<close>. No definition uses fuel: loops are structural recursions or have a termination proof.

  \<^bold>\<open>Not modelled.\<close> Concurrency inside a node (every handler runs under one lock or inside the single apply
  loop), openraft itself, gRPC transport, TLS, generated protobuf code, process start-up, the
  command line tool, the kernel side of the file system, a partly written file that a failed copy leaves behind.
  Of the service: following the events of a type and the calls of consumer groups; of the file system: polling, the
  background readers and the lookup of names. An open directory is a \<open>DirectoryState\<close> of its own rather than a variant
  of \<open>OpenHandle\<close>. Messages of errors are datatypes of reasons
  or short texts rather than the formatted Chinese strings.
\<close>

end
